(* ===== verification/Prelude.thy ===== *)
theory Prelude
  imports Main "HOL-Library.Word"
begin

text \<open>
  Shared vocabulary of the development: the machine word, the ways a kernel routine can
  stop, the error monad with explicit state in which every routine is written, a weakest
  precondition calculus for it, and generic list lemmas.

  A routine is a function from the kernel state to either a reason why control never comes
  back to its caller (\<open>Inl\<close>) or its result with the new state (\<open>Inr\<close>).
\<close>

type_synonym U32 = "32 word"

datatype stop =
    PANIC    \<comment> \<open>the ROM routine \<open>PANIC()\<close>, which does not return\<close>
  | HALT     \<comment> \<open>the ROM routine \<open>HALT()\<close>, which does not return\<close>
  | Fault    \<comment> \<open>a dereference of an address that holds no object of the expected kind\<close>
  | Diverge  \<comment> \<open>a loop whose iteration bound is exhausted: it does not terminate\<close>
  | Preempted \<comment> \<open>the thread whose code is followed has lost the processor\<close>

type_synonym ('s, 'a) mon = "'s \<Rightarrow> stop + 'a \<times> 's"

definition kreturn :: "'a \<Rightarrow> ('s, 'a) mon" where
  "kreturn x = (\<lambda>s. Inr (x, s))"

definition kbind :: "('s, 'a) mon \<Rightarrow> ('a \<Rightarrow> ('s, 'b) mon) \<Rightarrow> ('s, 'b) mon" where
  "kbind m f = (\<lambda>s. case m s of Inl e \<Rightarrow> Inl e | Inr (x, s') \<Rightarrow> f x s')"

definition kthen :: "('s, 'a) mon \<Rightarrow> ('s, 'b) mon \<Rightarrow> ('s, 'b) mon" where
  "kthen m n = kbind m (\<lambda>_. n)"

definition kstop :: "stop \<Rightarrow> ('s, 'a) mon" where
  "kstop e = (\<lambda>s. Inl e)"

definition kget :: "('s \<Rightarrow> 'a) \<Rightarrow> ('s, 'a) mon" where
  "kget f = (\<lambda>s. Inr (f s, s))"

definition kmodify :: "('s \<Rightarrow> 's) \<Rightarrow> ('s, unit) mon" where
  "kmodify f = (\<lambda>s. Inr ((), f s))"

text \<open>A bounded \<open>for\<close> loop whose body has no early exit.\<close>

fun kfor :: "'a list \<Rightarrow> ('a \<Rightarrow> ('s, unit) mon) \<Rightarrow> ('s, unit) mon" where
  "kfor [] f = kreturn ()"
| "kfor (x # xs) f = kthen (f x) (kfor xs f)"

text \<open>
  \<open>wp m Q E s\<close>: run from \<open>s\<close>, the routine either returns in a state where \<open>Q\<close> holds of its
  result, or stops for a reason \<open>E\<close> allows. Total correctness is \<open>E = no_stop\<close>.
\<close>

definition wp :: "('s, 'a) mon \<Rightarrow> ('a \<Rightarrow> 's \<Rightarrow> bool) \<Rightarrow> (stop \<Rightarrow> bool) \<Rightarrow> 's \<Rightarrow> bool" where
  "wp m Q E s = (case m s of Inl e \<Rightarrow> E e | Inr (x, s') \<Rightarrow> Q x s')"

abbreviation no_stop :: "stop \<Rightarrow> bool" where
  "no_stop \<equiv> (\<lambda>_. False)"

abbreviation may_panic :: "stop \<Rightarrow> bool" where
  "may_panic \<equiv> (\<lambda>e. e = PANIC)"

named_theorems wp_rules "routines of the components as weakest-precondition rules"
named_theorems kdefs "definitions of constants and straight-line helpers"

lemma wp_kreturn [simp]: "wp (kreturn x) Q E = Q x"
  by (simp add: wp_def kreturn_def fun_eq_iff)

lemma wp_kbind [simp]: "wp (kbind m f) Q E = wp m (\<lambda>x. wp (f x) Q E) E"
  by (simp add: wp_def kbind_def fun_eq_iff split: sum.split prod.split)

lemma wp_kthen [simp]: "wp (kthen m n) Q E = wp m (\<lambda>_. wp n Q E) E"
  by (simp add: kthen_def)

lemma wp_kstop [simp]: "wp (kstop e) Q E s = E e"
  by (simp add: wp_def kstop_def)

lemma wp_kget [simp]: "wp (kget f) Q E s = Q (f s) s"
  by (simp add: wp_def kget_def)

lemma wp_kmodify [simp]: "wp (kmodify f) Q E s = Q () (f s)"
  by (simp add: wp_def kmodify_def)

lemma wp_if [simp]:
  "wp (if b then m else n) Q E s = (if b then wp m Q E s else wp n Q E s)"
  by simp

lemma wp_case_option [simp]:
  "wp (case x of None \<Rightarrow> m | Some y \<Rightarrow> f y) Q E s
   = (case x of None \<Rightarrow> wp m Q E s | Some y \<Rightarrow> wp (f y) Q E s)"
  by (cases x) simp_all

lemma wp_mono:
  assumes "wp m Q E s" and "\<And>x s'. Q x s' \<Longrightarrow> Q' x s'" and "\<And>e. E e \<Longrightarrow> E' e"
  shows "wp m Q' E' s"
  using assms by (auto simp: wp_def split: sum.splits prod.splits)

lemma wp_total: "wp m Q no_stop s \<longleftrightarrow> (\<exists>x s'. m s = Inr (x, s') \<and> Q x s')"
  by (auto simp: wp_def split: sum.splits prod.splits)

lemma wp_returns: "wp m Q E s \<Longrightarrow> m s = Inr (x, s') \<Longrightarrow> Q x s'"
  by (simp add: wp_def)

lemma wp_stops: "wp m Q E s \<Longrightarrow> m s = Inl e \<Longrightarrow> E e"
  by (simp add: wp_def)

lemma wp_eqI: "m s = Inr (x, s') \<Longrightarrow> Q x s' \<Longrightarrow> wp m Q E s"
  by (simp add: wp_def)

lemma wp_run: "m s = Inr (x, s') \<Longrightarrow> wp m Q E s = Q x s'"
  by (simp add: wp_def)

lemma wp_outcome:
  assumes "wp m (\<lambda>r s'. \<exists>x y. G x y \<and> R x y r s') (\<lambda>e. \<exists>x y. G x y \<and> N x y e) s"
  shows "\<exists>x y. G x y \<and> (case m s of Inr (r, s') \<Rightarrow> R x y r s' | Inl e \<Rightarrow> N x y e)"
proof (cases "m s")
  case (Inl e)
  with assms show ?thesis by (simp add: wp_def)
next
  case (Inr z)
  then obtain r s' where "m s = Inr (r, s')" by (cases z) simp
  with assms show ?thesis by (simp add: wp_def)
qed

lemma kbind_Inr [simp]: "m s = Inr (x, s') \<Longrightarrow> kbind m f s = f x s'"
  by (simp add: kbind_def)

lemma kbind_Inl [simp]: "m s = Inl e \<Longrightarrow> kbind m f s = Inl e"
  by (simp add: kbind_def)

lemma kthen_Inr [simp]: "m s = Inr (x, s') \<Longrightarrow> kthen m n s = n s'"
  by (simp add: kthen_def)

lemma kthen_Inl [simp]: "m s = Inl e \<Longrightarrow> kthen m n s = Inl e"
  by (simp add: kthen_def)

lemma kthen_kreturn [simp]: "kthen (kreturn x) m = m"
  by (rule ext) (simp add: kthen_def kbind_def kreturn_def)

lemma kbind_assoc: "kbind (kbind m f) g = kbind m (\<lambda>x. kbind (f x) g)"
  by (rule ext) (simp add: kbind_def split: sum.split prod.split)

lemma mon_apply [simp]:
  "kreturn x s = Inr (x, s)"
  "kstop e s = Inl e"
  "kget f s = Inr (f s, s)"
  "kmodify g s = Inr ((), g s)"
  by (simp_all add: kreturn_def kstop_def kget_def kmodify_def)

end
