(* ===== verification/Kernel_State.thy ===== *)
theory Kernel_State
  imports Prelude
begin

text \<open>
  The data of the kernel: the constants of \<^verbatim>\<open>include/const.h\<close> and
  \<^verbatim>\<open>include/const11.h\<close>, the structures of \<^verbatim>\<open>include/uMPStypes.h\<close> and
  \<^verbatim>\<open>include/types11.h\<close>, and the global variables of the modules as one record.

  Every pointer is a 32-bit address. The objects of \<open>thread_array\<close> and \<open>msg_array\<close> are
  kept in partial maps from their addresses, so that a dereference of an address that holds
  no such object (\<open>NULL\<close>, \<open>MAGIC_SSI\<close>, a device register) is a \<open>Fault\<close>. The
  embedded \<open>struct list_head\<close> members are named by the object that contains them, which
  is what \<open>container_of\<close> recovers. Words of memory that belong to no kernel object (thread
  stacks, bus and device registers, the request structures sent to the SSI) are in \<open>mem\<close>.
\<close>

section \<open>Constants\<close>

definition NULL :: U32 where [simp]: "NULL = 0"
definition MAXTHREADS :: nat where [simp]: "MAXTHREADS = 20"
definition MAXMESSAGES :: nat where [simp]: "MAXMESSAGES = 20"

definition SEND :: U32 where [simp]: "SEND = 1"
definition RECV :: U32 where [simp]: "RECV = 2"

definition CREATEBROTHER :: U32 where [simp]: "CREATEBROTHER = 1"
definition CREATESON :: U32 where [simp]: "CREATESON = 2"
definition TERMINATE :: U32 where [simp]: "TERMINATE = 3"
definition SPECPRGMGR :: U32 where [simp]: "SPECPRGMGR = 4"
definition SPECTLBMGR :: U32 where [simp]: "SPECTLBMGR = 5"
definition SPECSYSMGR :: U32 where [simp]: "SPECSYSMGR = 6"
definition GETCPUTIME :: U32 where [simp]: "GETCPUTIME = 7"
definition WAITFORCLOCK :: U32 where [simp]: "WAITFORCLOCK = 8"
definition WAITFORIO :: U32 where [simp]: "WAITFORIO = 9"

definition ANYMESSAGE :: U32 where [simp]: "ANYMESSAGE = 0"
definition TRAPCONTINUE :: U32 where [simp]: "TRAPCONTINUE = 1"
definition TRAPTERMINATE :: U32 where [simp]: "TRAPTERMINATE = 0"
definition CREATENOGOOD :: U32 where [simp]: "CREATENOGOOD = - 1"
definition MSGGOOD :: U32 where [simp]: "MSGGOOD = 0"
definition MSGNOGOOD :: U32 where [simp]: "MSGNOGOOD = - 1"

definition MAGIC_SSI :: U32 where [simp]: "MAGIC_SSI = 0xFFFFFFFF"
definition INTERRUPT_MSG :: U32 where [simp]: "INTERRUPT_MSG = 255"
definition PSEUDOCLOCK_MSG :: U32 where [simp]: "PSEUDOCLOCK_MSG = 254"
definition NOREPLY :: U32 where [simp]: "NOREPLY = 0"

definition INT_NEWAREA :: U32 where [simp]: "INT_NEWAREA = 0x2000008c"
definition INT_OLDAREA :: U32 where [simp]: "INT_OLDAREA = 0x20000000"
definition TLB_NEWAREA :: U32 where [simp]: "TLB_NEWAREA = 0x200001a4"
definition TLB_OLDAREA :: U32 where [simp]: "TLB_OLDAREA = 0x20000118"
definition PGMTRAP_NEWAREA :: U32 where [simp]: "PGMTRAP_NEWAREA = 0x200002bc"
definition PGMTRAP_OLDAREA :: U32 where [simp]: "PGMTRAP_OLDAREA = 0x20000230"
definition SYSBK_NEWAREA :: U32 where [simp]: "SYSBK_NEWAREA = 0x200003d4"
definition SYSBK_OLDAREA :: U32 where [simp]: "SYSBK_OLDAREA = 0x20000348"

definition BUS_RAMBASEADDR :: U32 where [simp]: "BUS_RAMBASEADDR = 0x10000000"
definition BUS_INSTALLEDRAM :: U32 where [simp]: "BUS_INSTALLEDRAM = 0x10000004"
definition BUS_TIMESCALE :: U32 where [simp]: "BUS_TIMESCALE = 0x10000024"
definition BUS_INTERVALTIMER :: U32 where [simp]: "BUS_INTERVALTIMER = 0x10000020"
definition PENDING_BITMAP_START :: U32 where [simp]: "PENDING_BITMAP_START = 0x1000003c"
definition DEV_REGS_START :: U32 where [simp]: "DEV_REGS_START = 0x10000050"

definition INT_TIMER :: nat where [simp]: "INT_TIMER = 2"
definition INT_LOWEST :: nat where [simp]: "INT_LOWEST = 3"
definition INT_DISK :: nat where [simp]: "INT_DISK = 3"
definition INT_TAPE :: nat where [simp]: "INT_TAPE = 4"
definition INT_UNUSED :: nat where [simp]: "INT_UNUSED = 5"
definition INT_PRINTER :: nat where [simp]: "INT_PRINTER = 6"
definition INT_TERMINAL :: nat where [simp]: "INT_TERMINAL = 7"

definition DEV_C_ACK :: U32 where [simp]: "DEV_C_ACK = 1"
definition DEV_TRCV_S_CHARRECV :: U32 where [simp]: "DEV_TRCV_S_CHARRECV = 5"
definition DEV_TTRS_S_CHARTRSM :: U32 where [simp]: "DEV_TTRS_S_CHARTRSM = 5"
definition STATUSMASK :: U32 where [simp]: "STATUSMASK = 0x000000FF"

definition FRAME_SIZE :: U32 where [simp]: "FRAME_SIZE = 4096"
definition WORD_SIZE :: U32 where [simp]: "WORD_SIZE = 4"
definition SCHED_TIME_SLICE :: U32 where [simp]: "SCHED_TIME_SLICE = 5000"
definition SCHED_PSEUDO_CLOCK :: U32 where [simp]: "SCHED_PSEUDO_CLOCK = 100000"

definition STATUS_IEc :: U32 where [simp]: "STATUS_IEc = 0x00000001"
definition STATUS_KUc :: U32 where [simp]: "STATUS_KUc = 0x00000002"
definition STATUS_IEp :: U32 where [simp]: "STATUS_IEp = 0x00000004"
definition STATUS_KUp :: U32 where [simp]: "STATUS_KUp = 0x00000008"
definition STATUS_VMc :: U32 where [simp]: "STATUS_VMc = 0x01000000"
definition STATUS_VMp :: U32 where [simp]: "STATUS_VMp = 0x02000000"
definition STATUS_INT_UNMASKED :: U32 where [simp]: "STATUS_INT_UNMASKED = 0x0000ff00"
definition EXC_SYSCALL :: U32 where [simp]: "EXC_SYSCALL = 8"

unbundle bit_operations_syntax

text \<open>\<open>CAUSE_EXCCODE_GET\<close> and \<open>CAUSE_IP_GET\<close> of \<^verbatim>\<open>const.h\<close>.\<close>

definition CAUSE_EXCCODE_GET :: "U32 \<Rightarrow> U32" where
  "CAUSE_EXCCODE_GET cause = drop_bit 2 (cause AND 0x0000007c)"

definition CAUSE_IP_GET :: "U32 \<Rightarrow> nat \<Rightarrow> U32" where
  "CAUSE_IP_GET cause int_no = cause AND push_bit (int_no + 8) 1"

definition MIN32 :: "U32 \<Rightarrow> U32 \<Rightarrow> U32" where
  "MIN32 a b = (if a < b then a else b)"

section \<open>Structures\<close>

text \<open>The processor state \<open>state_t\<close>; \<open>gpr\<close> has 29 entries.\<close>

record state_t =
  entry_hi :: U32
  cause :: U32
  status :: U32
  pc_epc :: U32
  gpr :: "U32 list"
  hi :: U32
  lo :: U32

text \<open>
  Indexing \<open>gpr\<close> as the C program does: the words that follow the 29 entries in the
  structure are \<open>hi\<close> and \<open>lo\<close>, which \<open>reg_HI\<close> and \<open>reg_LO\<close> name
  \<open>gpr[29]\<close> and \<open>gpr[30]\<close>.
\<close>

definition gpr_get :: "state_t \<Rightarrow> nat \<Rightarrow> U32" where
  "gpr_get st i = (if i < 29 then gpr st ! i else if i = 29 then hi st else lo st)"

definition gpr_set :: "nat \<Rightarrow> U32 \<Rightarrow> state_t \<Rightarrow> state_t" where
  "gpr_set i v st =
     (if i < 29 then st\<lparr>gpr := (gpr st)[i := v]\<rparr>
      else if i = 29 then st\<lparr>hi := v\<rparr> else st\<lparr>lo := v\<rparr>)"

definition reg_v0 :: nat where [simp]: "reg_v0 = 1"
definition reg_a0 :: nat where [simp]: "reg_a0 = 3"
definition reg_a1 :: nat where [simp]: "reg_a1 = 4"
definition reg_a2 :: nat where [simp]: "reg_a2 = 5"
definition reg_t9 :: nat where [simp]: "reg_t9 = 24"
definition reg_sp :: nat where [simp]: "reg_sp = 26"

text \<open>
  \<open>tcb_t\<close> and \<open>msg_t\<close> without their \<open>list_head\<close> members, which are in the link
  heap below.
\<close>

record tcb_t =
  t_parent :: U32
  t_state :: state_t
  waiting_for :: U32
  reply :: U32
  sysbp_manager_thread :: U32
  pgmtrap_manager_thread :: U32
  tlbtrap_manager_thread :: U32
  cpu_time :: U32
  cpu_slice :: U32

record msg_t =
  m_sender :: U32
  m_message :: U32

text \<open>
  The addresses of \<open>struct list_head\<close> objects: the sentinels that are global variables,
  and the members of the TCB or message at a given address.
\<close>

datatype list_head =
    Null_list
  | Ready_queue
  | Wait_queue
  | Tcbfree_sentinel
  | Msgfree_sentinel
  | T_next U32
  | T_child U32
  | T_sib U32
  | T_inbox U32
  | M_next U32

record links =
  lnext :: "list_head \<Rightarrow> list_head"
  lprev :: "list_head \<Rightarrow> list_head"

section \<open>The kernel state\<close>

record kstate =
  lst :: links
  tcbs :: "U32 \<rightharpoonup> tcb_t"
  msgs :: "U32 \<rightharpoonup> msg_t"
  mem :: "U32 \<rightharpoonup> U32"
  thread_count :: U32
  soft_block_count :: U32
  current_thread :: U32
  current_thread_tod :: U32
  pseudo_tick :: U32
  start_pseudo_tick :: U32
  SSI_tcb :: U32
  TEST_tcb :: U32
  trap_managers :: "U32 list"
  devStatus_array :: "U32 list"
  devTcb_array :: "U32 list"
  clockTcb_array :: "U32 list"
  interrupt_i :: nat
  areas :: "U32 \<Rightarrow> state_t"
  cpu :: state_t
  todlow :: "nat \<Rightarrow> U32"
  tod_reads :: nat

type_synonym 'a kmon = "(kstate, 'a) mon"

text \<open>
  What the linker decides: the addresses of the elements of \<open>thread_array\<close> and
  \<open>msg_array\<close>, of \<open>interrupt_msg_array\<close>, and of the routines whose address the
  kernel takes.
\<close>

record layout =
  thread_array :: "U32 list"
  msg_array :: "U32 list"
  interrupt_msg_array :: U32
  sysbp_handler_addr :: U32
  pgmtrap_handler_addr :: U32
  tlb_handler_addr :: U32
  int_handler_addr :: U32
  SSI_thread_addr :: U32
  test_addr :: U32

section \<open>Access to memory objects\<close>

definition get_tcb :: "U32 \<Rightarrow> tcb_t kmon" where
  "get_tcb p = (\<lambda>s. case tcbs s p of None \<Rightarrow> Inl Fault | Some t \<Rightarrow> Inr (t, s))"

definition upd_tcb :: "U32 \<Rightarrow> (tcb_t \<Rightarrow> tcb_t) \<Rightarrow> unit kmon" where
  "upd_tcb p f = (\<lambda>s. case tcbs s p of None \<Rightarrow> Inl Fault
                     | Some t \<Rightarrow> Inr ((), s\<lparr>tcbs := (tcbs s)(p \<mapsto> f t)\<rparr>))"

definition get_msg :: "U32 \<Rightarrow> msg_t kmon" where
  "get_msg m = (\<lambda>s. case msgs s m of None \<Rightarrow> Inl Fault | Some t \<Rightarrow> Inr (t, s))"

definition upd_msg :: "U32 \<Rightarrow> (msg_t \<Rightarrow> msg_t) \<Rightarrow> unit kmon" where
  "upd_msg m f = (\<lambda>s. case msgs s m of None \<Rightarrow> Inl Fault
                     | Some t \<Rightarrow> Inr ((), s\<lparr>msgs := (msgs s)(m \<mapsto> f t)\<rparr>))"

definition mem_read :: "U32 \<Rightarrow> U32 kmon" where
  "mem_read a = (\<lambda>s. case mem s a of None \<Rightarrow> Inl Fault | Some v \<Rightarrow> Inr (v, s))"

definition mem_write :: "U32 \<Rightarrow> U32 \<Rightarrow> unit kmon" where
  "mem_write a v = (\<lambda>s. case mem s a of None \<Rightarrow> Inl Fault
                      | Some _ \<Rightarrow> Inr ((), s\<lparr>mem := (mem s)(a \<mapsto> v)\<rparr>))"

text \<open>An array access outside the bounds of the array is a \<open>Fault\<close>.\<close>

definition array_get :: "'a list \<Rightarrow> nat \<Rightarrow> 'a kmon" where
  "array_get xs i = (if i < length xs then kreturn (xs ! i) else kstop Fault)"

text \<open>
  \<open>GET_TODLOW\<close>: the time-of-day register is volatile, so the \<open>n\<close>-th read of it gives
  \<open>todlow n\<close>; the value is converted to microseconds. \<open>SET_IT\<close> loads the interval timer.
\<close>

definition GET_TODLOW :: "U32 kmon" where
  "GET_TODLOW =
     kbind (mem_read BUS_TIMESCALE) (\<lambda>scale.
     kbind (kget (\<lambda>s. todlow s (tod_reads s))) (\<lambda>t.
     kthen (kmodify (\<lambda>s. s\<lparr>tod_reads := Suc (tod_reads s)\<rparr>))
     (if scale = 0 then kstop Fault else kreturn (t div scale))))"

definition SET_IT :: "U32 \<Rightarrow> unit kmon" where
  "SET_IT timer_val =
     kbind (mem_read BUS_TIMESCALE) (\<lambda>scale.
     mem_write BUS_INTERVALTIMER (timer_val * scale))"

section \<open>Lemmas\<close>

lemma wp_get_tcb [simp]:
  "wp (get_tcb p) Q E s = (case tcbs s p of None \<Rightarrow> E Fault | Some t \<Rightarrow> Q t s)"
  by (simp add: wp_def get_tcb_def split: option.split)

lemma wp_upd_tcb [simp]:
  "wp (upd_tcb p f) Q E s =
     (case tcbs s p of None \<Rightarrow> E Fault
      | Some t \<Rightarrow> Q () (s\<lparr>tcbs := (tcbs s)(p \<mapsto> f t)\<rparr>))"
  by (simp add: wp_def upd_tcb_def split: option.split)

lemma wp_get_msg [simp]:
  "wp (get_msg p) Q E s = (case msgs s p of None \<Rightarrow> E Fault | Some t \<Rightarrow> Q t s)"
  by (simp add: wp_def get_msg_def split: option.split)

lemma wp_upd_msg [simp]:
  "wp (upd_msg p f) Q E s =
     (case msgs s p of None \<Rightarrow> E Fault
      | Some t \<Rightarrow> Q () (s\<lparr>msgs := (msgs s)(p \<mapsto> f t)\<rparr>))"
  by (simp add: wp_def upd_msg_def split: option.split)

lemma wp_mem_read [simp]:
  "wp (mem_read a) Q E s = (case mem s a of None \<Rightarrow> E Fault | Some v \<Rightarrow> Q v s)"
  by (simp add: wp_def mem_read_def split: option.split)

lemma wp_mem_write [simp]:
  "wp (mem_write a v) Q E s =
     (case mem s a of None \<Rightarrow> E Fault | Some _ \<Rightarrow> Q () (s\<lparr>mem := (mem s)(a \<mapsto> v)\<rparr>))"
  by (simp add: wp_def mem_write_def split: option.split)

lemma wp_array_get [simp]:
  "wp (array_get xs i) Q E s = (if i < length xs then Q (xs ! i) s else E Fault)"
  by (simp add: wp_def array_get_def)

text \<open>The bus has a clock: the time scale register is mapped and not zero.\<close>

definition bus_ok :: "kstate \<Rightarrow> bool" where
  "bus_ok s \<longleftrightarrow> (case mem s BUS_TIMESCALE of None \<Rightarrow> False | Some v \<Rightarrow> v \<noteq> 0)
               \<and> mem s BUS_INTERVALTIMER \<noteq> None"

definition time_scale :: "kstate \<Rightarrow> U32" where
  "time_scale s = (case mem s BUS_TIMESCALE of None \<Rightarrow> 0 | Some v \<Rightarrow> v)"

definition now :: "kstate \<Rightarrow> nat \<Rightarrow> U32" where
  "now s k = todlow s (tod_reads s + k) div time_scale s"

lemma wp_GET_TODLOW:
  "bus_ok s \<Longrightarrow> wp GET_TODLOW Q E s = Q (now s 0) (s\<lparr>tod_reads := Suc (tod_reads s)\<rparr>)"
  by (auto simp: GET_TODLOW_def bus_ok_def now_def time_scale_def split: option.splits)

lemma wp_SET_IT:
  "bus_ok s \<Longrightarrow> wp (SET_IT v) Q E s
     = Q () (s\<lparr>mem := (mem s)(BUS_INTERVALTIMER \<mapsto> v * time_scale s)\<rparr>)"
  by (auto simp: SET_IT_def bus_ok_def time_scale_def split: option.splits)

text \<open>Updates of different fields, with the links last.\<close>

lemma lst_last:
  "s\<lparr>lst := L, msgs := M\<rparr> = s\<lparr>msgs := M, lst := L\<rparr>"
  "s\<lparr>lst := L, tcbs := T\<rparr> = s\<lparr>tcbs := T, lst := L\<rparr>"
  "s\<lparr>lst := L, mem := X\<rparr> = s\<lparr>mem := X, lst := L\<rparr>"
  "s\<lparr>lst := L, current_thread := c\<rparr> = s\<lparr>current_thread := c, lst := L\<rparr>"
  "s\<lparr>lst := L, soft_block_count := c\<rparr> = s\<lparr>soft_block_count := c, lst := L\<rparr>"
  "s\<lparr>lst := L, thread_count := c\<rparr> = s\<lparr>thread_count := c, lst := L\<rparr>"
  "s\<lparr>lst := L, trap_managers := c'\<rparr> = s\<lparr>trap_managers := c', lst := L\<rparr>"
  by simp_all

lemma get_set_gpr:
  assumes "length (gpr st) = 29" and "i \<le> 30" and "j \<le> 30"
  shows "gpr_get (gpr_set i v st) j = (if i = j then v else gpr_get st j)"
  using assms by (auto simp: gpr_get_def gpr_set_def)

end
