(* ===== verification/Listx.thy ===== *)
theory Listx
  imports Kernel_State
begin

text \<open>
  The intrusive circular doubly linked lists of \<^verbatim>\<open>include/listx.h\<close>. Each operation is
  the sequence of pointer writes of the C code; a read or write through a pointer that is no
  \<open>list_head\<close> of a live object is a \<open>Fault\<close>.

  The abstraction is a family of disjoint rings: \<open>rings L H Q\<close> says that every sentinel
  \<open>h\<close> of \<open>H\<close> heads a well-formed ring whose members are the objects \<open>Q h\<close>, in
  order, and that no link belongs to two rings. The lemmas show that each operation acts on
  one sequence of the family and leaves the others alone.
\<close>

section \<open>The operations\<close>

definition lvalid :: "kstate \<Rightarrow> list_head \<Rightarrow> bool" where
  "lvalid s x = (case x of
       Null_list \<Rightarrow> False
     | T_next p \<Rightarrow> tcbs s p \<noteq> None
     | T_child p \<Rightarrow> tcbs s p \<noteq> None
     | T_sib p \<Rightarrow> tcbs s p \<noteq> None
     | T_inbox p \<Rightarrow> tcbs s p \<noteq> None
     | M_next m \<Rightarrow> msgs s m \<noteq> None
     | _ \<Rightarrow> True)"

definition set_next :: "list_head \<Rightarrow> list_head \<Rightarrow> links \<Rightarrow> links" where
  "set_next x y L = L\<lparr>lnext := (lnext L)(x := y)\<rparr>"

definition set_prev :: "list_head \<Rightarrow> list_head \<Rightarrow> links \<Rightarrow> links" where
  "set_prev x y L = L\<lparr>lprev := (lprev L)(x := y)\<rparr>"

definition read_next :: "list_head \<Rightarrow> list_head kmon" where
  "read_next x = (\<lambda>s. if lvalid s x then Inr (lnext (lst s) x, s) else Inl Fault)"

definition read_prev :: "list_head \<Rightarrow> list_head kmon" where
  "read_prev x = (\<lambda>s. if lvalid s x then Inr (lprev (lst s) x, s) else Inl Fault)"

definition write_next :: "list_head \<Rightarrow> list_head \<Rightarrow> unit kmon" where
  "write_next x y = (\<lambda>s. if lvalid s x then Inr ((), s\<lparr>lst := set_next x y (lst s)\<rparr>)
                         else Inl Fault)"

definition write_prev :: "list_head \<Rightarrow> list_head \<Rightarrow> unit kmon" where
  "write_prev x y = (\<lambda>s. if lvalid s x then Inr ((), s\<lparr>lst := set_prev x y (lst s)\<rparr>)
                         else Inl Fault)"

definition INIT_LIST_HEAD :: "list_head \<Rightarrow> unit kmon" where
  "INIT_LIST_HEAD l = kthen (write_next l l) (write_prev l l)"

text \<open>\<open>__list_add\<close> and \<open>__list_del\<close> of the source.\<close>

definition list_add_between :: "list_head \<Rightarrow> list_head \<Rightarrow> list_head \<Rightarrow> unit kmon" where
  "list_add_between new prev nxt =
     kthen (write_prev nxt new)
     (kthen (write_next new nxt)
     (kthen (write_prev new prev)
     (write_next prev new)))"

definition list_add :: "list_head \<Rightarrow> list_head \<Rightarrow> unit kmon" where
  "list_add new head = kbind (read_next head) (\<lambda>n. list_add_between new head n)"

definition list_add_tail :: "list_head \<Rightarrow> list_head \<Rightarrow> unit kmon" where
  "list_add_tail new head = kbind (read_prev head) (\<lambda>p. list_add_between new p head)"

definition list_del_between :: "list_head \<Rightarrow> list_head \<Rightarrow> unit kmon" where
  "list_del_between prev nxt = kthen (write_prev nxt prev) (write_next prev nxt)"

definition list_del :: "list_head \<Rightarrow> unit kmon" where
  "list_del entry =
     kbind (read_prev entry) (\<lambda>p.
     kbind (read_next entry) (\<lambda>n.
     list_del_between p n))"

definition list_is_last :: "list_head \<Rightarrow> list_head \<Rightarrow> bool kmon" where
  "list_is_last l head = kbind (read_next l) (\<lambda>n. kreturn (n = head))"

definition list_empty :: "list_head \<Rightarrow> bool kmon" where
  "list_empty head = kbind (read_next head) (\<lambda>n. kreturn (n = head))"

definition list_next :: "list_head \<Rightarrow> list_head kmon" where
  "list_next current =
     kbind (list_empty current) (\<lambda>e. if e then kreturn Null_list else read_next current)"

definition list_prev :: "list_head \<Rightarrow> list_head kmon" where
  "list_prev current =
     kbind (list_empty current) (\<lambda>e. if e then kreturn Null_list else read_prev current)"

text \<open>
  \<open>container_of\<close> for the three linkers the kernel iterates over. A link that is not of
  the expected kind gives an address that is no object.
\<close>

datatype linker = By_t_next | By_t_sib | By_m_next

definition link_of :: "linker \<Rightarrow> U32 \<Rightarrow> list_head" where
  "link_of k p = (case k of By_t_next \<Rightarrow> T_next p | By_t_sib \<Rightarrow> T_sib p | By_m_next \<Rightarrow> M_next p)"

definition container_of :: "linker \<Rightarrow> list_head \<Rightarrow> U32 kmon" where
  "container_of k x = (case (k, x) of
       (By_t_next, T_next p) \<Rightarrow> kreturn p
     | (By_t_sib, T_sib p) \<Rightarrow> kreturn p
     | (By_m_next, M_next p) \<Rightarrow> kreturn p
     | _ \<Rightarrow> kstop Fault)"

text \<open>
  \<open>list_for_each_entry\<close> with a body that leaves the loop as soon as \<open>test\<close> holds of
  the current entry: the entry found, or none when the iteration comes back to the sentinel.
  \<open>pos\<close> is the link the iteration has reached.
\<close>

fun for_each_entry ::
  "nat \<Rightarrow> linker \<Rightarrow> list_head \<Rightarrow> (U32 \<Rightarrow> bool kmon) \<Rightarrow> list_head \<Rightarrow> U32 option kmon" where
  "for_each_entry 0 k head test pos = kstop Diverge"
| "for_each_entry (Suc n) k head test pos =
     (if pos = head then kreturn None
      else kbind (container_of k pos) (\<lambda>p.
           kbind (test p) (\<lambda>b.
           if b then kreturn (Some p)
           else kbind (read_next pos) (\<lambda>nxt. for_each_entry n k head test nxt))))"

text \<open>
  Iteration bound of the list walks. A ring without its sentinel has at most
  \<open>MAXTHREADS\<close> (or \<open>MAXMESSAGES\<close>) members, so a walk that is still running after that
  many entries has met a link twice and never ends.
\<close>

definition LOOP_BOUND :: nat where
  "LOOP_BOUND = Suc (MAXTHREADS + MAXMESSAGES)"

section \<open>Effect of the operations on the link heap\<close>

definition add_between :: "list_head \<Rightarrow> list_head \<Rightarrow> list_head \<Rightarrow> links \<Rightarrow> links" where
  "add_between new prev nxt L =
     set_next prev new (set_prev new prev (set_next new nxt (set_prev nxt new L)))"

definition del_between :: "list_head \<Rightarrow> list_head \<Rightarrow> links \<Rightarrow> links" where
  "del_between prev nxt L = set_next prev nxt (set_prev nxt prev L)"

definition self_loop :: "list_head \<Rightarrow> links \<Rightarrow> links" where
  "self_loop l L = set_prev l l (set_next l l L)"

lemma link_fields [simp]:
  "lnext (set_next x y L) = (lnext L)(x := y)" "lprev (set_next x y L) = lprev L"
  "lprev (set_prev x y L) = (lprev L)(x := y)" "lnext (set_prev x y L) = lnext L"
  by (simp_all add: set_next_def set_prev_def)

lemma lvalid_cong:
  assumes "\<And>p. tcbs s' p = None \<longleftrightarrow> tcbs s p = None" and "\<And>p. msgs s' p = None \<longleftrightarrow> msgs s p = None"
  shows "lvalid s' = lvalid s"
  using assms by (auto simp: lvalid_def fun_eq_iff split: list_head.split)

lemma lvalid_update [simp]:
  "lvalid (s\<lparr>lst := L\<rparr>) = lvalid s"
  "lvalid (s\<lparr>mem := M\<rparr>) = lvalid s"
  "lvalid (s\<lparr>thread_count := c\<rparr>) = lvalid s"
  "lvalid (s\<lparr>soft_block_count := c\<rparr>) = lvalid s"
  "lvalid (s\<lparr>current_thread := c\<rparr>) = lvalid s"
  "lvalid (s\<lparr>tod_reads := n\<rparr>) = lvalid s"
  "tcbs s p \<noteq> None \<Longrightarrow> lvalid (s\<lparr>tcbs := (tcbs s)(p \<mapsto> t)\<rparr>) = lvalid s"
  "msgs s m \<noteq> None \<Longrightarrow> lvalid (s\<lparr>msgs := (msgs s)(m \<mapsto> u)\<rparr>) = lvalid s"
  by (rule lvalid_cong; auto)+

lemma lvalid_simps [simp]:
  "\<not> lvalid s Null_list" "lvalid s Ready_queue" "lvalid s Wait_queue"
  "lvalid s Tcbfree_sentinel" "lvalid s Msgfree_sentinel"
  "lvalid s (T_next p) = (tcbs s p \<noteq> None)" "lvalid s (T_child p) = (tcbs s p \<noteq> None)"
  "lvalid s (T_sib p) = (tcbs s p \<noteq> None)" "lvalid s (T_inbox p) = (tcbs s p \<noteq> None)"
  "lvalid s (M_next m) = (msgs s m \<noteq> None)"
  by (simp_all add: lvalid_def)

lemma wp_link_access [simp]:
  "wp (read_next x) Q E s = (if lvalid s x then Q (lnext (lst s) x) s else E Fault)"
  "wp (read_prev x) Q E s = (if lvalid s x then Q (lprev (lst s) x) s else E Fault)"
  "wp (write_next x y) R E s = (if lvalid s x then R () (s\<lparr>lst := set_next x y (lst s)\<rparr>) else E Fault)"
  "wp (write_prev x y) R E s = (if lvalid s x then R () (s\<lparr>lst := set_prev x y (lst s)\<rparr>) else E Fault)"
  by (simp_all add: wp_def read_next_def read_prev_def write_next_def write_prev_def)

lemma wp_list_empty [simp]:
  "wp (list_empty h) Q E s = (if lvalid s h then Q (lnext (lst s) h = h) s else E Fault)"
  by (simp add: list_empty_def)

lemma wp_INIT_LIST_HEAD [simp]:
  "wp (INIT_LIST_HEAD l) Q E s =
     (if lvalid s l then Q () (s\<lparr>lst := self_loop l (lst s)\<rparr>) else E Fault)"
  by (simp add: INIT_LIST_HEAD_def self_loop_def)

lemma wp_list_add_between:
  "lvalid s new \<Longrightarrow> lvalid s prev \<Longrightarrow> lvalid s nxt \<Longrightarrow>
   wp (list_add_between new prev nxt) Q E s
   = Q () (s\<lparr>lst := add_between new prev nxt (lst s)\<rparr>)"
  by (simp add: list_add_between_def add_between_def)

lemma wp_list_del:
  "lvalid s x \<Longrightarrow> lvalid s (lprev (lst s) x) \<Longrightarrow> lvalid s (lnext (lst s) x) \<Longrightarrow>
   wp (list_del x) Q E s
   = Q () (s\<lparr>lst := del_between (lprev (lst s) x) (lnext (lst s) x) (lst s)\<rparr>)"
  by (simp add: list_del_def list_del_between_def del_between_def)

lemma container_of_link_of [simp]: "container_of k (link_of k p) = kreturn p"
  by (simp add: container_of_def link_of_def split: linker.split)

lemma link_of_inject [simp]: "link_of k p = link_of k q \<longleftrightarrow> p = q"
  by (simp add: link_of_def split: linker.split)

section \<open>Rings\<close>

text \<open>
  \<open>linked L a xs b\<close>: following \<open>next\<close> from \<open>a\<close> visits \<open>xs\<close> and arrives at
  \<open>b\<close>, and every \<open>prev\<close> on the way points back.
\<close>

fun linked :: "links \<Rightarrow> list_head \<Rightarrow> list_head list \<Rightarrow> list_head \<Rightarrow> bool" where
  "linked L a [] b \<longleftrightarrow> lnext L a = b \<and> lprev L b = a"
| "linked L a (x # xs) b \<longleftrightarrow> lnext L a = x \<and> lprev L x = a \<and> linked L x xs b"

definition ring :: "links \<Rightarrow> list_head \<Rightarrow> list_head list \<Rightarrow> bool" where
  "ring L h xs \<longleftrightarrow> distinct (h # xs) \<and> linked L h xs h"

lemma linked_append [simp]:
  "linked L a (xs @ x # ys) b \<longleftrightarrow> linked L a xs x \<and> linked L x ys b"
  by (induction xs arbitrary: a) auto

lemma linked_cong:
  assumes "\<And>y. y \<in> set (a # xs) \<Longrightarrow> lnext L' y = lnext L y"
    and "\<And>y. y \<in> set (xs @ [b]) \<Longrightarrow> lprev L' y = lprev L y"
  shows "linked L' a xs b = linked L a xs b"
  using assms by (induction xs arbitrary: a) auto

lemma ring_next_empty: "ring L h xs \<Longrightarrow> (lnext L h = h) \<longleftrightarrow> xs = []"
  by (cases xs) (auto simp: ring_def)

lemma ring_next: "ring L h (x # xs) \<Longrightarrow> lnext L h = x"
  by (simp add: ring_def)

lemma ring_prev_in: "ring L h xs \<Longrightarrow> lprev L h \<in> set (h # xs)"
  by (cases xs rule: rev_cases) (auto simp: ring_def)

lemma ring_neighbours_in:
  assumes "ring L h (xs @ x # ys)"
  shows "lprev L x \<in> set (h # xs) \<and> lnext L x \<in> set (ys @ [h])"
proof -
  have "linked L h xs x" "linked L x ys h" using assms by (simp_all add: ring_def)
  then show ?thesis
    by (cases xs rule: rev_cases; cases ys) auto
qed

lemma ring_add_tail:
  assumes r: "ring L h xs" and new: "new \<notin> set (h # xs)"
  shows "ring (add_between new (lprev L h) h L) h (xs @ [new])"
proof (cases xs rule: rev_cases)
  case Nil
  with r new show ?thesis by (auto simp: ring_def add_between_def)
next
  case (snoc zs z)
  with r have z: "linked L h zs z" "lprev L h = z" "distinct (h # zs @ [z])"
    by (auto simp: ring_def)
  have "linked (add_between new z h L) h zs z = linked L h zs z"
    using z(3) new snoc by (intro linked_cong) (auto simp: add_between_def)
  with z new snoc show ?thesis
    by (auto simp: ring_def add_between_def)
qed

lemma ring_add_head:
  assumes r: "ring L h xs" and new: "new \<notin> set (h # xs)"
  shows "ring (add_between new h (lnext L h) L) h (new # xs)"
proof (cases xs)
  case Nil
  with r new show ?thesis by (auto simp: ring_def add_between_def)
next
  case (Cons z zs)
  with r have z: "linked L z zs h" "lnext L h = z" "distinct (h # z # zs)"
    by (auto simp: ring_def)
  have "linked (add_between new h z L) z zs h = linked L z zs h"
    using z(3) new Cons by (intro linked_cong) (auto simp: add_between_def)
  with z new Cons show ?thesis
    by (auto simp: ring_def add_between_def)
qed

lemma ring_del:
  assumes r: "ring L h (xs @ x # ys)"
  shows "ring (del_between (lprev L x) (lnext L x) L) h (xs @ ys)"
proof -
  from r have l: "linked L h xs x" "linked L x ys h" and d: "distinct (h # xs @ x # ys)"
    by (auto simp: ring_def)
  define p where "p = lprev L x"
  define n where "n = lnext L x"
  define L' where "L' = del_between p n L"
  have pre: "linked L' h xs n" if "n \<notin> set xs" "ys = [] \<Longrightarrow> n = h"
  proof (cases xs rule: rev_cases)
    case Nil
    with l show ?thesis by (simp add: L'_def del_between_def p_def)
  next
    case (snoc zs z)
    with l d have z: "linked L h zs z" "p = z" by (auto simp: p_def)
    have "linked L' h zs z = linked L h zs z"
      using z d snoc that by (intro linked_cong) (auto simp: L'_def del_between_def)
    with z snoc show ?thesis by (simp add: L'_def del_between_def)
  qed
  show ?thesis
  proof (cases ys)
    case Nil
    with l have n: "n = h" by (simp add: n_def)
    with d Nil pre have "linked L' h xs h" by auto
    with d Nil show ?thesis by (simp add: ring_def L'_def p_def n_def)
  next
    case (Cons y zs)
    with l have n: "n = y" and t: "linked L y zs h" by (auto simp: n_def)
    have ph: "p \<in> set (h # xs)" using ring_neighbours_in[OF r] by (simp add: p_def)
    have "linked L' y zs h = linked L y zs h"
      using d Cons n ph by (intro linked_cong) (auto simp: L'_def del_between_def)
    moreover have "linked L' h xs y" using pre n d Cons by auto
    ultimately show ?thesis using d Cons t by (simp add: ring_def L'_def p_def n_def)
  qed
qed

lemma ring_frame:
  assumes "ring L g zs"
    and "\<And>y. y \<in> set (g # zs) \<Longrightarrow> lnext L' y = lnext L y \<and> lprev L' y = lprev L y"
  shows "ring L' g zs"
proof -
  have "linked L' g zs g = linked L g zs g"
    using assms(2) by (intro linked_cong) auto
  with assms(1) show ?thesis by (simp add: ring_def)
qed

section \<open>Families of rings\<close>

definition sentinel :: "list_head \<Rightarrow> bool" where
  "sentinel h = (case h of
       Ready_queue \<Rightarrow> True | Wait_queue \<Rightarrow> True | Tcbfree_sentinel \<Rightarrow> True
     | Msgfree_sentinel \<Rightarrow> True | T_child _ \<Rightarrow> True | T_inbox _ \<Rightarrow> True | _ \<Rightarrow> False)"

definition linker_of :: "list_head \<Rightarrow> linker" where
  "linker_of h = (case h of
       Msgfree_sentinel \<Rightarrow> By_m_next | T_inbox _ \<Rightarrow> By_m_next
     | T_child _ \<Rightarrow> By_t_sib | _ \<Rightarrow> By_t_next)"

definition members :: "list_head \<Rightarrow> (list_head \<Rightarrow> U32 list) \<Rightarrow> list_head list" where
  "members h Q = map (link_of (linker_of h)) (Q h)"

definition rings :: "links \<Rightarrow> list_head set \<Rightarrow> (list_head \<Rightarrow> U32 list) \<Rightarrow> bool" where
  "rings L H Q \<longleftrightarrow>
     (\<forall>h\<in>H. sentinel h \<and> ring L h (members h Q)) \<and>
     (\<forall>h\<in>H. \<forall>g\<in>H. h \<noteq> g \<and> linker_of h = linker_of g \<longrightarrow> set (Q h) \<inter> set (Q g) = {})"

text \<open>The object \<open>p\<close> is on no list that is linked through \<open>k\<close>.\<close>

definition unlinked :: "list_head set \<Rightarrow> (list_head \<Rightarrow> U32 list) \<Rightarrow> linker \<Rightarrow> U32 \<Rightarrow> bool" where
  "unlinked H Q k p \<longleftrightarrow> (\<forall>g\<in>H. linker_of g = k \<longrightarrow> p \<notin> set (Q g))"

text \<open>
  The object pools: at most \<open>MAXTHREADS\<close> TCBs and \<open>MAXMESSAGES\<close> messages, none of
  them at the address \<open>NULL\<close>.
\<close>

definition pools_ok :: "kstate \<Rightarrow> bool" where
  "pools_ok s \<longleftrightarrow>
     finite {p. lvalid s (T_next p)} \<and> card {p. lvalid s (T_next p)} \<le> MAXTHREADS \<and>
     finite {m. lvalid s (M_next m)} \<and> card {m. lvalid s (M_next m)} \<le> MAXMESSAGES \<and>
     \<not> lvalid s (T_next NULL) \<and> \<not> lvalid s (M_next NULL)"

text \<open>The family together with the validity of every link in it.\<close>

definition rep :: "kstate \<Rightarrow> list_head set \<Rightarrow> (list_head \<Rightarrow> U32 list) \<Rightarrow> bool" where
  "rep s H Q \<longleftrightarrow> rings (lst s) H Q \<and> pools_ok s
     \<and> (\<forall>h\<in>H. lvalid s h \<and> (\<forall>x\<in>set (members h Q). lvalid s x))"

definition same_outside :: "list_head set \<Rightarrow> links \<Rightarrow> links \<Rightarrow> bool" where
  "same_outside F L L' \<longleftrightarrow>
     (\<forall>x. x \<notin> F \<longrightarrow> lnext L' x = lnext L x \<and> lprev L' x = lprev L x)"

lemma sentinel_simps [simp]:
  "sentinel Ready_queue" "sentinel Wait_queue" "sentinel Tcbfree_sentinel"
  "sentinel Msgfree_sentinel" "sentinel (T_child p)" "sentinel (T_inbox p)"
  "\<not> sentinel (link_of k p)" "\<not> sentinel (T_next p)" "\<not> sentinel (T_sib p)" "\<not> sentinel (M_next p)"
  by (simp_all add: sentinel_def link_of_def split: linker.split)

lemma linker_of_simps [simp]:
  "linker_of Ready_queue = By_t_next" "linker_of Wait_queue = By_t_next"
  "linker_of Tcbfree_sentinel = By_t_next" "linker_of Msgfree_sentinel = By_m_next"
  "linker_of (T_child p) = By_t_sib" "linker_of (T_inbox p) = By_m_next"
  by (simp_all add: linker_of_def)

lemma link_of_simps [simp]:
  "link_of By_t_next p = T_next p" "link_of By_t_sib p = T_sib p" "link_of By_m_next p = M_next p"
  by (simp_all add: link_of_def)

lemma link_of_eq_iff: "link_of k p = link_of k' q \<longleftrightarrow> k = k' \<and> p = q"
  by (cases k; cases k') simp_all

lemma in_members [simp]:
  "link_of k p \<in> set (members h Q) \<longleftrightarrow> linker_of h = k \<and> p \<in> set (Q h)"
  by (auto simp: members_def link_of_eq_iff)

lemma members_no_sentinel: "x \<in> set (members h Q) \<Longrightarrow> \<not> sentinel x"
  by (auto simp: members_def)

lemma members_update [simp]:
  "members g (Q(h := xs)) = (if g = h then map (link_of (linker_of h)) xs else members g Q)"
  by (simp add: members_def)

lemma sentinel_not_link: "sentinel h \<Longrightarrow> link_of k p \<noteq> h \<and> h \<noteq> link_of k p"
  by auto

lemma rings_sentinel: "rings L H Q \<Longrightarrow> h \<in> H \<Longrightarrow> sentinel h"
  by (simp add: rings_def)

lemma rings_ring: "rings L H Q \<Longrightarrow> h \<in> H \<Longrightarrow> ring L h (map (link_of (linker_of h)) (Q h))"
  by (simp add: rings_def members_def)

lemma rings_sep:
  "rings L H Q \<Longrightarrow> g \<in> H \<Longrightarrow> h \<in> H \<Longrightarrow> g \<noteq> h \<Longrightarrow> linker_of g = linker_of h \<Longrightarrow>
   p \<in> set (Q g) \<Longrightarrow> p \<notin> set (Q h)"
  unfolding rings_def by blast

lemma rings_disjoint:
  assumes "rings L H Q" and "g \<in> H" and "h \<in> H" and "g \<noteq> h"
  shows "set (g # members g Q) \<inter> set (h # members h Q) = {}"
proof -
  have "sentinel g" "sentinel h" using assms by (auto simp: rings_def)
  moreover have "x \<notin> set (members h Q)" if "x \<in> set (members g Q)" for x
    using that assms rings_sep[OF assms(1-4)] by (auto simp: members_def link_of_eq_iff)
  ultimately show ?thesis using assms(4) members_no_sentinel by auto
qed

lemma rings_distinct: "rings L H Q \<Longrightarrow> h \<in> H \<Longrightarrow> distinct (Q h)"
  by (auto simp: rings_def ring_def members_def distinct_map)

lemma rings_mono: "rings L H Q \<Longrightarrow> H' \<subseteq> H \<Longrightarrow> rings L H' Q"
  unfolding rings_def by blast

lemma rings_frame:
  assumes "rings L H Q" and "h \<in> H" and "ring L' h (map (link_of (linker_of h)) xs)"
    and "same_outside F L L'" and "F \<subseteq> set (h # members h Q) \<union> X"
    and "\<And>x g. x \<in> X \<Longrightarrow> g \<in> H \<Longrightarrow> g \<noteq> h \<Longrightarrow> x \<notin> set (g # members g Q)"
    and "\<And>p. p \<in> set xs \<Longrightarrow> p \<in> set (Q h) \<or> unlinked H Q (linker_of h) p"
  shows "rings L' H (Q(h := xs))"
proof -
  have other: "ring L' g (members g Q)" if "g \<in> H" "g \<noteq> h" for g
  proof (rule ring_frame)
    show "ring L g (members g Q)" using assms(1) that by (simp add: rings_def)
    fix y assume y: "y \<in> set (g # members g Q)"
    with assms(5,6) rings_disjoint[OF assms(1) that(1) assms(2)] that have "y \<notin> F" by blast
    with assms(4) show "lnext L' y = lnext L y \<and> lprev L' y = lprev L y"
      by (simp add: same_outside_def)
  qed
  have "set xs \<inter> set (Q g) = {}" if "g \<in> H" "g \<noteq> h" "linker_of g = linker_of h" for g
    using assms(1,2,7) that by (fastforce simp: rings_def unlinked_def)
  with other assms(1,2,3) show ?thesis
    unfolding rings_def by auto
qed

lemma rings_add:
  assumes "rings L H Q" and "h \<in> H" and "unlinked H Q (linker_of h) p"
  shows "rings (add_between (link_of (linker_of h) p) (lprev L h) h L) H (Q(h := Q h @ [p]))"
    and "rings (add_between (link_of (linker_of h) p) h (lnext L h) L) H (Q(h := p # Q h))"
proof -
  let ?n = "link_of (linker_of h) p"
  have r: "ring L h (members h Q)" and s: "sentinel h" using assms by (auto simp: rings_def)
  have new: "?n \<notin> set (h # members h Q)"
    using assms(2,3) sentinel_not_link[OF s] by (auto simp: unlinked_def)
  have fresh: "?n \<notin> set (g # members g Q)" if "g \<in> H" for g
    using assms(3) that sentinel_not_link[OF rings_sentinel[OF assms(1) that]]
    by (auto simp: unlinked_def)
  have p: "lprev L h \<in> set (h # members h Q)" by (rule ring_prev_in[OF r])
  have n: "lnext L h \<in> set (h # members h Q)"
    using r by (cases "members h Q") (auto simp: ring_def)
  show "rings (add_between ?n (lprev L h) h L) H (Q(h := Q h @ [p]))"
  proof (rule rings_frame[OF assms(1,2), where X = "{?n}" and F = "{?n, lprev L h, h}"])
    show "ring (add_between ?n (lprev L h) h L) h (map (link_of (linker_of h)) (Q h @ [p]))"
      using ring_add_tail[OF r new] by (simp add: members_def)
  qed (use p fresh assms(3) in \<open>auto simp: same_outside_def add_between_def\<close>)
  show "rings (add_between ?n h (lnext L h) L) H (Q(h := p # Q h))"
  proof (rule rings_frame[OF assms(1,2), where X = "{?n}" and F = "{?n, lnext L h, h}"])
    show "ring (add_between ?n h (lnext L h) L) h (map (link_of (linker_of h)) (p # Q h))"
      using ring_add_head[OF r new] by (simp add: members_def)
  qed (use n fresh assms(3) in \<open>auto simp: same_outside_def add_between_def\<close>)
qed

lemma rings_neighbours:
  assumes "rings L H Q" and "h \<in> H" and "p \<in> set (Q h)"
  shows "lprev L (link_of (linker_of h) p) \<in> set (h # members h Q)"
    and "lnext L (link_of (linker_of h) p) \<in> set (h # members h Q)"
proof -
  obtain xs ys where q: "Q h = xs @ p # ys" using assms(3) by (meson split_list)
  have "ring L h (map (link_of (linker_of h)) xs @ link_of (linker_of h) p
                   # map (link_of (linker_of h)) ys)"
    using rings_ring[OF assms(1,2)] q by simp
  from ring_neighbours_in[OF this] q
  show "lprev L (link_of (linker_of h) p) \<in> set (h # members h Q)"
    and "lnext L (link_of (linker_of h) p) \<in> set (h # members h Q)"
    by (auto simp: members_def)
qed

lemma rings_del:
  assumes "rings L H Q" and "h \<in> H" and "p \<in> set (Q h)"
  defines "x \<equiv> link_of (linker_of h) p"
  shows "rings (del_between (lprev L x) (lnext L x) L) H (Q(h := remove1 p (Q h)))"
proof -
  obtain xs ys where q: "Q h = xs @ p # ys" "p \<notin> set xs" using assms(3) by (meson split_list_first)
  have "ring L h (map (link_of (linker_of h)) xs @ x # map (link_of (linker_of h)) ys)"
    using rings_ring[OF assms(1,2)] q by (simp add: x_def)
  from ring_del[OF this]
  have r: "ring (del_between (lprev L x) (lnext L x) L) h
             (map (link_of (linker_of h)) (remove1 p (Q h)))"
    using q by (simp add: remove1_append)
  show ?thesis
    by (rule rings_frame[OF assms(1,2) r, where X = "{}" and F = "{lprev L x, lnext L x}"])
       (use rings_neighbours[OF assms(1-3)] set_remove1_subset[of p "Q h"] in
         \<open>auto simp: same_outside_def del_between_def x_def\<close>)
qed

lemma rings_self_loop:
  assumes "rings L H Q" and "sentinel l" and "l \<notin> H"
  shows "rings (self_loop l L) (insert l H) (Q(l := []))"
proof -
  have "ring (self_loop l L) g (members g Q)" if "g \<in> H" for g
  proof (rule ring_frame)
    show "ring L g (members g Q)" using assms(1) that by (simp add: rings_def)
    fix y assume "y \<in> set (g # members g Q)"
    with that assms members_no_sentinel[of y g Q] have "y \<noteq> l" by auto
    then show "lnext (self_loop l L) y = lnext L y \<and> lprev (self_loop l L) y = lprev L y"
      by (simp add: self_loop_def)
  qed
  moreover have "ring (self_loop l L) l []" by (simp add: ring_def self_loop_def)
  ultimately show ?thesis using assms by (auto simp: rings_def)
qed

section \<open>The operations on families of rings\<close>

lemma rep_rings: "rep s H Q \<Longrightarrow> rings (lst s) H Q"
  by (simp add: rep_def)

lemma rep_lvalid: "rep s H Q \<Longrightarrow> h \<in> H \<Longrightarrow> x \<in> set (h # members h Q) \<Longrightarrow> lvalid s x"
  by (auto simp: rep_def)

lemma rep_lvalid_head: "rep s H Q \<Longrightarrow> h \<in> H \<Longrightarrow> lvalid s h"
  by (simp add: rep_def)

lemma rep_lvalid_member: "rep s H Q \<Longrightarrow> h \<in> H \<Longrightarrow> p \<in> set (Q h) \<Longrightarrow> lvalid s (link_of (linker_of h) p)"
  by (simp add: rep_def)

lemma rep_mono: "rep s H Q \<Longrightarrow> H' \<subseteq> H \<Longrightarrow> rep s H' Q"
  by (auto simp: rep_def intro: rings_mono)

lemma pools_ok_cong: "lvalid s' = lvalid s \<Longrightarrow> pools_ok s' = pools_ok s"
  by (simp only: pools_ok_def)

lemma pools_ok_lst [simp]: "pools_ok (s\<lparr>lst := L\<rparr>) = pools_ok s"
  by (rule pools_ok_cong) simp

lemma rep_cong: "lst s' = lst s \<Longrightarrow> lvalid s' = lvalid s \<Longrightarrow> rep s' H Q = rep s H Q"
  by (simp add: rep_def pools_ok_cong[of s' s])

lemma rep_tcbs_update [simp]:
  assumes "\<forall>q. (T q = None) = (tcbs s q = None)"
  shows "rep (s\<lparr>tcbs := T\<rparr>) H Q = rep s H Q"
  using assms by (intro rep_cong lvalid_cong) auto

lemma rep_msgs_update [simp]:
  assumes "\<forall>q. (M q = None) = (msgs s q = None)"
  shows "rep (s\<lparr>msgs := M\<rparr>) H Q = rep s H Q"
  using assms by (intro rep_cong lvalid_cong) auto

lemma rep_update [simp]:
  "rep (s\<lparr>mem := M\<rparr>) H Q = rep s H Q"
  "rep (s\<lparr>thread_count := c\<rparr>) H Q = rep s H Q"
  "rep (s\<lparr>soft_block_count := c\<rparr>) H Q = rep s H Q"
  "rep (s\<lparr>current_thread := c\<rparr>) H Q = rep s H Q"
  "rep (s\<lparr>current_thread_tod := c\<rparr>) H Q = rep s H Q"
  "rep (s\<lparr>pseudo_tick := c\<rparr>) H Q = rep s H Q"
  "rep (s\<lparr>start_pseudo_tick := c\<rparr>) H Q = rep s H Q"
  "rep (s\<lparr>SSI_tcb := c\<rparr>) H Q = rep s H Q"
  "rep (s\<lparr>TEST_tcb := c\<rparr>) H Q = rep s H Q"
  "rep (s\<lparr>trap_managers := xs\<rparr>) H Q = rep s H Q"
  "rep (s\<lparr>devStatus_array := xs\<rparr>) H Q = rep s H Q"
  "rep (s\<lparr>devTcb_array := xs\<rparr>) H Q = rep s H Q"
  "rep (s\<lparr>clockTcb_array := xs\<rparr>) H Q = rep s H Q"
  "rep (s\<lparr>interrupt_i := n\<rparr>) H Q = rep s H Q"
  "rep (s\<lparr>areas := A\<rparr>) H Q = rep s H Q"
  "rep (s\<lparr>cpu := st\<rparr>) H Q = rep s H Q"
  "rep (s\<lparr>tod_reads := n\<rparr>) H Q = rep s H Q"
  by (intro rep_cong lvalid_cong; simp)+

lemma rep_Q_cong: "(\<And>h. h \<in> H \<Longrightarrow> Q' h = Q h) \<Longrightarrow> rep s H Q' = rep s H Q"
  by (simp add: rep_def rings_def members_def)

lemma rep_empty_iff: "rep s H Q \<Longrightarrow> h \<in> H \<Longrightarrow> (lnext (lst s) h = h) \<longleftrightarrow> Q h = []"
  using ring_next_empty[of "lst s" h "members h Q"] by (auto simp: rep_def rings_def members_def)

lemma rep_next_head:
  "rep s H Q \<Longrightarrow> h \<in> H \<Longrightarrow> Q h = p # ps \<Longrightarrow> lnext (lst s) h = link_of (linker_of h) p"
  using rings_ring[of "lst s" H Q h] by (auto simp: rep_def dest: ring_next)

lemma rep_distinct: "rep s H Q \<Longrightarrow> h \<in> H \<Longrightarrow> distinct (Q h)"
  by (auto simp: rep_def dest: rings_distinct)

lemma rep_not_NULL:
  assumes "rep s H Q" and "h \<in> H" and "p \<in> set (Q h)"
  shows "p \<noteq> NULL"
proof
  assume "p = NULL"
  with rep_lvalid_member[OF assms] assms(1) show False
    by (cases "linker_of h") (auto simp: rep_def pools_ok_def)
qed

lemma rep_length:
  assumes "rep s H Q" and "h \<in> H"
  shows "length (Q h) < LOOP_BOUND"
proof -
  let ?A = "{p. lvalid s (link_of (linker_of h) p)}"
  have fin: "finite ?A" and card: "card ?A \<le> 20"
    using assms(1) by (cases "linker_of h"; simp add: rep_def pools_ok_def)+
  have "set (Q h) \<subseteq> ?A" using rep_lvalid_member[OF assms] by auto
  then have "card (set (Q h)) \<le> 20" using card card_mono[OF fin] by (meson le_trans)
  then show ?thesis using distinct_card[OF rep_distinct[OF assms]] by (simp add: LOOP_BOUND_def)
qed

lemma rep_sep:
  "rep s H Q \<Longrightarrow> g \<in> H \<Longrightarrow> h \<in> H \<Longrightarrow> g \<noteq> h \<Longrightarrow> linker_of g = linker_of h \<Longrightarrow>
   p \<in> set (Q g) \<Longrightarrow> p \<notin> set (Q h)"
  by (meson rep_rings rings_sep)

lemma rep_removed_unlinked:
  assumes "rep s H Q" and "h \<in> H" and "p \<in> set (Q h)"
  shows "unlinked H (Q(h := remove1 p (Q h))) (linker_of h) p"
  unfolding unlinked_def
proof (intro ballI impI)
  fix g assume g: "g \<in> H" "linker_of g = linker_of h"
  show "p \<notin> set ((Q(h := remove1 p (Q h))) g)"
  proof (cases "g = h")
    case True
    then show ?thesis using rep_distinct[OF assms(1,2)] by simp
  next
    case False
    then show ?thesis using rep_sep[OF assms(1,2) g(1) _ _ assms(3)] g(2) by simp
  qed
qed

lemma wp_add_tail_frame:
  assumes "rep s H Q" and "h \<in> H" and "unlinked H Q (linker_of h) p"
    and "lvalid s (link_of (linker_of h) p)"
    and "\<And>L. rep (s\<lparr>lst := L\<rparr>) H (Q(h := Q h @ [p])) \<Longrightarrow>
           same_outside (set (link_of (linker_of h) p # h # members h Q)) (lst s) L \<Longrightarrow>
           P () (s\<lparr>lst := L\<rparr>)"
  shows "wp (list_add_tail (link_of (linker_of h) p) h) P E s"
proof -
  let ?x = "link_of (linker_of h) p" and ?L = "lst s"
  have r: "rings ?L H Q" by (rule rep_rings[OF assms(1)])
  have prev: "lprev ?L h \<in> set (h # members h Q)"
    using ring_prev_in[OF rings_ring[OF r assms(2)]] by (simp add: members_def)
  then have pv: "lvalid s (lprev ?L h)" by (rule rep_lvalid[OF assms(1,2)])
  have "P () (s\<lparr>lst := add_between ?x (lprev ?L h) h ?L\<rparr>)"
    by (rule assms(5))
       (use assms rings_add(1)[OF r assms(2,3)] prev in
         \<open>auto simp: rep_def members_def same_outside_def add_between_def\<close>)
  then show ?thesis
    using assms(4) rep_lvalid_head[OF assms(1,2)] pv by (simp add: list_add_tail_def wp_list_add_between)
qed

lemma wp_add_head_frame:
  assumes "rep s H Q" and "h \<in> H" and "unlinked H Q (linker_of h) p"
    and "lvalid s (link_of (linker_of h) p)"
    and "\<And>L. rep (s\<lparr>lst := L\<rparr>) H (Q(h := p # Q h)) \<Longrightarrow>
           same_outside (set (link_of (linker_of h) p # h # members h Q)) (lst s) L \<Longrightarrow>
           P () (s\<lparr>lst := L\<rparr>)"
  shows "wp (list_add (link_of (linker_of h) p) h) P E s"
proof -
  let ?x = "link_of (linker_of h) p" and ?L = "lst s"
  have r: "rings ?L H Q" by (rule rep_rings[OF assms(1)])
  have nxt: "lnext ?L h \<in> set (h # members h Q)"
    using rings_ring[OF r assms(2)] by (cases "Q h") (auto simp: ring_def members_def)
  then have nv: "lvalid s (lnext ?L h)" by (rule rep_lvalid[OF assms(1,2)])
  have "P () (s\<lparr>lst := add_between ?x h (lnext ?L h) ?L\<rparr>)"
    by (rule assms(5))
       (use assms rings_add(2)[OF r assms(2,3)] nxt in
         \<open>auto simp: rep_def members_def same_outside_def add_between_def\<close>)
  then show ?thesis
    using assms(4) rep_lvalid_head[OF assms(1,2)] nv by (simp add: list_add_def wp_list_add_between)
qed

lemma wp_del_frame:
  assumes "rep s H Q" and "h \<in> H" and "p \<in> set (Q h)"
    and "\<And>L. rep (s\<lparr>lst := L\<rparr>) H (Q(h := remove1 p (Q h))) \<Longrightarrow>
           same_outside (set (h # members h Q)) (lst s) L \<Longrightarrow> P () (s\<lparr>lst := L\<rparr>)"
  shows "wp (list_del (link_of (linker_of h) p)) P E s"
proof -
  let ?x = "link_of (linker_of h) p" and ?L = "lst s"
  have r: "rings ?L H Q" by (rule rep_rings[OF assms(1)])
  note nb = rings_neighbours[OF r assms(2,3)]
  have v: "lvalid s ?x" "lvalid s (lprev ?L ?x)" "lvalid s (lnext ?L ?x)"
    using rep_lvalid_member[OF assms(1-3)] rep_lvalid[OF assms(1,2)] nb by blast+
  have "P () (s\<lparr>lst := del_between (lprev ?L ?x) (lnext ?L ?x) ?L\<rparr>)"
    by (rule assms(4))
       (use assms(1) rings_del[OF r assms(2,3)] nb set_remove1_subset[of p "Q h"] in
         \<open>auto simp: rep_def members_def same_outside_def del_between_def\<close>)
  then show ?thesis using v by (simp add: wp_list_del)
qed

lemma rep_self_loop:
  assumes "rep (s\<lparr>lst := L\<rparr>) H Q" and "sentinel l" and "l \<notin> H" and "lvalid s l"
  shows "rep (s\<lparr>lst := self_loop l L\<rparr>) (insert l H) (Q(l := []))"
  using assms(1,3,4) rings_self_loop[OF rep_rings[OF assms(1)] assms(2,3)]
  by (auto simp: rep_def)

text \<open>Links outside every ring of the family may change freely.\<close>

lemma rep_outside:
  assumes "rep s H Q" and "same_outside F (lst s) L"
    and "\<And>h. h \<in> H \<Longrightarrow> F \<inter> set (h # members h Q) = {}"
  shows "rep (s\<lparr>lst := L\<rparr>) H Q"
proof -
  have "ring L h (members h Q)" if "h \<in> H" for h
  proof (rule ring_frame)
    show "ring (lst s) h (members h Q)" using assms(1) that by (simp add: rep_def rings_def)
    fix y assume "y \<in> set (h # members h Q)"
    with assms(3)[OF that] have "y \<notin> F" by blast
    with assms(2) show "lnext L y = lnext (lst s) y \<and> lprev L y = lprev (lst s) y"
      by (simp add: same_outside_def)
  qed
  with assms(1) show ?thesis by (simp add: rep_def rings_def)
qed

lemma rep_self_loop_sib:
  assumes "rep (s\<lparr>lst := L\<rparr>) H Q" and "unlinked H Q By_t_sib p"
  shows "rep (s\<lparr>lst := self_loop (T_sib p) L\<rparr>) H Q"
proof -
  have so: "same_outside {T_sib p} (lst (s\<lparr>lst := L\<rparr>)) (self_loop (T_sib p) L)"
    by (simp add: same_outside_def self_loop_def)
  have "{T_sib p} \<inter> set (h # members h Q) = {}" if "h \<in> H" for h
    using assms(2) that rings_sentinel[OF rep_rings[OF assms(1)] that]
      in_members[of By_t_sib p h Q] by (auto simp: unlinked_def)
  from rep_outside[OF assms(1) so this] show ?thesis by simp
qed

text \<open>
  The loops: a walk whose test is a pure predicate finds the first member that satisfies
  it, and needs one step more than the ring has members.
\<close>

lemma for_each_entry_linked:
  assumes "linked (lst s) a (map (link_of k) ys) h" and "h \<notin> link_of k ` set ys"
    and "\<And>p. p \<in> set ys \<Longrightarrow> lvalid s (link_of k p)"
    and "\<And>p. p \<in> set ys \<Longrightarrow> test p s = Inr (f p, s)"
    and "length ys < n"
  shows "for_each_entry n k h test (lnext (lst s) a) s = Inr (find f ys, s)"
  using assms
proof (induction ys arbitrary: a n)
  case Nil
  then obtain m where "n = Suc m" by (cases n) auto
  with Nil show ?case by simp
next
  case (Cons y ys)
  then obtain m where n: "n = Suc m" by (cases n) auto
  have next_y: "read_next (link_of k y) s = Inr (lnext (lst s) (link_of k y), s)"
    using Cons.prems(3) by (simp add: read_next_def)
  have "for_each_entry m k h test (lnext (lst s) (link_of k y)) s = Inr (find f ys, s)"
    using Cons.prems n by (intro Cons.IH) auto
  with Cons.prems n next_y show ?case by auto
qed

lemma for_each_entry_find:
  assumes "rep s H Q" and "h \<in> H" and "\<And>p. p \<in> set (Q h) \<Longrightarrow> test p s = Inr (f p, s)"
  shows "for_each_entry LOOP_BOUND (linker_of h) h test (lnext (lst s) h) s = Inr (find f (Q h), s)"
proof (rule for_each_entry_linked)
  have r: "rings (lst s) H Q" by (rule rep_rings[OF assms(1)])
  show "linked (lst s) h (map (link_of (linker_of h)) (Q h)) h"
    using rings_ring[OF r assms(2)] by (simp add: ring_def)
  show "h \<notin> link_of (linker_of h) ` set (Q h)"
    using sentinel_not_link[OF rings_sentinel[OF r assms(2)]] by auto
  show "length (Q h) < LOOP_BOUND" by (rule rep_length[OF assms(1,2)])
qed (use assms rep_lvalid_member in auto)

text \<open>Loops that fill a list from an array.\<close>

lemma kfor_map: "kfor (map g xs) f = kfor xs (\<lambda>x. f (g x))"
  by (induction xs) simp_all

lemma kfor_cong: "(\<And>x. x \<in> set xs \<Longrightarrow> f x = g x) \<Longrightarrow> kfor xs f = kfor xs g"
  by (induction xs) simp_all

lemma kfor_array:
  "n = length xs \<Longrightarrow> kfor [0..<n] (\<lambda>i. kbind (array_get xs i) f) = kfor xs f"
proof -
  assume n: "n = length xs"
  have "kfor [0..<n] (\<lambda>i. kbind (array_get xs i) f) = kfor [0..<n] (\<lambda>i. f (xs ! i))"
    using n by (intro kfor_cong) (simp add: array_get_def kbind_def fun_eq_iff)
  also have "\<dots> = kfor (map ((!) xs) [0..<n]) f" by (simp add: kfor_map)
  also have "\<dots> = kfor xs f" using n by (simp add: map_nth)
  finally show ?thesis .
qed

lemma wp_kfor_add_tail:
  assumes "rep s H Q" and "h \<in> H" and "distinct ps"
    and "\<And>p. p \<in> set ps \<Longrightarrow> unlinked H Q (linker_of h) p \<and> lvalid s (link_of (linker_of h) p)"
    and "\<And>L. rep (s\<lparr>lst := L\<rparr>) H (Q(h := Q h @ ps)) \<Longrightarrow> P () (s\<lparr>lst := L\<rparr>)"
  shows "wp (kfor ps (\<lambda>p. list_add_tail (link_of (linker_of h) p) h)) P E s"
  using assms
proof (induction ps arbitrary: s Q)
  case Nil
  from Nil.prems(1) Nil.prems(5)[of "lst s"] have "P () s" by simp
  then show ?case unfolding kfor.simps wp_kreturn .
next
  case (Cons p ps)
  define Q1 where "Q1 = Q(h := Q h @ [p])"
  have up: "unlinked H Q (linker_of h) p" and vp: "lvalid s (link_of (linker_of h) p)"
    using Cons.prems(4)[of p] by auto
  show ?case
    unfolding kfor.simps wp_kthen
  proof (rule wp_add_tail_frame[OF Cons.prems(1,2) up vp])
    fix L assume L: "rep (s\<lparr>lst := L\<rparr>) H (Q(h := Q h @ [p]))"
    show "wp (kfor ps (\<lambda>p. list_add_tail (link_of (linker_of h) p) h)) P E (s\<lparr>lst := L\<rparr>)"
    proof (rule Cons.IH[of _ Q1])
      show "rep (s\<lparr>lst := L\<rparr>) H Q1" using L by (simp add: Q1_def)
      show "unlinked H Q1 (linker_of h) q \<and> lvalid (s\<lparr>lst := L\<rparr>) (link_of (linker_of h) q)"
        if "q \<in> set ps" for q
        using Cons.prems(3) Cons.prems(4)[of q] that by (auto simp: unlinked_def Q1_def)
      show "P () (s\<lparr>lst := L, lst := L'\<rparr>)"
        if "rep (s\<lparr>lst := L, lst := L'\<rparr>) H (Q1(h := Q1 h @ ps))" for L'
      proof -
        have "rep (s\<lparr>lst := L'\<rparr>) H (Q(h := Q h @ p # ps))" using that by (simp add: Q1_def)
        from Cons.prems(5)[OF this] show ?thesis by simp
      qed
    qed (use Cons.prems in auto)
  qed
qed

end
