(* ===== verification/Contracts.thy ===== *)
theory Contracts
  imports Prelude
begin

text \<open>
  The interfaces the kernel modules rely on, as locales. A client of the phase 1 modules
  sees queues that behave as sequences, and pools of objects that are handed out and taken
  back. The lemmas here are proved from the laws alone; \<^verbatim>\<open>Tcb\<close> and \<^verbatim>\<open>Msg\<close>
  interpret the locales on the pointer-level routines of the kernel.
\<close>

text \<open>Run a routine \<open>n\<close> times and collect its results.\<close>

fun krepeat :: "nat \<Rightarrow> ('s, 'a) mon \<Rightarrow> ('s, 'a list) mon" where
  "krepeat 0 m = kreturn []"
| "krepeat (Suc n) m = kbind m (\<lambda>x. kbind (krepeat n m) (\<lambda>xs. kreturn (x # xs)))"

text \<open>Run a routine for its effect and look at the state afterwards.\<close>

definition kobserve :: "('s, 'a) mon \<Rightarrow> ('s \<Rightarrow> 'b) \<Rightarrow> ('s, 'b) mon" where
  "kobserve m f = kbind m (\<lambda>_. kget f)"

lemma krepeat_Suc_Inr:
  "m s = Inr (x, s1) \<Longrightarrow> krepeat n m s1 = Inr (xs, s2) \<Longrightarrow> krepeat (Suc n) m s = Inr (x # xs, s2)"
  by simp

lemma kfor_append: "kfor (xs @ ys) f = kthen (kfor xs f) (kfor ys f)"
  by (induction xs) (simp_all add: kthen_def kbind_def fun_eq_iff split: sum.splits)

section \<open>Queues\<close>

text \<open>
  A family of queues: \<open>repr s H Q\<close> says that in state \<open>s\<close> the queues \<open>H\<close> hold the
  sequences \<open>Q\<close>; \<open>accepts\<close> says that an element may be put on a queue.
\<close>

locale fifo_queue =
  fixes repr :: "'s \<Rightarrow> 'h set \<Rightarrow> ('h \<Rightarrow> 'a list) \<Rightarrow> bool"
    and accepts :: "'s \<Rightarrow> 'h set \<Rightarrow> ('h \<Rightarrow> 'a list) \<Rightarrow> 'h \<Rightarrow> 'a \<Rightarrow> bool"
    and enq :: "'h \<Rightarrow> 'a \<Rightarrow> ('s, unit) mon"
    and deq :: "'h \<Rightarrow> ('s, 'a) mon"
    and none :: "'a"
  assumes enq_law: "\<And>s H Q h p. repr s H Q \<Longrightarrow> h \<in> H \<Longrightarrow> accepts s H Q h p \<Longrightarrow>
      \<exists>s'. enq h p s = Inr ((), s') \<and> repr s' H (Q(h := Q h @ [p])) \<and>
           (\<forall>q. accepts s H Q h q \<and> q \<noteq> p \<longrightarrow> accepts s' H (Q(h := Q h @ [p])) h q)"
    and deq_law: "\<And>s H Q h p ps. repr s H Q \<Longrightarrow> h \<in> H \<Longrightarrow> Q h = p # ps \<Longrightarrow>
      \<exists>s'. deq h s = Inr (p, s') \<and> repr s' H (Q(h := ps))"
    and deq_none: "\<And>s H Q h. repr s H Q \<Longrightarrow> h \<in> H \<Longrightarrow> Q h = [] \<Longrightarrow> deq h s = Inr (none, s)"
begin

lemma enq_all:
  assumes "repr s H Q" and "h \<in> H" and "distinct ps" and "\<And>p. p \<in> set ps \<Longrightarrow> accepts s H Q h p"
  shows "\<exists>s'. kfor ps (enq h) s = Inr ((), s') \<and> repr s' H (Q(h := Q h @ ps))"
  using assms
proof (induction ps arbitrary: s Q)
  case Nil
  then show ?case by simp
next
  case (Cons p ps)
  define Q1 where "Q1 = Q(h := Q h @ [p])"
  from enq_law[OF Cons.prems(1,2) Cons.prems(4)[of p]]
  obtain s1 where s1: "enq h p s = Inr ((), s1)" "repr s1 H Q1"
    and acc: "\<And>q. accepts s H Q h q \<Longrightarrow> q \<noteq> p \<Longrightarrow> accepts s1 H Q1 h q"
    unfolding Q1_def by auto
  have "\<exists>s'. kfor ps (enq h) s1 = Inr ((), s') \<and> repr s' H (Q1(h := Q1 h @ ps))"
    by (rule Cons.IH[OF s1(2) Cons.prems(2)]) (use Cons.prems(3,4) acc in auto)
  moreover have "Q1(h := Q1 h @ ps) = Q(h := Q h @ p # ps)" by (simp add: Q1_def)
  ultimately show ?case using s1 by (auto simp del: fun_upd_apply)
qed

lemma deq_all:
  assumes "repr s H Q" and "h \<in> H" and "Q h = ps @ qs"
  shows "\<exists>s'. krepeat (length ps) (deq h) s = Inr (ps, s') \<and> repr s' H (Q(h := qs))"
  using assms
proof (induction ps arbitrary: s Q)
  case Nil
  then have "Q(h := qs) = Q" by auto
  with Nil show ?case by simp
next
  case (Cons p ps)
  define Q1 where "Q1 = Q(h := ps @ qs)"
  from deq_law[OF Cons.prems(1,2), of p "ps @ qs"] Cons.prems(3)
  obtain s1 where s1: "deq h s = Inr (p, s1)" "repr s1 H Q1" unfolding Q1_def by auto
  have "\<exists>s'. krepeat (length ps) (deq h) s1 = Inr (ps, s') \<and> repr s' H (Q1(h := qs))"
    by (rule Cons.IH[OF s1(2) Cons.prems(2)]) (simp add: Q1_def)
  moreover have "Q1(h := qs) = Q(h := qs)" by (simp add: Q1_def)
  ultimately show ?case using s1 by (auto simp del: fun_upd_apply)
qed

text \<open>First in, first out: what was queued comes out in order, then what is put in.\<close>

lemma fifo_order:
  assumes "repr s H Q" and "h \<in> H" and "distinct ps" and "\<And>p. p \<in> set ps \<Longrightarrow> accepts s H Q h p"
  shows "\<exists>s'. kthen (kfor ps (enq h)) (krepeat (length (Q h) + length ps) (deq h)) s
               = Inr (Q h @ ps, s') \<and> repr s' H (Q(h := []))"
proof -
  from enq_all[OF assms] obtain s1 where
    s1: "kfor ps (enq h) s = Inr ((), s1)" "repr s1 H (Q(h := Q h @ ps))" by auto
  from deq_all[OF s1(2) assms(2), of "Q h @ ps" "[]"] s1(1) show ?thesis by (auto simp del: fun_upd_apply simp add: fun_upd_same)
qed

end

section \<open>Object pools\<close>

text \<open>
  \<open>pool s fs\<close>: the free objects are \<open>fs\<close>, in the order in which they will be handed
  out; \<open>object s p\<close>: the pool was built with \<open>p\<close> in it.
\<close>

locale object_pool =
  fixes pool :: "'s \<Rightarrow> 'a list \<Rightarrow> bool"
    and object :: "'s \<Rightarrow> 'a \<Rightarrow> bool"
    and alloc :: "('s, 'a) mon"
    and release :: "'a \<Rightarrow> ('s, unit) mon"
    and none :: "'a"
  assumes pool_objects: "\<And>s fs. pool s fs \<Longrightarrow> distinct fs \<and> (\<forall>p\<in>set fs. object s p \<and> p \<noteq> none)"
    and alloc_none: "\<And>s. pool s [] \<Longrightarrow> alloc s = Inr (none, s)"
    and alloc_some: "\<And>s p fs. pool s (p # fs) \<Longrightarrow>
      \<exists>s'. alloc s = Inr (p, s') \<and> pool s' fs \<and> object s' = object s"
    and release_law: "\<And>s p fs. pool s fs \<Longrightarrow> object s p \<Longrightarrow> p \<notin> set fs \<Longrightarrow>
      \<exists>s'. release p s = Inr ((), s') \<and> pool s' (fs @ [p]) \<and> object s' = object s"
begin

text \<open>
  Any number of allocations: the free objects in order, then \<open>none\<close> for every request
  the pool cannot meet.
\<close>

lemma alloc_many:
  assumes "pool s fs"
  shows "\<exists>s'. krepeat n alloc s = Inr (take n fs @ replicate (n - length fs) none, s')
          \<and> pool s' (drop n fs) \<and> object s' = object s"
  using assms
proof (induction n arbitrary: s fs)
  case 0
  then show ?case by simp
next
  case (Suc n)
  show ?case
  proof (cases fs)
    case Nil
    with Suc.prems have "alloc s = Inr (none, s)" by (simp add: alloc_none)
    moreover have "\<exists>s'. krepeat n alloc s = Inr (replicate n none, s') \<and> pool s' [] \<and> object s' = object s"
      using Suc.IH[of s "[]"] Suc.prems Nil by simp
    ultimately show ?thesis using Nil by auto
  next
    case (Cons p ps)
    with Suc.prems alloc_some obtain s1 where
      s1: "alloc s = Inr (p, s1)" "pool s1 ps" "object s1 = object s" by blast
    from Suc.IH[OF s1(2)] s1 Cons show ?thesis by auto
  qed
qed

lemma release_many:
  assumes "pool s fs" and "distinct (fs @ ps)" and "\<And>p. p \<in> set ps \<Longrightarrow> object s p"
  shows "\<exists>s'. kfor ps release s = Inr ((), s') \<and> pool s' (fs @ ps) \<and> object s' = object s"
  using assms
proof (induction ps arbitrary: s fs)
  case Nil
  then show ?case by simp
next
  case (Cons p ps)
  with release_law[OF Cons.prems(1), of p] obtain s1 where
    s1: "release p s = Inr ((), s1)" "pool s1 (fs @ [p])" "object s1 = object s" by auto
  have "\<exists>s'. kfor ps release s1 = Inr ((), s') \<and> pool s' ((fs @ [p]) @ ps) \<and> object s' = object s1"
    by (rule Cons.IH[OF s1(2)]) (use Cons.prems s1(3) in auto)
  with s1 show ?case by auto
qed

text \<open>Everything taken and given back: the pool is as it was.\<close>

lemma alloc_release_all:
  assumes "pool s fs"
  shows "\<exists>s1 s2. krepeat (length fs) alloc s = Inr (fs, s1) \<and> kfor fs release s1 = Inr ((), s2) \<and> pool s2 fs"
proof -
  from alloc_many[OF assms, of "length fs"] obtain s1 where
    s1: "krepeat (length fs) alloc s = Inr (fs, s1)" "pool s1 []" "object s1 = object s" by auto
  from release_many[OF s1(2), of fs] s1(3) pool_objects[OF assms]
  obtain s2 where "kfor fs release s1 = Inr ((), s2)" "pool s2 fs" by auto
  with s1 show ?thesis by blast
qed

text \<open>The objects handed out by one run of allocations are pairwise different.\<close>

lemma alloc_distinct:
  assumes "pool s fs" and "krepeat n alloc s = Inr (ps, s')"
  shows "distinct (filter (\<lambda>p. p \<noteq> none) ps) \<and> length (filter (\<lambda>p. p \<noteq> none) ps) = min n (length fs)"
proof -
  have ps: "ps = take n fs @ replicate (n - length fs) none"
    using alloc_many[OF assms(1), of n] assms(2) by auto
  have "filter (\<lambda>p. p \<noteq> none) (take n fs) = take n fs"
    using pool_objects[OF assms(1)] by (auto simp: filter_id_conv dest: in_set_takeD)
  with ps pool_objects[OF assms(1)] show ?thesis by (simp add: min.commute)
qed

end

end
