(* ===== verification/Tcb.thy ===== *)
theory Tcb
  imports Listx Contracts
begin

text \<open>
  \<^verbatim>\<open>phase1/src/tcb.c\<close>: the pool of thread control blocks, the thread queues and the
  thread tree. The first section translates the routines; the others show what each does to
  the family of sequences of \<^verbatim>\<open>Listx\<close>, and interpret the queue and pool contracts.
\<close>

section \<open>The routines\<close>

definition init_t_state :: "state_t \<Rightarrow> state_t" where
  "init_t_state st =
     (fold (\<lambda>i st. gpr_set i 0 st) [0..<29]
        (st\<lparr>entry_hi := 0, cause := 0, status := 0, pc_epc := 0\<rparr>))\<lparr>hi := 0, lo := 0\<rparr>"

definition initTcbs :: "layout \<Rightarrow> unit kmon" where
  "initTcbs lay =
     kthen (INIT_LIST_HEAD Tcbfree_sentinel)
     (kfor [0..<MAXTHREADS] (\<lambda>i.
        kbind (array_get (thread_array lay) i) (\<lambda>p.
        list_add_tail (T_next p) Tcbfree_sentinel)))"

definition freeTcb :: "U32 \<Rightarrow> unit kmon" where
  "freeTcb p = list_add_tail (T_next p) Tcbfree_sentinel"

definition allocTcb :: "U32 kmon" where
  "allocTcb =
     kbind (list_empty Tcbfree_sentinel) (\<lambda>empty.
     if empty then kreturn NULL
     else
       kbind (read_next Tcbfree_sentinel) (\<lambda>first.
       kbind (container_of By_t_next first) (\<lambda>removed_tcb.
       kthen (list_del (T_next removed_tcb))
       (kthen (upd_tcb removed_tcb (\<lambda>t. t\<lparr>t_parent := NULL\<rparr>))
       (kthen (INIT_LIST_HEAD (T_child removed_tcb))
       (kthen (INIT_LIST_HEAD (T_sib removed_tcb))
       (kthen (INIT_LIST_HEAD (T_inbox removed_tcb))
       (kthen (upd_tcb removed_tcb (\<lambda>t. t\<lparr>
            t_state := init_t_state (t_state t),
            cpu_time := 0,
            cpu_slice := 0,
            waiting_for := - 1,
            reply := - 1,
            sysbp_manager_thread := NULL,
            pgmtrap_manager_thread := NULL,
            tlbtrap_manager_thread := NULL\<rparr>))
       (kreturn removed_tcb)))))))))"

definition mkEmptyThreadQ :: "list_head \<Rightarrow> unit kmon" where
  "mkEmptyThreadQ emptylist = INIT_LIST_HEAD emptylist"

definition emptyThreadQ :: "list_head \<Rightarrow> bool kmon" where
  "emptyThreadQ head = list_empty head"

definition insertThread :: "list_head \<Rightarrow> U32 \<Rightarrow> unit kmon" where
  "insertThread head p = list_add_tail (T_next p) head"

definition removeThread :: "list_head \<Rightarrow> U32 kmon" where
  "removeThread head =
     kbind (list_empty head) (\<lambda>empty.
     if empty then kreturn NULL
     else
       kbind (read_next head) (\<lambda>first.
       kbind (container_of By_t_next first) (\<lambda>p.
       kbind (read_next head) (\<lambda>x.
       kthen (list_del x) (kreturn p)))))"

definition outThread :: "list_head \<Rightarrow> U32 \<Rightarrow> U32 kmon" where
  "outThread head p =
     kbind (list_empty head) (\<lambda>empty.
     if empty then kreturn NULL
     else
       kbind (read_next head) (\<lambda>first.
       kbind (for_each_entry LOOP_BOUND By_t_next head (\<lambda>pos. kreturn (pos = p)) first) (\<lambda>found.
       case found of
         None \<Rightarrow> kreturn NULL
       | Some pos \<Rightarrow> kthen (list_del (T_next pos)) (kreturn pos))))"

definition headThread :: "list_head \<Rightarrow> U32 kmon" where
  "headThread head =
     kbind (list_empty head) (\<lambda>empty.
     if empty then kreturn NULL
     else kbind (read_next head) (\<lambda>first. container_of By_t_next first))"

definition emptyChild :: "U32 \<Rightarrow> bool kmon" where
  "emptyChild this = list_empty (T_child this)"

definition insertChild :: "U32 \<Rightarrow> U32 \<Rightarrow> unit kmon" where
  "insertChild parent child =
     kthen (upd_tcb child (\<lambda>t. t\<lparr>t_parent := parent\<rparr>))
     (list_add_tail (T_sib child) (T_child parent))"

definition removeChild :: "U32 \<Rightarrow> U32 kmon" where
  "removeChild parent =
     kbind (list_empty (T_child parent)) (\<lambda>empty.
     if empty then kreturn NULL
     else
       kbind (read_next (T_child parent)) (\<lambda>first.
       kbind (container_of By_t_sib first) (\<lambda>pos.
       kthen (list_del (T_sib pos))
       (kthen (upd_tcb pos (\<lambda>t. t\<lparr>t_parent := NULL\<rparr>))
       (kreturn pos)))))"

definition outChild :: "U32 \<Rightarrow> U32 kmon" where
  "outChild child =
     kbind (get_tcb child) (\<lambda>t.
     if t_parent t = NULL then kreturn NULL
     else
       kthen (list_del (T_sib child))
       (kthen (upd_tcb child (\<lambda>t. t\<lparr>t_parent := NULL\<rparr>))
       (kreturn child)))"

definition thereIsThread :: "list_head \<Rightarrow> U32 \<Rightarrow> U32 kmon" where
  "thereIsThread head p =
     kbind (list_empty head) (\<lambda>empty.
     if empty then kreturn NULL
     else
       kbind (read_next head) (\<lambda>first.
       kbind (for_each_entry LOOP_BOUND By_t_next head (\<lambda>pos. kreturn (pos = p)) first) (\<lambda>found.
       case found of None \<Rightarrow> kreturn NULL | Some pos \<Rightarrow> kreturn pos)))"

definition insertSibling :: "U32 \<Rightarrow> U32 \<Rightarrow> unit kmon" where
  "insertSibling sibling new = list_add_tail (T_sib new) (T_sib sibling)"

section \<open>Thread queues\<close>

lemma find_eq: "find (\<lambda>x. x = p) xs = (if p \<in> set xs then Some p else None)"
  by (induction xs) auto

lemma container_of_T_next [simp]: "container_of By_t_next (T_next p) = kreturn p"
  by (simp add: container_of_def)

lemma container_of_T_sib [simp]: "container_of By_t_sib (T_sib p) = kreturn p"
  by (simp add: container_of_def)

lemma rep_tcb:
  "rep s H Q \<Longrightarrow> h \<in> H \<Longrightarrow> linker_of h = By_t_next \<Longrightarrow> p \<in> set (Q h) \<Longrightarrow> tcbs s p \<noteq> None"
  using rep_lvalid_member[of s H Q h p] by simp

lemma wp_insertThread:
  assumes "rep s H Q" and "h \<in> H" and "linker_of h = By_t_next"
    and "unlinked H Q By_t_next p" and "tcbs s p \<noteq> None"
    and "\<And>L. rep (s\<lparr>lst := L\<rparr>) H (Q(h := Q h @ [p])) \<Longrightarrow>
           same_outside (set (T_next p # h # members h Q)) (lst s) L \<Longrightarrow> P () (s\<lparr>lst := L\<rparr>)"
  shows "wp (insertThread h p) P E s"
  using wp_add_tail_frame[of s H Q h p P E] assms by (simp add: insertThread_def)

lemma wp_removeThread:
  assumes "rep s H Q" and "h \<in> H" and "linker_of h = By_t_next"
    and "Q h = [] \<Longrightarrow> P NULL s"
    and "\<And>p ps L. Q h = p # ps \<Longrightarrow> rep (s\<lparr>lst := L\<rparr>) H (Q(h := ps)) \<Longrightarrow>
           same_outside (set (h # members h Q)) (lst s) L \<Longrightarrow> P p (s\<lparr>lst := L\<rparr>)"
  shows "wp (removeThread h) P E s"
proof (cases "Q h")
  case Nil
  with assms show ?thesis
    using rep_empty_iff[OF assms(1,2)] rep_lvalid_head[OF assms(1,2)] by (simp add: removeThread_def)
next
  case (Cons p ps)
  have first: "lnext (lst s) h = T_next p"
    using rep_next_head[OF assms(1,2) Cons] assms(3) by simp
  have "wp (list_del (T_next p)) (\<lambda>_. P p) E s"
    using wp_del_frame[OF assms(1,2), of p "\<lambda>_. P p" E] assms(3,5) Cons by simp
  with first Cons show ?thesis
    using rep_empty_iff[OF assms(1,2)] rep_lvalid_head[OF assms(1,2)] by (auto simp: removeThread_def)
qed

lemma thread_walk:
  assumes "rep s H Q" and "h \<in> H" and "linker_of h = By_t_next"
  shows "for_each_entry LOOP_BOUND By_t_next h (\<lambda>pos. kreturn (pos = p)) (lnext (lst s) h) s
         = Inr (if p \<in> set (Q h) then Some p else None, s)"
  using for_each_entry_find[OF assms(1,2), of "\<lambda>pos. kreturn (pos = p)" "\<lambda>x. x = p"] assms(3)
  by (simp add: find_eq)

lemma wp_thread_walk:
  assumes "rep s H Q" and "h \<in> H" and "linker_of h = By_t_next"
  shows "wp (for_each_entry LOOP_BOUND By_t_next h (\<lambda>pos. kreturn (pos = p)) (lnext (lst s) h)) R E s
         = R (if p \<in> set (Q h) then Some p else None) s"
  using thread_walk[OF assms, of p] by (simp add: wp_def)

lemma wp_outThread:
  assumes "rep s H Q" and "h \<in> H" and "linker_of h = By_t_next"
    and "p \<notin> set (Q h) \<Longrightarrow> P NULL s"
    and "\<And>L. p \<in> set (Q h) \<Longrightarrow> p \<noteq> NULL \<Longrightarrow> rep (s\<lparr>lst := L\<rparr>) H (Q(h := remove1 p (Q h))) \<Longrightarrow>
           same_outside (set (h # members h Q)) (lst s) L \<Longrightarrow> P p (s\<lparr>lst := L\<rparr>)"
  shows "wp (outThread h p) P E s"
proof -
  have del: "wp (list_del (T_next p)) (\<lambda>_. P p) E s" if "p \<in> set (Q h)"
    using wp_del_frame[OF assms(1,2) that, of "\<lambda>_. P p" E] assms(3,5) that rep_not_NULL[OF assms(1,2) that]
    by simp
  show ?thesis
    using assms(4) del rep_empty_iff[OF assms(1,2)] rep_lvalid_head[OF assms(1,2)]
    by (auto simp: outThread_def wp_thread_walk[OF assms(1-3)])
qed

lemma thereIsThread_eq:
  assumes "rep s H Q" and "h \<in> H" and "linker_of h = By_t_next"
  shows "thereIsThread h p s = Inr (if p \<in> set (Q h) then p else NULL, s)"
proof -
  have e: "list_empty h s = Inr (Q h = [], s)"
    using rep_empty_iff[OF assms(1,2)] rep_lvalid_head[OF assms(1,2)]
    by (simp add: list_empty_def read_next_def kbind_def)
  have n: "read_next h s = Inr (lnext (lst s) h, s)"
    using rep_lvalid_head[OF assms(1,2)] by (simp add: read_next_def)
  show ?thesis
    by (auto simp: thereIsThread_def kbind_def e n thread_walk[OF assms])
qed

lemma headThread_eq:
  assumes "rep s H Q" and "h \<in> H" and "linker_of h = By_t_next"
  shows "headThread h s = Inr (case Q h of [] \<Rightarrow> NULL | p # ps \<Rightarrow> p, s)"
proof (cases "Q h")
  case Nil
  with assms show ?thesis
    using rep_empty_iff[OF assms(1,2)] rep_lvalid_head[OF assms(1,2)]
    by (simp add: headThread_def list_empty_def read_next_def kbind_def)
next
  case (Cons p ps)
  with assms show ?thesis
    using rep_empty_iff[OF assms(1,2)] rep_lvalid_head[OF assms(1,2)] rep_next_head[OF assms(1,2) Cons]
    by (simp add: headThread_def list_empty_def read_next_def kbind_def)
qed

section \<open>The thread tree\<close>

lemma wp_insertChild:
  assumes "rep s H Q" and "T_child parent \<in> H" and "unlinked H Q By_t_sib child"
    and "tcbs s child = Some t"
    and "\<And>L. rep (s\<lparr>tcbs := (tcbs s)(child \<mapsto> t\<lparr>t_parent := parent\<rparr>), lst := L\<rparr>) H
                (Q(T_child parent := Q (T_child parent) @ [child])) \<Longrightarrow>
           same_outside (set (T_sib child # T_child parent # members (T_child parent) Q)) (lst s) L \<Longrightarrow>
           P () (s\<lparr>tcbs := (tcbs s)(child \<mapsto> t\<lparr>t_parent := parent\<rparr>), lst := L\<rparr>)"
  shows "wp (insertChild parent child) P E s"
proof -
  let ?s = "s\<lparr>tcbs := (tcbs s)(child \<mapsto> t\<lparr>t_parent := parent\<rparr>)\<rparr>"
  have r: "rep ?s H Q" using assms(1,4) by simp
  have "wp (list_add_tail (T_sib child) (T_child parent)) P E ?s"
    using wp_add_tail_frame[OF r assms(2), of child P E] assms(3,4,5) by simp
  then show ?thesis using assms(4) by (simp add: insertChild_def)
qed

lemma wp_removeChild:
  assumes "rep s H Q" and "T_child parent \<in> H"
    and "Q (T_child parent) = [] \<Longrightarrow> P NULL s"
    and "\<And>c cs t L. Q (T_child parent) = c # cs \<Longrightarrow> tcbs s c = Some t \<Longrightarrow> c \<noteq> NULL \<Longrightarrow>
           rep (s\<lparr>lst := L, tcbs := (tcbs s)(c \<mapsto> t\<lparr>t_parent := NULL\<rparr>)\<rparr>) H (Q(T_child parent := cs)) \<Longrightarrow>
           same_outside (set (T_child parent # members (T_child parent) Q)) (lst s) L \<Longrightarrow>
           P c (s\<lparr>lst := L, tcbs := (tcbs s)(c \<mapsto> t\<lparr>t_parent := NULL\<rparr>)\<rparr>)"
  shows "wp (removeChild parent) P E s"
proof (cases "Q (T_child parent)")
  case Nil
  with assms show ?thesis
    using rep_empty_iff[OF assms(1,2)] rep_lvalid_head[OF assms(1,2)] by (simp add: removeChild_def)
next
  case (Cons c cs)
  have mem: "c \<in> set (Q (T_child parent))" by (simp add: Cons)
  obtain t where t: "tcbs s c = Some t" using rep_lvalid_member[OF assms(1,2) mem] by auto
  have first: "lnext (lst s) (T_child parent) = T_sib c"
    using rep_next_head[OF assms(1,2) Cons] by simp
  have "wp (list_del (T_sib c)) (\<lambda>_. wp (kthen (upd_tcb c (\<lambda>t. t\<lparr>t_parent := NULL\<rparr>)) (kreturn c)) P E) E s"
    using wp_del_frame[OF assms(1,2) mem, of
        "\<lambda>_. wp (kthen (upd_tcb c (\<lambda>t. t\<lparr>t_parent := NULL\<rparr>)) (kreturn c)) P E" E]
      assms(4)[OF Cons t rep_not_NULL[OF assms(1,2) mem]] Cons t by simp
  with first Cons show ?thesis
    using rep_empty_iff[OF assms(1,2)] rep_lvalid_head[OF assms(1,2)] by (auto simp: removeChild_def)
qed

lemma wp_outChild:
  assumes "rep s H Q" and "tcbs s child = Some t"
    and "t_parent t = NULL \<Longrightarrow> P NULL s"
    and "t_parent t \<noteq> NULL \<Longrightarrow> T_child (t_parent t) \<in> H \<and> child \<in> set (Q (T_child (t_parent t)))"
    and "\<And>L. t_parent t \<noteq> NULL \<Longrightarrow>
           rep (s\<lparr>lst := L, tcbs := (tcbs s)(child \<mapsto> t\<lparr>t_parent := NULL\<rparr>)\<rparr>) H
             (Q(T_child (t_parent t) := remove1 child (Q (T_child (t_parent t))))) \<Longrightarrow>
           same_outside (set (T_child (t_parent t) # members (T_child (t_parent t)) Q)) (lst s) L \<Longrightarrow>
           P child (s\<lparr>lst := L, tcbs := (tcbs s)(child \<mapsto> t\<lparr>t_parent := NULL\<rparr>)\<rparr>)"
  shows "wp (outChild child) P E s"
proof (cases "t_parent t = NULL")
  case True
  with assms show ?thesis by (simp add: outChild_def)
next
  case False
  let ?h = "T_child (t_parent t)"
  from False assms(4) have h: "?h \<in> H" and m: "child \<in> set (Q ?h)" by auto
  have "wp (list_del (T_sib child))
          (\<lambda>_. wp (kthen (upd_tcb child (\<lambda>t. t\<lparr>t_parent := NULL\<rparr>)) (kreturn child)) P E) E s"
    using wp_del_frame[OF assms(1) h m, of
        "\<lambda>_. wp (kthen (upd_tcb child (\<lambda>t. t\<lparr>t_parent := NULL\<rparr>)) (kreturn child)) P E" E]
      assms(2) assms(5)[OF False] by simp
  with False assms(2) show ?thesis by (simp add: outChild_def)
qed

section \<open>The TCB pool\<close>

text \<open>What \<open>allocTcb\<close> leaves in the fields of the TCB it returns.\<close>

definition fresh_tcb :: "tcb_t \<Rightarrow> tcb_t" where
  "fresh_tcb t = t\<lparr>t_parent := NULL, t_state := init_t_state (t_state t), cpu_time := 0,
     cpu_slice := 0, waiting_for := - 1, reply := - 1, sysbp_manager_thread := NULL,
     pgmtrap_manager_thread := NULL, tlbtrap_manager_thread := NULL\<rparr>"

definition zero_state :: state_t where
  "zero_state = \<lparr>entry_hi = 0, cause = 0, status = 0, pc_epc = 0, gpr = replicate 29 0, hi = 0, lo = 0\<rparr>"

lemma fold_gpr_zero:
  assumes "n \<le> 29" and "length (gpr st) = 29"
  shows "fold (\<lambda>i st. gpr_set i 0 st) [0..<n] st = st\<lparr>gpr := replicate n 0 @ drop n (gpr st)\<rparr>"
  using assms
proof (induction n)
  case 0
  then show ?case by simp
next
  case (Suc n)
  then have "(replicate n 0 @ drop n (gpr st))[n := 0] = replicate (Suc n) 0 @ drop (Suc n) (gpr st)"
    by (simp add: list_update_append Cons_nth_drop_Suc[symmetric] replicate_append_same)
  with Suc show ?case by (simp add: gpr_set_def)
qed

lemma init_t_state_eq: "length (gpr st) = 29 \<Longrightarrow> init_t_state st = zero_state"
  by (simp add: init_t_state_def zero_state_def fold_gpr_zero)

lemma unlinked_fun_upd:
  "unlinked H Q k p \<Longrightarrow> (linker_of h = k \<Longrightarrow> p \<notin> set xs) \<Longrightarrow> unlinked H (Q(h := xs)) k p"
  by (auto simp: unlinked_def)

lemma wp_allocTcb:
  assumes r: "rep s H Q" and H: "Tcbfree_sentinel \<in> H"
    and nc: "\<And>p. p \<in> set (Q Tcbfree_sentinel) \<Longrightarrow>
               T_child p \<notin> H \<and> T_inbox p \<notin> H \<and> unlinked H Q By_t_sib p"
    and P0: "Q Tcbfree_sentinel = [] \<Longrightarrow> P NULL s"
    and P1: "\<And>p ps t L. Q Tcbfree_sentinel = p # ps \<Longrightarrow> tcbs s p = Some t \<Longrightarrow> p \<noteq> NULL \<Longrightarrow>
       rep (s\<lparr>lst := L, tcbs := (tcbs s)(p \<mapsto> fresh_tcb t)\<rparr>) (insert (T_inbox p) (insert (T_child p) H))
         (Q(Tcbfree_sentinel := ps, T_child p := [], T_inbox p := [])) \<Longrightarrow>
       (\<And>x. x \<noteq> p \<Longrightarrow> lprev L (T_sib x) = lprev (lst s) (T_sib x)) \<Longrightarrow>
       P p (s\<lparr>lst := L, tcbs := (tcbs s)(p \<mapsto> fresh_tcb t)\<rparr>)"
  shows "wp allocTcb P E s"
proof (cases "Q Tcbfree_sentinel")
  case Nil
  with P0 show ?thesis
    using rep_empty_iff[OF r H] by (simp add: allocTcb_def)
next
  case (Cons p ps)
  have mem: "p \<in> set (Q Tcbfree_sentinel)" by (simp add: Cons)
  obtain t where t: "tcbs s p = Some t" using rep_lvalid_member[OF r H mem] by auto
  have first: "lnext (lst s) Tcbfree_sentinel = T_next p" using rep_next_head[OF r H Cons] by simp
  have ne: "lnext (lst s) Tcbfree_sentinel \<noteq> Tcbfree_sentinel" by (simp add: first)
  have pn: "p \<noteq> NULL" by (rule rep_not_NULL[OF r H mem])
  let ?Q1 = "Q(Tcbfree_sentinel := ps)"
  have un: "unlinked (insert (T_child p) H) (?Q1(T_child p := [])) By_t_sib p"
    using nc[OF mem] by (auto simp: unlinked_def)
  have init: "P p (s\<lparr>lst := self_loop (T_inbox p) (self_loop (T_sib p) (self_loop (T_child p) L)),
                     tcbs := (tcbs s)(p \<mapsto> fresh_tcb t)\<rparr>)"
    if "rep (s\<lparr>lst := L\<rparr>) H ?Q1" and so: "same_outside (set (Tcbfree_sentinel # members Tcbfree_sentinel Q)) (lst s) L" for L
  proof (rule P1[OF Cons t pn])
    show "lprev (self_loop (T_inbox p) (self_loop (T_sib p) (self_loop (T_child p) L))) (T_sib x) = lprev (lst s) (T_sib x)"
      if "x \<noteq> p" for x
      using so that by (auto simp: same_outside_def self_loop_def members_def)
    have "rep (s\<lparr>lst := self_loop (T_child p) L\<rparr>) (insert (T_child p) H) (?Q1(T_child p := []))"
      using that nc[OF mem] t by (intro rep_self_loop) auto
    then have "rep (s\<lparr>lst := self_loop (T_sib p) (self_loop (T_child p) L)\<rparr>)
                 (insert (T_child p) H) (?Q1(T_child p := []))"
      using un by (rule rep_self_loop_sib)
    then have "rep (s\<lparr>lst := self_loop (T_inbox p) (self_loop (T_sib p) (self_loop (T_child p) L))\<rparr>)
                 (insert (T_inbox p) (insert (T_child p) H)) (?Q1(T_child p := [], T_inbox p := []))"
      using nc[OF mem] t by (intro rep_self_loop) auto
    then show "rep (s\<lparr>lst := self_loop (T_inbox p) (self_loop (T_sib p) (self_loop (T_child p) L)),
                     tcbs := (tcbs s)(p \<mapsto> fresh_tcb t)\<rparr>)
                 (insert (T_inbox p) (insert (T_child p) H)) (?Q1(T_child p := [], T_inbox p := []))"
      using t by (subst rep_tcbs_update) auto
  qed
  let ?rest = "kthen (upd_tcb p (\<lambda>t. t\<lparr>t_parent := NULL\<rparr>))
     (kthen (INIT_LIST_HEAD (T_child p)) (kthen (INIT_LIST_HEAD (T_sib p)) (kthen (INIT_LIST_HEAD (T_inbox p))
     (kthen (upd_tcb p (\<lambda>t. t\<lparr>t_state := init_t_state (t_state t), cpu_time := 0, cpu_slice := 0,
        waiting_for := - 1, reply := - 1, sysbp_manager_thread := NULL,
        pgmtrap_manager_thread := NULL, tlbtrap_manager_thread := NULL\<rparr>)) (kreturn p)))))"
  have "wp (list_del (T_next p)) (\<lambda>_. wp ?rest P E) E s"
    using wp_del_frame[OF r H mem, of "\<lambda>_. wp ?rest P E" E] init Cons t
    by (simp add: fresh_tcb_def)
  then show ?thesis using ne by (simp add: allocTcb_def first)
qed

lemma wp_freeTcb:
  assumes "rep s H Q" and "Tcbfree_sentinel \<in> H" and "unlinked H Q By_t_next p" and "tcbs s p \<noteq> None"
    and "\<And>L. rep (s\<lparr>lst := L\<rparr>) H (Q(Tcbfree_sentinel := Q Tcbfree_sentinel @ [p])) \<Longrightarrow> P () (s\<lparr>lst := L\<rparr>)"
  shows "wp (freeTcb p) P E s"
  using wp_add_tail_frame[OF assms(1,2), of p P E] assms(3-5) by (simp add: freeTcb_def)

text \<open>
  \<open>insertSibling\<close> among threads that are nobody's children: it links the new thread before its
  sibling and leaves every list alone, as long as the link before the sibling's is on no list of
  children.
\<close>

lemma rep_add_sibling:
  assumes r: "rep s H Q" and un: "\<And>x. x \<in> {new, sibling, q} \<Longrightarrow> unlinked H Q By_t_sib x"
  shows "rep (s\<lparr>lst := add_between (T_sib new) (T_sib q) (T_sib sibling) (lst s)\<rparr>) H Q"
proof (rule rep_outside[OF r])
  show "same_outside (T_sib ` {new, sibling, q}) (lst s) (add_between (T_sib new) (T_sib q) (T_sib sibling) (lst s))"
    by (auto simp: same_outside_def add_between_def)
  show "T_sib ` {new, sibling, q} \<inter> set (h # members h Q) = {}" if "h \<in> H" for h
    using un that rings_sentinel[OF rep_rings[OF r] that] in_members[of By_t_sib _ h Q] by (auto simp: unlinked_def)
qed

lemma wp_insertSibling_links:
  "lprev (lst s) (T_sib sibling) = T_sib q \<Longrightarrow> tcbs s new \<noteq> None \<Longrightarrow> tcbs s sibling \<noteq> None \<Longrightarrow> tcbs s q \<noteq> None \<Longrightarrow>
   wp (insertSibling sibling new) P E s = P () (s\<lparr>lst := add_between (T_sib new) (T_sib q) (T_sib sibling) (lst s)\<rparr>)"
  by (simp add: insertSibling_def list_add_tail_def wp_list_add_between)

lemma wp_insertSibling:
  assumes r: "rep s H Q" and prev: "lprev (lst s) (T_sib sibling) = T_sib q"
    and un: "\<And>x. x \<in> {new, sibling, q} \<Longrightarrow> unlinked H Q By_t_sib x \<and> tcbs s x \<noteq> None"
    and P: "\<And>L. rep (s\<lparr>lst := L\<rparr>) H Q \<Longrightarrow> P () (s\<lparr>lst := L\<rparr>)"
  shows "wp (insertSibling sibling new) P E s"
proof -
  have v: "tcbs s new \<noteq> None" "tcbs s sibling \<noteq> None" "tcbs s q \<noteq> None" using un by simp_all
  have "rep (s\<lparr>lst := add_between (T_sib new) (T_sib q) (T_sib sibling) (lst s)\<rparr>) H Q"
    by (rule rep_add_sibling[OF r]) (use un in blast)
  then show ?thesis unfolding wp_insertSibling_links[OF prev v] by (rule P)
qed

text \<open>The link-time layout of the TCB pool.\<close>

definition tcb_layout :: "layout \<Rightarrow> kstate \<Rightarrow> bool" where
  "tcb_layout lay s \<longleftrightarrow> length (thread_array lay) = MAXTHREADS \<and> distinct (thread_array lay)
     \<and> (\<forall>p\<in>set (thread_array lay). tcbs s p \<noteq> None)"

lemma wp_initTcbs:
  assumes "rep s H Q" and "Tcbfree_sentinel \<notin> H" and "tcb_layout lay s"
    and "\<And>p. p \<in> set (thread_array lay) \<Longrightarrow> unlinked H Q By_t_next p"
    and "\<And>L. rep (s\<lparr>lst := L\<rparr>) (insert Tcbfree_sentinel H) (Q(Tcbfree_sentinel := thread_array lay)) \<Longrightarrow>
           P () (s\<lparr>lst := L\<rparr>)"
  shows "wp (initTcbs lay) P E s"
proof -
  let ?s = "s\<lparr>lst := self_loop Tcbfree_sentinel (lst s)\<rparr>"
    and ?Q = "Q(Tcbfree_sentinel := [])" and ?H = "insert Tcbfree_sentinel H"
  have r: "rep ?s ?H ?Q"
    using assms(1,2) rep_self_loop[where s = s and L = "lst s" and l = Tcbfree_sentinel] by simp
  have "wp (kfor (thread_array lay) (\<lambda>p. list_add_tail (link_of (linker_of Tcbfree_sentinel) p) Tcbfree_sentinel)) P E ?s"
  proof (rule wp_kfor_add_tail[OF r])
    show "unlinked ?H ?Q (linker_of Tcbfree_sentinel) p \<and> lvalid ?s (link_of (linker_of Tcbfree_sentinel) p)"
      if "p \<in> set (thread_array lay)" for p
      using assms(3) assms(4)[OF that] that by (auto simp: unlinked_def tcb_layout_def)
    show "P () (?s\<lparr>lst := L\<rparr>)"
      if "rep (?s\<lparr>lst := L\<rparr>) ?H (?Q(Tcbfree_sentinel := ?Q Tcbfree_sentinel @ thread_array lay))" for L
      using assms(5)[of L] that by simp
  qed (use assms(3) in \<open>simp_all add: tcb_layout_def\<close>)
  then show ?thesis
    using assms(3) by (simp add: initTcbs_def tcb_layout_def kfor_array del: upt_rec_numeral)
qed

section \<open>The contracts\<close>

interpretation threadq: fifo_queue
  "\<lambda>s H Q. rep s H Q \<and> (\<forall>h\<in>H. linker_of h = By_t_next)"
  "\<lambda>s H Q h p. unlinked H Q By_t_next p \<and> tcbs s p \<noteq> None"
  insertThread removeThread NULL
proof unfold_locales
  fix s H Q h p
  assume r: "rep s H Q \<and> (\<forall>h\<in>H. linker_of h = By_t_next)" and h: "h \<in> H"
    and a: "unlinked H Q By_t_next p \<and> tcbs s p \<noteq> None"
  have "wp (insertThread h p) (\<lambda>_ s'. rep s' H (Q(h := Q h @ [p])) \<and> tcbs s' = tcbs s) no_stop s"
    by (rule wp_insertThread[of s H Q]) (use r h a in auto)
  with a r h show "\<exists>s'. insertThread h p s = Inr ((), s') \<and>
      (rep s' H (Q(h := Q h @ [p])) \<and> (\<forall>h\<in>H. linker_of h = By_t_next)) \<and>
      (\<forall>q. (unlinked H Q By_t_next q \<and> tcbs s q \<noteq> None) \<and> q \<noteq> p \<longrightarrow>
           unlinked H (Q(h := Q h @ [p])) By_t_next q \<and> tcbs s' q \<noteq> None)"
    by (auto simp: wp_total unlinked_def)
next
  fix s H Q h and p :: U32 and ps
  assume r: "rep s H Q \<and> (\<forall>h\<in>H. linker_of h = By_t_next)" and h: "h \<in> H" and q: "Q h = p # ps"
  have "wp (removeThread h) (\<lambda>x s'. x = p \<and> rep s' H (Q(h := ps))) no_stop s"
    by (rule wp_removeThread[of s H Q]) (use r h q in auto)
  with r show "\<exists>s'. removeThread h s = Inr (p, s') \<and>
      (rep s' H (Q(h := ps)) \<and> (\<forall>h\<in>H. linker_of h = By_t_next))"
    by (auto simp: wp_total)
next
  fix s H Q h
  assume r: "rep s H Q \<and> (\<forall>h\<in>H. linker_of h = By_t_next)" and h: "h \<in> H" and q: "Q h = []"
  have "wp (removeThread h) (\<lambda>x s'. x = NULL \<and> s' = s) no_stop s"
    by (rule wp_removeThread[of s H Q]) (use r h q in auto)
  then show "removeThread h s = Inr (NULL, s)" by (auto simp: wp_total)
qed

interpretation tcb_pool: object_pool
  "\<lambda>s fs. rep s {Tcbfree_sentinel} (\<lambda>_. fs)" "\<lambda>s p. tcbs s p \<noteq> None" allocTcb freeTcb NULL
proof unfold_locales
  fix s and fs :: "U32 list"
  assume r: "rep s {Tcbfree_sentinel} (\<lambda>_. fs)"
  show "distinct fs \<and> (\<forall>p\<in>set fs. tcbs s p \<noteq> None \<and> p \<noteq> NULL)"
    using rep_distinct[OF r] rep_tcb[OF r] rep_not_NULL[OF r] by auto
next
  fix s
  assume r: "rep s {Tcbfree_sentinel} (\<lambda>_. [])"
  have "wp allocTcb (\<lambda>x s'. x = NULL \<and> s' = s) no_stop s"
    by (rule wp_allocTcb[OF r]) auto
  then show "allocTcb s = Inr (NULL, s)" by (auto simp: wp_total)
next
  fix s and p :: U32 and fs
  assume r: "rep s {Tcbfree_sentinel} (\<lambda>_. p # fs)"
  have "wp allocTcb (\<lambda>x s'. x = p \<and> rep s' {Tcbfree_sentinel} (\<lambda>_. fs) \<and>
          (\<lambda>q. tcbs s' q \<noteq> None) = (\<lambda>q. tcbs s q \<noteq> None)) no_stop s"
  proof (rule wp_allocTcb[OF r])
    fix x xs t L
    assume *: "(\<lambda>_. p # fs) Tcbfree_sentinel = x # xs" "tcbs s x = Some t"
      "rep (s\<lparr>lst := L, tcbs := (tcbs s)(x \<mapsto> fresh_tcb t)\<rparr>)
         (insert (T_inbox x) (insert (T_child x) {Tcbfree_sentinel}))
         ((\<lambda>_. p # fs)(Tcbfree_sentinel := xs, T_child x := [], T_inbox x := []))"
    from *(1) have "rep s' {Tcbfree_sentinel} ((\<lambda>_. p # fs)(Tcbfree_sentinel := xs, T_child x := [], T_inbox x := []))
                    = rep s' {Tcbfree_sentinel} (\<lambda>_. fs)" for s'
      by (intro rep_Q_cong) simp
    with rep_mono[OF *(3), of "{Tcbfree_sentinel}"] *(1,2)
    show "x = p \<and> rep (s\<lparr>lst := L, tcbs := (tcbs s)(x \<mapsto> fresh_tcb t)\<rparr>) {Tcbfree_sentinel} (\<lambda>_. fs) \<and>
          (\<lambda>q. tcbs (s\<lparr>lst := L, tcbs := (tcbs s)(x \<mapsto> fresh_tcb t)\<rparr>) q \<noteq> None) = (\<lambda>q. tcbs s q \<noteq> None)"
      by (auto simp: fun_eq_iff simp del: fun_upd_apply split: if_splits) (auto split: if_splits)
  qed (auto simp: unlinked_def)
  then show "\<exists>s'. allocTcb s = Inr (p, s') \<and> rep s' {Tcbfree_sentinel} (\<lambda>_. fs) \<and>
      (\<lambda>q. tcbs s' q \<noteq> None) = (\<lambda>q. tcbs s q \<noteq> None)"
    by (auto simp: wp_total)
next
  fix s p and fs :: "U32 list"
  assume r: "rep s {Tcbfree_sentinel} (\<lambda>_. fs)" and p: "tcbs s p \<noteq> None" "p \<notin> set fs"
  have "wp (freeTcb p) (\<lambda>_ s'. rep s' {Tcbfree_sentinel} (\<lambda>_. fs @ [p]) \<and> tcbs s' = tcbs s) no_stop s"
  proof (rule wp_freeTcb[OF r])
    have "rep s' {Tcbfree_sentinel} ((\<lambda>_. fs)(Tcbfree_sentinel := fs @ [p])) = rep s' {Tcbfree_sentinel} (\<lambda>_. fs @ [p])" for s'
      by (rule rep_Q_cong) simp
    then show "rep (s\<lparr>lst := L\<rparr>) {Tcbfree_sentinel} (\<lambda>_. fs @ [p]) \<and> tcbs (s\<lparr>lst := L\<rparr>) = tcbs s"
      if "rep (s\<lparr>lst := L\<rparr>) {Tcbfree_sentinel} ((\<lambda>_. fs)(Tcbfree_sentinel := fs @ [p]))" for L
      using that by simp
  qed (use p in \<open>auto simp: unlinked_def\<close>)
  then show "\<exists>s'. freeTcb p s = Inr ((), s') \<and> rep s' {Tcbfree_sentinel} (\<lambda>_. fs @ [p]) \<and>
      (\<lambda>q. tcbs s' q \<noteq> None) = (\<lambda>q. tcbs s q \<noteq> None)"
    by (auto simp: wp_total)
qed

end
