(* ===== verification/Msg.thy ===== *)
theory Msg
  imports Listx Contracts
begin

text \<open>
  \<^verbatim>\<open>phase1/src/msg.c\<close>: the pool of messages and the message queues. The layout follows
  \<^verbatim>\<open>Tcb\<close>: the routines, their effect on the family of sequences, the contracts.
\<close>

section \<open>The routines\<close>

definition initMsg :: "layout \<Rightarrow> unit kmon" where
  "initMsg lay =
     kthen (INIT_LIST_HEAD Msgfree_sentinel)
     (kfor [0..<MAXMESSAGES] (\<lambda>i.
        kbind (array_get (msg_array lay) i) (\<lambda>m.
        list_add_tail (M_next m) Msgfree_sentinel)))"

definition freeMsg :: "U32 \<Rightarrow> unit kmon" where
  "freeMsg m = list_add_tail (M_next m) Msgfree_sentinel"

definition allocMsg :: "U32 kmon" where
  "allocMsg =
     kbind (list_empty Msgfree_sentinel) (\<lambda>empty.
     if empty then kreturn NULL
     else
       kbind (read_next Msgfree_sentinel) (\<lambda>first.
       kbind (container_of By_m_next first) (\<lambda>removed_msg.
       kthen (list_del (M_next removed_msg))
       (kthen (upd_msg removed_msg (\<lambda>m. m\<lparr>m_sender := NULL, m_message := 0\<rparr>))
       (kreturn removed_msg)))))"

definition mkEmptyMessageQ :: "list_head \<Rightarrow> unit kmon" where
  "mkEmptyMessageQ emptylist = INIT_LIST_HEAD emptylist"

definition emptyMessageQ :: "list_head \<Rightarrow> bool kmon" where
  "emptyMessageQ head = list_empty head"

definition insertMessage :: "list_head \<Rightarrow> U32 \<Rightarrow> unit kmon" where
  "insertMessage head mp = list_add_tail (M_next mp) head"

definition pushMessage :: "list_head \<Rightarrow> U32 \<Rightarrow> unit kmon" where
  "pushMessage head mp = list_add (M_next mp) head"

definition sent_by :: "U32 \<Rightarrow> U32 \<Rightarrow> bool kmon" where
  "sent_by mp pos = kbind (get_msg pos) (\<lambda>m. kreturn (m_sender m = mp))"

definition popMessage :: "list_head \<Rightarrow> U32 \<Rightarrow> U32 kmon" where
  "popMessage head mp =
     kbind (list_empty head) (\<lambda>empty.
     if empty then kreturn NULL
     else if mp = NULL then
       kbind (read_next head) (\<lambda>first.
       kbind (container_of By_m_next first) (\<lambda>pos.
       kbind (read_next head) (\<lambda>x.
       kthen (list_del x) (kreturn pos))))
     else
       kbind (read_next head) (\<lambda>first.
       kbind (for_each_entry LOOP_BOUND By_m_next head (sent_by mp) first) (\<lambda>found.
       case found of
         None \<Rightarrow> kreturn NULL
       | Some pos \<Rightarrow> kthen (list_del (M_next pos)) (kreturn pos))))"

definition headMessage :: "list_head \<Rightarrow> U32 kmon" where
  "headMessage head =
     kbind (list_empty head) (\<lambda>empty.
     if empty then kreturn NULL
     else kbind (read_next head) (\<lambda>first. container_of By_m_next first))"

definition thereIsMessage :: "list_head \<Rightarrow> U32 \<Rightarrow> U32 kmon" where
  "thereIsMessage head mp =
     kbind (list_empty head) (\<lambda>empty.
     if empty then kreturn NULL
     else
       kbind (read_next head) (\<lambda>first.
       kbind (for_each_entry LOOP_BOUND By_m_next head (sent_by mp) first) (\<lambda>found.
       case found of None \<Rightarrow> kreturn NULL | Some pos \<Rightarrow> kreturn pos)))"

section \<open>Message queues\<close>

text \<open>The sender recorded in a message, and the message a receiver asking for \<open>mp\<close> gets.\<close>

definition sender_of :: "kstate \<Rightarrow> U32 \<Rightarrow> U32" where
  "sender_of s m = (case msgs s m of None \<Rightarrow> NULL | Some t \<Rightarrow> m_sender t)"

definition pick :: "kstate \<Rightarrow> U32 \<Rightarrow> U32 list \<Rightarrow> U32 option" where
  "pick s mp ms = (if mp = NULL then (case ms of [] \<Rightarrow> None | m # _ \<Rightarrow> Some m)
                   else find (\<lambda>m. sender_of s m = mp) ms)"

lemma container_of_M_next [simp]: "container_of By_m_next (M_next p) = kreturn p"
  by (simp add: container_of_def)

lemma pick_in_set: "pick s mp ms = Some m \<Longrightarrow> m \<in> set ms"
  by (auto simp: pick_def find_Some_iff split: if_splits list.splits)

lemma rep_msg:
  "rep s H Q \<Longrightarrow> h \<in> H \<Longrightarrow> linker_of h = By_m_next \<Longrightarrow> m \<in> set (Q h) \<Longrightarrow> msgs s m \<noteq> None"
  using rep_lvalid_member[of s H Q h m] by simp

lemma wp_insertMessage:
  assumes "rep s H Q" and "h \<in> H" and "linker_of h = By_m_next"
    and "unlinked H Q By_m_next m" and "msgs s m \<noteq> None"
    and "\<And>L. rep (s\<lparr>lst := L\<rparr>) H (Q(h := Q h @ [m])) \<Longrightarrow>
           same_outside (set (M_next m # h # members h Q)) (lst s) L \<Longrightarrow> P () (s\<lparr>lst := L\<rparr>)"
  shows "wp (insertMessage h m) P E s"
  using wp_add_tail_frame[of s H Q h m P E] assms by (simp add: insertMessage_def)

lemma wp_pushMessage:
  assumes "rep s H Q" and "h \<in> H" and "linker_of h = By_m_next"
    and "unlinked H Q By_m_next m" and "msgs s m \<noteq> None"
    and "\<And>L. rep (s\<lparr>lst := L\<rparr>) H (Q(h := m # Q h)) \<Longrightarrow>
           same_outside (set (M_next m # h # members h Q)) (lst s) L \<Longrightarrow> P () (s\<lparr>lst := L\<rparr>)"
  shows "wp (pushMessage h m) P E s"
  using wp_add_head_frame[of s H Q h m P E] assms by (simp add: pushMessage_def)

lemma message_walk:
  assumes "rep s H Q" and "h \<in> H" and "linker_of h = By_m_next"
  shows "for_each_entry LOOP_BOUND By_m_next h (sent_by mp) (lnext (lst s) h) s
         = Inr (find (\<lambda>m. sender_of s m = mp) (Q h), s)"
proof -
  have "sent_by mp m s = Inr (sender_of s m = mp, s)" if "m \<in> set (Q h)" for m
    using rep_msg[OF assms that]
    by (auto simp: sent_by_def get_msg_def sender_of_def kbind_def split: option.splits)
  from for_each_entry_find[OF assms(1,2), of "sent_by mp" "\<lambda>m. sender_of s m = mp", OF this] assms(3)
  show ?thesis by simp
qed

lemma wp_message_walk:
  assumes "rep s H Q" and "h \<in> H" and "linker_of h = By_m_next"
  shows "wp (for_each_entry LOOP_BOUND By_m_next h (sent_by mp) (lnext (lst s) h)) R E s
         = R (find (\<lambda>m. sender_of s m = mp) (Q h)) s"
  using message_walk[OF assms, of mp] by (simp add: wp_def)

lemma wp_popMessage:
  assumes r: "rep s H Q" and h: "h \<in> H" and k: "linker_of h = By_m_next"
    and P0: "pick s mp (Q h) = None \<Longrightarrow> P NULL s"
    and P1: "\<And>m L. pick s mp (Q h) = Some m \<Longrightarrow> m \<in> set (Q h) \<Longrightarrow> m \<noteq> NULL \<Longrightarrow>
           rep (s\<lparr>lst := L\<rparr>) H (Q(h := remove1 m (Q h))) \<Longrightarrow>
           same_outside (set (h # members h Q)) (lst s) L \<Longrightarrow> P m (s\<lparr>lst := L\<rparr>)"
  shows "wp (popMessage h mp) P E s"
proof -
  note e = rep_empty_iff[OF r h] rep_lvalid_head[OF r h]
  have del: "wp (list_del (M_next m)) (\<lambda>_. P m) E s" if "pick s mp (Q h) = Some m" for m
    using wp_del_frame[OF r h pick_in_set[OF that], of "\<lambda>_. P m" E] k
      P1[OF that pick_in_set[OF that] rep_not_NULL[OF r h pick_in_set[OF that]]] by simp
  consider "Q h = []" | m ms where "Q h = m # ms" "mp = NULL" | "Q h \<noteq> []" "mp \<noteq> NULL"
    by (cases "Q h") auto
  then show ?thesis
  proof cases
    case 1
    with P0 e show ?thesis by (simp add: popMessage_def pick_def)
  next
    case 2
    with del[of m] e rep_next_head[OF r h 2(1)] k show ?thesis
      by (auto simp: popMessage_def pick_def)
  next
    case 3
    then have p: "pick s mp (Q h) = find (\<lambda>m. sender_of s m = mp) (Q h)" by (simp add: pick_def)
    show ?thesis
      using 3 e del P0 p
      by (cases "find (\<lambda>m. sender_of s m = mp) (Q h)")
         (auto simp: popMessage_def wp_message_walk[OF r h k])
  qed
qed

lemma thereIsMessage_eq:
  assumes "rep s H Q" and "h \<in> H" and "linker_of h = By_m_next"
  shows "thereIsMessage h mp s
         = Inr (case find (\<lambda>m. sender_of s m = mp) (Q h) of None \<Rightarrow> NULL | Some m \<Rightarrow> m, s)"
proof -
  have e: "list_empty h s = Inr (Q h = [], s)"
    using rep_empty_iff[OF assms(1,2)] rep_lvalid_head[OF assms(1,2)]
    by (simp add: list_empty_def read_next_def kbind_def)
  have n: "read_next h s = Inr (lnext (lst s) h, s)"
    using rep_lvalid_head[OF assms(1,2)] by (simp add: read_next_def)
  show ?thesis
    by (auto simp: thereIsMessage_def kbind_def e n message_walk[OF assms] split: option.splits)
qed

section \<open>The message pool\<close>

definition blank_msg :: "msg_t \<Rightarrow> msg_t" where
  "blank_msg t = t\<lparr>m_sender := NULL, m_message := 0\<rparr>"

lemma wp_allocMsg:
  assumes r: "rep s H Q" and H: "Msgfree_sentinel \<in> H"
    and P0: "Q Msgfree_sentinel = [] \<Longrightarrow> P NULL s"
    and P1: "\<And>m ms t L. Q Msgfree_sentinel = m # ms \<Longrightarrow> msgs s m = Some t \<Longrightarrow> m \<noteq> NULL \<Longrightarrow>
       rep (s\<lparr>lst := L, msgs := (msgs s)(m \<mapsto> blank_msg t)\<rparr>) H (Q(Msgfree_sentinel := ms)) \<Longrightarrow>
       P m (s\<lparr>lst := L, msgs := (msgs s)(m \<mapsto> blank_msg t)\<rparr>)"
  shows "wp allocMsg P E s"
proof (cases "Q Msgfree_sentinel")
  case Nil
  with P0 show ?thesis using rep_empty_iff[OF r H] by (simp add: allocMsg_def)
next
  case (Cons m ms)
  have mem: "m \<in> set (Q Msgfree_sentinel)" by (simp add: Cons)
  obtain t where t: "msgs s m = Some t" using rep_lvalid_member[OF r H mem] by auto
  have first: "lnext (lst s) Msgfree_sentinel = M_next m" using rep_next_head[OF r H Cons] by simp
  let ?rest = "kthen (upd_msg m (\<lambda>m. m\<lparr>m_sender := NULL, m_message := 0\<rparr>)) (kreturn m)"
  have "wp (list_del (M_next m)) (\<lambda>_. wp ?rest P E) E s"
    using wp_del_frame[OF r H mem, of "\<lambda>_. wp ?rest P E" E] Cons t
      P1[OF Cons t rep_not_NULL[OF r H mem]]
    by (simp add: blank_msg_def)
  then show ?thesis by (simp add: allocMsg_def first)
qed

lemma wp_freeMsg:
  assumes "rep s H Q" and "Msgfree_sentinel \<in> H" and "unlinked H Q By_m_next p" and "msgs s p \<noteq> None"
    and "\<And>L. rep (s\<lparr>lst := L\<rparr>) H (Q(Msgfree_sentinel := Q Msgfree_sentinel @ [p])) \<Longrightarrow> P () (s\<lparr>lst := L\<rparr>)"
  shows "wp (freeMsg p) P E s"
  using wp_add_tail_frame[OF assms(1,2), of p P E] assms(3-5) by (simp add: freeMsg_def)

text \<open>The link-time layout of the message pool.\<close>

definition msg_layout :: "layout \<Rightarrow> kstate \<Rightarrow> bool" where
  "msg_layout lay s \<longleftrightarrow> length (msg_array lay) = MAXMESSAGES \<and> distinct (msg_array lay)
     \<and> (\<forall>p\<in>set (msg_array lay). msgs s p \<noteq> None)"

lemma wp_initMsg:
  assumes "rep s H Q" and "Msgfree_sentinel \<notin> H" and "msg_layout lay s"
    and "\<And>p. p \<in> set (msg_array lay) \<Longrightarrow> unlinked H Q By_m_next p"
    and "\<And>L. rep (s\<lparr>lst := L\<rparr>) (insert Msgfree_sentinel H) (Q(Msgfree_sentinel := msg_array lay)) \<Longrightarrow>
           P () (s\<lparr>lst := L\<rparr>)"
  shows "wp (initMsg lay) P E s"
proof -
  let ?s = "s\<lparr>lst := self_loop Msgfree_sentinel (lst s)\<rparr>"
    and ?Q = "Q(Msgfree_sentinel := [])" and ?H = "insert Msgfree_sentinel H"
  have r: "rep ?s ?H ?Q"
    using assms(1,2) rep_self_loop[where s = s and L = "lst s" and l = Msgfree_sentinel] by simp
  have "wp (kfor (msg_array lay) (\<lambda>p. list_add_tail (link_of (linker_of Msgfree_sentinel) p) Msgfree_sentinel)) P E ?s"
  proof (rule wp_kfor_add_tail[OF r])
    show "unlinked ?H ?Q (linker_of Msgfree_sentinel) p \<and> lvalid ?s (link_of (linker_of Msgfree_sentinel) p)"
      if "p \<in> set (msg_array lay)" for p
      using assms(3) assms(4)[OF that] that by (auto simp: unlinked_def msg_layout_def)
    show "P () (?s\<lparr>lst := L\<rparr>)"
      if "rep (?s\<lparr>lst := L\<rparr>) ?H (?Q(Msgfree_sentinel := ?Q Msgfree_sentinel @ msg_array lay))" for L
      using assms(5)[of L] that by simp
  qed (use assms(3) in \<open>simp_all add: msg_layout_def\<close>)
  then show ?thesis
    using assms(3) by (simp add: initMsg_def msg_layout_def kfor_array del: upt_rec_numeral)
qed

section \<open>The contracts\<close>

interpretation msgq: fifo_queue
  "\<lambda>s H Q. rep s H Q \<and> (\<forall>h\<in>H. linker_of h = By_m_next)"
  "\<lambda>s H Q h p. unlinked H Q By_m_next p \<and> msgs s p \<noteq> None"
  insertMessage "\<lambda>h. popMessage h NULL" NULL
proof unfold_locales
  fix s H Q h p
  assume r: "rep s H Q \<and> (\<forall>h\<in>H. linker_of h = By_m_next)" and h: "h \<in> H"
    and a: "unlinked H Q By_m_next p \<and> msgs s p \<noteq> None"
  have "wp (insertMessage h p) (\<lambda>_ s'. rep s' H (Q(h := Q h @ [p])) \<and> msgs s' = msgs s) no_stop s"
    by (rule wp_insertMessage[of s H Q]) (use r h a in auto)
  with a r h show "\<exists>s'. insertMessage h p s = Inr ((), s') \<and>
      (rep s' H (Q(h := Q h @ [p])) \<and> (\<forall>h\<in>H. linker_of h = By_m_next)) \<and>
      (\<forall>q. (unlinked H Q By_m_next q \<and> msgs s q \<noteq> None) \<and> q \<noteq> p \<longrightarrow>
           unlinked H (Q(h := Q h @ [p])) By_m_next q \<and> msgs s' q \<noteq> None)"
    by (auto simp: wp_total unlinked_def)
next
  fix s H Q h and p :: U32 and ps
  assume r: "rep s H Q \<and> (\<forall>h\<in>H. linker_of h = By_m_next)" and h: "h \<in> H" and q: "Q h = p # ps"
  have "wp (popMessage h NULL) (\<lambda>x s'. x = p \<and> rep s' H (Q(h := ps))) no_stop s"
    by (rule wp_popMessage[of s H Q]) (use r h q in \<open>auto simp: pick_def\<close>)
  with r show "\<exists>s'. popMessage h NULL s = Inr (p, s') \<and>
      (rep s' H (Q(h := ps)) \<and> (\<forall>h\<in>H. linker_of h = By_m_next))"
    by (auto simp: wp_total)
next
  fix s H Q h
  assume r: "rep s H Q \<and> (\<forall>h\<in>H. linker_of h = By_m_next)" and h: "h \<in> H" and q: "Q h = []"
  have "wp (popMessage h NULL) (\<lambda>x s'. x = NULL \<and> s' = s) no_stop s"
    by (rule wp_popMessage[of s H Q]) (use r h q in \<open>auto simp: pick_def\<close>)
  then show "popMessage h NULL s = Inr (NULL, s)" by (auto simp: wp_total)
qed

interpretation msg_pool: object_pool
  "\<lambda>s fs. rep s {Msgfree_sentinel} (\<lambda>_. fs)" "\<lambda>s p. msgs s p \<noteq> None" allocMsg freeMsg NULL
proof unfold_locales
  fix s and fs :: "U32 list"
  assume r: "rep s {Msgfree_sentinel} (\<lambda>_. fs)"
  show "distinct fs \<and> (\<forall>p\<in>set fs. msgs s p \<noteq> None \<and> p \<noteq> NULL)"
    using rep_distinct[OF r] rep_msg[OF r] rep_not_NULL[OF r] by auto
next
  fix s
  assume r: "rep s {Msgfree_sentinel} (\<lambda>_. [])"
  have "wp allocMsg (\<lambda>x s'. x = NULL \<and> s' = s) no_stop s"
    by (rule wp_allocMsg[OF r]) auto
  then show "allocMsg s = Inr (NULL, s)" by (auto simp: wp_total)
next
  fix s and p :: U32 and fs
  assume r: "rep s {Msgfree_sentinel} (\<lambda>_. p # fs)"
  have "wp allocMsg (\<lambda>x s'. x = p \<and> rep s' {Msgfree_sentinel} (\<lambda>_. fs) \<and>
          (\<lambda>q. msgs s' q \<noteq> None) = (\<lambda>q. msgs s q \<noteq> None)) no_stop s"
  proof (rule wp_allocMsg[OF r])
    fix x xs t L
    assume *: "(\<lambda>_. p # fs) Msgfree_sentinel = x # xs" "msgs s x = Some t"
      "rep (s\<lparr>lst := L, msgs := (msgs s)(x \<mapsto> blank_msg t)\<rparr>) {Msgfree_sentinel}
         ((\<lambda>_. p # fs)(Msgfree_sentinel := xs))"
    from *(1) have "rep s' {Msgfree_sentinel} ((\<lambda>_. p # fs)(Msgfree_sentinel := xs))
                    = rep s' {Msgfree_sentinel} (\<lambda>_. fs)" for s'
      by (intro rep_Q_cong) simp
    with *(3) have "rep (s\<lparr>lst := L, msgs := (msgs s)(x \<mapsto> blank_msg t)\<rparr>) {Msgfree_sentinel} (\<lambda>_. fs)"
      by blast
    with *(1,2) show "x = p \<and> rep (s\<lparr>lst := L, msgs := (msgs s)(x \<mapsto> blank_msg t)\<rparr>) {Msgfree_sentinel} (\<lambda>_. fs) \<and>
          (\<lambda>q. msgs (s\<lparr>lst := L, msgs := (msgs s)(x \<mapsto> blank_msg t)\<rparr>) q \<noteq> None) = (\<lambda>q. msgs s q \<noteq> None)"
      by (auto simp: fun_eq_iff)
  qed auto
  then show "\<exists>s'. allocMsg s = Inr (p, s') \<and> rep s' {Msgfree_sentinel} (\<lambda>_. fs) \<and>
      (\<lambda>q. msgs s' q \<noteq> None) = (\<lambda>q. msgs s q \<noteq> None)"
    by (auto simp: wp_total)
next
  fix s p and fs :: "U32 list"
  assume r: "rep s {Msgfree_sentinel} (\<lambda>_. fs)" and p: "msgs s p \<noteq> None" "p \<notin> set fs"
  have "wp (freeMsg p) (\<lambda>_ s'. rep s' {Msgfree_sentinel} (\<lambda>_. fs @ [p]) \<and> msgs s' = msgs s) no_stop s"
  proof (rule wp_freeMsg[OF r])
    have "rep s' {Msgfree_sentinel} ((\<lambda>_. fs)(Msgfree_sentinel := fs @ [p])) = rep s' {Msgfree_sentinel} (\<lambda>_. fs @ [p])" for s'
      by (rule rep_Q_cong) simp
    then show "rep (s\<lparr>lst := L\<rparr>) {Msgfree_sentinel} (\<lambda>_. fs @ [p]) \<and> msgs (s\<lparr>lst := L\<rparr>) = msgs s"
      if "rep (s\<lparr>lst := L\<rparr>) {Msgfree_sentinel} ((\<lambda>_. fs)(Msgfree_sentinel := fs @ [p]))" for L
      using that by simp
  qed (use p in \<open>auto simp: unlinked_def\<close>)
  then show "\<exists>s'. freeMsg p s = Inr ((), s') \<and> rep s' {Msgfree_sentinel} (\<lambda>_. fs @ [p]) \<and>
      (\<lambda>q. msgs s' q \<noteq> None) = (\<lambda>q. msgs s q \<noteq> None)"
    by (auto simp: wp_total)
qed

end
