(* ===== verification/Kernel_Inv.thy ===== *)
theory Kernel_Inv
  imports Tcb Msg
begin

text \<open>
  The invariant of the kernel's queues. In a state between two kernel entries every TCB is
  on exactly one of the ready queue, the wait queue and the free list, or is the current
  thread; every message is on the free list or in the inbox of exactly one live thread; and
  \<open>thread_count\<close> counts the live threads. \<open>Q\<close> gives the contents of the lists,
  \<open>H\<close> the sentinels that are accounted for.
\<close>

definition live :: "kstate \<Rightarrow> (list_head \<Rightarrow> U32 list) \<Rightarrow> U32 set" where
  "live s Q = set (Q Ready_queue) \<union> set (Q Wait_queue)
              \<union> (if current_thread s = NULL then {} else {current_thread s})"

definition base_heads :: "kstate \<Rightarrow> (list_head \<Rightarrow> U32 list) \<Rightarrow> list_head set" where
  "base_heads s Q = {Ready_queue, Wait_queue, Tcbfree_sentinel, Msgfree_sentinel} \<union> T_inbox ` live s Q"

text \<open>No TCB and no message is lost or owned twice.\<close>

definition accounted :: "kstate \<Rightarrow> (list_head \<Rightarrow> U32 list) \<Rightarrow> bool" where
  "accounted s Q \<longleftrightarrow>
     (\<forall>p. tcbs s p \<noteq> None \<longleftrightarrow> p \<in> live s Q \<or> p \<in> set (Q Tcbfree_sentinel)) \<and>
     (\<forall>m. msgs s m \<noteq> None \<longleftrightarrow> m \<in> set (Q Msgfree_sentinel) \<or> (\<exists>p\<in>live s Q. m \<in> set (Q (T_inbox p))))"

definition kinv :: "kstate \<Rightarrow> list_head set \<Rightarrow> (list_head \<Rightarrow> U32 list) \<Rightarrow> bool" where
  "kinv s H Q \<longleftrightarrow> rep s H Q \<and> base_heads s Q \<subseteq> H \<and> accounted s Q
     \<and> (current_thread s \<noteq> NULL \<longrightarrow> unlinked H Q By_t_next (current_thread s))
     \<and> thread_count s = of_nat (card (live s Q))"

lemma kinv_rep: "kinv s H Q \<Longrightarrow> rep s H Q"
  by (simp add: kinv_def)

lemma kinv_heads:
  assumes "kinv s H Q"
  shows "Ready_queue \<in> H" "Wait_queue \<in> H" "Tcbfree_sentinel \<in> H" "Msgfree_sentinel \<in> H"
  using assms by (auto simp: kinv_def base_heads_def)

lemma kinv_inbox: "kinv s H Q \<Longrightarrow> p \<in> live s Q \<Longrightarrow> T_inbox p \<in> H"
  by (auto simp: kinv_def base_heads_def)

lemma kinv_tcb: "kinv s H Q \<Longrightarrow> p \<in> live s Q \<Longrightarrow> \<exists>t. tcbs s p = Some t"
  by (auto simp: kinv_def accounted_def)

lemma kinv_live_not_NULL:
  assumes "kinv s H Q" and "p \<in> live s Q"
  shows "p \<noteq> NULL"
  using assms rep_not_NULL[OF kinv_rep[OF assms(1)] kinv_heads(1)[OF assms(1)], of p]
    rep_not_NULL[OF kinv_rep[OF assms(1)] kinv_heads(2)[OF assms(1)], of p]
  by (auto simp: live_def split: if_splits)

lemma kinv_disjoint:
  assumes "kinv s H Q"
  shows "p \<in> set (Q Ready_queue) \<Longrightarrow> p \<notin> set (Q Wait_queue)"
    and "p \<in> set (Q Ready_queue) \<Longrightarrow> p \<notin> set (Q Tcbfree_sentinel)"
    and "p \<in> set (Q Wait_queue) \<Longrightarrow> p \<notin> set (Q Tcbfree_sentinel)"
proof -
  note r = kinv_rep[OF assms] and h = kinv_heads[OF assms]
  show "p \<in> set (Q Ready_queue) \<Longrightarrow> p \<notin> set (Q Wait_queue)"
    by (rule rep_sep[OF r h(1,2)]) simp_all
  show "p \<in> set (Q Ready_queue) \<Longrightarrow> p \<notin> set (Q Tcbfree_sentinel)"
    by (rule rep_sep[OF r h(1,3)]) simp_all
  show "p \<in> set (Q Wait_queue) \<Longrightarrow> p \<notin> set (Q Tcbfree_sentinel)"
    by (rule rep_sep[OF r h(2,3)]) simp_all
qed

lemma kinv_current:
  assumes "kinv s H Q" and "current_thread s \<noteq> NULL"
  shows "current_thread s \<notin> set (Q Ready_queue)" "current_thread s \<notin> set (Q Wait_queue)"
    "current_thread s \<notin> set (Q Tcbfree_sentinel)"
  using assms kinv_heads[OF assms(1)] by (auto simp: kinv_def unlinked_def)

lemma kinv_current_live: "current_thread s \<noteq> NULL \<Longrightarrow> current_thread s \<in> live s Q"
  by (simp add: live_def)

lemma kinv_live_finite: "finite (live s Q)"
  by (simp add: live_def)

lemma kinv_card:
  assumes "kinv s H Q"
  shows "card (live s Q) = length (Q Ready_queue) + length (Q Wait_queue)
           + (if current_thread s = NULL then 0 else 1)"
proof -
  note h = kinv_heads[OF assms] and r = kinv_rep[OF assms]
  have d: "card (set (Q Ready_queue) \<union> set (Q Wait_queue)) = length (Q Ready_queue) + length (Q Wait_queue)"
    using rep_distinct[OF r h(1)] rep_distinct[OF r h(2)] kinv_disjoint(1)[OF assms]
    by (subst card_Un_disjoint) (auto simp: distinct_card)
  show ?thesis
    using d kinv_current[OF assms] by (simp add: live_def)
qed

lemma kinv_card_le: "kinv s H Q \<Longrightarrow> card (live s Q) \<le> MAXTHREADS"
proof -
  assume k: "kinv s H Q"
  have "live s Q \<subseteq> {p. lvalid s (T_next p)}"
    using k by (auto simp: kinv_def accounted_def)
  with kinv_rep[OF k] show ?thesis
    using card_mono[of "{p. lvalid s (T_next p)}" "live s Q"] by (auto simp: rep_def pools_ok_def)
qed

lemma kinv_thread_count:
  "kinv s H Q \<Longrightarrow> unat (thread_count s) = card (live s Q)"
  using kinv_card_le[of s H Q] by (simp add: kinv_def unat_of_nat take_bit_nat_eq_self)

text \<open>
  How the invariant moves: the live threads stay the same while the rings and the messages
  change, and fields outside the invariant do not matter.
\<close>

lemma kinv_intro:
  assumes "rep s' H Q'" and "base_heads s' Q' \<subseteq> H" and "accounted s' Q'"
    and "current_thread s' \<noteq> NULL \<Longrightarrow> unlinked H Q' By_t_next (current_thread s')"
    and "thread_count s' = of_nat (card (live s' Q'))"
  shows "kinv s' H Q'"
  using assms by (simp add: kinv_def)

lemma kinv_cong:
  assumes "lst s' = lst s" and "current_thread s' = current_thread s" and "thread_count s' = thread_count s"
    and "\<And>p. tcbs s' p = None \<longleftrightarrow> tcbs s p = None" and "\<And>m. msgs s' m = None \<longleftrightarrow> msgs s m = None"
  shows "kinv s' H Q = kinv s H Q"
proof -
  have r: "rep s' H Q = rep s H Q" by (rule rep_cong[OF assms(1) lvalid_cong[OF assms(4,5)]])
  have l: "live s' Q = live s Q" by (simp only: live_def assms(2))
  show ?thesis
    by (simp only: kinv_def base_heads_def accounted_def r l assms(2,3) assms(4,5))
qed

lemma kinv_update [simp]:
  "kinv (s\<lparr>mem := M\<rparr>) H Q = kinv s H Q"
  "kinv (s\<lparr>soft_block_count := c\<rparr>) H Q = kinv s H Q"
  "kinv (s\<lparr>current_thread_tod := c\<rparr>) H Q = kinv s H Q"
  "kinv (s\<lparr>pseudo_tick := c\<rparr>) H Q = kinv s H Q"
  "kinv (s\<lparr>start_pseudo_tick := c\<rparr>) H Q = kinv s H Q"
  "kinv (s\<lparr>trap_managers := xs\<rparr>) H Q = kinv s H Q"
  "kinv (s\<lparr>devStatus_array := xs\<rparr>) H Q = kinv s H Q"
  "kinv (s\<lparr>devTcb_array := xs\<rparr>) H Q = kinv s H Q"
  "kinv (s\<lparr>clockTcb_array := xs\<rparr>) H Q = kinv s H Q"
  "kinv (s\<lparr>interrupt_i := n\<rparr>) H Q = kinv s H Q"
  "kinv (s\<lparr>areas := A\<rparr>) H Q = kinv s H Q"
  "kinv (s\<lparr>cpu := st\<rparr>) H Q = kinv s H Q"
  "kinv (s\<lparr>tod_reads := n\<rparr>) H Q = kinv s H Q"
  by (rule kinv_cong; simp)+

lemma kinv_tcbs_update [simp]:
  assumes "\<forall>q. (T q = None) = (tcbs s q = None)"
  shows "kinv (s\<lparr>tcbs := T\<rparr>) H Q = kinv s H Q"
  using assms by (intro kinv_cong) auto

text \<open>
  What message passing and scheduling leave alone: the tables of the services, the thread
  tree above the lists of children, the trap managers and the exception areas.
\<close>

definition tcb_links :: "tcb_t \<Rightarrow> U32 \<times> U32 \<times> U32 \<times> U32" where
  "tcb_links t = (t_parent t, sysbp_manager_thread t, pgmtrap_manager_thread t, tlbtrap_manager_thread t)"

definition service_data where
  "service_data s = (SSI_tcb s, TEST_tcb s, thread_count s, trap_managers s, devStatus_array s, devTcb_array s,
     clockTcb_array s, interrupt_i s, areas s, (\<lambda>p. map_option tcb_links (tcbs s p)))"

lemma service_data_fields:
  assumes "service_data s' = service_data s"
  shows "SSI_tcb s' = SSI_tcb s" "TEST_tcb s' = TEST_tcb s" "thread_count s' = thread_count s"
    "trap_managers s' = trap_managers s" "devStatus_array s' = devStatus_array s" "devTcb_array s' = devTcb_array s"
    "clockTcb_array s' = clockTcb_array s" "interrupt_i s' = interrupt_i s" "areas s' = areas s"
    "map_option tcb_links (tcbs s' p) = map_option tcb_links (tcbs s p)" "tcbs s' p = None \<longleftrightarrow> tcbs s p = None"
proof -
  have "(\<lambda>p. map_option tcb_links (tcbs s' p)) = (\<lambda>p. map_option tcb_links (tcbs s p))"
    using assms by (simp add: service_data_def)
  then show p: "map_option tcb_links (tcbs s' p) = map_option tcb_links (tcbs s p)" by (rule fun_cong)
  then show "tcbs s' p = None \<longleftrightarrow> tcbs s p = None" by (cases "tcbs s p"; cases "tcbs s' p") auto
qed (use assms in \<open>simp_all add: service_data_def\<close>)

lemma service_data_update [simp]:
  "service_data (s\<lparr>lst := L\<rparr>) = service_data s"
  "service_data (s\<lparr>msgs := M\<rparr>) = service_data s"
  "service_data (s\<lparr>mem := X\<rparr>) = service_data s"
  "service_data (s\<lparr>current_thread := c\<rparr>) = service_data s"
  "service_data (s\<lparr>soft_block_count := c\<rparr>) = service_data s"
  "service_data (s\<lparr>current_thread_tod := c\<rparr>) = service_data s"
  "service_data (s\<lparr>pseudo_tick := c\<rparr>) = service_data s"
  "service_data (s\<lparr>start_pseudo_tick := c\<rparr>) = service_data s"
  "service_data (s\<lparr>cpu := st\<rparr>) = service_data s"
  "service_data (s\<lparr>tod_reads := n\<rparr>) = service_data s"
  by (simp_all add: service_data_def)

lemma service_data_tcb [simp]:
  assumes "tcbs s = T" and "T p = Some t" and "tcb_links t' = tcb_links t"
  shows "service_data (s\<lparr>tcbs := T(p \<mapsto> t')\<rparr>) = service_data s"
  using assms by (auto simp: service_data_def fun_eq_iff)

lemma tcb_links_update [simp]:
  "tcb_links (t\<lparr>t_state := st\<rparr>) = tcb_links t" "tcb_links (t\<lparr>waiting_for := x\<rparr>) = tcb_links t"
  "tcb_links (t\<lparr>reply := x\<rparr>) = tcb_links t" "tcb_links (t\<lparr>cpu_time := x\<rparr>) = tcb_links t"
  "tcb_links (t\<lparr>cpu_slice := x\<rparr>) = tcb_links t"
  by (simp_all add: tcb_links_def)

text \<open>Message passing keeps the thread tree and the free TCBs.\<close>

definition tree_kept :: "(list_head \<Rightarrow> U32 list) \<Rightarrow> (list_head \<Rightarrow> U32 list) \<Rightarrow> bool" where
  "tree_kept Q Q' \<longleftrightarrow> Q' Tcbfree_sentinel = Q Tcbfree_sentinel \<and> (\<forall>p. Q' (T_child p) = Q (T_child p))"

lemma tree_kept_refl [simp]: "tree_kept Q Q"
  by (simp add: tree_kept_def)

lemma tree_kept_trans: "tree_kept Q Q1 \<Longrightarrow> tree_kept Q1 Q2 \<Longrightarrow> tree_kept Q Q2"
  by (simp add: tree_kept_def)

lemma tree_kept_upd [simp]:
  "tree_kept Q (Q'(Ready_queue := xs)) = tree_kept Q Q'" "tree_kept Q (Q'(Wait_queue := xs)) = tree_kept Q Q'"
  "tree_kept Q (Q'(Msgfree_sentinel := xs)) = tree_kept Q Q'" "tree_kept Q (Q'(T_inbox p := xs)) = tree_kept Q Q'"
  by (simp_all add: tree_kept_def)

text \<open>A message moves from the free list into the inbox of a live thread, or back.\<close>

lemma kinv_post:
  assumes k: "kinv s H Q" and p: "p \<in> live s Q" and m: "Q Msgfree_sentinel = m # ms"
    and ib: "set ib = insert m (set (Q (T_inbox p)))"
    and r: "rep s' H (Q(Msgfree_sentinel := ms, T_inbox p := ib))"
    and same: "current_thread s' = current_thread s" "thread_count s' = thread_count s"
      "\<And>p. tcbs s' p = None \<longleftrightarrow> tcbs s p = None" "\<And>m. msgs s' m = None \<longleftrightarrow> msgs s m = None"
  shows "kinv s' H (Q(Msgfree_sentinel := ms, T_inbox p := ib))"
proof -
  let ?Q = "Q(Msgfree_sentinel := ms, T_inbox p := ib)"
  have l: "live s' ?Q = live s Q" using same by (simp add: live_def)
  have "x \<in> set ms \<or> (\<exists>q\<in>live s Q. x \<in> set (?Q (T_inbox q))) \<longleftrightarrow>
        x \<in> set (Q Msgfree_sentinel) \<or> (\<exists>q\<in>live s Q. x \<in> set (Q (T_inbox q)))" for x
    using p ib m by auto
  then have "accounted s' ?Q" using k l same by (simp add: kinv_def accounted_def)
  with k l r same show ?thesis
    by (auto simp: kinv_def base_heads_def unlinked_def)
qed

lemma kinv_take:
  assumes k: "kinv s H Q" and p: "p \<in> live s Q" and m: "m \<in> set (Q (T_inbox p))"
    and r: "rep s' H (Q(T_inbox p := remove1 m (Q (T_inbox p)), Msgfree_sentinel := Q Msgfree_sentinel @ [m]))"
    and same: "current_thread s' = current_thread s" "thread_count s' = thread_count s"
      "\<And>p. tcbs s' p = None \<longleftrightarrow> tcbs s p = None" "\<And>m. msgs s' m = None \<longleftrightarrow> msgs s m = None"
  shows "kinv s' H (Q(T_inbox p := remove1 m (Q (T_inbox p)), Msgfree_sentinel := Q Msgfree_sentinel @ [m]))"
proof -
  let ?Q = "Q(T_inbox p := remove1 m (Q (T_inbox p)), Msgfree_sentinel := Q Msgfree_sentinel @ [m])"
  have l: "live s' ?Q = live s Q" using same by (simp add: live_def)
  have d: "distinct (Q (T_inbox p))" by (rule rep_distinct[OF kinv_rep[OF k] kinv_inbox[OF k p]])
  have "x \<in> set (?Q Msgfree_sentinel) \<or> (\<exists>q\<in>live s Q. x \<in> set (?Q (T_inbox q))) \<longleftrightarrow>
        x \<in> set (Q Msgfree_sentinel) \<or> (\<exists>q\<in>live s Q. x \<in> set (Q (T_inbox q)))" for x
    using p m d by auto
  then have "accounted s' ?Q" using k l same by (simp add: kinv_def accounted_def)
  with k l r same show ?thesis
    by (auto simp: kinv_def base_heads_def unlinked_def)
qed

text \<open>A thread moves between the wait queue, the ready queue and the processor.\<close>

lemma kinv_move:
  assumes k: "kinv s H Q" and r: "rep s' H Q'"
    and Q': "\<And>h. h \<notin> {Ready_queue, Wait_queue} \<Longrightarrow> Q' h = Q h"
    and l: "live s' Q' = live s Q"
    and un: "current_thread s' \<noteq> NULL \<Longrightarrow> current_thread s' \<notin> set (Q' Ready_queue) \<union> set (Q' Wait_queue)"
    and same: "thread_count s' = thread_count s"
      "\<And>p. tcbs s' p = None \<longleftrightarrow> tcbs s p = None" "\<And>m. msgs s' m = None \<longleftrightarrow> msgs s m = None"
  shows "kinv s' H Q'"
proof (rule kinv_intro[OF r])
  show "base_heads s' Q' \<subseteq> H" using k l by (simp add: kinv_def base_heads_def)
  show "accounted s' Q'" using k l Q' same by (simp add: kinv_def accounted_def)
  show "thread_count s' = of_nat (card (live s' Q'))" using k l same by (simp add: kinv_def)
  assume c: "current_thread s' \<noteq> NULL"
  then have "current_thread s' \<in> live s Q" using kinv_current_live[of s' Q'] l by simp
  then have f: "current_thread s' \<notin> set (Q Tcbfree_sentinel)"
    using kinv_disjoint[OF k] kinv_current[OF k] by (auto simp: live_def split: if_splits)
  show "unlinked H Q' By_t_next (current_thread s')"
    unfolding unlinked_def
  proof (intro ballI impI)
    fix g assume g: "g \<in> H" "linker_of g = By_t_next"
    have "sentinel g" using rep_rings[OF r] g by (auto dest: rings_sentinel)
    with g(2) have "g \<in> {Ready_queue, Wait_queue, Tcbfree_sentinel}"
      by (cases g) (auto simp: sentinel_def)
    then show "current_thread s' \<notin> set (Q' g)" using un[OF c] f Q' by auto
  qed
qed

end
