(* ===== verification/Snapshot.thy ===== *)
theory Snapshot
  imports Kernel_Inv "HOL-Library.Multiset"
begin

text \<open>
  Concrete kernel states. A state is described by the contents of its lists; the links are
  computed from them. A check that evaluates says when such a state satisfies the invariant,
  so that every theorem about states with the invariant can be applied to a concrete one.
\<close>

type_synonym contents = "(list_head \<times> U32 list) list"

definition ring_of :: "list_head \<times> U32 list \<Rightarrow> list_head list" where
  "ring_of e = map (link_of (linker_of (fst e))) (snd e)"

definition ring_pairs :: "list_head \<times> U32 list \<Rightarrow> (list_head \<times> list_head) list" where
  "ring_pairs e = zip (fst e # ring_of e) (ring_of e @ [fst e])"

definition mk_links :: "contents \<Rightarrow> links" where
  "mk_links al = (let ps = concat (map ring_pairs al) in
     \<lparr>lnext = (\<lambda>x. case map_of ps x of None \<Rightarrow> x | Some y \<Rightarrow> y),
      lprev = (\<lambda>x. case map_of (map (\<lambda>(x, y). (y, x)) ps) x of None \<Rightarrow> x | Some y \<Rightarrow> y)\<rparr>)"

definition mk_Q :: "contents \<Rightarrow> list_head \<Rightarrow> U32 list" where
  "mk_Q al h = (case map_of al h of None \<Rightarrow> [] | Some xs \<Rightarrow> xs)"

definition head_in :: "U32 list \<Rightarrow> list_head \<Rightarrow> bool" where
  "head_in ts h = (case h of Ready_queue \<Rightarrow> True | Wait_queue \<Rightarrow> True | Tcbfree_sentinel \<Rightarrow> True
     | Msgfree_sentinel \<Rightarrow> True | T_child p \<Rightarrow> p \<in> set ts | T_inbox p \<Rightarrow> p \<in> set ts | _ \<Rightarrow> False)"

definition members_in :: "U32 list \<Rightarrow> U32 list \<Rightarrow> list_head \<times> U32 list \<Rightarrow> bool" where
  "members_in ts ms e = (set (snd e) \<subseteq> (if linker_of (fst e) = By_m_next then set ms else set ts))"

text \<open>The check, for a state with the TCBs \<open>ts\<close>, the messages \<open>ms\<close> and the running thread \<open>cur\<close>.\<close>

definition snapshot_ok :: "contents \<Rightarrow> U32 list \<Rightarrow> U32 list \<Rightarrow> U32 \<Rightarrow> U32 \<Rightarrow> bool" where
  "snapshot_ok al ts ms cur tc =
     (let lives = mk_Q al Ready_queue @ mk_Q al Wait_queue @ (if cur = 0 then [] else [cur]) in
      distinct (map fst al) \<and> distinct (concat (map (\<lambda>e. fst e # ring_of e) al)) \<and>
      list_all (\<lambda>e. head_in ts (fst e) \<and> members_in ts ms e) al \<and>
      distinct ts \<and> length ts \<le> 20 \<and> 0 \<notin> set ts \<and> distinct ms \<and> length ms \<le> 20 \<and> 0 \<notin> set ms \<and>
      set [Ready_queue, Wait_queue, Tcbfree_sentinel, Msgfree_sentinel] \<subseteq> set (map fst al) \<and>
      set (map T_inbox lives) \<subseteq> set (map fst al) \<and>
      set ts = set (lives @ mk_Q al Tcbfree_sentinel) \<and>
      set ms = set (mk_Q al Msgfree_sentinel @ concat (map (\<lambda>p. mk_Q al (T_inbox p)) lives)) \<and>
      cur \<notin> set (mk_Q al Ready_queue @ mk_Q al Wait_queue @ mk_Q al Tcbfree_sentinel) \<and>
      tc = of_nat (length lives))"

section \<open>The check is sound\<close>

lemma linked_zip:
  "(\<And>x y. (x, y) \<in> set (zip (a # xs) (xs @ [b])) \<Longrightarrow> lnext L x = y \<and> lprev L y = x) \<Longrightarrow> linked L a xs b"
  by (induction xs arbitrary: a) auto

lemma fst_ring_pairs: "map fst (ring_pairs e) = fst e # ring_of e"
  by (simp add: ring_pairs_def)

lemma snd_ring_pairs: "map snd (ring_pairs e) = ring_of e @ [fst e]"
  by (simp add: ring_pairs_def)

lemma distinct_snd_pairs:
  assumes "distinct (concat (map (\<lambda>e. fst e # ring_of e) al))"
  shows "distinct (concat (map (\<lambda>e. ring_of e @ [fst e]) al))"
proof -
  have "mset (concat (map (\<lambda>e. ring_of e @ [fst e]) al)) = mset (concat (map (\<lambda>e. fst e # ring_of e) al))"
    by (induction al) auto
  from mset_eq_imp_distinct_iff[OF this] assms show ?thesis by blast
qed

lemma mk_links_pair:
  assumes d: "distinct (concat (map (\<lambda>e. fst e # ring_of e) al))"
    and e: "e \<in> set al" and xy: "(x, y) \<in> set (ring_pairs e)"
  shows "lnext (mk_links al) x = y \<and> lprev (mk_links al) y = x"
proof -
  let ?ps = "concat (map ring_pairs al)"
  have "map fst ?ps = concat (map (\<lambda>e. fst e # ring_of e) al)"
    by (simp add: map_concat comp_def fst_ring_pairs)
  then have "distinct (map fst ?ps)" using d by simp
  moreover have mem: "(x, y) \<in> set ?ps" using e xy by auto
  ultimately have 1: "map_of ?ps x = Some y" by (rule map_of_is_SomeI)
  let ?qs = "map (\<lambda>(x, y). (y, x)) ?ps"
  have "map fst ?qs = map snd ?ps" by (simp add: case_prod_unfold comp_def)
  also have "\<dots> = concat (map (\<lambda>e. ring_of e @ [fst e]) al)"
    by (simp add: map_concat comp_def snd_ring_pairs)
  finally have "distinct (map fst ?qs)" using distinct_snd_pairs[OF d] by simp
  moreover have "(y, x) \<in> set ?qs" using mem by force
  ultimately have "map_of ?qs y = Some x" by (rule map_of_is_SomeI)
  with 1 show ?thesis by (simp add: mk_links_def Let_def)
qed

lemma mk_Q_entry: "distinct (map fst al) \<Longrightarrow> (h, xs) \<in> set al \<Longrightarrow> mk_Q al h = xs"
  by (simp add: mk_Q_def)

lemma mk_rings:
  assumes d: "distinct (concat (map (\<lambda>e. fst e # ring_of e) al))" and f: "distinct (map fst al)"
    and h: "\<And>e. e \<in> set al \<Longrightarrow> sentinel (fst e)"
  shows "rings (mk_links al) (set (map fst al)) (mk_Q al)"
proof -
  have r: "ring (mk_links al) h (members h (mk_Q al))" if "(h, xs) \<in> set al" for h xs
  proof -
    have q: "members h (mk_Q al) = ring_of (h, xs)"
      using mk_Q_entry[OF f that] by (simp add: members_def ring_of_def)
    have "linked (mk_links al) h (ring_of (h, xs)) h"
      using mk_links_pair[OF d that] by (intro linked_zip) (auto simp: ring_pairs_def)
    moreover have "distinct (h # ring_of (h, xs))"
      using d that by (induction al) auto
    ultimately show ?thesis by (simp add: ring_def q)
  qed
  have s: "set (mk_Q al h) \<inter> set (mk_Q al g) = {}"
    if a: "(h, xs) \<in> set al" "(g, ys) \<in> set al" "h \<noteq> g" "linker_of h = linker_of g" for h g xs ys
  proof -
    have "set (fst e # ring_of e) \<inter> set (fst e' # ring_of e') = {}"
      if "e \<in> set al" "e' \<in> set al" "e \<noteq> e'" for e e'
      using d that by (induction al) auto
    from this[OF a(1,2)] a(3,4) show ?thesis
      using mk_Q_entry[OF f a(1)] mk_Q_entry[OF f a(2)] by (auto simp: ring_of_def)
  qed
  show ?thesis
    unfolding rings_def
  proof (intro conjI ballI impI)
    fix g assume "g \<in> set (map fst al)"
    then show "sentinel g" "ring (mk_links al) g (members g (mk_Q al))" using h r by auto
    fix g' assume "g' \<in> set (map fst al)" "g \<noteq> g' \<and> linker_of g = linker_of g'"
    with \<open>g \<in> _\<close> show "set (mk_Q al g) \<inter> set (mk_Q al g') = {}" using s by auto blast
  qed
qed

theorem snapshot_kinv:
  assumes ok: "snapshot_ok al ts ms (current_thread s) (thread_count s)"
    and l: "lst s = mk_links al" and t: "\<And>p. tcbs s p \<noteq> None \<longleftrightarrow> p \<in> set ts" and m: "\<And>p. msgs s p \<noteq> None \<longleftrightarrow> p \<in> set ms"
  shows "kinv s (set (map fst al)) (mk_Q al)"
proof -
  let ?Q = "mk_Q al" and ?H = "set (map fst al)"
  note ok = ok[unfolded snapshot_ok_def Let_def list_all_iff]
  have hd: "head_in ts (fst e)" "members_in ts ms e" if "e \<in> set al" for e using ok that by auto
  have sen: "sentinel (fst e)" if "e \<in> set al" for e
    using hd(1)[OF that] by (auto simp: head_in_def sentinel_def split: list_head.splits)
  have tv: "{p. lvalid s (T_next p)} = set ts" "{p. lvalid s (M_next p)} = set ms" using t m by auto
  have sz: "distinct ts" "length ts \<le> 20" "0 \<notin> set ts" "distinct ms" "length ms \<le> 20" "0 \<notin> set ms" using ok by auto
  have "pools_ok s"
    unfolding pools_ok_def tv using sz t[of 0] m[of 0] by (simp add: distinct_card)
  moreover have "rings (lst s) ?H ?Q" unfolding l by (rule mk_rings) (use ok sen in auto)
  moreover have "lvalid s h \<and> (\<forall>x\<in>set (members h ?Q). lvalid s x)" if "h \<in> ?H" for h
  proof -
    from that obtain xs where e: "(h, xs) \<in> set al" by auto
    then have q: "?Q h = xs" using ok mk_Q_entry by blast
    have "lvalid s h" using hd(1)[OF e] t by (auto simp: head_in_def lvalid_def split: list_head.splits)
    moreover have "lvalid s (link_of (linker_of h) p)" if "p \<in> set xs" for p
      using hd(2)[OF e] that t m by (cases "linker_of h") (auto simp: members_in_def)
    ultimately show ?thesis by (auto simp: members_def q)
  qed
  ultimately have rep: "rep s ?H ?Q" by (simp add: rep_def)
  define lives where "lives = mk_Q al Ready_queue @ mk_Q al Wait_queue @ (if current_thread s = 0 then [] else [current_thread s])"
  have lv: "live s ?Q = set lives" by (auto simp: live_def lives_def)
  have cur: "current_thread s \<notin> set (?Q Ready_queue)" "current_thread s \<notin> set (?Q Wait_queue)" "current_thread s \<notin> set (?Q Tcbfree_sentinel)"
    using ok by auto
  have RW: "Ready_queue \<in> ?H" "Wait_queue \<in> ?H" using ok by auto
  have "distinct lives"
    using rep_distinct[OF rep RW(1)] rep_distinct[OF rep RW(2)] rep_sep[OF rep RW] cur
    by (auto simp: lives_def)
  moreover have "thread_count s = of_nat (length lives)" using ok unfolding lives_def by blast
  ultimately have "thread_count s = of_nat (card (live s ?Q))" by (simp add: lv distinct_card)
  moreover have "base_heads s ?Q \<subseteq> ?H"
  proof -
    have "set (map T_inbox lives) \<subseteq> ?H" using ok unfolding lives_def by blast
    then show ?thesis using ok by (auto simp: base_heads_def lv)
  qed
  moreover have "accounted s ?Q"
  proof -
    have "set ts = set (lives @ ?Q Tcbfree_sentinel)" using ok unfolding lives_def by blast
    moreover have "set ms = set (?Q Msgfree_sentinel @ concat (map (\<lambda>p. ?Q (T_inbox p)) lives))"
      using ok unfolding lives_def by blast
    ultimately show ?thesis unfolding accounted_def lv t m by auto
  qed
  moreover have "unlinked ?H ?Q By_t_next (current_thread s)"
    unfolding unlinked_def
  proof (intro ballI impI)
    fix g assume g: "g \<in> ?H" "linker_of g = By_t_next"
    then obtain e where "e \<in> set al" "fst e = g" by auto
    then have "sentinel g" using sen by blast
    with g(2) have "g \<in> {Ready_queue, Wait_queue, Tcbfree_sentinel}"
      by (cases g) (simp_all add: sentinel_def)
    then show "current_thread s \<notin> set (?Q g)" using cur by auto
  qed
  ultimately show ?thesis using rep by (simp add: kinv_def)
qed

section \<open>A small machine\<close>

text \<open>
  Four TCBs: the SSI at \<open>0x100\<close>, waiting for any message; a thread at \<open>0x200\<close> with a child
  at \<open>0x300\<close>; a free TCB at \<open>0x400\<close>. Two messages: one free, one in the inbox of \<open>0x200\<close>,
  sent by \<open>0x300\<close>. The running thread and the two queues are parameters.
\<close>

definition ex_tcb :: "U32 \<Rightarrow> U32 \<Rightarrow> U32 \<Rightarrow> tcb_t" where
  "ex_tcb parent want rep_addr = \<lparr>t_parent = parent,
     t_state = \<lparr>entry_hi = 0, cause = 0, status = 0, pc_epc = 0x1000, gpr = replicate 29 0, hi = 0, lo = 0\<rparr>,
     waiting_for = want, reply = rep_addr, sysbp_manager_thread = 0, pgmtrap_manager_thread = 0,
     tlbtrap_manager_thread = 0, cpu_time = 0, cpu_slice = 0\<rparr>"

definition ex_contents :: "U32 list \<Rightarrow> U32 list \<Rightarrow> contents" where
  "ex_contents ready wait =
     [(Ready_queue, ready), (Wait_queue, wait), (Tcbfree_sentinel, [0x400]), (Msgfree_sentinel, [0x500]),
      (T_inbox 0x100, []), (T_inbox 0x200, [0x600]), (T_inbox 0x300, []),
      (T_child 0x100, []), (T_child 0x200, [0x300]), (T_child 0x300, [])]"

definition ex_area :: "U32 \<Rightarrow> U32 \<Rightarrow> U32 \<Rightarrow> U32 \<Rightarrow> state_t" where
  "ex_area c a0 a1 a2 = \<lparr>entry_hi = 0, cause = c, status = 0, pc_epc = 0x2000,
     gpr = ((replicate 29 0)[3 := a0, 4 := a1, 5 := a2]), hi = 0, lo = 0\<rparr>"

definition ex_state :: "U32 \<Rightarrow> U32 list \<Rightarrow> U32 list \<Rightarrow> state_t \<Rightarrow> kstate" where
  "ex_state cur ready wait area = \<lparr>
     lst = mk_links (ex_contents ready wait),
     tcbs = map_of [(0x100, ex_tcb 0 0 0x700), (0x200, ex_tcb 0 (- 1) (- 1)), (0x300, ex_tcb 0x200 (- 1) 0x700),
                    (0x400, ex_tcb 0 0 0)],
     msgs = map_of [(0x500, \<lparr>m_sender = 0, m_message = 0\<rparr>), (0x600, \<lparr>m_sender = 0x300, m_message = 7\<rparr>)],
     mem = map_of [(0x10000024, 1), (0x10000020, 0), (0x700, 0), (0x10000000, 0x20000000), (0x10000004, 0x10000)],
     thread_count = 3, soft_block_count = 0, current_thread = cur, current_thread_tod = 0,
     pseudo_tick = 0, start_pseudo_tick = 0, SSI_tcb = 0x100, TEST_tcb = 0x200,
     trap_managers = replicate 20 0, devStatus_array = replicate 48 (- 1), devTcb_array = replicate 48 0,
     clockTcb_array = replicate 20 0, interrupt_i = 0, areas = (\<lambda>_. area),
     cpu = area, todlow = (\<lambda>n. of_nat n), tod_reads = 0\<rparr>"

abbreviation "ex_H \<equiv> {Ready_queue, Wait_queue, Tcbfree_sentinel, Msgfree_sentinel, T_inbox 0x100, T_inbox 0x200,
  T_inbox 0x300, T_child 0x100, T_child 0x200, T_child 0x300}"

abbreviation "ex_TCBS \<equiv> [0x100, 0x200, 0x300, 0x400 :: U32]"
abbreviation "ex_MSGS \<equiv> [0x500, 0x600 :: U32]"

lemma ex_kinv:
  assumes "snapshot_ok (ex_contents ready wait) ex_TCBS ex_MSGS cur 3"
  shows "kinv (ex_state cur ready wait area) ex_H (mk_Q (ex_contents ready wait))"
proof -
  have "kinv (ex_state cur ready wait area) (set (map fst (ex_contents ready wait))) (mk_Q (ex_contents ready wait))"
  proof (rule snapshot_kinv[of _ ex_TCBS ex_MSGS])
    show "tcbs (ex_state cur ready wait area) p \<noteq> None \<longleftrightarrow> p \<in> set ex_TCBS" for p
      by (simp add: ex_state_def)
    show "msgs (ex_state cur ready wait area) p \<noteq> None \<longleftrightarrow> p \<in> set ex_MSGS" for p
      by (simp add: ex_state_def)
  qed (use assms in \<open>simp_all add: ex_state_def\<close>)
  then show ?thesis by (simp add: ex_contents_def)
qed

lemma ex_fields:
  "current_thread (ex_state cur ready wait area) = cur"
  "SSI_tcb (ex_state cur ready wait area) = 0x100"
  "tcbs (ex_state cur ready wait area) p = (if p = 0x100 then Some (ex_tcb 0 0 0x700)
     else if p = 0x200 then Some (ex_tcb 0 (- 1) (- 1)) else if p = 0x300 then Some (ex_tcb 0x200 (- 1) 0x700)
     else if p = 0x400 then Some (ex_tcb 0 0 0) else None)"
  "msgs (ex_state cur ready wait area) p = (if p = 0x500 then Some \<lparr>m_sender = 0, m_message = 0\<rparr>
     else if p = 0x600 then Some \<lparr>m_sender = 0x300, m_message = 7\<rparr> else None)"
  "mem (ex_state cur ready wait area) p = (if p = 0x10000024 then Some 1 else if p = 0x10000020 then Some 0
     else if p = 0x700 then Some 0 else if p = 0x10000000 then Some 0x20000000
     else if p = 0x10000004 then Some 0x10000 else None)"
  "thread_count (ex_state cur ready wait area) = 3" "soft_block_count (ex_state cur ready wait area) = 0"
  "areas (ex_state cur ready wait area) p = area" "trap_managers (ex_state cur ready wait area) = replicate 20 0"
  by (simp_all add: ex_state_def)

lemma ex_bus: "bus_ok (ex_state cur ready wait area)"
  by (simp add: bus_ok_def ex_fields)

lemma ex_Q_simps:
  "mk_Q (ex_contents ready wait) Ready_queue = ready" "mk_Q (ex_contents ready wait) Wait_queue = wait"
  "mk_Q (ex_contents ready wait) Tcbfree_sentinel = [0x400]" "mk_Q (ex_contents ready wait) Msgfree_sentinel = [0x500]"
  "mk_Q (ex_contents ready wait) (T_inbox 0x200) = [0x600]" "mk_Q (ex_contents ready wait) (T_inbox 0x100) = []"
  "mk_Q (ex_contents ready wait) (T_inbox 0x300) = []" "mk_Q (ex_contents ready wait) (T_child 0x200) = [0x300]"
  "mk_Q (ex_contents ready wait) (T_child 0x300) = []" "mk_Q (ex_contents ready wait) (T_child 0x100) = []"
  by (simp_all add: mk_Q_def ex_contents_def)

lemmas snapshot_defs = snapshot_ok_def ex_contents_def mk_Q_def ring_of_def head_in_def members_in_def

text \<open>The thread \<open>0x200\<close> runs and its child is ready; or nothing runs and both are ready.\<close>

lemma ex_running: "kinv (ex_state 0x200 [0x300] [0x100] area) ex_H (mk_Q (ex_contents [0x300] [0x100]))"
  by (rule ex_kinv) (simp add: snapshot_defs insert_commute)

lemma ex_ready: "kinv (ex_state 0 [0x200, 0x300] [0x100] area) ex_H (mk_Q (ex_contents [0x200, 0x300] [0x100]))"
  by (rule ex_kinv) (simp add: snapshot_defs insert_commute)

abbreviation "ex_run \<equiv> ex_state 0x200 [0x300] [0x100]"
abbreviation "ex_run_Q \<equiv> mk_Q (ex_contents [0x300] [0x100])"
abbreviation "ex_idle \<equiv> ex_state 0 [0x200, 0x300] [0x100] (ex_area 0 0 0 0)"
abbreviation "ex_idle_Q \<equiv> mk_Q (ex_contents [0x200, 0x300] [0x100])"

end
