(* ===== verification/Phase1.thy ===== *)
theory Phase1
  imports Snapshot
begin

text \<open>
  What the phase 1 modules promise to the nucleus: thread and message queues are first in,
  first out; a thread or a message can be taken out of the middle; the pools hand out each of
  their objects once; the thread tree is kept. The statements are about the pointer-level
  routines of \<^verbatim>\<open>Tcb\<close> and \<^verbatim>\<open>Msg\<close>; most follow from the contracts those
  theories interpret.
\<close>

section \<open>Queues\<close>

text \<open>
  Threads inserted into a thread queue come out in the order of insertion, after the
  threads that were there already, and the queue is empty then.
\<close>

theorem thread_queue_fifo:
  assumes "rep s H Q" and "\<forall>h\<in>H. linker_of h = By_t_next" and "h \<in> H" and "distinct ps"
    and "\<forall>p\<in>set ps. unlinked H Q By_t_next p \<and> tcbs s p \<noteq> None"
  shows "\<exists>s'. kthen (kfor ps (insertThread h)) (krepeat (length (Q h) + length ps) (removeThread h)) s
               = Inr (Q h @ ps, s') \<and> rep s' H (Q(h := []))"
  using threadq.fifo_order[of s H Q h ps] assms by (auto simp del: fun_upd_apply)

lemma ex_idle_rep: "H \<subseteq> ex_H \<Longrightarrow> rep ex_idle H ex_idle_Q"
  by (rule rep_mono[OF kinv_rep[OF ex_ready]])

theorem thread_queue_fifo_witness:
  "\<exists>s'. kthen (kfor [0x400] (insertThread Ready_queue)) (krepeat (Suc (Suc (Suc 0))) (removeThread Ready_queue)) ex_idle
     = Inr ([0x200, 0x300, 0x400], s')"
proof -
  have "rep ex_idle {Ready_queue, Wait_queue} ex_idle_Q" by (rule ex_idle_rep) simp
  from thread_queue_fifo[OF this, of Ready_queue "[0x400]"] show ?thesis
    by (auto simp: unlinked_def ex_Q_simps ex_fields simp del: kfor.simps krepeat.simps)
qed

text \<open>
  \<open>outThread\<close> takes a given thread out of the middle of a queue, keeps the order of the
  others and returns it; a thread that is not on the queue gives \<open>NULL\<close> and no change.
\<close>

theorem outThread_removes:
  assumes "rep s H Q" and "h \<in> H" and "linker_of h = By_t_next"
  shows "\<exists>s'. outThread h p s = Inr (if p \<in> set (Q h) then p else NULL, s') \<and>
           rep s' H (Q(h := remove1 p (Q h))) \<and> (p \<notin> set (Q h) \<longrightarrow> s' = s)"
proof -
  have eq: "p \<notin> set (Q h) \<Longrightarrow> Q(h := remove1 p (Q h)) = Q" by (auto simp: remove1_idem)
  have "wp (outThread h p) (\<lambda>x s'. x = (if p \<in> set (Q h) then p else NULL) \<and>
          rep s' H (Q(h := remove1 p (Q h))) \<and> (p \<notin> set (Q h) \<longrightarrow> s' = s)) no_stop s"
    by (rule wp_outThread[OF assms]) (use assms(1) eq in \<open>auto simp del: fun_upd_apply\<close>)
  then show ?thesis by (auto simp: wp_total simp del: fun_upd_apply)
qed

theorem outThread_removes_witness:
  "\<exists>s'. outThread Ready_queue 0x200 ex_idle = Inr (0x200, s') \<and> rep s' {Ready_queue} (ex_idle_Q(Ready_queue := [0x300]))"
proof -
  have "rep ex_idle {Ready_queue} ex_idle_Q" by (rule ex_idle_rep) simp
  from outThread_removes[OF this, of Ready_queue "0x200"] show ?thesis
    by (simp add: ex_Q_simps del: fun_upd_apply)
qed

text \<open>
  \<open>popMessage\<close> with a sender returns the oldest message of that sender and leaves all
  others in order; with \<open>NULL\<close> it returns the oldest message of all; with no such message it
  returns \<open>NULL\<close> and changes nothing.
\<close>

theorem popMessage_oldest:
  assumes "rep s H Q" and "h \<in> H" and "linker_of h = By_m_next"
  shows "case find (\<lambda>m. mp = NULL \<or> sender_of s m = mp) (Q h) of
           None \<Rightarrow> popMessage h mp s = Inr (NULL, s)
         | Some m \<Rightarrow> \<exists>s'. popMessage h mp s = Inr (m, s') \<and> rep s' H (Q(h := remove1 m (Q h))) \<and> msgs s' = msgs s"
proof -
  have pk: "pick s mp (Q h) = find (\<lambda>m. mp = NULL \<or> sender_of s m = mp) (Q h)"
    by (cases "Q h") (auto simp: pick_def)
  have "wp (popMessage h mp) (\<lambda>x s'. case pick s mp (Q h) of None \<Rightarrow> x = NULL \<and> s' = s
         | Some m \<Rightarrow> x = m \<and> rep s' H (Q(h := remove1 m (Q h))) \<and> msgs s' = msgs s) no_stop s"
    by (rule wp_popMessage[OF assms]) (auto simp del: fun_upd_apply)
  then show ?thesis unfolding pk by (auto simp: wp_total simp del: fun_upd_apply split: option.splits)
qed

theorem popMessage_oldest_witness:
  "\<exists>s'. popMessage (T_inbox 0x200) 0x300 ex_idle = Inr (0x600, s')"
proof -
  have "rep ex_idle {T_inbox 0x200} ex_idle_Q" by (rule ex_idle_rep) simp
  from popMessage_oldest[OF this, of "T_inbox 0x200" "0x300"] show ?thesis
    by (auto simp: ex_Q_simps sender_of_def ex_fields simp del: fun_upd_apply)
qed

section \<open>Pools\<close>

text \<open>
  After \<open>initTcbs\<close> the first \<open>MAXTHREADS\<close> allocations return the elements of
  \<open>thread_array\<close>, each once, and every further one returns \<open>NULL\<close>.
\<close>

theorem tcb_pool_exhaustion:
  assumes "pools_ok s" and "tcb_layout lay s"
  shows "\<exists>s'. kthen (initTcbs lay) (krepeat n allocTcb) s
           = Inr (take n (thread_array lay) @ replicate (n - MAXTHREADS) NULL, s')"
proof -
  have "rep s {} (\<lambda>_. thread_array lay)" using assms(1) by (simp add: rep_def rings_def)
  then have "wp (initTcbs lay) (\<lambda>_ s'. rep s' {Tcbfree_sentinel} (\<lambda>_. thread_array lay)) no_stop s"
    by (rule wp_initTcbs) (use assms(2) in \<open>auto simp: unlinked_def fun_upd_def\<close>)
  then obtain s1 where s1: "initTcbs lay s = Inr ((), s1)" "rep s1 {Tcbfree_sentinel} (\<lambda>_. thread_array lay)"
    by (auto simp: wp_total)
  from tcb_pool.alloc_many[OF s1(2), of n] s1(1) assms(2) show ?thesis
    by (auto simp: tcb_layout_def)
qed

text \<open>The link-time layout of the small machine: its pools are the two arrays.\<close>

definition ex_lay :: layout where
  "ex_lay = \<lparr>thread_array = map (\<lambda>i. 0x1000 + of_nat i * 0x100) [0..<20], msg_array = map (\<lambda>i. 0x3000 + of_nat i * 0x10) [0..<20],
     interrupt_msg_array = 0x4000, sysbp_handler_addr = 0x5000, pgmtrap_handler_addr = 0x5100,
     tlb_handler_addr = 0x5200, int_handler_addr = 0x5300, SSI_thread_addr = 0x5400, test_addr = 0x5500\<rparr>"

definition ex_reset :: kstate where
  "ex_reset = (ex_state 0 [] [] (ex_area 0 0 0 0))\<lparr>
     tcbs := (\<lambda>p. if p \<in> set (thread_array ex_lay) then Some (ex_tcb 0 0 0) else None),
     msgs := (\<lambda>p. if p \<in> set (msg_array ex_lay) then Some \<lparr>m_sender = 0, m_message = 0\<rparr> else None)\<rparr>"

lemma ex_lay_arrays:
  "distinct (thread_array ex_lay)" "length (thread_array ex_lay) = 20" "0 \<notin> set (thread_array ex_lay)"
  "distinct (msg_array ex_lay)" "length (msg_array ex_lay) = 20" "0 \<notin> set (msg_array ex_lay)"
  by (simp_all add: ex_lay_def upt_rec)

lemma ex_reset_ok: "pools_ok ex_reset" "tcb_layout ex_lay ex_reset" "msg_layout ex_lay ex_reset"
proof -
  have "{p. lvalid ex_reset (T_next p)} = set (thread_array ex_lay)" "{p. lvalid ex_reset (M_next p)} = set (msg_array ex_lay)"
    by (auto simp: ex_reset_def)
  moreover have "\<not> lvalid ex_reset (T_next 0)" "\<not> lvalid ex_reset (M_next 0)"
    using ex_lay_arrays by (simp_all add: ex_reset_def)
  ultimately show "pools_ok ex_reset"
    using ex_lay_arrays distinct_card[of "thread_array ex_lay"] distinct_card[of "msg_array ex_lay"]
    unfolding pools_ok_def by simp
  show "tcb_layout ex_lay ex_reset" "msg_layout ex_lay ex_reset"
    using ex_lay_arrays by (simp_all add: tcb_layout_def msg_layout_def ex_reset_def)
qed

theorem tcb_pool_exhaustion_witness:
  "\<exists>s'. kthen (initTcbs ex_lay) (krepeat 21 allocTcb) ex_reset = Inr (thread_array ex_lay @ [NULL], s')"
  using tcb_pool_exhaustion[OF ex_reset_ok(1,2), of 21] ex_lay_arrays(2) by (simp del: krepeat.simps)

text \<open>
  All messages can be taken from the pool, and when all have been given back the pool
  hands them out again in the same order.
\<close>

theorem msg_pool_roundtrip:
  assumes "pools_ok s" and "msg_layout lay s"
  shows "\<exists>s1 s2 s3 s4. initMsg lay s = Inr ((), s1) \<and>
           krepeat MAXMESSAGES allocMsg s1 = Inr (msg_array lay, s2) \<and>
           kfor (msg_array lay) freeMsg s2 = Inr ((), s3) \<and>
           krepeat (Suc MAXMESSAGES) allocMsg s3 = Inr (msg_array lay @ [NULL], s4)"
proof -
  let ?ms = "msg_array lay"
  have n: "length ?ms = MAXMESSAGES" using assms(2) by (simp add: msg_layout_def)
  have "rep s {} (\<lambda>_. ?ms)" using assms(1) by (simp add: rep_def rings_def)
  then have "wp (initMsg lay) (\<lambda>_ s'. rep s' {Msgfree_sentinel} (\<lambda>_. ?ms)) no_stop s"
    by (rule wp_initMsg) (use assms(2) in \<open>auto simp: unlinked_def fun_upd_def\<close>)
  then obtain s1 where s1: "initMsg lay s = Inr ((), s1)" "rep s1 {Msgfree_sentinel} (\<lambda>_. ?ms)"
    by (auto simp: wp_total)
  from msg_pool.alloc_release_all[OF s1(2)] obtain s2 s3 where
    s2: "krepeat (length ?ms) allocMsg s1 = Inr (?ms, s2)" and s3: "kfor ?ms freeMsg s2 = Inr ((), s3)"
    and r3: "rep s3 {Msgfree_sentinel} (\<lambda>_. ?ms)" by auto
  from msg_pool.alloc_many[OF r3, of "Suc MAXMESSAGES"] obtain s4 where
    "krepeat (Suc MAXMESSAGES) allocMsg s3 = Inr (?ms @ [NULL], s4)" using n by auto
  with s1 s2 s3 n show ?thesis by metis
qed

theorem msg_pool_roundtrip_witness:
  "\<exists>s1 s2. initMsg ex_lay ex_reset = Inr ((), s1) \<and> krepeat MAXMESSAGES allocMsg s1 = Inr (msg_array ex_lay, s2)"
  using msg_pool_roundtrip[OF ex_reset_ok(1,3)] by blast

text \<open>
  The TCB that \<open>allocTcb\<close> returns is the first free one; all its fields are reset, its
  list of children and its inbox are empty, and no other TCB and no other list changes.
\<close>

theorem allocTcb_fresh:
  assumes "rep s H Q" and "Tcbfree_sentinel \<in> H" and "Q Tcbfree_sentinel = p # ps"
    and "\<forall>q\<in>set (p # ps). T_child q \<notin> H \<and> T_inbox q \<notin> H \<and> unlinked H Q By_t_sib q"
    and "tcbs s p = Some t" and "length (gpr (t_state t)) = 29"
  shows "\<exists>s'. allocTcb s = Inr (p, s') \<and>
     rep s' (insert (T_inbox p) (insert (T_child p) H)) (Q(Tcbfree_sentinel := ps, T_child p := [], T_inbox p := [])) \<and>
     tcbs s' = (tcbs s)(p \<mapsto> \<lparr>t_parent = NULL,
        t_state = \<lparr>entry_hi = 0, cause = 0, status = 0, pc_epc = 0, gpr = replicate 29 0, hi = 0, lo = 0\<rparr>,
        waiting_for = - 1, reply = - 1, sysbp_manager_thread = NULL, pgmtrap_manager_thread = NULL,
        tlbtrap_manager_thread = NULL, cpu_time = 0, cpu_slice = 0\<rparr>) \<and> msgs s' = msgs s \<and> mem s' = mem s"
proof -
  have "fresh_tcb t = \<lparr>t_parent = NULL, t_state = zero_state,
        waiting_for = - 1, reply = - 1, sysbp_manager_thread = NULL, pgmtrap_manager_thread = NULL,
        tlbtrap_manager_thread = NULL, cpu_time = 0, cpu_slice = 0\<rparr>"
    by (cases t) (use assms(6) in \<open>simp add: fresh_tcb_def init_t_state_eq\<close>)
  note f = this[unfolded zero_state_def]
  have "wp allocTcb (\<lambda>x s'. x = p \<and>
     rep s' (insert (T_inbox p) (insert (T_child p) H)) (Q(Tcbfree_sentinel := ps, T_child p := [], T_inbox p := [])) \<and>
     tcbs s' = (tcbs s)(p \<mapsto> fresh_tcb t) \<and> msgs s' = msgs s \<and> mem s' = mem s) no_stop s"
    by (rule wp_allocTcb[OF assms(1,2)]) (use assms(3-5) in \<open>auto simp del: fun_upd_apply\<close>)
  then show ?thesis unfolding f by (auto simp: wp_total simp del: fun_upd_apply)
qed

theorem allocTcb_fresh_witness:
  "\<exists>s'. allocTcb ex_idle = Inr (0x400, s') \<and> map_option waiting_for (tcbs s' 0x400) = Some (- 1)"
proof -
  have r: "rep ex_idle {Tcbfree_sentinel} ex_idle_Q" by (rule ex_idle_rep) simp
  have t: "tcbs ex_idle 0x400 = Some (ex_tcb 0 0 0)" "length (gpr (t_state (ex_tcb 0 0 0))) = 29"
    by (simp_all add: ex_fields ex_tcb_def)
  from allocTcb_fresh[OF r _ _ _ t, of "[]"] show ?thesis
    by (auto simp: ex_Q_simps unlinked_def simp del: fun_upd_apply) (auto simp: fun_upd_same)
qed

section \<open>The thread tree\<close>

text \<open>
  A thread that is made a child and then taken out again leaves the list of children as
  it was and has no parent; other threads are not touched.
\<close>

theorem child_roundtrip:
  assumes "rep s H Q" and "T_child parent \<in> H" and "parent \<noteq> NULL" and "unlinked H Q By_t_sib c" and "tcbs s c = Some t"
  shows "\<exists>s'. kthen (insertChild parent c) (outChild c) s = Inr (c, s') \<and> rep s' H Q \<and>
            tcbs s' = (tcbs s)(c \<mapsto> t\<lparr>t_parent := NULL\<rparr>)"
proof -
  let ?h = "T_child parent"
  define Q1 where "Q1 = Q(?h := Q ?h @ [c])"
  have nc: "c \<notin> set (Q ?h)" using assms(2,4) by (auto simp: unlinked_def)
  have bk: "Q1(?h := remove1 c (Q1 ?h)) = Q" using nc by (auto simp: Q1_def remove1_append)
  have "wp (insertChild parent c) (\<lambda>_. wp (outChild c) (\<lambda>x s'. x = c \<and> rep s' H Q \<and>
            tcbs s' = (tcbs s)(c \<mapsto> t\<lparr>t_parent := NULL\<rparr>)) no_stop) no_stop s"
  proof (rule wp_insertChild[OF assms(1,2,4,5)])
    fix L
    let ?s1 = "s\<lparr>tcbs := (tcbs s)(c \<mapsto> t\<lparr>t_parent := parent\<rparr>), lst := L\<rparr>"
    assume "rep ?s1 H (Q(?h := Q ?h @ [c]))"
    then have r1: "rep ?s1 H Q1" by (simp only: Q1_def)
    have t1: "tcbs ?s1 c = Some (t\<lparr>t_parent := parent\<rparr>)" by simp
    show "wp (outChild c) (\<lambda>x s'. x = c \<and> rep s' H Q \<and>
            tcbs s' = (tcbs s)(c \<mapsto> t\<lparr>t_parent := NULL\<rparr>)) no_stop ?s1"
      by (rule wp_outChild[OF r1 t1]) (use assms(2,3) bk in \<open>auto simp: Q1_def simp del: fun_upd_apply simp add: fun_upd_same\<close>)
  qed
  then show ?thesis unfolding wp_kthen[symmetric] by (auto simp: wp_total simp del: fun_upd_apply wp_kthen)
qed

theorem child_roundtrip_witness:
  "\<exists>s'. kthen (insertChild 0x200 0x100) (outChild 0x100) ex_idle = Inr (0x100, s') \<and> rep s' {T_child 0x200} ex_idle_Q"
proof -
  have r: "rep ex_idle {T_child 0x200} ex_idle_Q" by (rule ex_idle_rep) simp
  from child_roundtrip[OF r, of "0x200" "0x100" "ex_tcb 0 0 0x700"] show ?thesis
    by (auto simp: ex_Q_simps ex_fields unlinked_def simp del: fun_upd_apply)
qed

end
