(* ===== verification/Manager.thy ===== *)
theory Manager
  imports Kernel_State
begin

text \<open>
  \<^verbatim>\<open>phase2/src/manager.c\<close>: the array \<open>trap_managers\<close>, in which the kernel records the
  threads that somebody has named as a trap manager. The loops over the array are recursions
  over the list of its entries.
\<close>

section \<open>The routines\<close>

fun add_scan :: "U32 \<Rightarrow> U32 list \<Rightarrow> U32 list" where
  "add_scan manager [] = []"
| "add_scan manager (x # xs) =
     (if x = manager then x # xs
      else if x = NULL then manager # xs
      else x # add_scan manager xs)"

fun delete_scan :: "U32 \<Rightarrow> U32 list \<Rightarrow> U32 list" where
  "delete_scan manager [] = []"
| "delete_scan manager (x # xs) =
     (if x = manager then NULL # xs else x # delete_scan manager xs)"

fun find_scan :: "U32 \<Rightarrow> U32 list \<Rightarrow> U32" where
  "find_scan manager [] = NULL"
| "find_scan manager (x # xs) = (if x = manager then manager else find_scan manager xs)"

definition add_manager :: "U32 \<Rightarrow> unit kmon" where
  "add_manager manager = kmodify (\<lambda>s. s\<lparr>trap_managers := add_scan manager (trap_managers s)\<rparr>)"

definition delete_manager :: "U32 \<Rightarrow> unit kmon" where
  "delete_manager manager = kmodify (\<lambda>s. s\<lparr>trap_managers := delete_scan manager (trap_managers s)\<rparr>)"

definition thereIs_manager :: "U32 \<Rightarrow> U32 kmon" where
  "thereIs_manager manager = kget (\<lambda>s. find_scan manager (trap_managers s))"

section \<open>Lemmas\<close>

lemma length_add_scan [simp]: "length (add_scan m xs) = length xs"
  by (induction xs) auto

lemma length_delete_scan [simp]: "length (delete_scan m xs) = length xs"
  by (induction xs) auto

lemma find_scan_eq: "find_scan m xs = (if m \<in> set xs then m else NULL)"
  by (induction xs) auto

lemma add_scan_present: "NULL \<in> set xs \<or> m \<in> set xs \<Longrightarrow> m \<in> set (add_scan m xs)"
  by (induction xs) auto

lemma add_scan_full: "NULL \<notin> set xs \<Longrightarrow> m \<notin> set xs \<Longrightarrow> add_scan m xs = xs"
  by (induction xs) auto

lemma add_scan_others: "x \<noteq> m \<Longrightarrow> x \<noteq> NULL \<Longrightarrow> x \<in> set (add_scan m xs) \<longleftrightarrow> x \<in> set xs"
  by (induction xs) auto

lemma delete_scan_others: "x \<noteq> m \<Longrightarrow> x \<noteq> NULL \<Longrightarrow> x \<in> set (delete_scan m xs) \<longleftrightarrow> x \<in> set xs"
  by (induction xs) auto

lemma delete_scan_filter:
  assumes "m \<noteq> NULL"
  shows "filter (\<lambda>x. x \<noteq> NULL) (delete_scan m xs) = remove1 m (filter (\<lambda>x. x \<noteq> NULL) xs)"
  using assms by (induction xs) auto

lemma delete_scan_gone:
  assumes "m \<noteq> NULL" and "distinct (filter (\<lambda>x. x \<noteq> NULL) xs)"
  shows "m \<notin> set (delete_scan m xs)"
proof -
  have "m \<notin> set (filter (\<lambda>x. x \<noteq> NULL) (delete_scan m xs))"
    unfolding delete_scan_filter[OF assms(1)] using assms(2) by simp
  with assms(1) show ?thesis by simp
qed

lemma add_scan_distinct:
  assumes "distinct (filter (\<lambda>x. x \<noteq> NULL) xs)" and "m \<notin> set xs"
  shows "distinct (filter (\<lambda>x. x \<noteq> NULL) (add_scan m xs))"
  using assms by (induction xs) (auto simp: add_scan_others)

end
