(* ===== verification/Terminate.thy ===== *)
theory Terminate
  imports Kernel_Inv Manager
begin

text \<open>
  The routine \<open>terminate\<close> of \<^verbatim>\<open>phase2/src/exceptions.c\<close>: the end of a thread and of the
  whole subtree below it.
\<close>

section \<open>The routines\<close>

text \<open>\<open>terminate\<close>: the loop that empties the inbox.\<close>

fun clean_inbox :: "nat \<Rightarrow> U32 \<Rightarrow> unit kmon" where
  "clean_inbox 0 target = kstop Diverge"
| "clean_inbox (Suc n) target =
     kbind (popMessage (T_inbox target) NULL) (\<lambda>msg.
     if msg = NULL then kreturn ()
     else kthen (freeMsg msg) (clean_inbox n target))"

text \<open>\<open>terminate\<close>: what happens once the thread has no children.\<close>

definition reap :: "U32 \<Rightarrow> unit kmon" where
  "reap target =
     kbind (outThread Ready_queue target) (\<lambda>r.
     kbind (kget current_thread) (\<lambda>cur.
     if r \<noteq> NULL \<or> cur = target then
       kthen (clean_inbox LOOP_BOUND target)
       (kthen (delete_manager target)
       (kthen (kmodify (\<lambda>s. if current_thread s = target then s\<lparr>current_thread := NULL\<rparr> else s))
       (kthen (freeTcb target)
       (kmodify (\<lambda>s. s\<lparr>thread_count := thread_count s - 1\<rparr>)))))
     else
       kbind (outThread Wait_queue target) (\<lambda>w.
       if w \<noteq> NULL then
         kbind (get_tcb target) (\<lambda>t.
         kthen (kmodify (\<lambda>s. if waiting_for t = SSI_tcb s
                             then s\<lparr>soft_block_count := soft_block_count s - 1\<rparr> else s))
         (kthen (clean_inbox LOOP_BOUND target)
         (kthen (delete_manager target)
         (kthen (freeTcb target)
         (kmodify (\<lambda>s. s\<lparr>thread_count := thread_count s - 1\<rparr>))))))
       else kstop PANIC)))"

text \<open>
  The recursion over the subtree. Every iteration of the loop over the children takes one
  thread out of the tree, so \<open>TERMINATE_BOUND\<close> levels are enough for a tree of at most
  \<open>MAXTHREADS\<close> threads.
\<close>

fun terminate_rec :: "nat \<Rightarrow> U32 \<Rightarrow> unit kmon"
and terminate_children :: "nat \<Rightarrow> U32 \<Rightarrow> unit kmon" where
  "terminate_rec 0 target = kstop Diverge"
| "terminate_rec (Suc n) target =
     kthen (outChild target)
     (kthen (terminate_children n target)
     (reap target))"
| "terminate_children 0 target = kstop Diverge"
| "terminate_children (Suc n) target =
     kbind (removeChild target) (\<lambda>child.
     if child = NULL then kreturn ()
     else kthen (terminate_rec n child) (terminate_children n target))"

definition TERMINATE_BOUND :: nat where
  "TERMINATE_BOUND = 2 * MAXTHREADS"

definition terminate :: "U32 \<Rightarrow> unit kmon" where
  "terminate target = terminate_rec TERMINATE_BOUND target"

section \<open>The end of one thread\<close>

text \<open>
  The effect on the queues of ending the threads \<open>zs\<close>: they leave the ready and the wait
  queue, their TCBs and the messages in their inboxes go to the end of the free lists.
\<close>

definition reap_list :: "U32 list \<Rightarrow> (list_head \<Rightarrow> U32 list) \<Rightarrow> list_head \<Rightarrow> U32 list" where
  "reap_list zs Q h = (case h of
       Ready_queue \<Rightarrow> filter (\<lambda>x. x \<notin> set zs) (Q Ready_queue)
     | Wait_queue \<Rightarrow> filter (\<lambda>x. x \<notin> set zs) (Q Wait_queue)
     | Tcbfree_sentinel \<Rightarrow> Q Tcbfree_sentinel @ zs
     | Msgfree_sentinel \<Rightarrow> Q Msgfree_sentinel @ concat (map (\<lambda>x. Q (T_inbox x)) zs)
     | T_inbox x \<Rightarrow> if x \<in> set zs then [] else Q (T_inbox x)
     | T_child x \<Rightarrow> if x \<in> set zs then [] else Q (T_child x)
     | _ \<Rightarrow> Q h)"

lemma reap_list_simps [simp]:
  "reap_list zs Q Ready_queue = filter (\<lambda>x. x \<notin> set zs) (Q Ready_queue)"
  "reap_list zs Q Wait_queue = filter (\<lambda>x. x \<notin> set zs) (Q Wait_queue)"
  "reap_list zs Q Tcbfree_sentinel = Q Tcbfree_sentinel @ zs"
  "reap_list zs Q Msgfree_sentinel = Q Msgfree_sentinel @ concat (map (\<lambda>x. Q (T_inbox x)) zs)"
  "reap_list zs Q (T_inbox x) = (if x \<in> set zs then [] else Q (T_inbox x))"
  "reap_list zs Q (T_child x) = (if x \<in> set zs then [] else Q (T_child x))"
  by (simp_all add: reap_list_def)

lemma reap_list_Nil [simp]: "reap_list [] Q = Q"
  by (rule ext) (simp add: reap_list_def split: list_head.split)

lemma reap_list_append:
  assumes "set zs \<inter> set ws = {}"
  shows "reap_list ws (reap_list zs Q) = reap_list (zs @ ws) Q"
proof (rule ext)
  fix h
  have m: "map (\<lambda>x. reap_list zs Q (T_inbox x)) ws = map (\<lambda>x. Q (T_inbox x)) ws" using assms by auto
  show "reap_list ws (reap_list zs Q) h = reap_list (zs @ ws) Q h"
  proof (cases h)
    case Msgfree_sentinel
    then show ?thesis using arg_cong[OF m, of concat] by simp
  qed (auto simp: reap_list_def conj_commute)
qed

lemma reap_list_child: "p \<notin> set zs \<Longrightarrow> reap_list zs (Q(T_child p := xs)) = (reap_list zs Q)(T_child p := xs)"
  by (rule ext) (auto simp: reap_list_def split: list_head.split)

lemma live_reap:
  "p \<in> live s Q \<Longrightarrow> current_thread s' = (if current_thread s = p then NULL else current_thread s) \<Longrightarrow>
   p \<noteq> NULL \<Longrightarrow> live s' (reap_list [p] Q) = live s Q - {p}"
  by (auto simp: live_def split: if_splits)

lemma kinv_reap:
  assumes k: "kinv s H Q" and p: "p \<in> live s Q" and r: "rep s' H (reap_list [p] Q)"
    and c: "current_thread s' = (if current_thread s = p then NULL else current_thread s)"
    and n: "thread_count s' = thread_count s - 1"
    and nn: "\<And>q. tcbs s' q = None \<longleftrightarrow> tcbs s q = None" "\<And>m. msgs s' m = None \<longleftrightarrow> msgs s m = None"
  shows "kinv s' H (reap_list [p] Q)"
proof (rule kinv_intro[OF r])
  have l: "live s' (reap_list [p] Q) = live s Q - {p}"
    by (rule live_reap[OF p c kinv_live_not_NULL[OF k p]])
  show "base_heads s' (reap_list [p] Q) \<subseteq> H" using k by (auto simp: kinv_def base_heads_def l)
  show "accounted s' (reap_list [p] Q)"
    using k p by (auto simp: kinv_def accounted_def l nn)
  have "card (live s Q - {p}) = card (live s Q) - 1" "card (live s Q) > 0"
    using p kinv_live_finite[of s Q] by (auto simp: card_gt_0_iff)
  then show "thread_count s' = of_nat (card (live s' (reap_list [p] Q)))"
    using k n l by (simp add: kinv_def of_nat_diff)
  assume "current_thread s' \<noteq> NULL"
  then have cc: "current_thread s' = current_thread s" "current_thread s \<noteq> p" "current_thread s \<noteq> NULL"
    using c by (auto split: if_splits)
  then have "unlinked H Q By_t_next (current_thread s)" using k by (simp add: kinv_def)
  then show "unlinked H (reap_list [p] Q) By_t_next (current_thread s')"
    using cc kinv_rep[OF k] by (auto simp: unlinked_def reap_list_def split: list_head.splits if_splits)
qed

lemma wp_clean_inbox:
  assumes "rep s H Q" and "T_inbox p \<in> H" and "Msgfree_sentinel \<in> H" and "length (Q (T_inbox p)) < n"
    and "\<And>L. rep (s\<lparr>lst := L\<rparr>) H (Q(T_inbox p := [], Msgfree_sentinel := Q Msgfree_sentinel @ Q (T_inbox p))) \<Longrightarrow>
           P () (s\<lparr>lst := L\<rparr>)"
  shows "wp (clean_inbox n p) P E s"
  using assms
proof (induction n arbitrary: s Q)
  case (Suc n)
  show ?case
    unfolding clean_inbox.simps wp_kbind
  proof (rule wp_popMessage[OF Suc.prems(1,2)])
    assume "pick s NULL (Q (T_inbox p)) = None"
    then have e: "Q (T_inbox p) = []" by (simp add: pick_def split: list.splits)
    have "rep s H (Q(T_inbox p := [], Msgfree_sentinel := Q Msgfree_sentinel @ Q (T_inbox p))) = rep s H Q"
      by (rule rep_Q_cong) (simp add: e)
    with Suc.prems(1) Suc.prems(5)[of "lst s"] have "P () s" by (simp del: fun_upd_apply)
    then show "wp (if NULL = NULL then kreturn () else kthen (freeMsg NULL) (clean_inbox n p)) P E s"
      by simp
  next
    fix m L
    assume pk: "pick s NULL (Q (T_inbox p)) = Some m" "m \<in> set (Q (T_inbox p))" "m \<noteq> NULL"
      and r1: "rep (s\<lparr>lst := L\<rparr>) H (Q(T_inbox p := remove1 m (Q (T_inbox p))))"
    from pk(1) obtain ms where ms: "Q (T_inbox p) = m # ms" by (auto simp: pick_def split: list.splits)
    define Q1 where "Q1 = Q(T_inbox p := ms)"
    define Q2 where "Q2 = Q1(Msgfree_sentinel := Q1 Msgfree_sentinel @ [m])"
    from r1 ms have r1: "rep (s\<lparr>lst := L\<rparr>) H Q1" by (simp add: Q1_def)
    have un: "unlinked H Q1 By_m_next m"
      using rep_removed_unlinked[OF Suc.prems(1,2) pk(2)] ms by (simp add: Q1_def)
    have v: "msgs (s\<lparr>lst := L\<rparr>) m \<noteq> None" using rep_msg[OF Suc.prems(1,2) _ pk(2)] by simp
    have "wp (freeMsg m) (\<lambda>_. wp (clean_inbox n p) P E) E (s\<lparr>lst := L\<rparr>)"
    proof (rule wp_freeMsg[OF r1 Suc.prems(3) un v])
      fix L2 assume "rep (s\<lparr>lst := L, lst := L2\<rparr>) H (Q1(Msgfree_sentinel := Q1 Msgfree_sentinel @ [m]))"
      then have r2: "rep (s\<lparr>lst := L, lst := L2\<rparr>) H Q2" by (simp add: Q2_def)
      show "wp (clean_inbox n p) P E (s\<lparr>lst := L, lst := L2\<rparr>)"
      proof (rule Suc.IH[OF r2 Suc.prems(2,3)])
        show "length (Q2 (T_inbox p)) < n" using Suc.prems(4) ms by (simp add: Q2_def Q1_def)
        fix L3
        assume "rep (s\<lparr>lst := L, lst := L2, lst := L3\<rparr>) H
                 (Q2(T_inbox p := [], Msgfree_sentinel := Q2 Msgfree_sentinel @ Q2 (T_inbox p)))"
        moreover have "Q2(T_inbox p := [], Msgfree_sentinel := Q2 Msgfree_sentinel @ Q2 (T_inbox p))
             = Q(T_inbox p := [], Msgfree_sentinel := Q Msgfree_sentinel @ Q (T_inbox p))"
          by (rule ext) (simp add: Q2_def Q1_def ms)
        ultimately show "P () (s\<lparr>lst := L, lst := L2, lst := L3\<rparr>)" using Suc.prems(5)[of L3] by (simp del: fun_upd_apply)
      qed
    qed
    with pk(3) show "wp (if m = NULL then kreturn () else kthen (freeMsg m) (clean_inbox n p)) P E (s\<lparr>lst := L\<rparr>)"
      by simp
  qed simp
qed simp

text \<open>The parts of the kernel state that the end of threads does not touch.\<close>

definition same_rest :: "kstate \<Rightarrow> kstate \<Rightarrow> bool" where
  "same_rest s s' \<longleftrightarrow> s' = s\<lparr>lst := lst s', tcbs := tcbs s', current_thread := current_thread s',
     thread_count := thread_count s', soft_block_count := soft_block_count s', trap_managers := trap_managers s'\<rparr>"

lemma same_rest_refl [simp]: "same_rest s s"
  by (simp add: same_rest_def)

lemma same_rest_trans: "same_rest s s1 \<Longrightarrow> same_rest s1 s2 \<Longrightarrow> same_rest s s2"
  by (cases s; cases s1; cases s2) (simp add: same_rest_def)

lemma same_rest_fields:
  assumes "same_rest s s'"
  shows "mem s' = mem s" "msgs s' = msgs s" "SSI_tcb s' = SSI_tcb s" "areas s' = areas s"
    "todlow s' = todlow s" "tod_reads s' = tod_reads s" "bus_ok s' = bus_ok s"
  using assms by (cases s; cases s'; simp add: same_rest_def bus_ok_def)+

text \<open>
  \<open>gone s zs s'\<close>: between \<open>s\<close> and \<open>s'\<close> the threads \<open>zs\<close> have been ended, in this
  order, and nothing else has happened outside the queues; \<open>ended\<close> adds the queues.
\<close>

definition gone :: "kstate \<Rightarrow> U32 list \<Rightarrow> kstate \<Rightarrow> bool" where
  "gone s zs s' \<longleftrightarrow> same_rest s s'
     \<and> (\<forall>x. (tcbs s' x = None) = (tcbs s x = None)) \<and> (\<forall>x. x \<notin> set zs \<longrightarrow> tcbs s' x = tcbs s x)
     \<and> (\<forall>x t t'. tcbs s x = Some t \<longrightarrow> tcbs s' x = Some t' \<longrightarrow> waiting_for t' = waiting_for t \<and> t_state t' = t_state t \<and>
        snd (tcb_links t') = snd (tcb_links t))
     \<and> current_thread s' = (if current_thread s \<in> set zs then NULL else current_thread s)
     \<and> trap_managers s' = fold delete_scan zs (trap_managers s)
     \<and> ((\<forall>x\<in>set zs. \<forall>t. tcbs s x = Some t \<longrightarrow> waiting_for t \<noteq> SSI_tcb s) \<longrightarrow>
          soft_block_count s' = soft_block_count s)"

definition ended :: "kstate \<Rightarrow> list_head set \<Rightarrow> (list_head \<Rightarrow> U32 list) \<Rightarrow> U32 list \<Rightarrow> kstate \<Rightarrow> bool" where
  "ended s H Q zs s' \<longleftrightarrow> kinv s' H (reap_list zs Q) \<and> gone s zs s'"

lemma gone_refl [simp]: "gone s [] s"
  by (simp add: gone_def)

lemma gone_trans:
  assumes "gone s zs s1" and "gone s1 ws s2" and "set zs \<inter> set ws = {}"
  shows "gone s (zs @ ws) s2"
proof -
  note a = assms(1)[unfolded gone_def] and b = assms(2)[unfolded gone_def]
  have ssi: "SSI_tcb s1 = SSI_tcb s" using a same_rest_fields(3)[of s s1] by blast
  have "same_rest s s2" using a b same_rest_trans by blast
  moreover have "waiting_for t' = waiting_for t \<and> t_state t' = t_state t \<and> snd (tcb_links t') = snd (tcb_links t)" if x: "tcbs s x = Some t" "tcbs s2 x = Some t'" for x t t'
  proof -
    obtain t1 where t1: "tcbs s1 x = Some t1" using a x(1) by (metis not_None_eq)
    have "waiting_for t1 = waiting_for t \<and> t_state t1 = t_state t \<and> snd (tcb_links t1) = snd (tcb_links t)" using a x(1) t1 by blast
    moreover have "waiting_for t' = waiting_for t1 \<and> t_state t' = t_state t1 \<and> snd (tcb_links t') = snd (tcb_links t1)" using b t1 x(2) by blast
    ultimately show ?thesis by simp
  qed
  moreover have "soft_block_count s2 = soft_block_count s"
    if w: "\<forall>x\<in>set (zs @ ws). \<forall>t. tcbs s x = Some t \<longrightarrow> waiting_for t \<noteq> SSI_tcb s"
  proof -
    have "\<forall>x\<in>set zs. \<forall>t. tcbs s x = Some t \<longrightarrow> waiting_for t \<noteq> SSI_tcb s" using w by (simp add: ball_Un)
    then have 1: "soft_block_count s1 = soft_block_count s" using a by blast
    have "tcbs s1 x = tcbs s x" if "x \<in> set ws" for x using a that assms(3) by blast
    then have "\<forall>x\<in>set ws. \<forall>t. tcbs s1 x = Some t \<longrightarrow> waiting_for t \<noteq> SSI_tcb s1"
      using w ssi by (simp add: ball_Un)
    then have "soft_block_count s2 = soft_block_count s1" using b by blast
    with 1 show ?thesis by simp
  qed
  ultimately show ?thesis using a b assms(3) unfolding gone_def by auto
qed

lemma filter_remove1: "distinct xs \<Longrightarrow> filter (\<lambda>x. x \<noteq> p) xs = remove1 p xs"
  by (simp add: distinct_remove1_removeAll remove1_filter_not removeAll_filter_not_eq) (metis)

text \<open>The common end of both branches, once the thread is on no queue.\<close>

definition bury :: "bool \<Rightarrow> U32 \<Rightarrow> unit kmon" where
  "bury clear target =
     kthen (clean_inbox LOOP_BOUND target)
     (kthen (delete_manager target)
     (kthen (if clear then kmodify (\<lambda>s. if current_thread s = target then s\<lparr>current_thread := NULL\<rparr> else s) else kreturn ())
     (kthen (freeTcb target)
     (kmodify (\<lambda>s. s\<lparr>thread_count := thread_count s - 1\<rparr>)))))"

lemma wp_bury:
  assumes k: "kinv s H Q" and p: "p \<in> live s Q" and ch: "Q (T_child p) = []"
    and r: "rep s1 H (Q(Ready_queue := remove1 p (Q Ready_queue), Wait_queue := remove1 p (Q Wait_queue)))"
    and s1: "s1 = s\<lparr>soft_block_count := c, lst := L\<rparr>"
    and c: "(\<forall>t. tcbs s p = Some t \<longrightarrow> waiting_for t \<noteq> SSI_tcb s) \<Longrightarrow> c = soft_block_count s"
    and cl: "clear \<or> current_thread s \<noteq> p"
    and P: "\<And>s'. ended s H Q [p] s' \<Longrightarrow> P () s'"
  shows "wp (bury clear p) P E s1"
proof -
  define Q1 where "Q1 = Q(Ready_queue := remove1 p (Q Ready_queue), Wait_queue := remove1 p (Q Wait_queue))"
  define Q2 where "Q2 = Q1(T_inbox p := [], Msgfree_sentinel := Q1 Msgfree_sentinel @ Q1 (T_inbox p))"
  note h = kinv_heads[OF k] and rs = kinv_rep[OF k]
  have r1: "rep s1 H Q1" using r by (simp add: Q1_def)
  have d: "distinct (Q Ready_queue)" "distinct (Q Wait_queue)" using rep_distinct[OF rs] h by auto
  have un: "unlinked H Q2 By_t_next p"
  proof -
    have "p \<notin> set (Q Tcbfree_sentinel)"
      using p kinv_disjoint[OF k] kinv_current[OF k] by (auto simp: live_def split: if_splits)
    then show ?thesis using d
      by (auto simp: unlinked_def Q2_def Q1_def linker_of_def dest!: rings_sentinel[OF rep_rings[OF rs]] 
            simp: sentinel_def split: list_head.splits)
  qed
  have Q3: "Q2(Tcbfree_sentinel := Q2 Tcbfree_sentinel @ [p]) = reap_list [p] Q"
    using d ch by (intro ext) (auto simp: Q2_def Q1_def reap_list_def filter_remove1 split: list_head.split)
  obtain t where t: "tcbs s p = Some t" using kinv_tcb[OF k p] by auto
  let ?rest = "kthen (delete_manager p)
     (kthen (if clear then kmodify (\<lambda>s. if current_thread s = p then s\<lparr>current_thread := NULL\<rparr> else s) else kreturn ())
     (kthen (freeTcb p)
     (kmodify (\<lambda>s. s\<lparr>thread_count := thread_count s - 1\<rparr>))))"
  have "wp ?rest P E (s1\<lparr>lst := L2\<rparr>)" if r2: "rep (s1\<lparr>lst := L2\<rparr>) H Q2" for L2
  proof -
    define cu where "cu = (if current_thread s = p then NULL else current_thread s)"
    define s2 where "s2 = s\<lparr>soft_block_count := c, trap_managers := delete_scan p (trap_managers s), current_thread := cu, lst := L2\<rparr>"
    have "rep s2 H Q2 = rep (s1\<lparr>lst := L2\<rparr>) H Q2"
      by (rule rep_cong[OF _ lvalid_cong]) (simp_all add: s2_def s1)
    with r2 have r2': "rep s2 H Q2" by simp
    have "wp (freeTcb p) (\<lambda>_. wp (kmodify (\<lambda>s. s\<lparr>thread_count := thread_count s - 1\<rparr>)) P E) E s2"
    proof (rule wp_freeTcb[OF r2' h(3) un])
      fix L3 assume "rep (s2\<lparr>lst := L3\<rparr>) H (Q2(Tcbfree_sentinel := Q2 Tcbfree_sentinel @ [p]))"
      then have r3: "rep (s2\<lparr>lst := L3\<rparr>) H (reap_list [p] Q)" unfolding Q3 .
      define s3 where "s3 = s2\<lparr>lst := L3, thread_count := thread_count s - 1\<rparr>"
      have "kinv s3 H (reap_list [p] Q)"
        by (rule kinv_reap[OF k p]) (use r3 in \<open>simp_all add: s3_def s2_def cu_def\<close>)
      then have "ended s H Q [p] s3"
        using c t unfolding ended_def gone_def same_rest_def by (simp add: s3_def s2_def cu_def)
      from P[OF this] show "wp (kmodify (\<lambda>s. s\<lparr>thread_count := thread_count s - 1\<rparr>)) P E (s2\<lparr>lst := L3\<rparr>)"
        by (simp add: s3_def s2_def)
    qed (simp add: s2_def t)
    then have w: "wp (kthen (freeTcb p) (kmodify (\<lambda>s. s\<lparr>thread_count := thread_count s - 1\<rparr>))) P E s2" by simp
    show ?thesis
    proof (cases "current_thread s = p")
      case True
      with cl w show ?thesis by (auto simp add: delete_manager_def s1 s2_def cu_def lst_last simp del: wp_kthen simp add: wp_kthen[of "kmodify _"])
    next
      case False
      then have "s2 = s\<lparr>soft_block_count := c, trap_managers := delete_scan p (trap_managers s), lst := L2\<rparr>"
        by (simp add: s2_def cu_def)
      with False w show ?thesis by (auto simp add: delete_manager_def s1 lst_last simp del: wp_kthen simp add: wp_kthen[of "kmodify _"])
    qed
  qed
  then show ?thesis
    unfolding bury_def wp_kthen
    by (intro wp_clean_inbox[OF r1 kinv_inbox[OF k p] h(4) rep_length[OF r1 kinv_inbox[OF k p]]])
       (simp add: Q2_def del: fun_upd_apply wp_kthen)
qed

lemma wp_reap:
  assumes k: "kinv s H Q" and p: "p \<in> live s Q" and ch: "Q (T_child p) = []"
    and P: "\<And>s'. ended s H Q [p] s' \<Longrightarrow> P () s'"
  shows "wp (reap p) P E s"
proof -
  note h = kinv_heads[OF k] and r = kinv_rep[OF k]
  have nz: "p \<noteq> NULL" by (rule kinv_live_not_NULL[OF k p])
  obtain t where t: "tcbs s p = Some t" using kinv_tcb[OF k p] by auto
  have b1: "wp (bury True p) P E (s\<lparr>lst := L\<rparr>)"
    if "rep (s\<lparr>lst := L\<rparr>) H (Q(Ready_queue := remove1 p (Q Ready_queue), Wait_queue := remove1 p (Q Wait_queue)))" for L
    by (rule wp_bury[OF k p ch that, where c = "soft_block_count s" and L = L]) (use P in auto)
  consider (ready) "p \<in> set (Q Ready_queue)" "p \<notin> set (Q Wait_queue)"
    | (cur) "p \<notin> set (Q Ready_queue)" "p \<notin> set (Q Wait_queue)" "current_thread s = p"
    | (wait) "p \<notin> set (Q Ready_queue)" "p \<in> set (Q Wait_queue)" "current_thread s \<noteq> p"
    using p kinv_disjoint(1)[OF k, of p] kinv_current(1,2)[OF k] nz by (auto simp: live_def split: if_splits)
  then show ?thesis
  proof cases
    case ready
    have "Q(Ready_queue := remove1 p (Q Ready_queue), Wait_queue := remove1 p (Q Wait_queue))
          = Q(Ready_queue := remove1 p (Q Ready_queue))" using ready by (auto simp: remove1_idem)
    note b = b1[unfolded this]
    show ?thesis
      unfolding reap_def wp_kbind
      by (rule wp_outThread[OF r h(1)]) (use ready b nz in \<open>auto simp: bury_def simp del: fun_upd_apply\<close>)
  next
    case cur
    have "Q(Ready_queue := remove1 p (Q Ready_queue), Wait_queue := remove1 p (Q Wait_queue)) = Q"
      using cur by (auto simp: remove1_idem)
    with b1[of "lst s"] r have b: "wp (bury True p) P E s" by simp
    show ?thesis
      unfolding reap_def wp_kbind
      by (rule wp_outThread[OF r h(1)]) (use cur b nz in \<open>auto simp: bury_def simp del: fun_upd_apply\<close>)
  next
    case wait
    define c where "c = (if waiting_for t = SSI_tcb s then soft_block_count s - 1 else soft_block_count s)"
    have eq: "Q(Ready_queue := remove1 p (Q Ready_queue), Wait_queue := remove1 p (Q Wait_queue))
          = Q(Wait_queue := remove1 p (Q Wait_queue))" using wait by (auto simp: remove1_idem)
    have b: "wp (bury False p) P E (s\<lparr>soft_block_count := c, lst := L\<rparr>)"
      if "rep (s\<lparr>lst := L\<rparr>) H (Q(Wait_queue := remove1 p (Q Wait_queue)))" for L
    proof (rule wp_bury[OF k p ch, where c = c and L = L])
      have "rep (s\<lparr>soft_block_count := c, lst := L\<rparr>) H (Q(Wait_queue := remove1 p (Q Wait_queue)))
            = rep (s\<lparr>lst := L\<rparr>) H (Q(Wait_queue := remove1 p (Q Wait_queue)))"
        by (rule rep_cong[OF _ lvalid_cong]) simp_all
      with that show "rep (s\<lparr>soft_block_count := c, lst := L\<rparr>) H
          (Q(Ready_queue := remove1 p (Q Ready_queue), Wait_queue := remove1 p (Q Wait_queue)))" unfolding eq by simp
    qed (use t wait P in \<open>simp_all add: c_def\<close>)
    have "wp (outThread Wait_queue p) (\<lambda>w. wp (if w \<noteq> NULL then
         kbind (get_tcb p) (\<lambda>t. kthen (kmodify (\<lambda>s. if waiting_for t = SSI_tcb s
                             then s\<lparr>soft_block_count := soft_block_count s - 1\<rparr> else s)) (bury False p))
       else kstop PANIC) P E) E s"
    proof (rule wp_outThread[OF r h(2)])
      fix L assume "rep (s\<lparr>lst := L\<rparr>) H (Q(Wait_queue := remove1 p (Q Wait_queue)))"
      from b[OF this] have "wp (bury False p) P E (s\<lparr>soft_block_count := c, lst := L\<rparr>)" .
      moreover have "s\<lparr>soft_block_count := soft_block_count s, lst := L\<rparr> = s\<lparr>lst := L\<rparr>" by simp
      ultimately show "wp (if p \<noteq> NULL then
         kbind (get_tcb p) (\<lambda>t. kthen (kmodify (\<lambda>s. if waiting_for t = SSI_tcb s
                             then s\<lparr>soft_block_count := soft_block_count s - 1\<rparr> else s)) (bury False p))
       else kstop PANIC) P E (s\<lparr>lst := L\<rparr>)" using nz t by (simp add: c_def lst_last split: if_splits)
    qed (use wait in simp_all)
    then have "wp (kbind (outThread Wait_queue p) (\<lambda>w. if w \<noteq> NULL then
         kbind (get_tcb p) (\<lambda>t. kthen (kmodify (\<lambda>s. if waiting_for t = SSI_tcb s
                             then s\<lparr>soft_block_count := soft_block_count s - 1\<rparr> else s)) (bury False p))
       else kstop PANIC)) P E s" by simp
    with wait have "wp (outThread Ready_queue p) (\<lambda>r. wp (kbind (kget current_thread) (\<lambda>cur.
         if r \<noteq> NULL \<or> cur = p then bury True p else
         kbind (outThread Wait_queue p) (\<lambda>w. if w \<noteq> NULL then
         kbind (get_tcb p) (\<lambda>t. kthen (kmodify (\<lambda>s. if waiting_for t = SSI_tcb s
                             then s\<lparr>soft_block_count := soft_block_count s - 1\<rparr> else s)) (bury False p))
       else kstop PANIC))) P E) E s"
      by (intro wp_outThread[OF r h(1)]) (simp_all del: wp_kbind add: wp_kbind[of "kget current_thread"])
    then show ?thesis by (simp add: reap_def bury_def cong: if_cong)
  qed
qed

section \<open>The end of a subtree\<close>

text \<open>
  The thread tree as data: \<open>tree_at Q t\<close> says that the child lists of the family \<open>Q\<close> are
  those of the tree \<open>t\<close>. \<open>post\<close> lists the threads of the tree in the order in which
  \<open>terminate\<close> ends them: children first.
\<close>

datatype ttree = Node (root: U32) (subs: "ttree list")

fun post :: "ttree \<Rightarrow> U32 list" where
  "post (Node p ts) = concat (map post ts) @ [p]"

fun tree_at :: "(list_head \<Rightarrow> U32 list) \<Rightarrow> ttree \<Rightarrow> bool" where
  "tree_at Q (Node p ts) \<longleftrightarrow> Q (T_child p) = map root ts \<and> (\<forall>t\<in>set ts. tree_at Q t)"

lemma root_in_post: "root t \<in> set (post t)"
  by (cases t) simp

lemma tree_at_cong: "(\<And>x. x \<in> set (post t) \<Longrightarrow> Q' (T_child x) = Q (T_child x)) \<Longrightarrow> tree_at Q' t = tree_at Q t"
  by (induction t) auto

text \<open>The threads below a node may be ended: they are alive and their child lists are known.\<close>

definition endable :: "kstate \<Rightarrow> list_head set \<Rightarrow> (list_head \<Rightarrow> U32 list) \<Rightarrow> U32 list \<Rightarrow> bool" where
  "endable s H Q zs \<longleftrightarrow> distinct zs \<and> (\<forall>x\<in>set zs. x \<in> live s Q \<and> T_child x \<in> H)"

lemma live_ended:
  assumes "ended s H Q zs s'" and "x \<in> live s Q" and "x \<notin> set zs"
  shows "x \<in> live s' (reap_list zs Q)"
  using assms by (auto simp: ended_def gone_def live_def split: if_splits)

lemma endable_ended:
  assumes "ended s H Q zs s'" and "endable s H Q ws" and "set zs \<inter> set ws = {}"
  shows "endable s' H (reap_list zs Q) ws"
  using assms live_ended[OF assms(1)] by (auto simp: endable_def)

text \<open>The children of \<open>p\<close> are ended one after the other; each has lost its parent before.\<close>

lemma gone_unparent:
  assumes "gone (s\<lparr>lst := L, tcbs := (tcbs s)(c \<mapsto> t\<lparr>t_parent := NULL\<rparr>)\<rparr>) zs s'"
    and "tcbs s c = Some t" and "c \<in> set zs"
  shows "gone s zs s'"
proof -
  define s0 where "s0 = s\<lparr>lst := L, tcbs := (tcbs s)(c \<mapsto> t\<lparr>t_parent := NULL\<rparr>)\<rparr>"
  have a: "gone s0 zs s'" using assms(1) by (simp add: s0_def)
  note a = a[unfolded gone_def]
  have "same_rest s s0" by (simp add: same_rest_def s0_def)
  then have f1: "same_rest s s'" using a same_rest_trans by blast
  have s0: "tcbs s0 x = (if x = c then Some (t\<lparr>t_parent := NULL\<rparr>) else tcbs s x)" for x
    by (simp add: s0_def)
  have f4: "waiting_for t' = waiting_for u \<and> t_state t' = t_state u \<and> snd (tcb_links t') = snd (tcb_links u)" if "tcbs s x = Some u" "tcbs s' x = Some t'" for x u t'
  proof (cases "x = c")
    case True
    then have "waiting_for t' = waiting_for (t\<lparr>t_parent := NULL\<rparr>) \<and> t_state t' = t_state (t\<lparr>t_parent := NULL\<rparr>) \<and>
        snd (tcb_links t') = snd (tcb_links (t\<lparr>t_parent := NULL\<rparr>))" using a that s0 by metis
    with True that assms(2) show ?thesis by (simp add: tcb_links_def)
  next
    case False
    then show ?thesis using a that s0 by metis
  qed
  have f7: "soft_block_count s' = soft_block_count s"
    if w: "\<forall>x\<in>set zs. \<forall>u. tcbs s x = Some u \<longrightarrow> waiting_for u \<noteq> SSI_tcb s"
  proof -
    have "\<forall>x\<in>set zs. \<forall>u. tcbs s0 x = Some u \<longrightarrow> waiting_for u \<noteq> SSI_tcb s0"
      using w assms(2,3) by (auto simp: s0_def)
    then have "soft_block_count s' = soft_block_count s0" using a by blast
    then show ?thesis by (simp add: s0_def)
  qed
  have f2: "(tcbs s' x = None) = (tcbs s x = None)" for x using a s0 assms(2) by simp
  have f3: "tcbs s' x = tcbs s x" if "x \<notin> set zs" for x
  proof -
    have "tcbs s' x = tcbs s0 x" using a that by blast
    then show ?thesis using s0 assms(3) that by auto
  qed
  have "current_thread s0 = current_thread s" "trap_managers s0 = trap_managers s" by (simp_all add: s0_def)
  then have f5: "current_thread s' = (if current_thread s \<in> set zs then NULL else current_thread s)"
      "trap_managers s' = fold delete_scan zs (trap_managers s)"
    using a by metis+
  show ?thesis unfolding gone_def using f1 f2 f3 f4 f5 f7 by blast
qed

lemma kinv_child_list:
  assumes k: "kinv s H Q" and r: "rep s' H (Q(T_child p := xs))"
    and same: "current_thread s' = current_thread s" "thread_count s' = thread_count s"
      "\<And>p. tcbs s' p = None \<longleftrightarrow> tcbs s p = None" "\<And>m. msgs s' m = None \<longleftrightarrow> msgs s m = None"
  shows "kinv s' H (Q(T_child p := xs))"
proof -
  let ?Q = "Q(T_child p := xs)"
  have l: "live s' ?Q = live s Q" using same by (simp add: live_def)
  then have "accounted s' ?Q" using k same by (simp add: kinv_def accounted_def)
  with k l r same show ?thesis by (auto simp: kinv_def base_heads_def unlinked_def)
qed

lemma wp_terminate_children:
  assumes IH: "\<And>t n s Q P. t \<in> set ts \<Longrightarrow> kinv s H Q \<Longrightarrow> tree_at Q t \<Longrightarrow> endable s H Q (post t) \<Longrightarrow>
        (\<And>u. tcbs s (root t) = Some u \<Longrightarrow> t_parent u = NULL) \<Longrightarrow> 2 * length (post t) \<le> n \<Longrightarrow>
        (\<And>s'. ended s H Q (post t) s' \<Longrightarrow> P () s') \<Longrightarrow> wp (terminate_rec n (root t)) P E s"
    and "kinv s H Q" and "p \<in> live s Q" and "T_child p \<in> H" and "p \<notin> set (concat (map post ts))"
    and "Q (T_child p) = map root ts" and "\<forall>t\<in>set ts. tree_at Q t" and "endable s H Q (concat (map post ts))"
    and "2 * length (concat (map post ts)) < n"
    and P: "\<And>s'. ended s H (Q(T_child p := [])) (concat (map post ts)) s' \<Longrightarrow> P () s'"
  shows "wp (terminate_children n p) P E s"
  using assms
proof (induction ts arbitrary: n s Q)
  case Nil
  obtain m where n: "n = Suc m" using Nil.prems(9) by (cases n) auto
  have Qe: "Q(T_child p := []) = Q" using Nil.prems(6) by auto
  have "ended s H (Q(T_child p := [])) (concat (map post [])) s" unfolding Qe using Nil.prems(2) by (simp add: ended_def)
  from Nil.prems(10)[OF this] have P: "P () s" .
  show ?case
    unfolding n terminate_children.simps wp_kbind
    by (rule wp_removeChild[OF kinv_rep[OF Nil.prems(2)] Nil.prems(4)]) (use Nil.prems(6) P in auto)
next
  case (Cons t ts)
  obtain m where n: "n = Suc m" using Cons.prems(9) by (cases n) auto
  define zs where "zs = concat (map post ts)"
  have d: "set (post t) \<inter> set zs = {}" "p \<notin> set (post t)" "p \<notin> set zs"
    using Cons.prems(5,8) by (auto simp: endable_def zs_def)
  show ?case
    unfolding n terminate_children.simps wp_kbind
  proof (rule wp_removeChild[OF kinv_rep[OF Cons.prems(2)] Cons.prems(4)])
    fix c cs u L
    assume c: "Q (T_child p) = c # cs" and u: "tcbs s c = Some u" and nz: "c \<noteq> NULL"
    define s1 where "s1 = s\<lparr>lst := L, tcbs := (tcbs s)(c \<mapsto> u\<lparr>t_parent := NULL\<rparr>)\<rparr>"
    define Q1 where "Q1 = Q(T_child p := cs)"
    assume "rep (s\<lparr>lst := L, tcbs := (tcbs s)(c \<mapsto> u\<lparr>t_parent := NULL\<rparr>)\<rparr>) H (Q(T_child p := cs))"
    then have "rep s1 H (Q(T_child p := cs))" by (simp only: s1_def)
    then have k1: "kinv s1 H Q1"
      unfolding Q1_def by (rule kinv_child_list[OF Cons.prems(2)]) (use u in \<open>auto simp: s1_def\<close>)
    have cs: "c = root t" "cs = map root ts" using c Cons.prems(6) by auto
    have l1: "live s1 Q1 = live s Q" by (simp add: live_def s1_def Q1_def)
    have t1: "tree_at Q1 t" "\<forall>t\<in>set ts. tree_at Q1 t"
    proof -
      have "tree_at Q1 t'" if "t' \<in> set (t # ts)" for t'
        using Cons.prems(5,7) that by (subst tree_at_cong[of _ Q1 Q]) (auto simp: Q1_def)
      then show "tree_at Q1 t" "\<forall>t\<in>set ts. tree_at Q1 t" by auto
    qed
    have e1: "endable s1 H Q1 (post t)" "endable s1 H Q1 zs"
      using Cons.prems(8) by (auto simp: endable_def l1 zs_def)
    have "wp (terminate_rec m (root t)) (\<lambda>_. wp (terminate_children m p) P E) E s1"
    proof (rule Cons.prems(1)[OF _ k1 t1(1) e1(1)])
      show "2 * length (post t) \<le> m" using Cons.prems(9) n by simp
      fix s2 assume s2: "ended s1 H Q1 (post t) s2"
      define Q2 where "Q2 = reap_list (post t) Q1"
      have k2: "kinv s2 H Q2" using s2 by (simp add: ended_def Q2_def)
      have "Q2 (T_child p) = map root ts" using d(2) cs by (simp add: Q2_def Q1_def)
      moreover have "\<forall>t\<in>set ts. tree_at Q2 t"
      proof
        fix t' assume "t' \<in> set ts"
        then have "set (post t') \<inter> set (post t) = {}" using d(1) by (auto simp: zs_def)
        then show "tree_at Q2 t'" using t1(2) \<open>t' \<in> set ts\<close> by (subst tree_at_cong[of _ Q2 Q1]) (auto simp: Q2_def)
      qed
      moreover have "endable s2 H Q2 zs" unfolding Q2_def by (rule endable_ended[OF s2 e1(2) d(1)])
      moreover have "p \<in> live s2 Q2" unfolding Q2_def
        using live_ended[OF s2, of p] Cons.prems(3) d(2) l1 by simp
      moreover have "2 * length (concat (map post ts)) < m"
        using Cons.prems(9) n root_in_post[of t] by (cases "post t") auto
      moreover have "P () s'" if s': "ended s2 H (Q2(T_child p := [])) (concat (map post ts)) s'" for s'
      proof -
        have "Q2(T_child p := []) = reap_list (post t) (Q(T_child p := []))"
          using d(2) by (simp add: Q2_def Q1_def reap_list_child)
        then have "kinv s' H (reap_list (post t @ zs) (Q(T_child p := [])))"
          using s' reap_list_append[OF d(1), of "Q(T_child p := [])"] by (simp add: ended_def zs_def)
        moreover have "gone s1 (post t @ zs) s'"
          using s2 s' by (intro gone_trans[OF _ _ d(1), of _ s2]) (simp_all add: ended_def zs_def)
        then have "gone s (post t @ zs) s'"
          unfolding s1_def by (rule gone_unparent[OF _ u]) (simp add: cs root_in_post)
        ultimately show ?thesis by (intro Cons.prems(10)) (simp add: ended_def zs_def del: fun_upd_apply)
      qed
      ultimately show "wp (terminate_children m p) P E s2"
        using Cons.prems(1,4) d(3) k2 by (intro Cons.IH[of s2 Q2 m]) (auto simp: zs_def simp del: fun_upd_apply)
    qed (simp_all add: s1_def cs)
    with nz cs show "wp (if c = NULL then kreturn () else kthen (terminate_rec m c) (terminate_children m p)) P E
        (s\<lparr>lst := L, tcbs := (tcbs s)(c \<mapsto> u\<lparr>t_parent := NULL\<rparr>)\<rparr>)"
      by (simp add: s1_def)
  qed (use Cons.prems(6) in simp)
qed


lemma reap_list_child_in: "p \<in> set zs \<Longrightarrow> reap_list zs (Q(T_child p := xs)) = reap_list zs Q"
  by (rule ext) (auto simp: reap_list_def split: list_head.split)

text \<open>The part of \<open>terminate\<close> after the thread has been taken from its parent.\<close>

lemma wp_terminate_tail:
  assumes IH: "\<And>t n s Q P. t \<in> set ts \<Longrightarrow> kinv s H Q \<Longrightarrow> tree_at Q t \<Longrightarrow> endable s H Q (post t) \<Longrightarrow>
        (\<And>u. tcbs s (root t) = Some u \<Longrightarrow> t_parent u = NULL) \<Longrightarrow> 2 * length (post t) \<le> n \<Longrightarrow>
        (\<And>s'. ended s H Q (post t) s' \<Longrightarrow> P () s') \<Longrightarrow> wp (terminate_rec n (root t)) P E s"
    and k: "kinv s H Q" and t: "tree_at Q (Node p ts)" and e: "endable s H Q (post (Node p ts))"
    and n: "2 * length (post (Node p ts)) \<le> Suc n"
    and P: "\<And>s'. ended s H Q (post (Node p ts)) s' \<Longrightarrow> P () s'"
  shows "wp (kthen (terminate_children n p) (reap p)) P E s"
  unfolding wp_kthen
proof (rule wp_terminate_children[OF IH k])
  define zs where "zs = concat (map post ts)"
  define Q0 where "Q0 = Q(T_child p := [])"
  have e': "p \<in> live s Q" "T_child p \<in> H" "p \<notin> set zs" "endable s H Q zs"
    using e by (auto simp: endable_def zs_def)
  then show "p \<in> live s Q" "T_child p \<in> H" "p \<notin> set (concat (map post ts))" "endable s H Q (concat (map post ts))"
    unfolding zs_def by blast+
  show "Q (T_child p) = map root ts" "\<forall>t\<in>set ts. tree_at Q t" using t by simp_all
  show "2 * length (concat (map post ts)) < n" using n by simp
  fix s1 assume "ended s H (Q(T_child p := [])) (concat (map post ts)) s1"
  then have s1: "ended s H Q0 zs s1" by (simp only: Q0_def zs_def)
  have l0: "live s Q0 = live s Q" by (simp add: live_def Q0_def)
  show "wp (reap p) P E s1"
  proof (rule wp_reap[of s1 H "reap_list zs Q0"])
    show "kinv s1 H (reap_list zs Q0)" using s1 by (simp add: ended_def)
    show "p \<in> live s1 (reap_list zs Q0)" using live_ended[OF s1] e' l0 by simp
    show "reap_list zs Q0 (T_child p) = []" using e'(3) by (simp add: Q0_def)
    fix s2 assume s2: "ended s1 H (reap_list zs Q0) [p] s2"
    have d: "set zs \<inter> set [p] = {}" using e'(3) by simp
    have "reap_list [p] (reap_list zs Q0) = reap_list (zs @ [p]) Q"
      unfolding reap_list_append[OF d] Q0_def by (rule reap_list_child_in) simp
    then have "ended s H Q (zs @ [p]) s2"
      using s1 s2 gone_trans[OF _ _ d, of s s1 s2] by (simp add: ended_def)
    then show "P () s2" by (intro P) (simp add: zs_def)
  qed
qed

lemma wp_terminate_sub:
  assumes "kinv s H Q" and "tree_at Q t" and "endable s H Q (post t)"
    and "\<And>u. tcbs s (root t) = Some u \<Longrightarrow> t_parent u = NULL" and "2 * length (post t) \<le> n"
    and "\<And>s'. ended s H Q (post t) s' \<Longrightarrow> P () s'"
  shows "wp (terminate_rec n (root t)) P E s"
  using assms
proof (induction t arbitrary: n s Q P)
  case (Node p ts)
  obtain m where n: "n = Suc m" using Node.prems(5) by (cases n) auto
  obtain u where u: "tcbs s p = Some u"
    using kinv_tcb[OF Node.prems(1), of p] Node.prems(3) by (auto simp: endable_def)
  have "wp (kthen (terminate_children m p) (reap p)) P E s"
    by (rule wp_terminate_tail[OF Node.IH Node.prems(1-3)]) (use Node.prems n in \<open>simp_all del: post.simps\<close>)
  with u Node.prems(4)[of u] show ?case by (simp add: n outChild_def)
qed

lemma endable_length:
  assumes "kinv s H Q" and "endable s H Q zs"
  shows "length zs \<le> MAXTHREADS"
proof -
  have "card (set zs) \<le> card (live s Q)"
    using assms(2) by (intro card_mono kinv_live_finite) (auto simp: endable_def)
  moreover have "card (set zs) = length zs" using assms(2) by (simp add: endable_def distinct_card)
  ultimately show ?thesis using kinv_card_le[OF assms(1)] by (simp del: MAXTHREADS_def)
qed

text \<open>The family after the thread has left the child list of its parent.\<close>

definition orphaned :: "kstate \<Rightarrow> U32 \<Rightarrow> (list_head \<Rightarrow> U32 list) \<Rightarrow> list_head \<Rightarrow> U32 list" where
  "orphaned s p Q = (case tcbs s p of None \<Rightarrow> Q
     | Some u \<Rightarrow> if t_parent u = NULL then Q
                 else Q(T_child (t_parent u) := remove1 p (Q (T_child (t_parent u)))))"

definition parent_ok :: "kstate \<Rightarrow> list_head set \<Rightarrow> (list_head \<Rightarrow> U32 list) \<Rightarrow> U32 \<Rightarrow> U32 list \<Rightarrow> bool" where
  "parent_ok s H Q p zs \<longleftrightarrow> (case tcbs s p of None \<Rightarrow> False
     | Some u \<Rightarrow> t_parent u = NULL \<or>
         T_child (t_parent u) \<in> H \<and> p \<in> set (Q (T_child (t_parent u))) \<and> t_parent u \<notin> set zs)"

lemma wp_terminate:
  assumes k: "kinv s H Q" and t: "tree_at Q t" and p: "root t = p" and e: "endable s H Q (post t)"
    and par: "parent_ok s H Q p (post t)"
    and P: "\<And>s'. ended s H (orphaned s p Q) (post t) s' \<Longrightarrow> P () s'"
  shows "wp (terminate p) P E s"
proof -
  obtain ts where tt: "t = Node p ts" using p by (cases t) auto
  obtain u where u: "tcbs s p = Some u" using par by (auto simp: parent_ok_def split: option.splits)
  define m where "m = 2 * MAXTHREADS - 1"
  have fuel: "terminate p = kthen (outChild p) (kthen (terminate_children m p) (reap p))"
    by (simp add: terminate_def TERMINATE_BOUND_def m_def eval_nat_numeral)
  have n: "2 * length (post t) \<le> Suc m" using endable_length[OF k e] by (simp add: m_def)
  have tail: "wp (kthen (terminate_children m p) (reap p)) P E s1"
    if "kinv s1 H Q1" "tree_at Q1 t" "endable s1 H Q1 (post t)"
      "\<And>s'. ended s1 H Q1 (post t) s' \<Longrightarrow> P () s'" for s1 Q1
    by (rule wp_terminate_tail[where ts = ts and s = s1 and Q = Q1])
       (use wp_terminate_sub that n in \<open>simp_all only: tt\<close>)
  show ?thesis
    unfolding fuel wp_kthen[of "outChild p"]
  proof (rule wp_outChild[OF kinv_rep[OF k] u])
    assume "t_parent u = NULL"
    then show "wp (kthen (terminate_children m p) (reap p)) P E s"
      using P u by (intro tail[OF k t e]) (simp add: orphaned_def)
  next
    assume "t_parent u \<noteq> NULL"
    then show "T_child (t_parent u) \<in> H \<and> p \<in> set (Q (T_child (t_parent u)))"
      using par u by (simp add: parent_ok_def)
  next
    fix L
    let ?par = "t_parent u"
    define s1 where "s1 = s\<lparr>lst := L, tcbs := (tcbs s)(p \<mapsto> u\<lparr>t_parent := NULL\<rparr>)\<rparr>"
    define Q1 where "Q1 = Q(T_child ?par := remove1 p (Q (T_child ?par)))"
    assume nz: "?par \<noteq> NULL" and r: "rep (s\<lparr>lst := L, tcbs := (tcbs s)(p \<mapsto> u\<lparr>t_parent := NULL\<rparr>)\<rparr>) H
             (Q(T_child ?par := remove1 p (Q (T_child ?par))))"
    have np: "?par \<notin> set (post t)" using par u nz by (simp add: parent_ok_def)
    have "rep s1 H Q1" using r by (simp only: s1_def Q1_def)
    then have k1: "kinv s1 H Q1" unfolding Q1_def
      by (rule kinv_child_list[OF k]) (use u in \<open>auto simp: s1_def\<close>)
    have t1: "tree_at Q1 t" using np t by (subst tree_at_cong[of _ Q1 Q]) (auto simp: Q1_def)
    have l1: "live s1 Q1 = live s Q" by (simp add: live_def s1_def Q1_def)
    have e1: "endable s1 H Q1 (post t)" using e by (simp add: endable_def l1)
    have P1: "P () s'" if "ended s1 H Q1 (post t) s'" for s'
    proof (rule P)
      have "gone s (post t) s'"
        by (rule gone_unparent[OF _ u]) (use that root_in_post[of t] p in \<open>auto simp: ended_def s1_def\<close>)
      then show "ended s H (orphaned s p Q) (post t) s'"
        using that u nz by (simp add: ended_def orphaned_def Q1_def del: fun_upd_apply)
    qed
    show "wp (kthen (terminate_children m p) (reap p)) P E
        (s\<lparr>lst := L, tcbs := (tcbs s)(p \<mapsto> u\<lparr>t_parent := NULL\<rparr>)\<rparr>)"
      using tail[OF k1 t1 e1 P1] by (simp only: s1_def)
  qed
qed

end
