(* ===== verification/Ipc.thy ===== *)
theory Ipc
  imports Kernel_Inv
begin

text \<open>
  The message passing primitives \<open>send\<close> and \<open>recv\<close> of
  \<^verbatim>\<open>phase2/src/exceptions.c\<close>.
\<close>

section \<open>The routines\<close>

text \<open>
  \<open>send\<close>: a message is allocated, filled in and put into the inbox of the target, at the
  head when it is \<open>urgent\<close>.
\<close>

definition post_message :: "bool \<Rightarrow> U32 \<Rightarrow> U32 \<Rightarrow> U32 \<Rightarrow> U32 kmon" where
  "post_message urgent sender target payload =
     kbind allocMsg (\<lambda>msg.
     if msg = NULL then kstop PANIC
     else
       kthen (upd_msg msg (\<lambda>m. m\<lparr>m_sender := sender, m_message := payload\<rparr>))
       (kthen (if urgent then pushMessage (T_inbox target) msg
               else insertMessage (T_inbox target) msg)
       (kreturn MSGGOOD)))"

definition masked_sender :: "kstate \<Rightarrow> U32 \<Rightarrow> U32" where
  "masked_sender s sender = (if sender = SSI_tcb s then MAGIC_SSI else sender)"

definition send :: "U32 \<Rightarrow> U32 \<Rightarrow> U32 \<Rightarrow> U32 kmon" where
  "send sender target payload =
     kbind (kget (\<lambda>s. masked_sender s sender)) (\<lambda>sender'.
     kbind (thereIsThread Ready_queue target) (\<lambda>r.
     kbind (kget current_thread) (\<lambda>cur.
     if r \<noteq> NULL \<or> cur = target then
       post_message (sender' = BUS_INTERVALTIMER) sender' target payload
     else
       kbind (thereIsThread Wait_queue target) (\<lambda>w.
       if w \<noteq> NULL then
         kbind (get_tcb target) (\<lambda>t.
         if waiting_for t = sender' \<or> waiting_for t = ANYMESSAGE then
           kthen (mem_write (reply t) payload)
           (kbind (outThread Wait_queue target) (\<lambda>q.
           kthen (insertThread Ready_queue q)
           (kthen (upd_tcb target (\<lambda>t. t\<lparr>waiting_for := - 1, reply := - 1\<rparr>))
           (kthen (kmodify (\<lambda>s. if sender' = SSI_tcb s
                               then s\<lparr>soft_block_count := soft_block_count s - 1\<rparr> else s))
           (kthen (upd_tcb target (\<lambda>t. t\<lparr>t_state := gpr_set reg_v0 sender' (t_state t)\<rparr>))
           (kreturn MSGGOOD))))))
         else post_message (sender = BUS_INTERVALTIMER) sender' target payload)
       else kreturn MSGNOGOOD))))"

definition recv_block :: "U32 \<Rightarrow> U32 \<Rightarrow> U32 \<Rightarrow> U32 kmon" where
  "recv_block receiver sender reply_addr =
     kthen (upd_tcb receiver (\<lambda>t. t\<lparr>waiting_for := sender, reply := reply_addr\<rparr>))
     (kthen (insertThread Wait_queue receiver)
     (kthen (kmodify (\<lambda>s. s\<lparr>current_thread := NULL\<rparr>))
     (kreturn NULL)))"

definition recv :: "U32 \<Rightarrow> U32 \<Rightarrow> U32 \<Rightarrow> U32 kmon" where
  "recv receiver sender reply_addr =
     (if sender = ANYMESSAGE then
        kbind (popMessage (T_inbox receiver) NULL) (\<lambda>msg.
        if msg = NULL then recv_block receiver ANYMESSAGE reply_addr
        else
          kbind (get_msg msg) (\<lambda>m.
          kthen (mem_write reply_addr (m_message m))
          (kthen (freeMsg msg)
          (kreturn (m_sender m)))))
      else
        kbind (popMessage (T_inbox receiver) sender) (\<lambda>msg.
        if msg = NULL then recv_block receiver sender reply_addr
        else
          kbind (get_msg msg) (\<lambda>m.
          kthen (mem_write reply_addr (m_message m))
          (kthen (kmodify (\<lambda>s. if sender = MAGIC_SSI
                              then s\<lparr>soft_block_count := soft_block_count s - 1\<rparr> else s))
          (kthen (freeMsg msg)
          (kreturn sender))))))"

section \<open>Posting a message\<close>

lemma msg_upd_eq: "t\<lparr>m_sender := a, m_message := b\<rparr> = \<lparr>m_sender = a, m_message = b\<rparr>"
  by (cases t) simp

lemma wp_post_message:
  assumes k: "kinv s H Q" and p: "p \<in> live s Q"
    and P0: "Q Msgfree_sentinel = [] \<Longrightarrow> E PANIC"
    and P1: "\<And>m ms L. Q Msgfree_sentinel = m # ms \<Longrightarrow>
      kinv (s\<lparr>msgs := (msgs s)(m \<mapsto> \<lparr>m_sender = sender, m_message = payload\<rparr>), lst := L\<rparr>) H
        (Q(Msgfree_sentinel := ms, T_inbox p := (if urgent then m # Q (T_inbox p) else Q (T_inbox p) @ [m]))) \<Longrightarrow>
      P MSGGOOD (s\<lparr>msgs := (msgs s)(m \<mapsto> \<lparr>m_sender = sender, m_message = payload\<rparr>), lst := L\<rparr>)"
  shows "wp (post_message urgent sender p payload) P E s"
proof -
  note r = kinv_rep[OF k] and h = kinv_heads[OF k]
  let ?put = "\<lambda>m. if urgent then pushMessage (T_inbox p) m else insertMessage (T_inbox p) m"
  let ?rest = "\<lambda>m. if m = NULL then kstop PANIC else
     kthen (upd_msg m (\<lambda>m. m\<lparr>m_sender := sender, m_message := payload\<rparr>)) (kthen (?put m) (kreturn MSGGOOD))"
  have "wp allocMsg (\<lambda>m. wp (?rest m) P E) E s"
  proof (rule wp_allocMsg[OF r h(4)])
    assume "Q Msgfree_sentinel = []"
    with P0 show "wp (?rest NULL) P E s" by simp
  next
    fix m ms t L
    assume q: "Q Msgfree_sentinel = m # ms" and t: "msgs s m = Some t" and nz: "m \<noteq> NULL"
    define Q1 where "Q1 = Q(Msgfree_sentinel := ms)"
    define ib where "ib = (if urgent then m # Q (T_inbox p) else Q (T_inbox p) @ [m])"
    define s2 where "s2 = s\<lparr>msgs := (msgs s)(m \<mapsto> \<lparr>m_sender = sender, m_message = payload\<rparr>), lst := L\<rparr>"
    assume "rep (s\<lparr>lst := L, msgs := (msgs s)(m \<mapsto> blank_msg t)\<rparr>) H (Q(Msgfree_sentinel := ms))"
    then have r2: "rep s2 H Q1"
      using t unfolding s2_def Q1_def
      by (subst rep_cong[of _ "s\<lparr>lst := L, msgs := (msgs s)(m \<mapsto> blank_msg t)\<rparr>"]) (auto intro!: lvalid_cong split: if_splits)
    have un: "unlinked H Q1 By_m_next m"
      using rep_removed_unlinked[OF r h(4), of m] q by (simp add: Q1_def)
    have v: "msgs s2 m \<noteq> None" by (simp add: s2_def)
    have nn: "msgs s2 q = None \<longleftrightarrow> msgs s q = None" for q using t by (simp add: s2_def)
    have Q1p: "Q1 (T_inbox p) = Q (T_inbox p)" by (simp add: Q1_def)
    have fin: "P MSGGOOD (s2\<lparr>lst := L'\<rparr>)" if "rep (s2\<lparr>lst := L'\<rparr>) H (Q1(T_inbox p := ib))" for L'
    proof -
      have "kinv (s2\<lparr>lst := L'\<rparr>) H (Q(Msgfree_sentinel := ms, T_inbox p := ib))"
        by (rule kinv_post[OF k p q])
           (use that nn in \<open>auto simp: ib_def Q1_def s2_def simp del: fun_upd_apply\<close>)
      from P1[OF q, of L'] this show ?thesis by (simp add: s2_def ib_def del: fun_upd_apply)
    qed
    have "wp (?put m) (\<lambda>_. P MSGGOOD) E s2"
    proof (cases urgent)
      case True
      then show ?thesis
        using wp_pushMessage[OF r2 kinv_inbox[OF k p] _ un v, of "\<lambda>_. P MSGGOOD" E] fin
        by (simp add: ib_def Q1p del: fun_upd_apply)
    next
      case False
      then show ?thesis
        using wp_insertMessage[OF r2 kinv_inbox[OF k p] _ un v, of "\<lambda>_. P MSGGOOD" E] fin
        by (simp add: ib_def Q1p del: fun_upd_apply)
    qed
    with nz t show "wp (?rest m) P E (s\<lparr>lst := L, msgs := (msgs s)(m \<mapsto> blank_msg t)\<rparr>)"
      by (simp add: s2_def msg_upd_eq lst_last)
  qed
  then show ?thesis by (simp add: post_message_def)
qed

section \<open>Sending\<close>

lemma wp_thereIsThread:
  assumes "rep s H Q" and "h \<in> H" and "linker_of h = By_t_next"
  shows "wp (thereIsThread h p) R E s = R (if p \<in> set (Q h) then p else NULL) s"
  using thereIsThread_eq[OF assms, of p] by (simp add: wp_def)

text \<open>The thread waits for a message that a message from \<open>from_t\<close> satisfies.\<close>

definition wakes :: "kstate \<Rightarrow> U32 \<Rightarrow> U32 \<Rightarrow> bool" where
  "wakes s from_t tgt = (case tcbs s tgt of None \<Rightarrow> False
     | Some t \<Rightarrow> waiting_for t = from_t \<or> waiting_for t = ANYMESSAGE)"

text \<open>What \<open>send\<close> leaves in the TCB of a thread it wakes up.\<close>

definition woken :: "U32 \<Rightarrow> tcb_t \<Rightarrow> tcb_t" where
  "woken from_t t = t\<lparr>waiting_for := - 1, reply := - 1, t_state := gpr_set reg_v0 from_t (t_state t)\<rparr>"

lemma wp_wake:
  assumes k: "kinv s H Q" and w: "tgt \<in> set (Q Wait_queue)" and t: "tcbs s tgt = Some t"
    and m: "mem s (reply t) \<noteq> None"
    and P: "\<And>L. kinv (s\<lparr>mem := (mem s)(reply t \<mapsto> payload), tcbs := (tcbs s)(tgt \<mapsto> woken from_t t),
                     soft_block_count := c, lst := L\<rparr>) H
              (Q(Wait_queue := remove1 tgt (Q Wait_queue), Ready_queue := Q Ready_queue @ [tgt])) \<Longrightarrow>
            P (s\<lparr>mem := (mem s)(reply t \<mapsto> payload), tcbs := (tcbs s)(tgt \<mapsto> woken from_t t),
                     soft_block_count := c, lst := L\<rparr>)"
    and c: "c = (if from_t = SSI_tcb s then soft_block_count s - 1 else soft_block_count s)"
  shows "wp (kthen (mem_write (reply t) payload)
           (kbind (outThread Wait_queue tgt) (\<lambda>q.
           kthen (insertThread Ready_queue q)
           (kthen (upd_tcb tgt (\<lambda>t. t\<lparr>waiting_for := - 1, reply := - 1\<rparr>))
           (kthen (kmodify (\<lambda>s. if from_t = SSI_tcb s
                               then s\<lparr>soft_block_count := soft_block_count s - 1\<rparr> else s))
           (kthen (upd_tcb tgt (\<lambda>t. t\<lparr>t_state := gpr_set reg_v0 from_t (t_state t)\<rparr>))
           (kreturn MSGGOOD)))))))
         (\<lambda>v s'. v = MSGGOOD \<and> P s') E s"
proof -
  define s1 where "s1 = s\<lparr>mem := (mem s)(reply t \<mapsto> payload)\<rparr>"
  define Q1 where "Q1 = Q(Wait_queue := remove1 tgt (Q Wait_queue))"
  define Q2 where "Q2 = Q1(Ready_queue := Q Ready_queue @ [tgt])"
  note h = kinv_heads[OF k]
  have r1: "rep s1 H Q" using kinv_rep[OF k] by (simp add: s1_def)
  have un: "unlinked H Q1 By_t_next tgt"
    using rep_removed_unlinked[OF r1 h(2) w] by (simp add: Q1_def)
  let ?rest = "kthen (upd_tcb tgt (\<lambda>t. t\<lparr>waiting_for := - 1, reply := - 1\<rparr>))
           (kthen (kmodify (\<lambda>s. if from_t = SSI_tcb s
                               then s\<lparr>soft_block_count := soft_block_count s - 1\<rparr> else s))
           (kthen (upd_tcb tgt (\<lambda>t. t\<lparr>t_state := gpr_set reg_v0 from_t (t_state t)\<rparr>))
           (kreturn MSGGOOD)))"
  have nn: "((tcbs s)(tgt \<mapsto> woken from_t t)) p = None \<longleftrightarrow> tcbs s p = None" for p using t by simp
  have dis: "tgt \<notin> set (Q Ready_queue)" "current_thread s \<noteq> tgt"
    using w kinv_disjoint(1)[OF k] kinv_current(2)[OF k] kinv_live_not_NULL[OF k, of tgt]
    by (auto simp: live_def)
  have fin: "wp ?rest (\<lambda>v s'. v = MSGGOOD \<and> P s') E (s1\<lparr>lst := L\<rparr>)"
    if "rep (s1\<lparr>lst := L\<rparr>) H Q2" for L
  proof -
    define s' where "s' = s\<lparr>mem := (mem s)(reply t \<mapsto> payload), tcbs := (tcbs s)(tgt \<mapsto> woken from_t t),
                     soft_block_count := c, lst := L\<rparr>"
    have r: "rep s' H Q2 = rep (s1\<lparr>lst := L\<rparr>) H Q2"
      by (rule rep_cong[OF _ lvalid_cong]) (use nn in \<open>simp_all add: s'_def s1_def del: fun_upd_apply\<close>)
    have d: "distinct (Q Wait_queue)" by (rule rep_distinct[OF kinv_rep[OF k] h(2)])
    have "kinv s' H Q2"
      by (rule kinv_move[OF k]; (unfold r)?)
         (use that nn dis w d kinv_current(1,2)[OF k] in
           \<open>auto simp: s'_def Q2_def Q1_def live_def simp del: fun_upd_apply simp add: fun_upd_other fun_upd_same\<close>)
    then have "P s'" using P[of L] by (simp add: s'_def Q2_def Q1_def del: fun_upd_apply)
    moreover have ord: "x\<lparr>soft_block_count := a, tcbs := T\<rparr> = x\<lparr>tcbs := T, soft_block_count := a\<rparr>" for x :: kstate and a T
      by simp
    moreover have "s' = s\<lparr>mem := (mem s)(reply t \<mapsto> payload), tcbs := (tcbs s)(tgt \<mapsto> woken from_t t), lst := L\<rparr>"
      if "from_t \<noteq> SSI_tcb s" using that c by (simp add: s'_def)
    ultimately show ?thesis
      using t c by (cases "from_t = SSI_tcb s") (simp_all add: s1_def s'_def woken_def lst_last ord)
  qed
  have ins: "wp (insertThread Ready_queue tgt) (\<lambda>_. wp ?rest (\<lambda>v s'. v = MSGGOOD \<and> P s') E) E (s1\<lparr>lst := L\<rparr>)"
    if r2: "rep (s1\<lparr>lst := L\<rparr>) H Q1" for L
  proof (rule wp_insertThread[OF r2 h(1) _ un])
    fix L' assume "rep (s1\<lparr>lst := L, lst := L'\<rparr>) H (Q1(Ready_queue := Q1 Ready_queue @ [tgt]))"
    then have "rep (s1\<lparr>lst := L'\<rparr>) H Q2" by (simp add: Q2_def Q1_def del: fun_upd_apply add: fun_upd_other)
    from fin[OF this] show "wp ?rest (\<lambda>v s'. v = MSGGOOD \<and> P s') E (s1\<lparr>lst := L, lst := L'\<rparr>)" by simp
  qed (use t in \<open>simp_all add: s1_def\<close>)
  have "wp (outThread Wait_queue tgt)
          (\<lambda>q. wp (kthen (insertThread Ready_queue q) ?rest) (\<lambda>v s'. v = MSGGOOD \<and> P s') E) E s1"
    by (rule wp_outThread[OF r1 h(2)]) (use w ins in \<open>auto simp: Q1_def simp del: fun_upd_apply\<close>)
  with m show ?thesis by (auto simp: s1_def)
qed

text \<open>
  \<open>send\<close> on every branch: the target is not alive; it is woken up; the pool is empty; the
  message is posted.
\<close>

lemma wp_send:
  assumes k: "kinv s H Q" and nz: "tgt \<noteq> NULL" and ssi: "SSI_tcb s \<noteq> BUS_INTERVALTIMER"
    and f: "from_t = masked_sender s sender"
    and mp: "\<And>t. tgt \<in> set (Q Wait_queue) \<Longrightarrow> wakes s from_t tgt \<Longrightarrow> tcbs s tgt = Some t \<Longrightarrow> mem s (reply t) \<noteq> None"
    and P0: "tgt \<notin> live s Q \<Longrightarrow> P MSGNOGOOD s"
    and P1: "\<And>t L. tgt \<in> set (Q Wait_queue) \<Longrightarrow> wakes s from_t tgt \<Longrightarrow> tcbs s tgt = Some t \<Longrightarrow>
       kinv (s\<lparr>mem := (mem s)(reply t \<mapsto> payload), tcbs := (tcbs s)(tgt \<mapsto> woken from_t t),
               soft_block_count := (if from_t = SSI_tcb s then soft_block_count s - 1 else soft_block_count s), lst := L\<rparr>) H
            (Q(Wait_queue := remove1 tgt (Q Wait_queue), Ready_queue := Q Ready_queue @ [tgt])) \<Longrightarrow>
       P MSGGOOD (s\<lparr>mem := (mem s)(reply t \<mapsto> payload), tcbs := (tcbs s)(tgt \<mapsto> woken from_t t),
               soft_block_count := (if from_t = SSI_tcb s then soft_block_count s - 1 else soft_block_count s), lst := L\<rparr>)"
    and P2: "tgt \<in> live s Q \<Longrightarrow> \<not> (tgt \<in> set (Q Wait_queue) \<and> wakes s from_t tgt) \<Longrightarrow> Q Msgfree_sentinel = [] \<Longrightarrow> E PANIC"
    and P3: "\<And>m ms L. tgt \<in> live s Q \<Longrightarrow> \<not> (tgt \<in> set (Q Wait_queue) \<and> wakes s from_t tgt) \<Longrightarrow>
       Q Msgfree_sentinel = m # ms \<Longrightarrow>
       kinv (s\<lparr>msgs := (msgs s)(m \<mapsto> \<lparr>m_sender = from_t, m_message = payload\<rparr>), lst := L\<rparr>) H
         (Q(Msgfree_sentinel := ms,
            T_inbox tgt := (if from_t = BUS_INTERVALTIMER then m # Q (T_inbox tgt) else Q (T_inbox tgt) @ [m]))) \<Longrightarrow>
       P MSGGOOD (s\<lparr>msgs := (msgs s)(m \<mapsto> \<lparr>m_sender = from_t, m_message = payload\<rparr>), lst := L\<rparr>)"
  shows "wp (send sender tgt payload) P E s"
proof -
  note r = kinv_rep[OF k] and h = kinv_heads[OF k]
  have post: "wp (post_message (from_t = BUS_INTERVALTIMER) from_t tgt payload) P E s"
    if "tgt \<in> live s Q" "\<not> (tgt \<in> set (Q Wait_queue) \<and> wakes s from_t tgt)"
    by (rule wp_post_message[OF k that(1)]) (use P2 P3 that in \<open>auto simp del: fun_upd_apply\<close>)
  have urg: "(sender = BUS_INTERVALTIMER) = (from_t = BUS_INTERVALTIMER)"
    using ssi f by (auto simp: masked_sender_def)
  consider (near) "tgt \<in> set (Q Ready_queue) \<or> current_thread s = tgt"
    | (far) "tgt \<notin> set (Q Ready_queue)" "current_thread s \<noteq> tgt" "tgt \<in> set (Q Wait_queue)"
    | (dead) "tgt \<notin> set (Q Ready_queue)" "current_thread s \<noteq> tgt" "tgt \<notin> set (Q Wait_queue)"
    by blast
  then show ?thesis
  proof cases
    case near
    then have "tgt \<in> live s Q" "tgt \<notin> set (Q Wait_queue)"
      using nz kinv_disjoint(1)[OF k] kinv_current(2)[OF k] by (auto simp: live_def)
    from post[OF this(1)] this(2) near f nz show ?thesis
      by (auto simp: send_def wp_thereIsThread[OF r h(1)])
  next
    case far
    then have lv: "tgt \<in> live s Q" by (simp add: live_def)
    obtain t where t: "tcbs s tgt = Some t" using kinv_tcb[OF k lv] by auto
    show ?thesis
    proof (cases "wakes s from_t tgt")
      case True
      note wake = wp_wake[OF k far(3) t mp[OF far(3) True t],
          where P = "P MSGGOOD" and from_t = from_t and payload = payload and E = E, OF P1[OF far(3) True t] refl]
      from wp_mono[OF wake, of P E] True t far f nz show ?thesis
        by (simp add: send_def wp_thereIsThread[OF r h(1)] wp_thereIsThread[OF r h(2)] wakes_def)
    next
      case False
      with post[OF lv] t far f nz urg show ?thesis
        by (simp add: send_def wp_thereIsThread[OF r h(1)] wp_thereIsThread[OF r h(2)] wakes_def)
    qed
  next
    case dead
    then have "tgt \<notin> live s Q" by (simp add: live_def)
    from P0[OF this] dead show ?thesis
      by (simp add: send_def wp_thereIsThread[OF r h(1)] wp_thereIsThread[OF r h(2)])
  qed
qed

section \<open>Receiving\<close>

text \<open>The running thread leaves the processor for the wait queue.\<close>

text \<open>The running thread gives up the processor and joins the end of one of the two queues.\<close>

lemma wp_requeue:
  assumes k: "kinv s H Q" and c: "p = current_thread s" "p \<noteq> NULL" and h: "h = Ready_queue \<or> h = Wait_queue"
    and P: "\<And>L. kinv (s\<lparr>current_thread := NULL, lst := L\<rparr>) H (Q(h := Q h @ [p])) \<Longrightarrow>
            P () (s\<lparr>current_thread := NULL, lst := L\<rparr>)"
  shows "wp (insertThread h p) (\<lambda>_. wp (kmodify (\<lambda>s. s\<lparr>current_thread := NULL\<rparr>)) P E) E s"
proof (rule wp_insertThread[OF kinv_rep[OF k]])
  show "h \<in> H" "linker_of h = By_t_next" using kinv_heads[OF k] h by auto
  show "unlinked H Q By_t_next p" using k c by (simp add: kinv_def)
  show "tcbs s p \<noteq> None" using kinv_tcb[OF k kinv_current_live] c by auto
  fix L assume L: "rep (s\<lparr>lst := L\<rparr>) H (Q(h := Q h @ [p]))"
  define s' where "s' = s\<lparr>current_thread := NULL, lst := L\<rparr>"
  define Q1 where "Q1 = Q(h := Q h @ [p])"
  have r': "rep s' H Q1 = rep (s\<lparr>lst := L\<rparr>) H Q1"
    by (rule rep_cong[OF _ lvalid_cong]) (simp_all add: s'_def)
  have "kinv s' H Q1"
    by (rule kinv_move[OF k]; (unfold r')?)
       (use L c h in \<open>auto simp: s'_def Q1_def live_def\<close>)
  with P[of L] show "wp (kmodify (\<lambda>s. s\<lparr>current_thread := NULL\<rparr>)) P E (s\<lparr>lst := L\<rparr>)"
    by (simp add: s'_def Q1_def lst_last del: fun_upd_apply)
qed

lemmas wp_suspend = wp_requeue[where h = Wait_queue, simplified simp_thms]

lemma wp_recv_block:
  assumes k: "kinv s H Q" and c: "p = current_thread s" "p \<noteq> NULL" and t: "tcbs s p = Some t"
    and P: "\<And>L. kinv (s\<lparr>tcbs := (tcbs s)(p \<mapsto> t\<lparr>waiting_for := sender, reply := a\<rparr>), current_thread := NULL, lst := L\<rparr>) H
                  (Q(Wait_queue := Q Wait_queue @ [p])) \<Longrightarrow>
            P NULL (s\<lparr>tcbs := (tcbs s)(p \<mapsto> t\<lparr>waiting_for := sender, reply := a\<rparr>), current_thread := NULL, lst := L\<rparr>)"
  shows "wp (recv_block p sender a) P E s"
proof -
  define s1 where "s1 = s\<lparr>tcbs := (tcbs s)(p \<mapsto> t\<lparr>waiting_for := sender, reply := a\<rparr>)\<rparr>"
  have k1: "kinv s1 H Q" using k t by (simp add: s1_def)
  have "wp (insertThread Wait_queue p)
          (\<lambda>_. wp (kmodify (\<lambda>s. s\<lparr>current_thread := NULL\<rparr>)) (\<lambda>_. P NULL) E) E s1"
    by (rule wp_suspend[OF k1]) (use c P in \<open>simp_all add: s1_def del: fun_upd_apply\<close>)
  with t show ?thesis by (simp add: recv_block_def s1_def)
qed

lemma wp_recv_take:
  assumes k: "kinv s H Q" and p: "p \<in> live s Q" and m: "m \<in> set (Q (T_inbox p))"
    and r1: "rep (s\<lparr>lst := L1\<rparr>) H (Q(T_inbox p := remove1 m (Q (T_inbox p))))"
    and u: "msgs s m = Some u" and a: "mem s a \<noteq> None"
    and P: "\<And>L. kinv (s\<lparr>mem := (mem s)(a \<mapsto> m_message u), soft_block_count := c, lst := L\<rparr>) H
              (Q(T_inbox p := remove1 m (Q (T_inbox p)), Msgfree_sentinel := Q Msgfree_sentinel @ [m])) \<Longrightarrow>
            P v (s\<lparr>mem := (mem s)(a \<mapsto> m_message u), soft_block_count := c, lst := L\<rparr>)"
  shows "wp (kthen (freeMsg m) (kreturn v)) P E (s\<lparr>mem := (mem s)(a \<mapsto> m_message u), soft_block_count := c, lst := L1\<rparr>)"
proof -
  define Q1 where "Q1 = Q(T_inbox p := remove1 m (Q (T_inbox p)))"
  define s1 where "s1 = s\<lparr>mem := (mem s)(a \<mapsto> m_message u), soft_block_count := c, lst := L1\<rparr>"
  have "rep s1 H Q1 = rep (s\<lparr>lst := L1\<rparr>) H Q1"
    by (rule rep_cong[OF _ lvalid_cong]) (simp_all add: s1_def)
  with r1 have r: "rep s1 H Q1" by (simp add: Q1_def)
  have un: "unlinked H Q1 By_m_next m"
    using rep_removed_unlinked[OF kinv_rep[OF k] kinv_inbox[OF k p] m] by (simp add: Q1_def)
  have "wp (freeMsg m) (\<lambda>_. P v) E s1"
  proof (rule wp_freeMsg[OF r kinv_heads(4)[OF k] un])
    fix L assume L: "rep (s1\<lparr>lst := L\<rparr>) H (Q1(Msgfree_sentinel := Q1 Msgfree_sentinel @ [m]))"
    have "kinv (s1\<lparr>lst := L\<rparr>) H (Q(T_inbox p := remove1 m (Q (T_inbox p)), Msgfree_sentinel := Q Msgfree_sentinel @ [m]))"
      by (rule kinv_take[OF k p m]) (use L in \<open>simp_all add: s1_def Q1_def del: fun_upd_apply add: fun_upd_other\<close>)
    with P[of L] show "P v (s1\<lparr>lst := L\<rparr>)" by (simp add: s1_def del: fun_upd_apply)
  qed (use u in \<open>simp add: s1_def\<close>)
  then show ?thesis by (simp add: s1_def)
qed

lemma pick_sender: "pick s from_t ms = Some m \<Longrightarrow> from_t \<noteq> NULL \<Longrightarrow> sender_of s m = from_t"
  by (auto simp: pick_def find_Some_iff)

lemma wp_recv:
  assumes k: "kinv s H Q" and c: "p = current_thread s" "p \<noteq> NULL"
    and a: "pick s sender (Q (T_inbox p)) \<noteq> None \<Longrightarrow> mem s a \<noteq> None"
    and P0: "\<And>t L. pick s sender (Q (T_inbox p)) = None \<Longrightarrow> tcbs s p = Some t \<Longrightarrow>
       kinv (s\<lparr>tcbs := (tcbs s)(p \<mapsto> t\<lparr>waiting_for := sender, reply := a\<rparr>), current_thread := NULL, lst := L\<rparr>) H
            (Q(Wait_queue := Q Wait_queue @ [p])) \<Longrightarrow>
       P NULL (s\<lparr>tcbs := (tcbs s)(p \<mapsto> t\<lparr>waiting_for := sender, reply := a\<rparr>), current_thread := NULL, lst := L\<rparr>)"
    and P1: "\<And>m u L. pick s sender (Q (T_inbox p)) = Some m \<Longrightarrow> msgs s m = Some u \<Longrightarrow>
       kinv (s\<lparr>mem := (mem s)(a \<mapsto> m_message u),
               soft_block_count := (if sender = MAGIC_SSI then soft_block_count s - 1 else soft_block_count s), lst := L\<rparr>) H
            (Q(T_inbox p := remove1 m (Q (T_inbox p)), Msgfree_sentinel := Q Msgfree_sentinel @ [m])) \<Longrightarrow>
       P (m_sender u) (s\<lparr>mem := (mem s)(a \<mapsto> m_message u),
               soft_block_count := (if sender = MAGIC_SSI then soft_block_count s - 1 else soft_block_count s), lst := L\<rparr>)"
  shows "wp (recv p sender a) P E s"
proof -
  have lv: "p \<in> live s Q" using c by (simp add: live_def)
  obtain t where t: "tcbs s p = Some t" using kinv_tcb[OF k lv] by auto
  have block: "wp (recv_block p sender a) P E s" if "pick s sender (Q (T_inbox p)) = None"
    by (rule wp_recv_block[OF k c t]) (rule P0[OF that t])
  let ?got = "\<lambda>m. if sender = ANYMESSAGE
      then kbind (get_msg m) (\<lambda>x. kthen (mem_write a (m_message x)) (kthen (freeMsg m) (kreturn (m_sender x))))
      else kbind (get_msg m) (\<lambda>x. kthen (mem_write a (m_message x))
        (kthen (kmodify (\<lambda>s. if sender = MAGIC_SSI then s\<lparr>soft_block_count := soft_block_count s - 1\<rparr> else s))
        (kthen (freeMsg m) (kreturn sender))))"
  have take: "wp (?got m) P E (s\<lparr>lst := L\<rparr>)"
    if pk: "pick s sender (Q (T_inbox p)) = Some m" "m \<in> set (Q (T_inbox p))"
       "rep (s\<lparr>lst := L\<rparr>) H (Q(T_inbox p := remove1 m (Q (T_inbox p))))" for m L
  proof -
    obtain u where u: "msgs s m = Some u"
      using rep_msg[OF kinv_rep[OF k] kinv_inbox[OF k lv] _ pk(2)] by auto
    have snd_eq: "sender \<noteq> NULL \<Longrightarrow> m_sender u = sender"
      using pick_sender[OF pk(1)] u by (simp add: sender_of_def)
    have "wp (kthen (freeMsg m) (kreturn (m_sender u))) P E (s\<lparr>mem := (mem s)(a \<mapsto> m_message u),
             soft_block_count := (if sender = MAGIC_SSI then soft_block_count s - 1 else soft_block_count s), lst := L\<rparr>)"
      by (rule wp_recv_take[OF k lv pk(2,3) u]; (rule P1[OF pk(1) u])?) (use a pk in simp_all)
    moreover have "s\<lparr>mem := M, soft_block_count := soft_block_count s, lst := L\<rparr> = s\<lparr>mem := M, lst := L\<rparr>" for M by simp
    ultimately show ?thesis using u a pk(1) snd_eq by (cases "sender = MAGIC_SSI") (auto simp: lst_last)
  qed
  have "wp (popMessage (T_inbox p) sender) (\<lambda>m. wp (if m = NULL then recv_block p sender a else ?got m) P E) E s"
    by (rule wp_popMessage[OF kinv_rep[OF k] kinv_inbox[OF k lv]])
       (use block take in \<open>auto simp del: fun_upd_apply wp_kbind wp_kthen\<close>)
  then show ?thesis by (cases "sender = ANYMESSAGE") (simp_all add: recv_def cong: if_cong)
qed

end
