(* ===== verification/Ipc_Spec.thy ===== *)
theory Ipc_Spec
  imports Ipc
begin

text \<open>
  The abstract specification of message passing. A thread is ready, waiting or running; it
  has a mailbox of (sender, payload) pairs; the number of free messages is bounded. The
  specification knows no pointers and no TCB; the refinement lemmas show that \<open>send\<close> and
  \<open>recv\<close> of the kernel implement it.
\<close>

section \<open>The specification\<close>

record ipc =
  a_ready :: "U32 list"
  a_wait :: "U32 list"
  a_cur :: U32
  a_inbox :: "U32 \<Rightarrow> (U32 \<times> U32) list"
  a_want :: "U32 \<Rightarrow> U32"
  a_free :: nat

definition a_live :: "ipc \<Rightarrow> U32 \<Rightarrow> bool" where
  "a_live A p \<longleftrightarrow> p \<in> set (a_ready A) \<or> p \<in> set (a_wait A) \<or> (p = a_cur A \<and> p \<noteq> NULL)"

text \<open>A message satisfies a receiver that asks for \<open>want\<close>.\<close>

definition satisfies :: "U32 \<Rightarrow> U32 \<times> U32 \<Rightarrow> bool" where
  "satisfies want x \<longleftrightarrow> want = ANYMESSAGE \<or> fst x = want"

fun drop_first :: "('a \<Rightarrow> bool) \<Rightarrow> 'a list \<Rightarrow> 'a list" where
  "drop_first P [] = []"
| "drop_first P (x # xs) = (if P x then xs else x # drop_first P xs)"

definition a_awaits :: "ipc \<Rightarrow> U32 \<Rightarrow> U32 \<Rightarrow> bool" where
  "a_awaits A from_t tgt \<longleftrightarrow> tgt \<in> set (a_wait A) \<and> satisfies (a_want A tgt) (from_t, 0)"

text \<open>\<open>None\<close> is the kernel panic when no message is left.\<close>

definition a_send :: "U32 \<Rightarrow> U32 \<Rightarrow> U32 \<Rightarrow> ipc \<Rightarrow> (U32 \<times> ipc) option" where
  "a_send from_t tgt payload A =
     (if \<not> a_live A tgt then Some (MSGNOGOOD, A)
      else if a_awaits A from_t tgt then
        Some (MSGGOOD, A\<lparr>a_wait := remove1 tgt (a_wait A), a_ready := a_ready A @ [tgt],
                         a_want := (a_want A)(tgt := - 1)\<rparr>)
      else if a_free A = 0 then None
      else
        Some (MSGGOOD, A\<lparr>a_free := a_free A - 1,
          a_inbox := (a_inbox A)(tgt := (if from_t = BUS_INTERVALTIMER then (from_t, payload) # a_inbox A tgt
                                         else a_inbox A tgt @ [(from_t, payload)]))\<rparr>))"

definition a_recv :: "U32 \<Rightarrow> ipc \<Rightarrow> (U32 \<times> U32) option \<times> ipc" where
  "a_recv want A =
     (let p = a_cur A in
      case find (satisfies want) (a_inbox A p) of
        None \<Rightarrow> (None, A\<lparr>a_wait := a_wait A @ [p], a_cur := NULL, a_want := (a_want A)(p := want)\<rparr>)
      | Some x \<Rightarrow> (Some x, A\<lparr>a_free := a_free A + 1,
                            a_inbox := (a_inbox A)(p := drop_first (satisfies want) (a_inbox A p))\<rparr>))"

lemma a_send_cur: "a_send from_t tgt v A = Some (r, A') \<Longrightarrow> a_cur A' = a_cur A"
  by (auto simp: a_send_def split: if_splits)

lemma a_recv_cur: "fst (a_recv want A) \<noteq> None \<Longrightarrow> a_cur (snd (a_recv want A)) = a_cur A"
  by (auto simp: a_recv_def Let_def split: option.splits)

section \<open>The abstraction function\<close>

definition msg_pair :: "kstate \<Rightarrow> U32 \<Rightarrow> U32 \<times> U32" where
  "msg_pair s m = (case msgs s m of None \<Rightarrow> (0, 0) | Some u \<Rightarrow> (m_sender u, m_message u))"

definition ipc_of :: "kstate \<Rightarrow> (list_head \<Rightarrow> U32 list) \<Rightarrow> ipc" where
  "ipc_of s Q = \<lparr>
     a_ready = Q Ready_queue,
     a_wait = Q Wait_queue,
     a_cur = current_thread s,
     a_inbox = (\<lambda>p. if p \<in> live s Q then map (msg_pair s) (Q (T_inbox p)) else []),
     a_want = (\<lambda>p. case tcbs s p of None \<Rightarrow> 0 | Some t \<Rightarrow> waiting_for t),
     a_free = length (Q Msgfree_sentinel)\<rparr>"

section \<open>Refinement\<close>

lemma ipc_of_fields:
  "a_ready (ipc_of s Q) = Q Ready_queue" "a_wait (ipc_of s Q) = Q Wait_queue"
  "a_cur (ipc_of s Q) = current_thread s" "a_free (ipc_of s Q) = length (Q Msgfree_sentinel)"
  "a_inbox (ipc_of s Q) p = (if p \<in> live s Q then map (msg_pair s) (Q (T_inbox p)) else [])"
  "a_want (ipc_of s Q) p = (case tcbs s p of None \<Rightarrow> 0 | Some t \<Rightarrow> waiting_for t)"
  "ipc.more (ipc_of s Q) = ()"
  by (simp_all add: ipc_of_def)

lemma ipc_eqI:
  fixes A B :: ipc
  assumes "a_ready A = a_ready B" "a_wait A = a_wait B" "a_cur A = a_cur B" "a_free A = a_free B"
    "\<And>p. a_inbox A p = a_inbox B p" "\<And>p. a_want A p = a_want B p"
  shows "A = B"
  using assms by (intro ipc.equality ext) simp_all

lemma ipc_of_cong:
  "msgs s' = msgs s \<Longrightarrow> tcbs s' = tcbs s \<Longrightarrow> current_thread s' = current_thread s \<Longrightarrow> ipc_of s' Q = ipc_of s Q"
  by (rule ipc_eqI) (simp_all add: ipc_of_fields live_def msg_pair_def)

lemma find_map_option: "find P (map f xs) = map_option f (find (\<lambda>x. P (f x)) xs)"
  by (induction xs) auto

lemma drop_first_map: "drop_first P (map f xs) = map f (drop_first (\<lambda>x. P (f x)) xs)"
  by (induction xs) auto

lemma remove1_drop_first: "find P xs = Some m \<Longrightarrow> remove1 m xs = drop_first P xs"
  by (induction xs) (auto split: if_splits simp: find_Some_iff)

lemma a_live_ipc_of: "a_live (ipc_of s Q) p \<longleftrightarrow> p \<in> live s Q"
  by (auto simp: a_live_def ipc_of_def live_def)

lemma a_awaits_ipc_of:
  "tcbs s tgt \<noteq> None \<Longrightarrow> a_awaits (ipc_of s Q) from_t tgt \<longleftrightarrow> tgt \<in> set (Q Wait_queue) \<and> wakes s from_t tgt"
  by (auto simp: a_awaits_def ipc_of_def wakes_def satisfies_def)

lemma sender_of_msg_pair: "sender_of s m = fst (msg_pair s m)"
  by (simp add: sender_of_def msg_pair_def split: option.split)

lemma pick_find: "pick s want ms = find (\<lambda>m. satisfies want (msg_pair s m)) ms"
  by (cases ms) (auto simp: pick_def satisfies_def sender_of_msg_pair)

lemma ipc_of_post:
  assumes k: "kinv s H Q" and p: "p \<in> live s Q" and q: "Q Msgfree_sentinel = m # ms"
    and ib: "ib = (if urgent then m # Q (T_inbox p) else Q (T_inbox p) @ [m])"
  shows "ipc_of (s\<lparr>msgs := (msgs s)(m \<mapsto> \<lparr>m_sender = a, m_message = v\<rparr>), lst := L\<rparr>)
           (Q(Msgfree_sentinel := ms, T_inbox p := ib))
         = (ipc_of s Q)\<lparr>a_free := length ms,
             a_inbox := (a_inbox (ipc_of s Q))
               (p := if urgent then (a, v) # a_inbox (ipc_of s Q) p else a_inbox (ipc_of s Q) p @ [(a, v)])\<rparr>"
proof -
  have m: "m \<notin> set (Q (T_inbox x))" if "x \<in> live s Q" for x
    by (rule rep_sep[OF kinv_rep[OF k] kinv_heads(4)[OF k] kinv_inbox[OF k that]]) (simp_all add: q)
  define s' where "s' = s\<lparr>msgs := (msgs s)(m \<mapsto> \<lparr>m_sender = a, m_message = v\<rparr>), lst := L\<rparr>"
  define Q' where "Q' = Q(Msgfree_sentinel := ms, T_inbox p := ib)"
  have l: "live s' Q' = live s Q" by (simp add: live_def s'_def Q'_def)
  have same: "map (msg_pair s') (Q (T_inbox x)) = map (msg_pair s) (Q (T_inbox x))" if "x \<in> live s Q" for x
    using m[OF that] by (auto simp: msg_pair_def s'_def)
  have new: "msg_pair s' m = (a, v)" by (simp add: msg_pair_def s'_def)
  have "ipc_of s' Q' = (ipc_of s Q)\<lparr>a_free := length ms,
             a_inbox := (a_inbox (ipc_of s Q))
               (p := if urgent then (a, v) # a_inbox (ipc_of s Q) p else a_inbox (ipc_of s Q) p @ [(a, v)])\<rparr>"
  proof (rule ipc_eqI)
    fix x
    show "a_inbox (ipc_of s' Q') x = a_inbox ((ipc_of s Q)\<lparr>a_free := length ms,
             a_inbox := (a_inbox (ipc_of s Q))
               (p := if urgent then (a, v) # a_inbox (ipc_of s Q) p else a_inbox (ipc_of s Q) p @ [(a, v)])\<rparr>) x"
      using same[of x] p by (simp add: ipc_of_fields l new) (simp add: Q'_def ib new)
  qed (simp_all add: ipc_of_fields s'_def Q'_def)
  then show ?thesis by (simp add: s'_def Q'_def)
qed

lemma ipc_of_wake:
  assumes "tcbs s tgt = Some t" and "tgt \<in> set (Q Wait_queue)" and "distinct (Q Wait_queue)"
  shows "ipc_of (s\<lparr>mem := M, tcbs := (tcbs s)(tgt \<mapsto> woken from_t t), soft_block_count := c, lst := L\<rparr>)
           (Q(Wait_queue := remove1 tgt (Q Wait_queue), Ready_queue := Q Ready_queue @ [tgt]))
         = (ipc_of s Q)\<lparr>a_wait := remove1 tgt (a_wait (ipc_of s Q)), a_ready := a_ready (ipc_of s Q) @ [tgt],
              a_want := (a_want (ipc_of s Q))(tgt := - 1)\<rparr>"
proof -
  define s' where "s' = s\<lparr>mem := M, tcbs := (tcbs s)(tgt \<mapsto> woken from_t t), soft_block_count := c, lst := L\<rparr>"
  define Q' where "Q' = Q(Wait_queue := remove1 tgt (Q Wait_queue), Ready_queue := Q Ready_queue @ [tgt])"
  have l: "live s' Q' = live s Q" using assms by (auto simp: live_def s'_def Q'_def)
  have mp: "msg_pair s' = msg_pair s" by (simp add: msg_pair_def fun_eq_iff s'_def)
  show ?thesis
    unfolding s'_def[symmetric] Q'_def[symmetric]
    by (rule ipc_eqI; simp add: ipc_of_fields l mp) (simp_all add: s'_def Q'_def woken_def)
qed

lemma ipc_of_block:
  assumes "waiting_for t = want" and "p = current_thread s" and "p \<noteq> NULL"
  shows "ipc_of (s\<lparr>tcbs := (tcbs s)(p \<mapsto> t), current_thread := NULL, lst := L\<rparr>)
           (Q(Wait_queue := Q Wait_queue @ [p]))
         = (ipc_of s Q)\<lparr>a_wait := a_wait (ipc_of s Q) @ [p], a_cur := NULL,
              a_want := (a_want (ipc_of s Q))(p := want)\<rparr>"
proof -
  define s' where "s' = s\<lparr>tcbs := (tcbs s)(p \<mapsto> t), current_thread := NULL, lst := L\<rparr>"
  define Q' where "Q' = Q(Wait_queue := Q Wait_queue @ [p])"
  have l: "live s' Q' = live s Q" using assms by (auto simp: live_def s'_def Q'_def)
  have mp: "msg_pair s' = msg_pair s" by (simp add: msg_pair_def fun_eq_iff s'_def)
  show ?thesis
    unfolding s'_def[symmetric] Q'_def[symmetric]
    by (rule ipc_eqI; simp add: ipc_of_fields l mp) (simp_all add: s'_def Q'_def assms(1))
qed

lemma ipc_of_take:
  assumes "p \<in> live s Q" and "pick s want (Q (T_inbox p)) = Some m"
  shows "ipc_of (s\<lparr>mem := M, soft_block_count := c, lst := L\<rparr>)
           (Q(T_inbox p := remove1 m (Q (T_inbox p)), Msgfree_sentinel := Q Msgfree_sentinel @ [m]))
         = (ipc_of s Q)\<lparr>a_free := Suc (a_free (ipc_of s Q)),
              a_inbox := (a_inbox (ipc_of s Q))(p := drop_first (satisfies want) (a_inbox (ipc_of s Q) p))\<rparr>"
proof -
  define s' where "s' = s\<lparr>mem := M, soft_block_count := c, lst := L\<rparr>"
  define Q' where "Q' = Q(T_inbox p := remove1 m (Q (T_inbox p)), Msgfree_sentinel := Q Msgfree_sentinel @ [m])"
  have l: "live s' Q' = live s Q" by (simp add: live_def s'_def Q'_def)
  have mp: "msg_pair s' = msg_pair s" by (simp add: msg_pair_def fun_eq_iff s'_def)
  have "remove1 m (Q (T_inbox p)) = drop_first (\<lambda>m. satisfies want (msg_pair s m)) (Q (T_inbox p))"
    using assms(2) by (intro remove1_drop_first) (simp add: pick_find)
  with assms(1) show ?thesis
    unfolding s'_def[symmetric] Q'_def[symmetric]
    by - (rule ipc_eqI; simp add: ipc_of_fields l mp; simp add: s'_def Q'_def drop_first_map)
qed

lemma filter_drop_first:
  "filter P xs = y # ys \<Longrightarrow> find P xs = Some y \<and> filter P (drop_first P xs) = ys"
  by (induction xs) (auto split: if_splits)

section \<open>The interface\<close>

text \<open>
  Message passing as its clients see it: \<open>refines s A\<close> says that the state \<open>s\<close> implements
  the abstract state \<open>A\<close>; \<open>name\<close> is how a sender is shown to a receiver, \<open>word_at\<close>
  the memory and \<open>reply_at\<close> where a waiting thread wants its message.
\<close>

locale message_passing =
  fixes refines :: "'s \<Rightarrow> ipc \<Rightarrow> bool"
    and name :: "'s \<Rightarrow> U32 \<Rightarrow> U32"
    and word_at :: "'s \<Rightarrow> U32 \<rightharpoonup> U32"
    and reply_at :: "'s \<Rightarrow> U32 \<Rightarrow> U32"
    and send_op :: "U32 \<Rightarrow> U32 \<Rightarrow> U32 \<Rightarrow> ('s, U32) mon"
    and recv_op :: "U32 \<Rightarrow> U32 \<Rightarrow> U32 \<Rightarrow> ('s, U32) mon"
  assumes send_panic: "\<And>s A x tgt v. refines s A \<Longrightarrow> tgt \<noteq> NULL \<Longrightarrow>
      a_send (name s x) tgt v A = None \<Longrightarrow> send_op x tgt v s = Inl PANIC"
    and send_law: "\<And>s A x tgt v r A'. refines s A \<Longrightarrow> tgt \<noteq> NULL \<Longrightarrow>
      (a_awaits A (name s x) tgt \<Longrightarrow> word_at s (reply_at s tgt) \<noteq> None) \<Longrightarrow>
      a_send (name s x) tgt v A = Some (r, A') \<Longrightarrow>
      \<exists>s'. send_op x tgt v s = Inr (r, s') \<and> refines s' A' \<and> name s' = name s \<and>
        word_at s' = (if a_awaits A (name s x) tgt then (word_at s)(reply_at s tgt \<mapsto> v) else word_at s)"
    and recv_block_law: "\<And>s A want a A'. refines s A \<Longrightarrow> a_cur A \<noteq> NULL \<Longrightarrow>
      a_recv want A = (None, A') \<Longrightarrow>
      \<exists>s'. recv_op (a_cur A) want a s = Inr (NULL, s') \<and> refines s' A' \<and> name s' = name s \<and>
        word_at s' = word_at s \<and> reply_at s' (a_cur A) = a"
    and recv_law: "\<And>s A want a x v A'. refines s A \<Longrightarrow> a_cur A \<noteq> NULL \<Longrightarrow> word_at s a \<noteq> None \<Longrightarrow>
      a_recv want A = (Some (x, v), A') \<Longrightarrow>
      \<exists>s'. recv_op (a_cur A) want a s = Inr (x, s') \<and> refines s' A' \<and> name s' = name s \<and>
        word_at s' = (word_at s)(a \<mapsto> v)"
begin

text \<open>A thread that blocks in a receive gets the first message that satisfies it, at once.\<close>

lemma rendezvous:
  assumes "refines s A" and "a_cur A \<noteq> NULL" and "find (satisfies want) (a_inbox A (a_cur A)) = None"
    and "want = ANYMESSAGE \<or> want = name s x" and "word_at s a \<noteq> None"
    and "a_cur A \<notin> set (a_ready A)" "a_cur A \<notin> set (a_wait A)"
  shows "\<exists>s'. kthen (recv_op (a_cur A) want a) (send_op x (a_cur A) v) s = Inr (MSGGOOD, s')
          \<and> word_at s' a = Some v
          \<and> refines s' (A\<lparr>a_ready := a_ready A @ [a_cur A], a_cur := NULL, a_want := (a_want A)(a_cur A := - 1)\<rparr>)"
proof -
  let ?p = "a_cur A"
  define B where "B = A\<lparr>a_wait := a_wait A @ [?p], a_cur := NULL, a_want := (a_want A)(?p := want)\<rparr>"
  have "a_recv want A = (None, B)" using assms(3) by (simp add: a_recv_def B_def Let_def)
  from recv_block_law[OF assms(1,2) this, of a] obtain s1 where
    s1: "recv_op ?p want a s = Inr (NULL, s1)" "refines s1 B" "name s1 = name s"
        "word_at s1 = word_at s" "reply_at s1 ?p = a" by auto
  have aw: "a_awaits B (name s1 x) ?p" using assms(4) s1(3) by (auto simp: a_awaits_def B_def satisfies_def)
  have "a_send (name s1 x) ?p v B = Some (MSGGOOD, B\<lparr>a_wait := remove1 ?p (a_wait B),
          a_ready := a_ready B @ [?p], a_want := (a_want B)(?p := - 1)\<rparr>)"
    using aw by (auto simp: a_send_def a_live_def a_awaits_def)
  moreover have "word_at s1 (reply_at s1 ?p) \<noteq> None" using s1 assms(5) by simp
  ultimately obtain s2 where s2: "send_op x ?p v s1 = Inr (MSGGOOD, s2)"
      "refines s2 (B\<lparr>a_wait := remove1 ?p (a_wait B), a_ready := a_ready B @ [?p], a_want := (a_want B)(?p := - 1)\<rparr>)"
      "word_at s2 = (word_at s1)(reply_at s1 ?p \<mapsto> v)"
    using send_law[OF s1(2) assms(2)] aw by fastforce
  have "B\<lparr>a_wait := remove1 ?p (a_wait B), a_ready := a_ready B @ [?p], a_want := (a_want B)(?p := - 1)\<rparr>
        = A\<lparr>a_ready := a_ready A @ [?p], a_cur := NULL, a_want := (a_want A)(?p := - 1)\<rparr>"
    using assms(7) by (simp add: B_def remove1_append)
  with s1 s2 show ?thesis by auto
qed

text \<open>Messages of one sender arrive in the order in which they were sent.\<close>

lemma send_all:
  assumes "refines s A" and "p \<noteq> NULL" and "p = a_cur A" and "p \<notin> set (a_wait A)"
    and "name s x \<noteq> BUS_INTERVALTIMER" and "length vs \<le> a_free A"
  shows "\<exists>s'. kfor vs (\<lambda>v. kthen (send_op x p v) (kreturn ())) s = Inr ((), s') \<and> name s' = name s \<and> word_at s' = word_at s \<and>
     refines s' (A\<lparr>a_free := a_free A - length vs,
       a_inbox := (a_inbox A)(p := a_inbox A p @ map (Pair (name s x)) vs)\<rparr>)"
  using assms
proof (induction vs arbitrary: s A)
  case Nil
  then show ?case by simp
next
  case (Cons v vs)
  define B where "B = A\<lparr>a_free := a_free A - 1, a_inbox := (a_inbox A)(p := a_inbox A p @ [(name s x, v)])\<rparr>"
  have na: "\<not> a_awaits A (name s x) p" using Cons.prems(4) by (simp add: a_awaits_def)
  have "a_send (name s x) p v A = Some (MSGGOOD, B)"
    using Cons.prems na by (auto simp: a_send_def a_live_def B_def)
  from send_law[OF Cons.prems(1,2) _ this] na obtain s1 where
    s1: "send_op x p v s = Inr (MSGGOOD, s1)" "refines s1 B" "name s1 = name s" "word_at s1 = word_at s" by auto
  have "\<exists>s'. kfor vs (\<lambda>v. kthen (send_op x p v) (kreturn ())) s1 = Inr ((), s') \<and> name s' = name s1 \<and> word_at s' = word_at s1 \<and>
     refines s' (B\<lparr>a_free := a_free B - length vs, a_inbox := (a_inbox B)(p := a_inbox B p @ map (Pair (name s1 x)) vs)\<rparr>)"
    by (rule Cons.IH[OF s1(2)]) (use Cons.prems s1 in \<open>auto simp: B_def\<close>)
  moreover have "B\<lparr>a_free := a_free B - length vs, a_inbox := (a_inbox B)(p := a_inbox B p @ map (Pair (name s1 x)) vs)\<rparr>
      = A\<lparr>a_free := a_free A - length (v # vs), a_inbox := (a_inbox A)(p := a_inbox A p @ map (Pair (name s x)) (v # vs))\<rparr>"
    by (simp add: B_def s1(3))
  ultimately obtain s2 where "kfor vs (\<lambda>v. kthen (send_op x p v) (kreturn ())) s1 = Inr ((), s2)"
      "name s2 = name s1" "word_at s2 = word_at s1"
      "refines s2 (A\<lparr>a_free := a_free A - length (v # vs), a_inbox := (a_inbox A)(p := a_inbox A p @ map (Pair (name s x)) (v # vs))\<rparr>)"
    by (metis (no_types, lifting))
  moreover have "kthen (send_op x p v) (kreturn ()) s = Inr ((), s1)" using s1(1) by simp
  ultimately show ?case using s1(3,4)
    by (intro exI[of _ s2] conjI) (simp_all only: kfor.simps kthen_Inr)
qed

lemma recv_all:
  assumes "refines s A" and "p \<noteq> NULL" and "p = a_cur A" and "word_at s a \<noteq> None"
    and "map snd (filter (satisfies want) (a_inbox A p)) = vs @ ws"
  shows "\<exists>s'. krepeat (length vs) (kobserve (recv_op p want a) (\<lambda>s. word_at s a)) s = Inr (map Some vs, s')"
  using assms
proof (induction vs arbitrary: s A)
  case Nil
  then show ?case by simp
next
  case (Cons v vs)
  let ?ib = "a_inbox A p"
  define B where "B = A\<lparr>a_free := a_free A + 1, a_inbox := (a_inbox A)(p := drop_first (satisfies want) ?ib)\<rparr>"
  obtain x ys where f: "filter (satisfies want) ?ib = (x, v) # ys" "map snd ys = vs @ ws"
    using Cons.prems(5) by (cases "filter (satisfies want) ?ib") auto
  note d = filter_drop_first[OF f(1)]
  have "a_recv want A = (Some (x, v), B)" using d Cons.prems(3) by (simp add: a_recv_def B_def Let_def)
  from recv_law[OF Cons.prems(1) _ Cons.prems(4) this] Cons.prems(2,3) obtain s1 where
    s1: "recv_op p want a s = Inr (x, s1)" "refines s1 B" "word_at s1 = (word_at s)(a \<mapsto> v)" by auto
  have "\<exists>s'. krepeat (length vs) (kobserve (recv_op p want a) (\<lambda>s. word_at s a)) s1 = Inr (map Some vs, s')"
    by (rule Cons.IH[OF s1(2)]) (use Cons.prems s1 d f in \<open>auto simp: B_def\<close>)
  moreover have "kobserve (recv_op p want a) (\<lambda>s. word_at s a) s = Inr (Some v, s1)"
    using s1 by (simp add: kobserve_def)
  ultimately show ?case by auto
qed

text \<open>Messages of one sender arrive in the order in which they were sent, after the pending ones.\<close>

lemma sender_order:
  assumes "refines s A" and "p \<noteq> NULL" and "p = a_cur A" and "p \<notin> set (a_wait A)"
    and "name s x \<noteq> BUS_INTERVALTIMER" and "length vs \<le> a_free A" and "word_at s a \<noteq> None"
    and old: "old = map snd (filter (satisfies (name s x)) (a_inbox A p))"
  shows "\<exists>s'. kthen (kfor vs (\<lambda>v. kthen (send_op x p v) (kreturn ())))
               (krepeat (length (old @ vs)) (kobserve (recv_op p (name s x) a) (\<lambda>s. word_at s a))) s
             = Inr (map Some (old @ vs), s')"
proof -
  define B where "B = A\<lparr>a_free := a_free A - length vs,
       a_inbox := (a_inbox A)(p := a_inbox A p @ map (Pair (name s x)) vs)\<rparr>"
  from send_all[OF assms(1-6)] obtain s1 where
    s1: "kfor vs (\<lambda>v. kthen (send_op x p v) (kreturn ())) s = Inr ((), s1)" "word_at s1 = word_at s" "refines s1 B"
    by (auto simp: B_def)
  have "filter (satisfies (name s x)) (map (Pair (name s x)) vs) = map (Pair (name s x)) vs"
    by (simp add: filter_id_conv satisfies_def)
  then have "map snd (filter (satisfies (name s x)) (a_inbox B p)) = (old @ vs) @ []"
    by (simp add: B_def old o_def)
  with recv_all[OF s1(3) assms(2), of a "name s x" "old @ vs" "[]"] s1 assms(3,7) show ?thesis
    by (auto simp: B_def)
qed

end

section \<open>The kernel provides the interface\<close>

text \<open>
  The addresses of the program: the SSI is a thread, and no TCB is at an address that the
  kernel uses as a name of something else.
\<close>

definition addr_ok :: "kstate \<Rightarrow> bool" where
  "addr_ok s \<longleftrightarrow> tcbs s (SSI_tcb s) \<noteq> None \<and> tcbs s MAGIC_SSI = None \<and> tcbs s BUS_INTERVALTIMER = None"

definition reply_of :: "kstate \<Rightarrow> U32 \<Rightarrow> U32" where
  "reply_of s p = (case tcbs s p of None \<Rightarrow> NULL | Some t \<Rightarrow> reply t)"

definition ipc_rel :: "list_head set \<Rightarrow> kstate \<Rightarrow> ipc \<Rightarrow> bool" where
  "ipc_rel H s A \<longleftrightarrow> addr_ok s \<and> (\<exists>Q. kinv s H Q \<and> A = ipc_of s Q)"

lemma addr_ok_timer: "addr_ok s \<Longrightarrow> SSI_tcb s \<noteq> BUS_INTERVALTIMER"
  by (auto simp: addr_ok_def)

lemma addr_ok_magic: "addr_ok s \<Longrightarrow> masked_sender s x \<noteq> SSI_tcb s"
  by (auto simp: addr_ok_def masked_sender_def split: if_splits)

lemma tcb_links_woken [simp]: "tcb_links (woken x t) = tcb_links t"
  by (simp add: woken_def)

lemma addr_ok_cong:
  "SSI_tcb s' = SSI_tcb s \<Longrightarrow> (\<And>p. tcbs s' p = None \<longleftrightarrow> tcbs s p = None) \<Longrightarrow> addr_ok s' = addr_ok s"
  by (simp add: addr_ok_def)

text \<open>The saved registers change only in the threads \<open>W\<close>, which get \<open>x\<close> as a result.\<close>

definition same_registers :: "kstate \<Rightarrow> kstate \<Rightarrow> (U32 \<Rightarrow> bool) \<Rightarrow> U32 \<Rightarrow> bool" where
  "same_registers s s' W x \<longleftrightarrow> (\<forall>q. map_option t_state (tcbs s' q) =
     map_option (\<lambda>t. if W q then gpr_set reg_v0 x (t_state t) else t_state t) (tcbs s q))"

text \<open>A send changes nothing but the queues, the messages, the TCBs and memory.\<close>

definition ipc_only :: "kstate \<Rightarrow> kstate \<Rightarrow> bool" where
  "ipc_only s s' \<longleftrightarrow> s' = s\<lparr>lst := lst s', tcbs := tcbs s', msgs := msgs s', mem := mem s',
     soft_block_count := soft_block_count s'\<rparr>"

definition woken_up :: "kstate \<Rightarrow> U32 \<Rightarrow> U32 \<Rightarrow> bool \<Rightarrow> (U32 \<rightharpoonup> tcb_t)" where
  "woken_up s x tgt b = (if b then (tcbs s)(tgt := map_option (woken x) (tcbs s tgt)) else tcbs s)"

lemma ipc_only_fields:
  assumes "ipc_only s s'"
  shows "current_thread s' = current_thread s" "pseudo_tick s' = pseudo_tick s" "start_pseudo_tick s' = start_pseudo_tick s"
    "current_thread_tod s' = current_thread_tod s" "todlow s' = todlow s" "tod_reads s' = tod_reads s" "cpu s' = cpu s"
  using assms by (cases s; cases s'; simp add: ipc_only_def)+

lemma wp_send_refines:
  assumes k: "kinv s H Q" and ok: "addr_ok s" and nz: "tgt \<noteq> NULL" and x: "x = masked_sender s sender"
    and mp: "a_awaits (ipc_of s Q) x tgt \<Longrightarrow> mem s (reply_of s tgt) \<noteq> None"
  shows "wp (send sender tgt v) (\<lambda>r s'. \<exists>Q'. kinv s' H Q' \<and> tree_kept Q Q' \<and> addr_ok s' \<and>
            a_send x tgt v (ipc_of s Q) = Some (r, ipc_of s' Q') \<and> SSI_tcb s' = SSI_tcb s \<and> service_data s' = service_data s \<and>
            ipc_only s s' \<and> tcbs s' = woken_up s x tgt (a_awaits (ipc_of s Q) x tgt) \<and>
            soft_block_count s' = soft_block_count s \<and> same_registers s s' (\<lambda>q. q = tgt \<and> a_awaits (ipc_of s Q) x tgt) x \<and>
            mem s' = (if a_awaits (ipc_of s Q) x tgt then (mem s)(reply_of s tgt \<mapsto> v) else mem s))
         (\<lambda>e. e = PANIC \<and> a_send x tgt v (ipc_of s Q) = None) s"
proof -
  note av = a_awaits_ipc_of[of s tgt Q x] and lv = a_live_ipc_of[of s Q tgt]
  have wk: "tcbs s tgt \<noteq> None" if "wakes s x tgt" using that by (auto simp: wakes_def split: option.splits)
  let ?R = "\<lambda>r s'. \<exists>Q'. kinv s' H Q' \<and> tree_kept Q Q' \<and> addr_ok s' \<and>
            a_send x tgt v (ipc_of s Q) = Some (r, ipc_of s' Q') \<and> SSI_tcb s' = SSI_tcb s \<and> service_data s' = service_data s \<and>
            ipc_only s s' \<and> tcbs s' = woken_up s x tgt (a_awaits (ipc_of s Q) x tgt) \<and>
            soft_block_count s' = soft_block_count s \<and> same_registers s s' (\<lambda>q. q = tgt \<and> a_awaits (ipc_of s Q) x tgt) x \<and>
            mem s' = (if a_awaits (ipc_of s Q) x tgt then (mem s)(reply_of s tgt \<mapsto> v) else mem s)"
  show ?thesis
  proof (rule wp_send[OF k nz addr_ok_timer[OF ok] x])
    fix t assume t: "tgt \<in> set (Q Wait_queue)" "wakes s x tgt" "tcbs s tgt = Some t"
    with mp av show "mem s (reply t) \<noteq> None" by (simp add: reply_of_def)
  next
    assume d: "tgt \<notin> live s Q"
    then have "\<not> a_awaits (ipc_of s Q) x tgt" by (auto simp: a_awaits_def ipc_of_fields live_def)
    with d lv k ok show "?R MSGNOGOOD s" by (intro exI[of _ Q]) (simp add: a_send_def same_registers_def ipc_only_def woken_up_def)
  next
    assume "tgt \<in> live s Q" "\<not> (tgt \<in> set (Q Wait_queue) \<and> wakes s x tgt)" "Q Msgfree_sentinel = []"
    with av lv kinv_tcb[OF k, of tgt] show "PANIC = PANIC \<and> a_send x tgt v (ipc_of s Q) = None"
      by (auto simp: a_send_def ipc_of_fields)
  next
    fix t L
    let ?c = "if x = SSI_tcb s then soft_block_count s - 1 else soft_block_count s"
    let ?s' = "s\<lparr>mem := (mem s)(reply t \<mapsto> v), tcbs := (tcbs s)(tgt \<mapsto> woken x t), soft_block_count := ?c, lst := L\<rparr>"
    let ?Q' = "Q(Wait_queue := remove1 tgt (Q Wait_queue), Ready_queue := Q Ready_queue @ [tgt])"
    assume t: "tgt \<in> set (Q Wait_queue)" "wakes s x tgt" "tcbs s tgt = Some t" and k': "kinv ?s' H ?Q'"
    have aw: "a_awaits (ipc_of s Q) x tgt" and al: "a_live (ipc_of s Q) tgt" using t av lv by (auto simp: live_def)
    have c: "?c = soft_block_count s" using addr_ok_magic[OF ok] x by simp
    have i: "ipc_of ?s' ?Q' = (ipc_of s Q)\<lparr>a_wait := remove1 tgt (a_wait (ipc_of s Q)), a_ready := a_ready (ipc_of s Q) @ [tgt],
              a_want := (a_want (ipc_of s Q))(tgt := - 1)\<rparr>"
      by (rule ipc_of_wake) (rule t(3), rule t(1), rule rep_distinct[OF kinv_rep[OF k] kinv_heads(2)[OF k]])
    have "addr_ok ?s'" using ok t(3) by (subst addr_ok_cong[of _ s]) auto
    moreover have "a_send x tgt v (ipc_of s Q) = Some (MSGGOOD, ipc_of ?s' ?Q')"
      unfolding i using aw al by (simp add: a_send_def)
    moreover have "same_registers s ?s' (\<lambda>q. q = tgt \<and> a_awaits (ipc_of s Q) x tgt) x"
      using aw t(3) by (simp add: same_registers_def woken_def)
    ultimately show "?R MSGGOOD ?s'"
      using k' aw c t(3)
      by (intro exI[of _ ?Q'] conjI) (simp_all add: reply_of_def ipc_only_def woken_up_def del: fun_upd_apply)
  next
    fix m ms L
    let ?s' = "s\<lparr>msgs := (msgs s)(m \<mapsto> \<lparr>m_sender = x, m_message = v\<rparr>), lst := L\<rparr>"
    let ?ib = "if x = BUS_INTERVALTIMER then m # Q (T_inbox tgt) else Q (T_inbox tgt) @ [m]"
    let ?Q' = "Q(Msgfree_sentinel := ms, T_inbox tgt := ?ib)"
    assume t: "tgt \<in> live s Q" "\<not> (tgt \<in> set (Q Wait_queue) \<and> wakes s x tgt)" and q: "Q Msgfree_sentinel = m # ms"
      and k': "kinv ?s' H ?Q'"
    note i = ipc_of_post[OF k t(1) q refl[of ?ib], where a = x and v = v and L = L]
    have aw: "\<not> a_awaits (ipc_of s Q) x tgt" and al: "a_live (ipc_of s Q) tgt" 
      using t av lv kinv_tcb[OF k t(1)] by auto
    have fr: "a_free (ipc_of s Q) = Suc (length ms)" by (simp add: ipc_of_fields q)
    have "a_send x tgt v (ipc_of s Q) = Some (MSGGOOD, ipc_of ?s' ?Q')"
      unfolding i using aw al fr by (simp add: a_send_def)
    then show "?R MSGGOOD ?s'"
      using k' aw ok by (intro exI[of _ ?Q'] conjI) (simp_all add: addr_ok_def same_registers_def ipc_only_def woken_up_def del: fun_upd_apply)
  qed
qed

lemma wp_recv_refines:
  assumes k: "kinv s H Q" and ok: "addr_ok s" and c: "p = current_thread s" "p \<noteq> NULL"
    and mp: "fst (a_recv want (ipc_of s Q)) \<noteq> None \<Longrightarrow> mem s a \<noteq> None"
  shows "wp (recv p want a) (\<lambda>r s'. \<exists>Q'. kinv s' H Q' \<and> tree_kept Q Q' \<and> addr_ok s' \<and> SSI_tcb s' = SSI_tcb s \<and> service_data s' = service_data s \<and>
            same_registers s s' (\<lambda>_. False) NULL \<and> (\<forall>q. q \<noteq> p \<longrightarrow> tcbs s' q = tcbs s q) \<and>
            (case a_recv want (ipc_of s Q) of
               (None, B) \<Rightarrow> r = NULL \<and> B = ipc_of s' Q' \<and> mem s' = mem s \<and> reply_of s' p = a \<and> soft_block_count s' = soft_block_count s
             | (Some (x, v), B) \<Rightarrow> r = x \<and> B = ipc_of s' Q' \<and> mem s' = (mem s)(a \<mapsto> v)))
         no_stop s"
proof -
  let ?A = "ipc_of s Q"
  have lv: "p \<in> live s Q" using c by (simp add: live_def)
  have cur: "a_cur ?A = p" using c by (simp add: ipc_of_fields)
  have ib: "a_inbox ?A p = map (msg_pair s) (Q (T_inbox p))" using lv by (simp add: ipc_of_fields)
  have fnd: "find (satisfies want) (a_inbox ?A p) = map_option (msg_pair s) (pick s want (Q (T_inbox p)))"
    by (simp add: ib find_map_option pick_find)
  show ?thesis
  proof (rule wp_recv[OF k c])
    assume "pick s want (Q (T_inbox p)) \<noteq> None"
    with mp fnd cur show "mem s a \<noteq> None" by (auto simp: a_recv_def Let_def)
  next
    fix t L
    let ?s' = "s\<lparr>tcbs := (tcbs s)(p \<mapsto> t\<lparr>waiting_for := want, reply := a\<rparr>), current_thread := NULL, lst := L\<rparr>"
    let ?Q' = "Q(Wait_queue := Q Wait_queue @ [p])"
    assume n: "pick s want (Q (T_inbox p)) = None" and t: "tcbs s p = Some t" and k': "kinv ?s' H ?Q'"
    have "a_recv want ?A = (None, ipc_of ?s' ?Q')"
      by (subst ipc_of_block[OF _ c, where want = want]) (use n fnd cur in \<open>simp_all add: a_recv_def Let_def\<close>)
    moreover have "addr_ok ?s'" using ok t by (subst addr_ok_cong[of _ s]) auto
    moreover have "same_registers s ?s' (\<lambda>_. False) NULL" "\<forall>q. q \<noteq> p \<longrightarrow> tcbs ?s' q = tcbs s q"
      using t by (simp_all add: same_registers_def)
    ultimately show "\<exists>Q'. kinv ?s' H Q' \<and> tree_kept Q Q' \<and> addr_ok ?s' \<and> SSI_tcb ?s' = SSI_tcb s \<and> service_data ?s' = service_data s \<and>
            same_registers s ?s' (\<lambda>_. False) NULL \<and> (\<forall>q. q \<noteq> p \<longrightarrow> tcbs ?s' q = tcbs s q) \<and>
            (case a_recv want ?A of
               (None, B) \<Rightarrow> NULL = NULL \<and> B = ipc_of ?s' Q' \<and> mem ?s' = mem s \<and> reply_of ?s' p = a \<and> soft_block_count ?s' = soft_block_count s
             | (Some (x, v), B) \<Rightarrow> NULL = x \<and> B = ipc_of ?s' Q' \<and> mem ?s' = (mem s)(a \<mapsto> v))"
      using k' t by (intro exI[of _ ?Q']) (simp add: reply_of_def del: fun_upd_apply add: fun_upd_same)
  next
    fix m and u :: msg_t and L
    let ?s' = "s\<lparr>mem := (mem s)(a \<mapsto> m_message u),
               soft_block_count := (if want = MAGIC_SSI then soft_block_count s - 1 else soft_block_count s), lst := L\<rparr>"
    let ?Q' = "Q(T_inbox p := remove1 m (Q (T_inbox p)), Msgfree_sentinel := Q Msgfree_sentinel @ [m])"
    assume n: "pick s want (Q (T_inbox p)) = Some m" and u: "msgs s m = Some u" and k': "kinv ?s' H ?Q'"
    have "a_recv want ?A = (Some (m_sender u, m_message u), ipc_of ?s' ?Q')"
      unfolding ipc_of_take[OF lv n] using n fnd cur u by (simp add: a_recv_def Let_def msg_pair_def)
    moreover have "addr_ok ?s'" using ok by (subst addr_ok_cong[of _ s]) auto
    moreover have "same_registers s ?s' (\<lambda>_. False) NULL" by (simp add: same_registers_def)
    ultimately show "\<exists>Q'. kinv ?s' H Q' \<and> tree_kept Q Q' \<and> addr_ok ?s' \<and> SSI_tcb ?s' = SSI_tcb s \<and> service_data ?s' = service_data s \<and>
            same_registers s ?s' (\<lambda>_. False) NULL \<and> (\<forall>q. q \<noteq> p \<longrightarrow> tcbs ?s' q = tcbs s q) \<and>
            (case a_recv want ?A of
               (None, B) \<Rightarrow> m_sender u = NULL \<and> B = ipc_of ?s' Q' \<and> mem ?s' = mem s \<and> reply_of ?s' p = a \<and> soft_block_count ?s' = soft_block_count s
             | (Some (x, v), B) \<Rightarrow> m_sender u = x \<and> B = ipc_of ?s' Q' \<and> mem ?s' = (mem s)(a \<mapsto> v))"
      using k' by (intro exI[of _ ?Q']) (simp del: fun_upd_apply)
  qed
qed

interpretation kipc: message_passing "ipc_rel H" masked_sender mem reply_of send recv
  for H
proof unfold_locales
  fix s A x tgt v
  assume r: "ipc_rel H s A" and nz: "tgt \<noteq> NULL" and n: "a_send (masked_sender s x) tgt v A = None"
  then obtain Q where Q: "kinv s H Q" "A = ipc_of s Q" "addr_ok s" by (auto simp: ipc_rel_def)
  have "\<not> a_awaits A (masked_sender s x) tgt" using n by (auto simp: a_send_def split: if_splits)
  then show "send x tgt v s = Inl PANIC"
    using wp_send_refines[OF Q(1,3) nz refl, of x v] Q(2) n by (auto simp: wp_def split: sum.splits)
next
  fix s A x tgt v r' A'
  assume r: "ipc_rel H s A" and nz: "tgt \<noteq> NULL"
    and mp: "a_awaits A (masked_sender s x) tgt \<Longrightarrow> mem s (reply_of s tgt) \<noteq> None"
    and n: "a_send (masked_sender s x) tgt v A = Some (r', A')"
  from r obtain Q where Q: "kinv s H Q" "A = ipc_of s Q" "addr_ok s" by (auto simp: ipc_rel_def)
  show "\<exists>s'. send x tgt v s = Inr (r', s') \<and> ipc_rel H s' A' \<and> masked_sender s' = masked_sender s \<and>
        mem s' = (if a_awaits A (masked_sender s x) tgt then (mem s)(reply_of s tgt \<mapsto> v) else mem s)"
    using wp_send_refines[OF Q(1,3) nz refl, of x v] mp Q(2) n
    by (auto simp: wp_def ipc_rel_def masked_sender_def[abs_def] split: sum.splits)
next
  fix s A want a A'
  assume r: "ipc_rel H s A" and c: "a_cur A \<noteq> NULL" and n: "a_recv want A = (None, A')"
  from r obtain Q where Q: "kinv s H Q" "A = ipc_of s Q" "addr_ok s" by (auto simp: ipc_rel_def)
  then have cc: "a_cur A = current_thread s" by (simp add: ipc_of_fields)
  show "\<exists>s'. recv (a_cur A) want a s = Inr (NULL, s') \<and> ipc_rel H s' A' \<and> masked_sender s' = masked_sender s \<and>
        mem s' = mem s \<and> reply_of s' (a_cur A) = a"
    using wp_recv_refines[OF Q(1,3) cc c, of want a] Q(2) n
    by (auto simp: wp_total ipc_rel_def masked_sender_def[abs_def])
next
  fix s A want a x v A'
  assume r: "ipc_rel H s A" and c: "a_cur A \<noteq> NULL" and m: "mem s a \<noteq> None" and n: "a_recv want A = (Some (x, v), A')"
  from r obtain Q where Q: "kinv s H Q" "A = ipc_of s Q" "addr_ok s" by (auto simp: ipc_rel_def)
  then have cc: "a_cur A = current_thread s" by (simp add: ipc_of_fields)
  show "\<exists>s'. recv (a_cur A) want a s = Inr (x, s') \<and> ipc_rel H s' A' \<and> masked_sender s' = masked_sender s \<and>
        mem s' = (mem s)(a \<mapsto> v)"
    using wp_recv_refines[OF Q(1,3) cc c, of want a] m Q(2) n
    by (auto simp: wp_total ipc_rel_def masked_sender_def[abs_def])
qed

end
