(* ===== verification/Scheduler.thy ===== *)
theory Scheduler
  imports Kernel_Inv
begin

text \<open>
  \<^verbatim>\<open>phase2/src/scheduler.c\<close>. The scheduler does not return to its caller: it ends in
  \<open>HALT()\<close> or \<open>PANIC()\<close>, in the ROM routine \<open>LDST\<close> that loads the processor
  state of a thread, or in \<open>WAIT()\<close>, which idles until an interrupt arrives. The last
  two are the result of the routine.
\<close>

unbundle bit_operations_syntax

datatype rom_call =
    LDST state_t
  | WAIT

definition load_interval_timer :: "U32 \<Rightarrow> unit kmon" where
  "load_interval_timer slice_left =
     kbind (kget pseudo_tick) (\<lambda>tick.
     if tick \<ge> SCHED_PSEUDO_CLOCK then SET_IT 1
     else SET_IT (MIN32 slice_left (SCHED_PSEUDO_CLOCK - tick)))"

text \<open>The pseudo clock update: two separate reads of the time-of-day register.\<close>

definition update_pseudo_tick :: "unit kmon" where
  "update_pseudo_tick =
     kbind GET_TODLOW (\<lambda>t.
     kthen (kmodify (\<lambda>s. s\<lparr>pseudo_tick := pseudo_tick s + (t - start_pseudo_tick s)\<rparr>))
     (kbind GET_TODLOW (\<lambda>t'.
     kmodify (\<lambda>s. s\<lparr>start_pseudo_tick := t'\<rparr>))))"

definition sched_idle :: "rom_call kmon" where
  "sched_idle =
     kbind (kget thread_count) (\<lambda>tc.
     kbind (kget soft_block_count) (\<lambda>sb.
     if tc = 1 then kstop HALT
     else if tc > 0 \<and> sb = 0 then kstop PANIC
     else if tc > 0 \<and> sb > 0 then
       kthen (kmodify (\<lambda>s. s\<lparr>cpu := (cpu s)\<lparr>status := status (cpu s) OR STATUS_IEc OR STATUS_INT_UNMASKED\<rparr>\<rparr>))
       (kreturn WAIT)
     else kstop PANIC))"

definition sched_dispatch :: "rom_call kmon" where
  "sched_dispatch =
     kbind (removeThread Ready_queue) (\<lambda>p.
     kthen (kmodify (\<lambda>s. s\<lparr>current_thread := p\<rparr>))
     (if p = NULL then kstop PANIC
      else
        kthen update_pseudo_tick
        (kthen (upd_tcb p (\<lambda>t. t\<lparr>cpu_slice := 0\<rparr>))
        (kbind GET_TODLOW (\<lambda>t.
        kthen (kmodify (\<lambda>s. s\<lparr>current_thread_tod := t\<rparr>))
        (kthen (load_interval_timer SCHED_TIME_SLICE)
        (kbind (get_tcb p) (\<lambda>tcb. kreturn (LDST (t_state tcb))))))))))"

definition sched_resume :: "U32 \<Rightarrow> rom_call kmon" where
  "sched_resume cur =
     kthen update_pseudo_tick
     (kbind GET_TODLOW (\<lambda>t.
     kthen (kmodify (\<lambda>s. s\<lparr>current_thread_tod := t\<rparr>))
     (kbind (get_tcb cur) (\<lambda>tcb.
     kthen (load_interval_timer (SCHED_TIME_SLICE - cpu_slice tcb))
     (kreturn (LDST (t_state tcb)))))))"

definition scheduler :: "rom_call kmon" where
  "scheduler =
     kbind (kget current_thread) (\<lambda>cur.
     if cur = NULL then
       kbind (emptyThreadQ Ready_queue) (\<lambda>empty.
       if empty then sched_idle else sched_dispatch)
     else sched_resume cur)"

section \<open>The timers\<close>

text \<open>The value, in microseconds, that the scheduler loads into the interval timer.\<close>

definition timer_value :: "U32 \<Rightarrow> U32 \<Rightarrow> U32" where
  "timer_value slice_left tick =
     (if tick \<ge> SCHED_PSEUDO_CLOCK then 1 else MIN32 slice_left (SCHED_PSEUDO_CLOCK - tick))"

lemma timer_value_bounds: "slice_left > 0 \<Longrightarrow> 1 \<le> timer_value slice_left tick \<and> timer_value slice_left tick \<le> MIN32 (max 1 slice_left) SCHED_PSEUDO_CLOCK"
  unfolding timer_value_def MIN32_def SCHED_PSEUDO_CLOCK_def max_def
  by (auto simp: word_le_nat_alt word_less_nat_alt unat_sub_if' split: if_splits)

text \<open>A value that is due before the pseudo clock tick is.\<close>

lemma timer_value_before_tick: "tick < SCHED_PSEUDO_CLOCK \<Longrightarrow> timer_value slice_left tick \<le> SCHED_PSEUDO_CLOCK - tick"
  by (auto simp: timer_value_def MIN32_def)

lemma wp_load_interval_timer:
  "bus_ok s \<Longrightarrow> wp (load_interval_timer v) R E s
   = R () (s\<lparr>mem := (mem s)(BUS_INTERVALTIMER \<mapsto> timer_value v (pseudo_tick s) * time_scale s)\<rparr>)"
  by (simp add: load_interval_timer_def wp_SET_IT timer_value_def)

lemma bus_ok_update [simp]:
  "bus_ok (s\<lparr>tod_reads := n\<rparr>) = bus_ok s" "bus_ok (s\<lparr>pseudo_tick := c\<rparr>) = bus_ok s"
  "bus_ok (s\<lparr>start_pseudo_tick := c\<rparr>) = bus_ok s" "bus_ok (s\<lparr>lst := L\<rparr>) = bus_ok s"
  "bus_ok (s\<lparr>current_thread := c\<rparr>) = bus_ok s" "bus_ok (s\<lparr>tcbs := T\<rparr>) = bus_ok s"
  "bus_ok (s\<lparr>current_thread_tod := c\<rparr>) = bus_ok s" "bus_ok (s\<lparr>thread_count := c\<rparr>) = bus_ok s"
  "bus_ok (s\<lparr>soft_block_count := c\<rparr>) = bus_ok s" "bus_ok (s\<lparr>msgs := M\<rparr>) = bus_ok s"
  "bus_ok (s\<lparr>areas := A\<rparr>) = bus_ok s" "bus_ok (s\<lparr>cpu := st\<rparr>) = bus_ok s"
  "bus_ok (s\<lparr>trap_managers := xs\<rparr>) = bus_ok s" "bus_ok (s\<lparr>interrupt_i := i\<rparr>) = bus_ok s"
  by (simp_all add: bus_ok_def)

lemma time_scale_update [simp]:
  "time_scale (s\<lparr>tod_reads := n\<rparr>) = time_scale s" "time_scale (s\<lparr>pseudo_tick := c\<rparr>) = time_scale s"
  "time_scale (s\<lparr>start_pseudo_tick := c\<rparr>) = time_scale s" "time_scale (s\<lparr>lst := L\<rparr>) = time_scale s"
  "time_scale (s\<lparr>current_thread := c\<rparr>) = time_scale s" "time_scale (s\<lparr>tcbs := T\<rparr>) = time_scale s"
  "time_scale (s\<lparr>current_thread_tod := c\<rparr>) = time_scale s"
  by (simp_all add: time_scale_def)

lemma now_update [simp]:
  "now (s\<lparr>tod_reads := Suc (tod_reads s)\<rparr>) k = now s (Suc k)"
  "now (s\<lparr>pseudo_tick := c\<rparr>) k = now s k" "now (s\<lparr>start_pseudo_tick := c\<rparr>) k = now s k"
  "now (s\<lparr>lst := L\<rparr>) k = now s k" "now (s\<lparr>current_thread := c\<rparr>) k = now s k"
  "now (s\<lparr>tcbs := T\<rparr>) k = now s k" "now (s\<lparr>current_thread_tod := c\<rparr>) k = now s k"
  by (simp_all add: now_def)

text \<open>The state after the clock bookkeeping at the beginning of a quantum.\<close>

definition ticked :: "kstate \<Rightarrow> kstate" where
  "ticked s = s\<lparr>pseudo_tick := pseudo_tick s + (now s 0 - start_pseudo_tick s),
               tod_reads := Suc (Suc (tod_reads s)), start_pseudo_tick := now s 1\<rparr>"

lemma wp_update_pseudo_tick: "bus_ok s \<Longrightarrow> wp update_pseudo_tick R E s = R () (ticked s)"
  by (simp add: update_pseudo_tick_def wp_GET_TODLOW ticked_def now_def)

definition timed :: "U32 \<Rightarrow> kstate \<Rightarrow> kstate" where
  "timed slice_left s = (ticked s)\<lparr>tod_reads := Suc (Suc (Suc (tod_reads s))), current_thread_tod := now s 2,
     mem := (mem s)(BUS_INTERVALTIMER \<mapsto> timer_value slice_left (pseudo_tick (ticked s)) * time_scale s)\<rparr>"

lemma kinv_timed [simp]: "kinv (timed v s) H Q = kinv s H Q"
  by (simp add: timed_def ticked_def)

section \<open>What the scheduler does\<close>

lemma wp_sched_resume:
  assumes "bus_ok s" and "tcbs s cur = Some t"
  shows "wp (sched_resume cur) R E s = R (LDST (t_state t)) (timed (SCHED_TIME_SLICE - cpu_slice t) s)"
  using assms
  by (simp add: sched_resume_def wp_update_pseudo_tick wp_GET_TODLOW wp_load_interval_timer ticked_def timed_def now_def)

lemma wp_sched_dispatch:
  assumes k: "kinv s H Q" and b: "bus_ok s" and c: "current_thread s = NULL" and q: "Q Ready_queue = p # ps"
    and P: "\<And>t L s1. tcbs s p = Some t \<Longrightarrow>
       s1 = s\<lparr>current_thread := p, tcbs := (tcbs s)(p \<mapsto> t\<lparr>cpu_slice := 0\<rparr>), lst := L\<rparr> \<Longrightarrow>
       kinv s1 H (Q(Ready_queue := ps)) \<Longrightarrow> P (LDST (t_state t)) (timed SCHED_TIME_SLICE s1)"
  shows "wp sched_dispatch P E s"
proof -
  note r = kinv_rep[OF k] and h = kinv_heads[OF k]
  have pm: "p \<in> set (Q Ready_queue)" by (simp add: q)
  have nz: "p \<noteq> NULL" by (rule rep_not_NULL[OF r h(1) pm])
  obtain t where t: "tcbs s p = Some t" using kinv_tcb[OF k, of p] pm by (auto simp: live_def)
  show ?thesis
    unfolding sched_dispatch_def wp_kbind
  proof (rule wp_removeThread[OF r h(1)])
    fix x xs L
    assume x: "Q Ready_queue = x # xs" and L: "rep (s\<lparr>lst := L\<rparr>) H (Q(Ready_queue := xs))"
    define s1 where "s1 = s\<lparr>current_thread := p, tcbs := (tcbs s)(p \<mapsto> t\<lparr>cpu_slice := 0\<rparr>), lst := L\<rparr>"
    define Q1 where "Q1 = Q(Ready_queue := ps)"
    from x q have xs: "x = p" "xs = ps" by auto
    have nn: "((tcbs s)(p \<mapsto> t\<lparr>cpu_slice := 0\<rparr>)) a = None \<longleftrightarrow> tcbs s a = None" for a using t by simp
    have r': "rep s1 H Q1 = rep (s\<lparr>lst := L\<rparr>) H Q1"
      by (rule rep_cong[OF _ lvalid_cong]) (use nn in \<open>simp_all add: s1_def del: fun_upd_apply\<close>)
    have d: "distinct (p # ps)" using rep_distinct[OF r h(1)] q by simp
    have "kinv s1 H Q1"
      by (rule kinv_move[OF k]; (unfold r')?)
         (use L xs nn d q c nz kinv_disjoint(1)[OF k pm] in \<open>auto simp: s1_def Q1_def live_def simp del: fun_upd_apply simp add: fun_upd_same fun_upd_other\<close>)
    from P[OF t s1_def this[unfolded Q1_def]] have "P (LDST (t_state t)) (timed SCHED_TIME_SLICE s1)" .
    with b t nz xs show "wp (kthen (kmodify (\<lambda>s. s\<lparr>current_thread := x\<rparr>))
      (if x = NULL then kstop PANIC
      else kthen update_pseudo_tick (kthen (upd_tcb x (\<lambda>t. t\<lparr>cpu_slice := 0\<rparr>))
        (kbind GET_TODLOW (\<lambda>t. kthen (kmodify (\<lambda>s. s\<lparr>current_thread_tod := t\<rparr>))
        (kthen (load_interval_timer SCHED_TIME_SLICE)
        (kbind (get_tcb x) (\<lambda>tcb. kreturn (LDST (t_state tcb)))))))))) P E (s\<lparr>lst := L\<rparr>)"
      by (simp add: wp_update_pseudo_tick wp_GET_TODLOW wp_load_interval_timer ticked_def timed_def now_def s1_def)
         (erule back_subst[of "P (LDST (t_state t))"], simp)
  qed (simp_all add: q)
qed

lemma wp_emptyThreadQ:
  assumes "rep s H Q" and "h \<in> H"
  shows "wp (emptyThreadQ h) R E s = R (Q h = []) s"
  using rep_empty_iff[OF assms] rep_lvalid_head[OF assms] by (simp add: emptyThreadQ_def)

text \<open>The four ways out of the scheduler when no thread is running and none is ready.\<close>

definition idle_state :: "kstate \<Rightarrow> kstate" where
  "idle_state s = s\<lparr>cpu := (cpu s)\<lparr>status := status (cpu s) OR STATUS_IEc OR STATUS_INT_UNMASKED\<rparr>\<rparr>"

lemma wp_sched_idle:
  assumes "thread_count s = 1 \<Longrightarrow> E HALT"
    and "thread_count s \<noteq> 1 \<Longrightarrow> thread_count s = 0 \<or> soft_block_count s = 0 \<Longrightarrow> E PANIC"
    and "thread_count s \<noteq> 1 \<Longrightarrow> thread_count s \<noteq> 0 \<Longrightarrow> soft_block_count s \<noteq> 0 \<Longrightarrow> R WAIT (idle_state s)"
  shows "wp sched_idle R E s"
  using assms by (auto simp: sched_idle_def idle_state_def word_gt_0)

lemma wp_scheduler:
  assumes k: "kinv s H Q" and b: "bus_ok s"
    and resume: "\<And>t. current_thread s \<noteq> NULL \<Longrightarrow> tcbs s (current_thread s) = Some t \<Longrightarrow>
        P (LDST (t_state t)) (timed (SCHED_TIME_SLICE - cpu_slice t) s)"
    and dispatch: "\<And>p ps t L s1. current_thread s = NULL \<Longrightarrow> Q Ready_queue = p # ps \<Longrightarrow> tcbs s p = Some t \<Longrightarrow>
       s1 = s\<lparr>current_thread := p, tcbs := (tcbs s)(p \<mapsto> t\<lparr>cpu_slice := 0\<rparr>), lst := L\<rparr> \<Longrightarrow>
       kinv s1 H (Q(Ready_queue := ps)) \<Longrightarrow> P (LDST (t_state t)) (timed SCHED_TIME_SLICE s1)"
    and halt: "current_thread s = NULL \<Longrightarrow> Q Ready_queue = [] \<Longrightarrow> thread_count s = 1 \<Longrightarrow> E HALT"
    and panic: "current_thread s = NULL \<Longrightarrow> Q Ready_queue = [] \<Longrightarrow> thread_count s \<noteq> 1 \<Longrightarrow>
        thread_count s = 0 \<or> soft_block_count s = 0 \<Longrightarrow> E PANIC"
    and idle: "current_thread s = NULL \<Longrightarrow> Q Ready_queue = [] \<Longrightarrow> thread_count s \<noteq> 1 \<Longrightarrow>
        thread_count s \<noteq> 0 \<Longrightarrow> soft_block_count s \<noteq> 0 \<Longrightarrow> P WAIT (idle_state s)"
  shows "wp scheduler P E s"
proof (cases "current_thread s = NULL")
  case False
  then obtain t where "tcbs s (current_thread s) = Some t"
    using kinv_tcb[OF k kinv_current_live] by auto
  with False resume b show ?thesis by (simp add: scheduler_def wp_sched_resume)
next
  case True
  note e = wp_emptyThreadQ[OF kinv_rep[OF k] kinv_heads(1)[OF k]]
  show ?thesis
  proof (cases "Q Ready_queue")
    case Nil
    with True e halt panic idle show ?thesis by (simp add: scheduler_def wp_sched_idle)
  next
    case (Cons p ps)
    have "wp sched_dispatch P E s"
      by (rule wp_sched_dispatch[OF k b True Cons]) (rule dispatch[OF True Cons])
    with True e Cons show ?thesis by (simp add: scheduler_def)
  qed
qed

text \<open>
  What the callers of the scheduler need: it runs the current thread or else the first ready
  one, keeps the invariant and loses no thread; it stops the machine only when nothing can run.
\<close>

definition scheduled :: "kstate \<Rightarrow> list_head set \<Rightarrow> (list_head \<Rightarrow> U32 list) \<Rightarrow> rom_call \<Rightarrow> kstate \<Rightarrow> bool" where
  "scheduled s H Q r s' \<longleftrightarrow>
     kinv s' H (if current_thread s = NULL then Q(Ready_queue := tl (Q Ready_queue)) else Q) \<and>
     service_data s' = service_data s \<and> msgs s' = msgs s \<and> soft_block_count s' = soft_block_count s \<and>
     bus_ok s' \<and> (\<forall>a. a \<noteq> BUS_INTERVALTIMER \<longrightarrow> mem s' a = mem s a) \<and>
     (current_thread s \<noteq> NULL \<longrightarrow> tcbs s' = tcbs s) \<and> (\<forall>q. q \<noteq> current_thread s' \<longrightarrow> tcbs s' q = tcbs s q) \<and>
     (\<forall>q. map_option t_state (tcbs s' q) = map_option t_state (tcbs s q)) \<and>
     (case r of
        LDST st \<Rightarrow> (current_thread s \<noteq> NULL \<or> Q Ready_queue \<noteq> []) \<and>
          current_thread s' = (if current_thread s = NULL then hd (Q Ready_queue) else current_thread s) \<and>
          map_option t_state (tcbs s (current_thread s')) = Some st
      | WAIT \<Rightarrow> current_thread s = NULL \<and> Q Ready_queue = [] \<and> soft_block_count s \<noteq> 0 \<and> s' = idle_state s)"

lemma timed_fields [simp]:
  "current_thread (timed v s) = current_thread s" "SSI_tcb (timed v s) = SSI_tcb s"
  "msgs (timed v s) = msgs s" "tcbs (timed v s) = tcbs s" "soft_block_count (timed v s) = soft_block_count s"
  "service_data (timed v s) = service_data s"
  by (simp_all add: timed_def ticked_def)

lemma timed_mem: "bus_ok s \<Longrightarrow> bus_ok (timed v s)" "a \<noteq> BUS_INTERVALTIMER \<Longrightarrow> mem (timed v s) a = mem s a"
  by (auto simp: timed_def bus_ok_def split: option.splits)

lemma scheduler_safe:
  assumes k: "kinv s H Q" and b: "bus_ok s"
  shows "wp scheduler (scheduled s H Q)
           (\<lambda>e. current_thread s = NULL \<and> Q Ready_queue = [] \<and>
                (thread_count s \<le> 1 \<or> soft_block_count s = 0) \<and>
                e = (if thread_count s = 1 then HALT else PANIC)) s"
proof (rule wp_scheduler[OF k b])
  fix t assume "current_thread s \<noteq> NULL" "tcbs s (current_thread s) = Some t"
  then show "scheduled s H Q (LDST (t_state t)) (timed (SCHED_TIME_SLICE - cpu_slice t) s)"
    using k b timed_mem(1)[of s] timed_mem(2)[of _ _ s] by (simp add: scheduled_def)
next
  fix p ps t L s1
  assume *: "current_thread s = NULL" "Q Ready_queue = p # ps" "tcbs s p = Some t"
    "s1 = s\<lparr>current_thread := p, tcbs := (tcbs s)(p \<mapsto> t\<lparr>cpu_slice := 0\<rparr>), lst := L\<rparr>" "kinv s1 H (Q(Ready_queue := ps))"
  then show "scheduled s H Q (LDST (t_state t)) (timed SCHED_TIME_SLICE s1)"
    using b timed_mem(1)[of s1] timed_mem(2)[of _ _ s1] by (simp add: scheduled_def bus_ok_update del: fun_upd_apply) (simp add: fun_upd_apply)
next
  assume "current_thread s = NULL" "Q Ready_queue = []" "soft_block_count s \<noteq> 0"
  moreover have "Q(Ready_queue := tl (Q Ready_queue)) = Q" using calculation by auto
  ultimately show "scheduled s H Q WAIT (idle_state s)"
    using k b by (simp add: scheduled_def idle_state_def)
qed auto

lemma scheduled_live:
  assumes "scheduled s H Q r s'" and "kinv s H Q"
  shows "live s' (if current_thread s = NULL then Q(Ready_queue := tl (Q Ready_queue)) else Q) = live s Q"
proof (cases r)
  case (LDST st)
  show ?thesis
  proof (cases "current_thread s = NULL")
    case False
    with assms(1) LDST show ?thesis by (simp add: scheduled_def live_def)
  next
    case True
    with assms(1) LDST obtain p ps where q: "Q Ready_queue = p # ps" "current_thread s' = p"
      by (cases "Q Ready_queue") (auto simp: scheduled_def)
    have "p \<noteq> NULL" using rep_not_NULL[OF kinv_rep[OF assms(2)] kinv_heads(1)[OF assms(2)], of p] q by simp
    with True q show ?thesis by (auto simp: live_def)
  qed
next
  case WAIT
  with assms(1) show ?thesis by (simp add: scheduled_def live_def idle_state_def)
qed

end
