(* ===== verification/Exceptions.thy ===== *)
theory Exceptions
  imports Terminate Ipc_Spec Scheduler
begin

text \<open>
  \<^verbatim>\<open>phase2/src/exceptions.c\<close>: saving processor states and the handlers of the SYSCALL/breakpoint, program
  trap and TLB exceptions.
\<close>

unbundle bit_operations_syntax

section \<open>The routines\<close>

text \<open>
  \<open>save_state\<close>: the copy loop runs up to index 29, one past the array \<open>gpr\<close>, and
  so writes the word \<open>hi\<close> a second time.
\<close>

definition save_state :: "state_t \<Rightarrow> state_t \<Rightarrow> state_t" where
  "save_state source dest =
     fold (\<lambda>i d. gpr_set i (gpr_get source i) d) [0..<30]
       (dest\<lparr>entry_hi := entry_hi source, cause := cause source, status := status source,
             pc_epc := pc_epc source, hi := hi source, lo := lo source\<rparr>)"

text \<open>The time accounting at the start of every handler: two reads of the clock.\<close>

definition charge_current :: "unit kmon" where
  "charge_current =
     kbind (kget current_thread) (\<lambda>cur.
     kbind (kget current_thread_tod) (\<lambda>tod0.
     kbind GET_TODLOW (\<lambda>t.
     kthen (upd_tcb cur (\<lambda>tcb. tcb\<lparr>cpu_slice := cpu_slice tcb + (t - tod0)\<rparr>))
     (kbind GET_TODLOW (\<lambda>t'.
     upd_tcb cur (\<lambda>tcb. tcb\<lparr>cpu_time := cpu_time tcb + (t' - tod0)\<rparr>))))))"

definition save_current :: "U32 \<Rightarrow> unit kmon" where
  "save_current area =
     kbind (kget current_thread) (\<lambda>cur.
     kbind (kget (\<lambda>s. areas s area)) (\<lambda>old.
     upd_tcb cur (\<lambda>tcb. tcb\<lparr>t_state := save_state old (t_state tcb)\<rparr>)))"

text \<open>
  The common end of the three exception handlers: the thread is terminated when it has
  named no manager, and frozen until its manager decides otherwise.
\<close>

definition pass_up :: "(tcb_t \<Rightarrow> U32) \<Rightarrow> U32 \<Rightarrow> rom_call kmon" where
  "pass_up manager_field area =
     kbind (kget current_thread) (\<lambda>cur.
     kbind (get_tcb cur) (\<lambda>t.
     let manager = manager_field t in
     if manager = NULL then
       kthen (terminate cur)
       (kthen (kmodify (\<lambda>s. s\<lparr>current_thread := NULL\<rparr>))
       scheduler)
     else
       kbind (kget (\<lambda>s. cause (areas s area))) (\<lambda>c.
       kthen (send cur manager c)
       (kthen (upd_tcb cur (\<lambda>t. t\<lparr>waiting_for := manager\<rparr>))
       (kthen (insertThread Wait_queue cur)
       (kthen (kmodify (\<lambda>s. s\<lparr>current_thread := NULL\<rparr>))
       scheduler))))))"

text \<open>The SEND branch of \<open>sysbp_handler\<close>, with the interception of trap decisions.\<close>

definition sys_send :: "state_t \<Rightarrow> rom_call kmon" where
  "sys_send old =
     kbind (kget current_thread) (\<lambda>sender.
     kbind (kget SSI_tcb) (\<lambda>ssi.
     let payload = gpr_get old reg_a2;
         to_ssi = (gpr_get old reg_a1 = MAGIC_SSI);
         receiver = (if to_ssi then ssi else gpr_get old reg_a1) in
     kthen (kmodify (\<lambda>s. if to_ssi then s\<lparr>soft_block_count := soft_block_count s + 1\<rparr> else s))
     (kbind (thereIs_manager sender) (\<lambda>m.
     kbind (if m \<noteq> NULL then kbind (get_tcb receiver) (\<lambda>t. kreturn (waiting_for t = sender))
            else kreturn False) (\<lambda>trap_reply.
     if trap_reply \<and> payload = TRAPTERMINATE then
       kthen (terminate receiver) scheduler
     else if trap_reply \<and> payload = TRAPCONTINUE then
       kbind (outThread Wait_queue receiver) (\<lambda>q.
       kthen (insertThread Ready_queue q) scheduler)
     else
       kbind (send sender receiver payload) (\<lambda>v.
       kthen (upd_tcb sender (\<lambda>t. t\<lparr>t_state := gpr_set reg_v0 v (t_state t)\<rparr>))
       scheduler))))))"

text \<open>
  The RECV branch. The C standard leaves open whether the pointer \<open>current_thread\<close> of the
  assignment \<open>current_thread->t_state.reg_v0 = recv(...)\<close> is read before or after the
  call, which sets it to \<open>NULL\<close> when the receiver blocks; the model reads it before.
\<close>

definition sys_recv :: "state_t \<Rightarrow> rom_call kmon" where
  "sys_recv old =
     kbind (kget current_thread) (\<lambda>receiver.
     kbind (recv receiver (gpr_get old reg_a1) (gpr_get old reg_a2)) (\<lambda>v.
     kthen (upd_tcb receiver (\<lambda>t. t\<lparr>t_state := gpr_set reg_v0 v (t_state t)\<rparr>))
     scheduler))"

definition sysbp_handler :: "rom_call kmon" where
  "sysbp_handler =
     kthen charge_current
     (kthen (save_current SYSBK_OLDAREA)
     (kbind (kget current_thread) (\<lambda>cur.
     kthen (upd_tcb cur (\<lambda>tcb. tcb\<lparr>t_state := (t_state tcb)\<lparr>pc_epc := pc_epc (t_state tcb) + WORD_SIZE\<rparr>\<rparr>))
     (kbind (kget (\<lambda>s. areas s SYSBK_OLDAREA)) (\<lambda>old.
     let exc_cause = CAUSE_EXCCODE_GET (cause old);
         KUmode = drop_bit 3 (status old AND STATUS_KUp) in
     if KUmode = 0 \<and> exc_cause = EXC_SYSCALL \<and> gpr_get old reg_a0 = SEND then sys_send old
     else if KUmode = 0 \<and> exc_cause = EXC_SYSCALL \<and> gpr_get old reg_a0 = RECV then sys_recv old
     else pass_up sysbp_manager_thread SYSBK_OLDAREA)))))"

definition pgmtrap_handler :: "rom_call kmon" where
  "pgmtrap_handler =
     kthen charge_current
     (kthen (save_current PGMTRAP_OLDAREA)
     (pass_up pgmtrap_manager_thread PGMTRAP_OLDAREA))"

definition tlb_handler :: "rom_call kmon" where
  "tlb_handler =
     kthen charge_current
     (kthen (save_current TLB_OLDAREA)
     (pass_up tlbtrap_manager_thread TLB_OLDAREA))"

section \<open>Entering a handler\<close>

lemma fold_gpr_copy:
  assumes "length (gpr src) = 29" and "length (gpr dst) = 29" and "n \<le> 29"
  shows "fold (\<lambda>i d. gpr_set i (gpr_get src i) d) [0..<n] dst
         = dst\<lparr>gpr := take n (gpr src) @ drop n (gpr dst)\<rparr>"
  using assms(3)
proof (induction n)
  case 0
  then show ?case by simp
next
  case (Suc n)
  then have n: "n < 29" by simp
  have "(take n (gpr src) @ drop n (gpr dst))[n := gpr src ! n] = take (Suc n) (gpr src) @ drop (Suc n) (gpr dst)"
    using n assms(1,2)
    by (simp add: list_update_append Cons_nth_drop_Suc[symmetric] take_Suc_conv_app_nth)
  with Suc n show ?case by (simp add: gpr_set_def gpr_get_def)
qed

text \<open>The copy is exact, although the loop runs one index too far.\<close>

lemma save_state_copy:
  assumes "length (gpr src) = 29" and "length (gpr dst) = 29"
  shows "save_state src dst = src"
proof -
  have "[0..<30] = [0..<29] @ [29::nat]" using upt_Suc_append[of 0 29] by (simp del: upt_Suc)
  then show ?thesis
    using assms by (simp add: save_state_def fold_gpr_copy) (simp add: gpr_set_def gpr_get_def)
qed

text \<open>What the first lines of every handler write into the TCB of the running thread.\<close>

definition entered :: "kstate \<Rightarrow> U32 \<Rightarrow> tcb_t \<Rightarrow> tcb_t" where
  "entered s area t = t\<lparr>cpu_slice := cpu_slice t + (now s 0 - current_thread_tod s),
     cpu_time := cpu_time t + (now s 1 - current_thread_tod s),
     t_state := save_state (areas s area) (t_state t)\<rparr>"

definition enter :: "U32 \<Rightarrow> kstate \<Rightarrow> kstate" where
  "enter area s = s\<lparr>tcbs := (\<lambda>p. if p = current_thread s then map_option (entered s area) (tcbs s p) else tcbs s p),
     tod_reads := Suc (Suc (tod_reads s))\<rparr>"

lemma kinv_enter [simp]: "kinv (enter area s) H Q = kinv s H Q"
  by (rule kinv_cong) (simp_all add: enter_def)

lemma enter_fields [simp]:
  "current_thread (enter area s) = current_thread s" "SSI_tcb (enter area s) = SSI_tcb s"
  "msgs (enter area s) = msgs s" "mem (enter area s) = mem s" "areas (enter area s) = areas s"
  "trap_managers (enter area s) = trap_managers s" "bus_ok (enter area s) = bus_ok s"
  "live (enter area s) Q = live s Q" "soft_block_count (enter area s) = soft_block_count s"
  "thread_count (enter area s) = thread_count s"
  "tcbs (enter area s) p = (if p = current_thread s then map_option (entered s area) (tcbs s p) else tcbs s p)"
  by (simp_all add: enter_def live_def)

lemma wp_enter:
  assumes "bus_ok s" and "tcbs s (current_thread s) = Some t"
  shows "wp charge_current (\<lambda>_. wp (save_current area) R E) E s = R () (enter area s)"
proof -
  have "(\<lambda>p. if p = current_thread s then map_option (entered s area) (tcbs s p) else tcbs s p)
        = (tcbs s)(current_thread s \<mapsto> entered s area t)" using assms(2) by auto
  then show ?thesis
    using assms
    by (simp add: charge_current_def save_current_def wp_GET_TODLOW enter_def entered_def now_def)
       (rule arg_cong[of _ _ "R ()"], simp)
qed

section \<open>The end of a handler\<close>

text \<open>What a stop of the scheduler means to the caller.\<close>

definition nothing_runs :: "kstate \<Rightarrow> (list_head \<Rightarrow> U32 list) \<Rightarrow> stop \<Rightarrow> bool" where
  "nothing_runs s Q e \<longleftrightarrow> current_thread s = NULL \<and> Q Ready_queue = [] \<and>
     (thread_count s \<le> 1 \<or> soft_block_count s = 0) \<and> e = (if thread_count s = 1 then HALT else PANIC)"

lemma wp_scheduler_after:
  assumes "kinv s H Q" and "bus_ok s" and "\<And>r s'. scheduled s H Q r s' \<Longrightarrow> P r s'"
    and "\<And>e. nothing_runs s Q e \<Longrightarrow> E e"
  shows "wp scheduler P E s"
  by (rule wp_mono[OF scheduler_safe[OF assms(1,2)]]) (use assms(3,4) in \<open>auto simp: nothing_runs_def\<close>)

section \<open>Exceptions without a manager\<close>

text \<open>
  The subtree of a thread that raised an exception for which it has named no manager is
  ended, and the scheduler finds something else to run.
\<close>

lemma wp_pass_up_terminate:
  assumes k: "kinv s H Q" and b: "bus_ok s" and c: "current_thread s = c" "c \<noteq> NULL"
    and t: "tcbs s c = Some t" and m: "fld t = NULL"
    and tr: "tree_at Q tr" "root tr = c" "endable s H Q (post tr)" "parent_ok s H Q c (post tr)"
    and P: "\<And>s1 r s'. ended s H (orphaned s c Q) (post tr) s1 \<Longrightarrow> current_thread s1 = NULL \<Longrightarrow>
          scheduled s1 H (reap_list (post tr) (orphaned s c Q)) r s' \<Longrightarrow> P r s'"
    and E: "\<And>s1 e. ended s H (orphaned s c Q) (post tr) s1 \<Longrightarrow>
          nothing_runs s1 (reap_list (post tr) (orphaned s c Q)) e \<Longrightarrow> E e"
  shows "wp (pass_up fld area) P E s"
proof -
  have "wp (terminate c) (\<lambda>_. wp (kthen (kmodify (\<lambda>s. s\<lparr>current_thread := NULL\<rparr>)) scheduler) P E) E s"
  proof (rule wp_terminate[OF k tr])
    fix s1 assume s1: "ended s H (orphaned s c Q) (post tr) s1"
    then have cn: "current_thread s1 = NULL" and b1: "bus_ok s1"
      using root_in_post[of tr] tr(2) c b same_rest_fields(7)[of s s1] by (auto simp: ended_def gone_def)
    have k1: "kinv s1 H (reap_list (post tr) (orphaned s c Q))" using s1 by (simp add: ended_def)
    have "wp scheduler P E s1"
      by (rule wp_scheduler_after[OF k1 b1]) (use P[OF s1 cn] E[OF s1] in auto)
    moreover have "s1\<lparr>current_thread := NULL\<rparr> = s1" using cn by simp
    ultimately show "wp (kthen (kmodify (\<lambda>s. s\<lparr>current_thread := NULL\<rparr>)) scheduler) P E s1" by simp
  qed
  with c t m show ?thesis by (simp add: pass_up_def)
qed

section \<open>Exceptions with a manager\<close>

definition reply_ok :: "kstate \<Rightarrow> U32 \<Rightarrow> bool" where
  "reply_ok s p \<longleftrightarrow> mem s (reply_of s p) \<noteq> None \<and> reply_of s p \<noteq> BUS_TIMESCALE"

lemma bus_ok_mem:
  "bus_ok s \<Longrightarrow> mem s' = (mem s)(a \<mapsto> v) \<Longrightarrow> a \<noteq> BUS_TIMESCALE \<Longrightarrow> bus_ok s'"
  "bus_ok s \<Longrightarrow> mem s' = mem s \<Longrightarrow> bus_ok s'"
  by (auto simp: bus_ok_def split: option.splits)

text \<open>
  The thread is frozen: its manager is sent the cause register, and the thread waits for the
  manager's decision.
\<close>

lemma wp_pass_up_manager:
  assumes k: "kinv s H Q" and ok: "addr_ok s" and b: "bus_ok s" and c: "c = current_thread s" "c \<noteq> NULL"
    and t: "tcbs s c = Some t" and m: "fld t = mgr" "mgr \<noteq> NULL" and x: "x = masked_sender s c"
    and mp: "a_awaits (ipc_of s Q) x mgr \<Longrightarrow> reply_ok s mgr"
    and P: "\<And>v A1 s1 Q1 r s'. a_send x mgr (cause (areas s area)) (ipc_of s Q) = Some (v, A1) \<Longrightarrow>
        kinv s1 H Q1 \<Longrightarrow> addr_ok s1 \<Longrightarrow> service_data s1 = service_data s \<Longrightarrow>
        ipc_of s1 Q1 = A1\<lparr>a_wait := a_wait A1 @ [c], a_cur := NULL, a_want := (a_want A1)(c := mgr)\<rparr> \<Longrightarrow>
        map_option t_state (tcbs s1 c) = Some (t_state t) \<Longrightarrow> scheduled s1 H Q1 r s' \<Longrightarrow> P r s'"
    and E: "\<And>v A1 s1 Q1 e. a_send x mgr (cause (areas s area)) (ipc_of s Q) = Some (v, A1) \<Longrightarrow>
        ipc_of s1 Q1 = A1\<lparr>a_wait := a_wait A1 @ [c], a_cur := NULL, a_want := (a_want A1)(c := mgr)\<rparr> \<Longrightarrow>
        nothing_runs s1 Q1 e \<Longrightarrow> E e"
    and E': "a_send x mgr (cause (areas s area)) (ipc_of s Q) = None \<Longrightarrow> E PANIC"
  shows "wp (pass_up fld area) P E s"
proof -
  let ?v = "cause (areas s area)"
  let ?rest = "kthen (upd_tcb c (\<lambda>t. t\<lparr>waiting_for := mgr\<rparr>))
       (kthen (insertThread Wait_queue c) (kthen (kmodify (\<lambda>s. s\<lparr>current_thread := NULL\<rparr>)) scheduler))"
  have mp': "a_awaits (ipc_of s Q) x mgr \<Longrightarrow> mem s (reply_of s mgr) \<noteq> None" using mp by (simp add: reply_ok_def)
  have "wp (send c mgr ?v) (\<lambda>_. wp ?rest P E) E s"
  proof (rule wp_mono[OF wp_send_refines[OF k ok m(2) x mp']])
    fix v s0
    assume "\<exists>Q'. kinv s0 H Q' \<and> tree_kept Q Q' \<and> addr_ok s0 \<and> a_send x mgr ?v (ipc_of s Q) = Some (v, ipc_of s0 Q') \<and>
        SSI_tcb s0 = SSI_tcb s \<and> service_data s0 = service_data s \<and> ipc_only s s0 \<and> tcbs s0 = woken_up s x mgr (a_awaits (ipc_of s Q) x mgr) \<and> soft_block_count s0 = soft_block_count s \<and>
        same_registers s s0 (\<lambda>q. q = mgr \<and> a_awaits (ipc_of s Q) x mgr) x \<and>
        mem s0 = (if a_awaits (ipc_of s Q) x mgr then (mem s)(reply_of s mgr \<mapsto> ?v) else mem s)"
    then obtain Q0 where k0: "kinv s0 H Q0" and ok0: "addr_ok s0"
      and sd: "a_send x mgr ?v (ipc_of s Q) = Some (v, ipc_of s0 Q0)"
      and sv: "service_data s0 = service_data s"
      and me: "mem s0 = (if a_awaits (ipc_of s Q) x mgr then (mem s)(reply_of s mgr \<mapsto> ?v) else mem s)"
      and wk: "tcbs s0 = woken_up s x mgr (a_awaits (ipc_of s Q) x mgr)" by blast
    have b0: "bus_ok s0"
    proof (cases "a_awaits (ipc_of s Q) x mgr")
      case True
      then show ?thesis using me mp by (intro bus_ok_mem(1)[OF b]) (auto simp: reply_ok_def)
    next
      case False
      then show ?thesis using me by (intro bus_ok_mem(2)[OF b]) simp
    qed
    from a_send_cur[OF sd] have c0: "c = current_thread s0" using c by (simp add: ipc_of_fields)
    have "c \<noteq> mgr" if "a_awaits (ipc_of s Q) x mgr"
      using that kinv_current(2)[OF k] c by (auto simp: a_awaits_def ipc_of_fields)
    then have t0: "tcbs s0 c = Some t" using t by (auto simp: wk woken_up_def)
    define s2 where "s2 = s0\<lparr>tcbs := (tcbs s0)(c \<mapsto> t\<lparr>waiting_for := mgr\<rparr>)\<rparr>"
    have k2: "kinv s2 H Q0" using k0 t0 by (simp add: s2_def)
    have "wp (insertThread Wait_queue c) (\<lambda>_. wp (kmodify (\<lambda>s. s\<lparr>current_thread := NULL\<rparr>)) (\<lambda>_. wp scheduler P E) E) E s2"
    proof (rule wp_suspend[OF k2])
      fix L
      define s1 where "s1 = s2\<lparr>current_thread := NULL, lst := L\<rparr>"
      define Q1 where "Q1 = Q0(Wait_queue := Q0 Wait_queue @ [c])"
      assume "kinv (s2\<lparr>current_thread := NULL, lst := L\<rparr>) H (Q0(Wait_queue := Q0 Wait_queue @ [c]))"
      then have k1: "kinv s1 H Q1" by (simp only: s1_def Q1_def)
      have i: "ipc_of s1 Q1 = (ipc_of s0 Q0)\<lparr>a_wait := a_wait (ipc_of s0 Q0) @ [c], a_cur := NULL,
                a_want := (a_want (ipc_of s0 Q0))(c := mgr)\<rparr>"
        unfolding s1_def s2_def Q1_def by (rule ipc_of_block) (use c0 c in simp_all)
      have "addr_ok s1" using ok0 t0 by (subst addr_ok_cong[of _ s0]) (auto simp: s1_def s2_def)
      moreover have "bus_ok s1" using b0 by (simp add: s1_def s2_def)
      moreover have "service_data s1 = service_data s" using sv t0 by (simp add: s1_def s2_def)
      moreover have "map_option t_state (tcbs s1 c) = Some (t_state t)" by (simp add: s1_def s2_def)
      ultimately have "wp scheduler P E s1"
        using P[OF sd k1 _ _ i] E[OF sd i] by (intro wp_scheduler_after[OF k1]) auto
      then show "wp scheduler P E (s2\<lparr>current_thread := NULL, lst := L\<rparr>)" by (simp add: s1_def)
    qed (use c0 c in \<open>simp_all add: s2_def\<close>)
    then show "wp ?rest P E s0" using t0 by (simp add: s2_def)
  qed (use E' in auto)
  with c t m show ?thesis by (simp add: pass_up_def)
qed

section \<open>The system calls\<close>

text \<open>\<open>SYS\<close> calls: the result register of the running thread.\<close>

definition result_in :: "kstate \<Rightarrow> U32 \<Rightarrow> U32 \<Rightarrow> kstate" where
  "result_in s p v = s\<lparr>tcbs := (\<lambda>q. if q = p then map_option (\<lambda>t. t\<lparr>t_state := gpr_set reg_v0 v (t_state t)\<rparr>) (tcbs s q)
                                   else tcbs s q)\<rparr>"

lemma result_in_fields [simp]:
  "kinv (result_in s p v) H Q = kinv s H Q" "ipc_of (result_in s p v) Q = ipc_of s Q"
  "addr_ok (result_in s p v) = addr_ok s" "bus_ok (result_in s p v) = bus_ok s"
  "mem (result_in s p v) = mem s" "current_thread (result_in s p v) = current_thread s"
  "service_data (result_in s p v) = service_data s" "soft_block_count (result_in s p v) = soft_block_count s"
proof -
  show "kinv (result_in s p v) H Q = kinv s H Q" by (rule kinv_cong) (simp_all add: result_in_def)
  have "live (result_in s p v) Q = live s Q" "msg_pair (result_in s p v) = msg_pair s"
    by (simp_all add: live_def result_in_def msg_pair_def fun_eq_iff)
  then show "ipc_of (result_in s p v) Q = ipc_of s Q"
    by (intro ipc_eqI) (simp_all add: ipc_of_fields, simp_all add: result_in_def split: option.splits)
  show "addr_ok (result_in s p v) = addr_ok s" by (rule addr_ok_cong) (simp_all add: result_in_def)
qed (simp_all add: result_in_def bus_ok_def, simp add: service_data_def option.map_comp comp_def fun_eq_iff)

lemma wp_result_in:
  assumes "tcbs s p \<noteq> None"
  shows "wp (upd_tcb p (\<lambda>t. t\<lparr>t_state := gpr_set reg_v0 v (t_state t)\<rparr>)) R E s = R () (result_in s p v)"
proof -
  obtain t where t: "tcbs s p = Some t" using assms by auto
  then have "(\<lambda>q. if q = p then map_option (\<lambda>t. t\<lparr>t_state := gpr_set reg_v0 v (t_state t)\<rparr>) (tcbs s q) else tcbs s q)
    = (tcbs s)(p \<mapsto> t\<lparr>t_state := gpr_set reg_v0 v (t_state t)\<rparr>)" by auto
  with t show ?thesis by (simp add: result_in_def)
qed

lemma wp_sys_recv:
  assumes k: "kinv s H Q" and ok: "addr_ok s" and b: "bus_ok s" and c: "c = current_thread s" "c \<noteq> NULL"
    and w: "want = gpr_get old reg_a1" and a: "a = gpr_get old reg_a2"
    and mp: "fst (a_recv want (ipc_of s Q)) \<noteq> None \<Longrightarrow> mem s a \<noteq> None \<and> a \<noteq> BUS_TIMESCALE"
    and P: "\<And>v s1 Q1 r s'. kinv s1 H Q1 \<Longrightarrow> tree_kept Q Q1 \<Longrightarrow> addr_ok s1 \<Longrightarrow> bus_ok s1 \<Longrightarrow> snd (a_recv want (ipc_of s Q)) = ipc_of s1 Q1 \<Longrightarrow>
        (case fst (a_recv want (ipc_of s Q)) of
           None \<Rightarrow> v = NULL \<and> mem s1 = mem s \<and> reply_of s1 c = a \<and> soft_block_count s1 = soft_block_count s
         | Some (x, y) \<Rightarrow> v = x \<and> mem s1 = (mem s)(a \<mapsto> y)) \<Longrightarrow>
        same_registers s s1 (\<lambda>q. q = c) v \<Longrightarrow> (\<And>q. q \<noteq> c \<Longrightarrow> tcbs s1 q = tcbs s q) \<Longrightarrow> service_data s1 = service_data s \<Longrightarrow>
        wp scheduler P E s1"
  shows "wp (sys_recv old) P E s"
proof -
  have mp': "fst (a_recv want (ipc_of s Q)) \<noteq> None \<Longrightarrow> mem s a \<noteq> None" using mp by blast
  have "wp (recv c want a) (\<lambda>v. wp (kthen (upd_tcb c (\<lambda>t. t\<lparr>t_state := gpr_set reg_v0 v (t_state t)\<rparr>)) scheduler) P E) E s"
  proof (rule wp_mono[OF wp_recv_refines[OF k ok c mp']])
    fix v s0
    assume post: "\<exists>Q'. kinv s0 H Q' \<and> tree_kept Q Q' \<and> addr_ok s0 \<and> SSI_tcb s0 = SSI_tcb s \<and> service_data s0 = service_data s \<and> same_registers s s0 (\<lambda>_. False) NULL \<and>
      (\<forall>q. q \<noteq> c \<longrightarrow> tcbs s0 q = tcbs s q) \<and>
      (case a_recv want (ipc_of s Q) of
        (None, B) \<Rightarrow> v = NULL \<and> B = ipc_of s0 Q' \<and> mem s0 = mem s \<and> reply_of s0 c = a \<and> soft_block_count s0 = soft_block_count s
      | (Some (x, y), B) \<Rightarrow> v = x \<and> B = ipc_of s0 Q' \<and> mem s0 = (mem s)(a \<mapsto> y))"
    have ot: "\<forall>q. q \<noteq> c \<longrightarrow> tcbs s0 q = tcbs s q" using post by blast
    from post obtain Q0 where k0: "kinv s0 H Q0" and tk: "tree_kept Q Q0" and ok0: "addr_ok s0" and sr: "same_registers s s0 (\<lambda>_. False) NULL"
      and sv: "service_data s0 = service_data s"
      and i: "snd (a_recv want (ipc_of s Q)) = ipc_of s0 Q0"
      and cs: "case fst (a_recv want (ipc_of s Q)) of
           None \<Rightarrow> v = NULL \<and> mem s0 = mem s \<and> reply_of s0 c = a \<and> soft_block_count s0 = soft_block_count s
         | Some (x, y) \<Rightarrow> v = x \<and> mem s0 = (mem s)(a \<mapsto> y)"
      by (cases "a_recv want (ipc_of s Q)") (auto split: option.splits)
    have b0: "bus_ok s0"
    proof (cases "fst (a_recv want (ipc_of s Q))")
      case None
      then show ?thesis using cs by (intro bus_ok_mem(2)[OF b]) simp
    next
      case (Some xy)
      then show ?thesis using cs mp by (cases xy) (auto intro: bus_ok_mem(1)[OF b])
    qed
    have t0: "tcbs s0 c \<noteq> None"
      using kinv_tcb[OF k kinv_current_live] c sr by (metis (no_types, lifting) same_registers_def option.map_disc_iff option.distinct(1))
    have rp: "reply_of (result_in s0 c v) c = reply_of s0 c"
      using t0 by (auto simp: reply_of_def result_in_def)
    have "same_registers s (result_in s0 c v) (\<lambda>q. q = c) v"
      unfolding same_registers_def
    proof
      fix q
      have "map_option t_state (tcbs s0 q) = map_option t_state (tcbs s q)" using sr by (simp add: same_registers_def)
      then show "map_option t_state (tcbs (result_in s0 c v) q) =
          map_option (\<lambda>t. if q = c then gpr_set reg_v0 v (t_state t) else t_state t) (tcbs s q)"
        by (cases "tcbs s0 q"; cases "tcbs s q") (auto simp: result_in_def)
    qed
    moreover have "tcbs (result_in s0 c v) q = tcbs s q" if "q \<noteq> c" for q using ot that by (simp add: result_in_def)
    ultimately have "wp scheduler P E (result_in s0 c v)"
      using k0 tk ok0 b0 i cs sv by (intro P[of _ Q0 v]) (simp_all only: result_in_fields rp)
    then show "wp (kthen (upd_tcb c (\<lambda>t. t\<lparr>t_state := gpr_set reg_v0 v (t_state t)\<rparr>)) scheduler) P E s0"
      by (simp only: wp_kthen wp_result_in[OF t0])
  qed auto
  then show ?thesis using c w a by (simp add: sys_recv_def)
qed

text \<open>The receiver and the counter of service requests of a \<open>SEND\<close> call.\<close>

definition send_target :: "kstate \<Rightarrow> state_t \<Rightarrow> U32" where
  "send_target s old = (if gpr_get old reg_a1 = MAGIC_SSI then SSI_tcb s else gpr_get old reg_a1)"

definition counted :: "kstate \<Rightarrow> state_t \<Rightarrow> kstate" where
  "counted s old = (if gpr_get old reg_a1 = MAGIC_SSI then s\<lparr>soft_block_count := soft_block_count s + 1\<rparr> else s)"

definition trap_decision :: "kstate \<Rightarrow> U32 \<Rightarrow> U32 \<Rightarrow> bool" where
  "trap_decision s mgr tgt \<longleftrightarrow> mgr \<in> set (trap_managers s) \<and>
     (case tcbs s tgt of None \<Rightarrow> False | Some t \<Rightarrow> waiting_for t = mgr)"

lemma counted_fields [simp]:
  "kinv (counted s old) H Q = kinv s H Q" "ipc_of (counted s old) Q = ipc_of s Q" "addr_ok (counted s old) = addr_ok s"
  "mem (counted s old) = mem s" "tcbs (counted s old) = tcbs s" "current_thread (counted s old) = current_thread s"
  "bus_ok (counted s old) = bus_ok s" "reply_of (counted s old) p = reply_of s p"
  "masked_sender (counted s old) x = masked_sender s x" "trap_managers (counted s old) = trap_managers s"
  "service_data (counted s old) = service_data s" "msgs (counted s old) = msgs s"
  "live (counted s old) Q = live s Q" "areas (counted s old) = areas s" "SSI_tcb (counted s old) = SSI_tcb s"
  by (simp_all add: counted_def live_def addr_ok_def reply_of_def masked_sender_def ipc_of_cong[of "s\<lparr>soft_block_count := _\<rparr>" s])

lemma wp_trap_test:
  assumes "c = current_thread s" "c \<noteq> NULL" and "tgt = send_target s old"
    and "c \<in> set (trap_managers s) \<Longrightarrow> tcbs s tgt \<noteq> None"
  shows "wp (sys_send old) P E s =
    wp (if trap_decision s c tgt \<and> gpr_get old reg_a2 = TRAPTERMINATE then kthen (terminate tgt) scheduler
        else if trap_decision s c tgt \<and> gpr_get old reg_a2 = TRAPCONTINUE then
          kbind (outThread Wait_queue tgt) (\<lambda>q. kthen (insertThread Ready_queue q) scheduler)
        else kbind (send c tgt (gpr_get old reg_a2)) (\<lambda>v.
          kthen (upd_tcb c (\<lambda>t. t\<lparr>t_state := gpr_set reg_v0 v (t_state t)\<rparr>)) scheduler)) P E (counted s old)"
proof (cases "c \<in> set (trap_managers s)")
  case True
  with assms(4) obtain t where "tcbs s tgt = Some t" by auto
  with True assms(1-3) show ?thesis
    by (cases "gpr_get old reg_a1 = MAGIC_SSI")
       (auto simp: sys_send_def Let_def send_target_def counted_def thereIs_manager_def find_scan_eq trap_decision_def)
next
  case False
  with assms(1-3) show ?thesis
    by (simp add: sys_send_def Let_def send_target_def counted_def thereIs_manager_def find_scan_eq trap_decision_def)
qed

lemma wp_sys_send:
  assumes k: "kinv s H Q" and ok: "addr_ok s" and b: "bus_ok s" and c: "c = current_thread s" "c \<noteq> NULL"
    and tg: "tgt = send_target s old" "tgt \<noteq> NULL" and v: "v = gpr_get old reg_a2" and x: "x = masked_sender s c"
    and mv: "c \<in> set (trap_managers s) \<Longrightarrow> tcbs s tgt \<noteq> None"
    and nt: "trap_decision s c tgt \<Longrightarrow> v \<noteq> TRAPTERMINATE \<and> v \<noteq> TRAPCONTINUE"
    and mp: "a_awaits (ipc_of s Q) x tgt \<Longrightarrow> reply_ok s tgt"
    and P: "\<And>r A1 s1 Q1. a_send x tgt v (ipc_of s Q) = Some (r, A1) \<Longrightarrow> kinv s1 H Q1 \<Longrightarrow> tree_kept Q Q1 \<Longrightarrow> addr_ok s1 \<Longrightarrow> bus_ok s1 \<Longrightarrow>
        ipc_of s1 Q1 = A1 \<Longrightarrow> service_data s1 = service_data s \<Longrightarrow> soft_block_count s1 = soft_block_count (counted s old) \<Longrightarrow>
        mem s1 = (if a_awaits (ipc_of s Q) x tgt then (mem s)(reply_of s tgt \<mapsto> v) else mem s) \<Longrightarrow>
        current_thread s1 = c \<Longrightarrow>
        (\<And>t. tcbs s c = Some t \<Longrightarrow> map_option t_state (tcbs s1 c) = Some (gpr_set reg_v0 r (t_state t))) \<Longrightarrow>
        (\<And>q. q \<noteq> c \<Longrightarrow> tcbs s1 q = woken_up s x tgt (a_awaits (ipc_of s Q) x tgt) q) \<Longrightarrow> wp scheduler P E s1"
    and E: "a_send x tgt v (ipc_of s Q) = None \<Longrightarrow> E PANIC"
  shows "wp (sys_send old) P E s"
proof -
  let ?s = "counted s old"
  have mp': "a_awaits (ipc_of ?s Q) x tgt \<Longrightarrow> mem ?s (reply_of ?s tgt) \<noteq> None" using mp by (simp add: reply_ok_def)
  have k': "kinv ?s H Q" and ok': "addr_ok ?s" and x': "x = masked_sender ?s c" using k ok x by simp_all
  have "wp (send c tgt v) (\<lambda>r. wp (kthen (upd_tcb c (\<lambda>t. t\<lparr>t_state := gpr_set reg_v0 r (t_state t)\<rparr>)) scheduler) P E) E ?s"
  proof (rule wp_mono[OF wp_send_refines[OF k' ok' tg(2) x' mp']])
    fix r s0
    assume "\<exists>Q'. kinv s0 H Q' \<and> tree_kept Q Q' \<and> addr_ok s0 \<and> a_send x tgt v (ipc_of ?s Q) = Some (r, ipc_of s0 Q') \<and>
        SSI_tcb s0 = SSI_tcb ?s \<and> service_data s0 = service_data ?s \<and> ipc_only ?s s0 \<and> tcbs s0 = woken_up ?s x tgt (a_awaits (ipc_of ?s Q) x tgt) \<and> soft_block_count s0 = soft_block_count ?s \<and>
        same_registers ?s s0 (\<lambda>q. q = tgt \<and> a_awaits (ipc_of ?s Q) x tgt) x \<and>
        mem s0 = (if a_awaits (ipc_of ?s Q) x tgt then (mem ?s)(reply_of ?s tgt \<mapsto> v) else mem ?s)"
    then obtain Q0 where k0: "kinv s0 H Q0" and tk: "tree_kept Q Q0" and ok0: "addr_ok s0" and sd: "a_send x tgt v (ipc_of s Q) = Some (r, ipc_of s0 Q0)"
      and sb: "soft_block_count s0 = soft_block_count ?s" and sv: "service_data s0 = service_data s"
      and sr: "same_registers ?s s0 (\<lambda>q. q = tgt \<and> a_awaits (ipc_of s Q) x tgt) x"
      and tw: "tcbs s0 = woken_up ?s x tgt (a_awaits (ipc_of s Q) x tgt)"
      and me: "mem s0 = (if a_awaits (ipc_of s Q) x tgt then (mem s)(reply_of s tgt \<mapsto> v) else mem s)" by auto
    have b0: "bus_ok s0"
    proof (cases "a_awaits (ipc_of s Q) x tgt")
      case True
      then show ?thesis using me mp by (intro bus_ok_mem(1)[OF b]) (auto simp: reply_ok_def)
    next
      case False
      then show ?thesis using me by (intro bus_ok_mem(2)[OF b]) simp
    qed
    from a_send_cur[OF sd] have c0: "current_thread s0 = c" using c by (simp add: ipc_of_fields)
    have t0: "tcbs s0 c \<noteq> None" using kinv_tcb[OF k0 kinv_current_live] c0 c(2) by auto
    have nw: "\<not> (c = tgt \<and> a_awaits (ipc_of s Q) x tgt)"
      using kinv_current(2)[OF k] c by (auto simp: a_awaits_def ipc_of_fields)
    have reg: "map_option t_state (tcbs (result_in s0 c r) c) = Some (gpr_set reg_v0 r (t_state t))" if "tcbs s c = Some t" for t
    proof -
      have "map_option t_state (tcbs s0 c) = Some (t_state t)"
        using sr[unfolded same_registers_def, rule_format, of c] nw that by (auto split: if_splits)
      then show ?thesis by (auto simp: result_in_def)
    qed
    have "wp scheduler P E (result_in s0 c r)"
    proof (rule P[OF sd])
      show "soft_block_count (result_in s0 c r) = soft_block_count ?s" using sb by (simp add: result_in_def)
      show "tcbs (result_in s0 c r) q = woken_up s x tgt (a_awaits (ipc_of s Q) x tgt) q" if "q \<noteq> c" for q
        using that tw by (simp add: result_in_def woken_up_def)
    qed (use k0 tk ok0 b0 c0 reg me sv in \<open>simp_all\<close>)
    then show "wp (kthen (upd_tcb c (\<lambda>t. t\<lparr>t_state := gpr_set reg_v0 r (t_state t)\<rparr>)) scheduler) P E s0"
      by (simp only: wp_kthen wp_result_in[OF t0])
  qed (use E in auto)
  then have "wp (kbind (send c tgt v) (\<lambda>r. kthen (upd_tcb c (\<lambda>t. t\<lparr>t_state := gpr_set reg_v0 r (t_state t)\<rparr>)) scheduler)) P E ?s"
    by (simp only: wp_kbind)
  moreover have "\<not> (trap_decision s c tgt \<and> v = TRAPTERMINATE)" "\<not> (trap_decision s c tgt \<and> v = TRAPCONTINUE)"
    using nt by auto
  ultimately show ?thesis
    by (subst wp_trap_test[OF c tg(1)]) (erule mv, simp only: v[symmetric] if_False)
qed

text \<open>The decisions of a trap manager about a thread it has frozen.\<close>

lemma wp_trap_continue:
  assumes k: "kinv s H Q" and b: "bus_ok s" and c: "c = current_thread s" "c \<noteq> NULL"
    and tg: "tgt = send_target s old" "tgt \<in> set (Q Wait_queue)" and v: "gpr_get old reg_a2 = TRAPCONTINUE"
    and d: "trap_decision s c tgt"
    and P: "\<And>s1 r s'. kinv s1 H (Q(Wait_queue := remove1 tgt (Q Wait_queue), Ready_queue := Q Ready_queue @ [tgt])) \<Longrightarrow>
        s1 = (counted s old)\<lparr>lst := lst s1\<rparr> \<Longrightarrow> tcbs s1 = tcbs s \<Longrightarrow> msgs s1 = msgs s \<Longrightarrow> current_thread s1 = c \<Longrightarrow>
        scheduled s1 H (Q(Wait_queue := remove1 tgt (Q Wait_queue), Ready_queue := Q Ready_queue @ [tgt])) r s' \<Longrightarrow> P r s'"
  shows "wp (sys_send old) P E s"
proof -
  let ?s = "counted s old"
  define Q1 where "Q1 = Q(Wait_queue := remove1 tgt (Q Wait_queue))"
  define Q2 where "Q2 = Q1(Ready_queue := Q1 Ready_queue @ [tgt])"
  have Q2: "Q2 = Q(Wait_queue := remove1 tgt (Q Wait_queue), Ready_queue := Q Ready_queue @ [tgt])"
    by (simp add: Q2_def Q1_def)
  have k': "kinv ?s H Q" using k by simp
  note r = kinv_rep[OF k'] and h = kinv_heads[OF k']
  have un: "unlinked H Q1 By_t_next tgt" using rep_removed_unlinked[OF r h(2) tg(2)] by (simp add: Q1_def)
  obtain t where t: "tcbs s tgt = Some t" using d by (auto simp: trap_decision_def split: option.splits)
  have dis: "distinct (Q Wait_queue)" "tgt \<noteq> c" using rep_distinct[OF r h(2)] tg(2) kinv_current(2)[OF k] c by auto
  have fin: "wp scheduler P E (?s\<lparr>lst := L\<rparr>)" if L: "rep (?s\<lparr>lst := L\<rparr>) H Q2" for L
  proof -
    have k1: "kinv (?s\<lparr>lst := L\<rparr>) H Q2"
      by (rule kinv_move[OF k' L]) (use tg(2) dis c kinv_current(1,2)[OF k] in \<open>auto simp: Q2_def Q1_def live_def\<close>)
    have "current_thread (?s\<lparr>lst := L\<rparr>) \<noteq> NULL" using c by simp
    then show ?thesis
      using P[OF k1[unfolded Q2]] b c k1
      by (intro wp_scheduler_after[OF k1]) (simp_all add: Q2[symmetric] nothing_runs_def)
  qed
  have ins: "wp (insertThread Ready_queue tgt) (\<lambda>_. wp scheduler P E) E (?s\<lparr>lst := L\<rparr>)"
    if r1: "rep (?s\<lparr>lst := L\<rparr>) H Q1" for L
    by (rule wp_insertThread[OF r1 h(1) _ un]) (use t fin in \<open>simp_all add: Q2_def del: fun_upd_apply\<close>)
  have "wp (kbind (outThread Wait_queue tgt) (\<lambda>q. kthen (insertThread Ready_queue q) scheduler)) P E ?s"
    unfolding wp_kbind wp_kthen
    by (rule wp_outThread[OF r h(2)]) (use tg(2) ins in \<open>simp_all add: Q1_def del: fun_upd_apply\<close>)
  then show ?thesis
    using d t v by (subst wp_trap_test[OF c tg(1)]) (simp_all del: wp_kbind wp_kthen)
qed

lemma wp_trap_terminate:
  assumes k: "kinv s H Q" and b: "bus_ok s" and c: "c = current_thread s" "c \<noteq> NULL"
    and tg: "tgt = send_target s old" and v: "gpr_get old reg_a2 = TRAPTERMINATE"
    and d: "trap_decision s c tgt"
    and tr: "tree_at Q tr" "root tr = tgt" "endable s H Q (post tr)" "parent_ok s H Q tgt (post tr)"
    and P: "\<And>s1 r s'. ended (counted s old) H (orphaned s tgt Q) (post tr) s1 \<Longrightarrow>
          scheduled s1 H (reap_list (post tr) (orphaned s tgt Q)) r s' \<Longrightarrow> P r s'"
    and E: "\<And>s1 e. ended (counted s old) H (orphaned s tgt Q) (post tr) s1 \<Longrightarrow>
          nothing_runs s1 (reap_list (post tr) (orphaned s tgt Q)) e \<Longrightarrow> E e"
  shows "wp (sys_send old) P E s"
proof -
  let ?s = "counted s old"
  have k': "kinv ?s H Q" using k by simp
  have o: "orphaned ?s tgt Q = orphaned s tgt Q" by (simp add: orphaned_def)
  have "wp (terminate tgt) (\<lambda>_. wp scheduler P E) E ?s"
  proof (rule wp_terminate[OF k' tr(1,2)])
    fix s1 assume "ended ?s H (orphaned ?s tgt Q) (post tr) s1"
    then have s1: "ended ?s H (orphaned s tgt Q) (post tr) s1" by (simp only: o)
    have "bus_ok s1" using s1 b same_rest_fields(7)[of ?s s1] by (simp add: ended_def gone_def)
    moreover have "kinv s1 H (reap_list (post tr) (orphaned s tgt Q))" using s1 by (simp add: ended_def)
    ultimately show "wp scheduler P E s1" using P[OF s1] E[OF s1] by (intro wp_scheduler_after) auto
  qed (use tr(3,4) in \<open>simp_all add: endable_def parent_ok_def\<close>)
  then show ?thesis
    using d v by (subst wp_trap_test[OF c tg]) (auto simp: trap_decision_def split: option.splits)
qed

section \<open>The whole SYSCALL handler\<close>

text \<open>The state in which \<open>sysbp_handler\<close> starts to look at the call: the program counter is past it.\<close>

definition advance :: "tcb_t \<Rightarrow> tcb_t" where
  "advance t = t\<lparr>t_state := (t_state t)\<lparr>pc_epc := pc_epc (t_state t) + WORD_SIZE\<rparr>\<rparr>"

definition sys_enter :: "kstate \<Rightarrow> kstate" where
  "sys_enter s = (enter SYSBK_OLDAREA s)\<lparr>tcbs :=
     (\<lambda>p. if p = current_thread s then map_option (\<lambda>t. advance (entered s SYSBK_OLDAREA t)) (tcbs s p) else tcbs s p)\<rparr>"

lemma sys_enter_tcb:
  "tcbs (sys_enter s) p = (if p = current_thread s then map_option (\<lambda>t. advance (entered s SYSBK_OLDAREA t)) (tcbs s p) else tcbs s p)"
  by (simp add: sys_enter_def)

lemma entered_fields [simp]:
  "waiting_for (entered s a t) = waiting_for t" "reply (entered s a t) = reply t" "t_parent (entered s a t) = t_parent t"
  "sysbp_manager_thread (entered s a t) = sysbp_manager_thread t"
  "pgmtrap_manager_thread (entered s a t) = pgmtrap_manager_thread t"
  "tlbtrap_manager_thread (entered s a t) = tlbtrap_manager_thread t"
  "waiting_for (advance t) = waiting_for t" "reply (advance t) = reply t" "t_parent (advance t) = t_parent t"
  "sysbp_manager_thread (advance t) = sysbp_manager_thread t"
  "tcb_links (entered s a t) = tcb_links t" "tcb_links (advance t) = tcb_links t"
  by (simp_all add: entered_def advance_def)

text \<open>Entering a handler changes only times and registers.\<close>

lemma tcb_frame:
  assumes "lst s' = lst s" "msgs s' = msgs s" "current_thread s' = current_thread s" "thread_count s' = thread_count s"
    and "SSI_tcb s' = SSI_tcb s"
    and "\<And>p. map_option waiting_for (tcbs s' p) = map_option waiting_for (tcbs s p)"
    and "\<And>p. map_option t_parent (tcbs s' p) = map_option t_parent (tcbs s p)"
    and "\<And>p. map_option reply (tcbs s' p) = map_option reply (tcbs s p)"
  shows "kinv s' H Q = kinv s H Q" "ipc_of s' Q = ipc_of s Q" "addr_ok s' = addr_ok s" "reply_of s' p = reply_of s p"
    "live s' Q = live s Q" "endable s' H Q zs = endable s H Q zs" "parent_ok s' H Q p zs = parent_ok s H Q p zs"
    "orphaned s' p Q = orphaned s p Q"
proof -
  have n: "tcbs s' p = None \<longleftrightarrow> tcbs s p = None" for p
    using assms(6)[of p] by (cases "tcbs s p"; cases "tcbs s' p") auto
  have w: "(case tcbs s' p of None \<Rightarrow> 0 | Some t \<Rightarrow> waiting_for t) = (case tcbs s p of None \<Rightarrow> 0 | Some t \<Rightarrow> waiting_for t)" for p
    using assms(6)[of p] by (cases "tcbs s p"; cases "tcbs s' p") auto
  show "kinv s' H Q = kinv s H Q" by (rule kinv_cong) (use assms n in simp_all)
  show l: "live s' Q = live s Q" using assms by (simp add: live_def)
  have mp: "msg_pair s' = msg_pair s" using assms by (simp add: msg_pair_def fun_eq_iff)
  show "ipc_of s' Q = ipc_of s Q"
    by (rule ipc_eqI) (use assms in \<open>simp_all add: ipc_of_fields l w mp\<close>)
  show "addr_ok s' = addr_ok s" by (rule addr_ok_cong) (use assms n in simp_all)
  show "reply_of s' p = reply_of s p"
    using assms(8)[of p] by (cases "tcbs s p"; cases "tcbs s' p") (auto simp: reply_of_def)
  show "endable s' H Q zs = endable s H Q zs" by (simp add: endable_def l)
  show "parent_ok s' H Q p zs = parent_ok s H Q p zs" "orphaned s' p Q = orphaned s p Q"
    using assms(7)[of p] by (cases "tcbs s p"; cases "tcbs s' p"; auto simp: parent_ok_def orphaned_def)+
qed

lemma enter_heap [simp]:
  "lst (enter a s) = lst s" "msgs (enter a s) = msgs s" "current_thread (enter a s) = current_thread s"
  "thread_count (enter a s) = thread_count s" "SSI_tcb (enter a s) = SSI_tcb s"
  "map_option waiting_for (tcbs (enter a s) p) = map_option waiting_for (tcbs s p)"
  "map_option t_parent (tcbs (enter a s) p) = map_option t_parent (tcbs s p)"
  "map_option reply (tcbs (enter a s) p) = map_option reply (tcbs s p)"
  by (simp_all add: enter_def option.map_comp comp_def)

lemma sys_enter_heap [simp]:
  "lst (sys_enter s) = lst s" "msgs (sys_enter s) = msgs s" "current_thread (sys_enter s) = current_thread s"
  "thread_count (sys_enter s) = thread_count s" "SSI_tcb (sys_enter s) = SSI_tcb s"
  "map_option waiting_for (tcbs (sys_enter s) p) = map_option waiting_for (tcbs s p)"
  "map_option t_parent (tcbs (sys_enter s) p) = map_option t_parent (tcbs s p)"
  "map_option reply (tcbs (sys_enter s) p) = map_option reply (tcbs s p)"
  by (simp_all add: sys_enter_def option.map_comp comp_def)

lemmas enter_frame = tcb_frame[OF enter_heap]

lemmas sys_enter_frame = tcb_frame[OF sys_enter_heap]

lemma sys_enter_fields [simp]:
  "mem (sys_enter s) = mem s"
  "areas (sys_enter s) = areas s" "trap_managers (sys_enter s) = trap_managers s" "bus_ok (sys_enter s) = bus_ok s"
  "soft_block_count (sys_enter s) = soft_block_count s" "service_data (sys_enter s) = service_data s"
  "masked_sender (sys_enter s) x = masked_sender s x" "send_target (sys_enter s) old = send_target s old"
  by (simp_all add: sys_enter_def enter_def masked_sender_def send_target_def,
      simp add: service_data_def option.map_comp comp_def fun_eq_iff)

text \<open>The exception is a system call made in kernel mode.\<close>

definition kernel_syscall :: "state_t \<Rightarrow> bool" where
  "kernel_syscall old \<longleftrightarrow> drop_bit 3 (status old AND STATUS_KUp) = 0 \<and> CAUSE_EXCCODE_GET (cause old) = EXC_SYSCALL"

lemma wp_sysbp:
  assumes "bus_ok s" and "tcbs s (current_thread s) = Some t" and "old = areas s SYSBK_OLDAREA"
  shows "wp sysbp_handler P E s =
    wp (if kernel_syscall old \<and> gpr_get old reg_a0 = SEND then sys_send old
        else if kernel_syscall old \<and> gpr_get old reg_a0 = RECV then sys_recv old
        else pass_up sysbp_manager_thread SYSBK_OLDAREA) P E (sys_enter s)"
proof -
  have "(enter SYSBK_OLDAREA s)\<lparr>tcbs := (tcbs (enter SYSBK_OLDAREA s))(current_thread s \<mapsto>
          (entered s SYSBK_OLDAREA t)\<lparr>t_state := (t_state (entered s SYSBK_OLDAREA t))\<lparr>pc_epc :=
             pc_epc (t_state (entered s SYSBK_OLDAREA t)) + WORD_SIZE\<rparr>\<rparr>)\<rparr> = sys_enter s"
    using assms(2) by (simp add: sys_enter_def enter_def advance_def fun_upd_def if_distrib cong: if_cong)
  with assms show ?thesis
    by (simp add: sysbp_handler_def wp_enter Let_def kernel_syscall_def)
qed

section \<open>Exceptions that go to a manager\<close>

text \<open>
  The exceptions that are passed up: program traps, TLB traps, and everything that reaches
  the SYSCALL handler and is not a message passing call in kernel mode. \<open>s0\<close> is the state
  after the registers and the times of the thread have been saved.
\<close>

definition passes_up :: "kstate \<Rightarrow> rom_call kmon \<Rightarrow> (tcb_t \<Rightarrow> U32) \<Rightarrow> U32 \<Rightarrow> kstate \<Rightarrow> bool" where
  "passes_up s handler field area s0 \<longleftrightarrow>
     handler = pgmtrap_handler \<and> field = pgmtrap_manager_thread \<and> area = PGMTRAP_OLDAREA \<and> s0 = enter area s \<or>
     handler = tlb_handler \<and> field = tlbtrap_manager_thread \<and> area = TLB_OLDAREA \<and> s0 = enter area s \<or>
     handler = sysbp_handler \<and> field = sysbp_manager_thread \<and> area = SYSBK_OLDAREA \<and> s0 = sys_enter s \<and>
       \<not> (kernel_syscall (areas s area) \<and> gpr_get (areas s area) reg_a0 \<in> {SEND, RECV})"

lemma enter_rest [simp]:
  "mem (enter a s) = mem s" "areas (enter a s) = areas s" "bus_ok (enter a s) = bus_ok s"
  "service_data (enter a s) = service_data s" "masked_sender (enter a s) x = masked_sender s x"
  by (simp_all add: enter_def masked_sender_def, simp add: service_data_def option.map_comp comp_def fun_eq_iff)

lemma passes_up_frame:
  assumes "passes_up s handler field area s0"
  shows "kinv s0 H Q = kinv s H Q" "ipc_of s0 Q = ipc_of s Q" "addr_ok s0 = addr_ok s" "reply_of s0 p = reply_of s p"
    "endable s0 H Q zs = endable s H Q zs" "parent_ok s0 H Q p zs = parent_ok s H Q p zs" "orphaned s0 p Q = orphaned s p Q"
    "mem s0 = mem s" "areas s0 = areas s" "bus_ok s0 = bus_ok s" "service_data s0 = service_data s"
    "masked_sender s0 x = masked_sender s x" "current_thread s0 = current_thread s"
    "map_option field (tcbs s0 p) = map_option field (tcbs s p)"
  using assms
  by (auto simp: passes_up_def enter_frame sys_enter_frame, auto simp: enter_def sys_enter_def option.map_comp comp_def)

lemma wp_passes_up:
  assumes u: "passes_up s handler field area s0" and "bus_ok s" and "tcbs s (current_thread s) = Some t"
    and "wp (pass_up field area) P E s0"
  shows "wp handler P E s"
  using u
  unfolding passes_up_def
proof (elim disjE conjE)
  assume h: "handler = sysbp_handler" "field = sysbp_manager_thread" "area = SYSBK_OLDAREA" "s0 = sys_enter s"
    "\<not> (kernel_syscall (areas s area) \<and> gpr_get (areas s area) reg_a0 \<in> {SEND, RECV})"
  then show ?thesis using assms(4) by (subst h(1), subst wp_sysbp[OF assms(2,3) refl]) auto
qed (use assms wp_enter[OF assms(2,3)] in \<open>simp_all add: pgmtrap_handler_def tlb_handler_def\<close>)

end
