(* ===== verification/Nucleus.thy ===== *)
theory Nucleus
  imports Exceptions Snapshot
begin

text \<open>
  The properties of the nucleus that rest on the invariant \<open>kinv\<close>: message passing
  implements its specification, messages of one sender keep their order, \<open>terminate\<close> ends
  exactly a subtree, the scheduler runs what can run, and the exception handlers do what
  the manual asks of them. Each is followed by an application to the small machine of
  \<^verbatim>\<open>Snapshot\<close>.
\<close>

section \<open>Message passing\<close>

text \<open>
  C4. \<open>send\<close> implements its specification: a dead receiver is reported, a receiver that
  waits for the message is woken up and finds the payload where it asked for it, any other
  receiver gets it into its mailbox, and the kernel panics exactly when no message is left.
  The invariant of the queues is kept.
\<close>

theorem send_refines:
  assumes "kinv s H Q" and "addr_ok s" and "tgt \<noteq> NULL"
    and "a_awaits (ipc_of s Q) (masked_sender s sender) tgt \<longrightarrow> mem s (reply_of s tgt) \<noteq> None"
  shows "case a_send (masked_sender s sender) tgt v (ipc_of s Q) of
           None \<Rightarrow> send sender tgt v s = Inl PANIC
         | Some (r, A) \<Rightarrow> \<exists>s' Q'. send sender tgt v s = Inr (r, s') \<and> kinv s' H Q' \<and> ipc_of s' Q' = A \<and>
             mem s' = (if a_awaits (ipc_of s Q) (masked_sender s sender) tgt then (mem s)(reply_of s tgt \<mapsto> v) else mem s) \<and>
             same_registers s s' (\<lambda>q. q = tgt \<and> a_awaits (ipc_of s Q) (masked_sender s sender) tgt) (masked_sender s sender)"
  using wp_send_refines[OF assms(1-3) refl, of sender v] assms(4)
  by (auto simp: wp_def split: sum.splits option.splits)

lemma ex_addr_ok: "addr_ok (ex_state cur ready wait area)"
  by (simp add: addr_ok_def ex_fields)

lemma ex_run_ipc:
  "a_ready (ipc_of (ex_run area) ex_run_Q) = [0x300]" "a_wait (ipc_of (ex_run area) ex_run_Q) = [0x100]"
  "a_cur (ipc_of (ex_run area) ex_run_Q) = 0x200" "a_free (ipc_of (ex_run area) ex_run_Q) = 1"
  "a_inbox (ipc_of (ex_run area) ex_run_Q) 0x200 = [(0x300, 7)]" "a_inbox (ipc_of (ex_run area) ex_run_Q) 0x300 = []"
  "a_want (ipc_of (ex_run area) ex_run_Q) 0x100 = 0"
  by (simp_all add: ipc_of_fields ex_Q_simps ex_fields live_def msg_pair_def ex_tcb_def)

lemma ex_run_awaits: "a_awaits (ipc_of (ex_run area) ex_run_Q) x 0x100"
  by (simp add: a_awaits_def ex_run_ipc satisfies_def)

theorem send_refines_witness:
  "\<exists>s'. send 0x200 0x100 42 (ex_run (ex_area 0 0 0 0)) = Inr (MSGGOOD, s') \<and> mem s' 0x700 = Some 42"
proof -
  let ?s = "ex_run (ex_area 0 0 0 0)"
  have "a_send (masked_sender ?s 0x200) 0x100 42 (ipc_of ?s ex_run_Q) \<noteq> None"
    "\<And>r A. a_send (masked_sender ?s 0x200) 0x100 42 (ipc_of ?s ex_run_Q) = Some (r, A) \<Longrightarrow> r = MSGGOOD"
    by (auto simp: a_send_def ex_run_awaits a_live_def ex_run_ipc)
  then show ?thesis
    using send_refines[OF ex_running[of "ex_area 0 0 0 0"] ex_addr_ok, of "0x100" "0x200" 42] ex_run_awaits
    by (auto simp: reply_of_def ex_fields ex_tcb_def split: option.splits)
qed

text \<open>
  C5. \<open>recv\<close> implements its specification: the oldest message that satisfies the request is
  taken out of the mailbox, its payload stored at the given address and its sender returned;
  with no such message the thread is suspended with the request recorded, and \<open>NULL\<close> is
  returned. It never faults and never panics.
\<close>

theorem recv_refines:
  assumes "kinv s H Q" and "addr_ok s" and "p = current_thread s" and "p \<noteq> NULL" and "mem s a \<noteq> None"
  shows "case a_recv want (ipc_of s Q) of
           (None, A) \<Rightarrow> \<exists>s' Q'. recv p want a s = Inr (NULL, s') \<and> kinv s' H Q' \<and> ipc_of s' Q' = A \<and>
              mem s' = mem s \<and> reply_of s' p = a
         | (Some (x, v), A) \<Rightarrow> \<exists>s' Q'. recv p want a s = Inr (x, s') \<and> kinv s' H Q' \<and> ipc_of s' Q' = A \<and>
              mem s' = (mem s)(a \<mapsto> v)"
  using wp_recv_refines[OF assms(1-4), of want a] assms(5)
  by (auto simp: wp_total split: option.splits prod.splits)

theorem recv_refines_witness:
  "\<exists>s'. recv 0x200 0x300 0x700 (ex_run (ex_area 0 0 0 0)) = Inr (0x300, s') \<and> mem s' 0x700 = Some 7"
  using recv_refines[OF ex_running[of "ex_area 0 0 0 0"] ex_addr_ok, of "0x200" "0x700" "0x300"]
  by (auto simp: a_recv_def Let_def ex_run_ipc satisfies_def ex_fields)

text \<open>
  A burst of messages to the running thread is received whole: what one sender sends it comes, in
  the order in which it was sent, after what was pending from that sender.
\<close>

theorem burst_received:
  assumes "kinv s H Q" and "addr_ok s" and "p = current_thread s" and "p \<noteq> NULL"
    and "masked_sender s x \<noteq> BUS_INTERVALTIMER" and "length vs \<le> length (Q Msgfree_sentinel)" and "mem s a \<noteq> None"
    and "old = map snd (filter (satisfies (masked_sender s x)) (a_inbox (ipc_of s Q) p))"
  shows "\<exists>s'. kthen (kfor vs (\<lambda>v. kthen (send x p v) (kreturn ())))
               (krepeat (length (old @ vs)) (kobserve (recv p (masked_sender s x) a) (\<lambda>s. mem s a))) s
             = Inr (map Some (old @ vs), s')"
proof (rule kipc.sender_order)
  show "ipc_rel H s (ipc_of s Q)" using assms(1,2) by (auto simp: ipc_rel_def)
  show "p \<notin> set (a_wait (ipc_of s Q))"
    using kinv_current(2)[OF assms(1)] assms(3,4) by (simp add: ipc_of_fields)
qed (use assms in \<open>simp_all add: ipc_of_fields\<close>)

theorem burst_received_witness:
  "\<exists>s'. kthen (kfor [9] (\<lambda>v. kthen (send 0x300 0x200 v) (kreturn ())))
          (krepeat (length [7, 9::U32]) (kobserve (recv 0x200 0x300 0x700) (\<lambda>s. mem s 0x700)))
          (ex_run (ex_area 0 0 0 0))
        = Inr ([Some 7, Some 9], s')"
  using burst_received[OF ex_running[of "ex_area 0 0 0 0"] ex_addr_ok, of "0x200" "0x300" "[9]" "0x700" "[7]"]
  by (simp add: ex_fields masked_sender_def ex_Q_simps ex_run_ipc satisfies_def del: kfor.simps krepeat.simps)

text \<open>
  C35. A thread that blocks in a receive is woken up by the first message that satisfies it:
  the payload is at the address it gave, it is ready, behind all others, and the message
  pool has not been touched.
\<close>

theorem blocked_receiver_served:
  assumes "kinv s H Q" and "addr_ok s" and "p = current_thread s" and "p \<noteq> NULL"
    and "find (satisfies want) (a_inbox (ipc_of s Q) p) = None"
    and "want = ANYMESSAGE \<or> want = masked_sender s x" and "mem s a \<noteq> None"
  shows "\<exists>s' Q'. kthen (recv p want a) (send x p v) s = Inr (MSGGOOD, s') \<and> mem s' a = Some v \<and> kinv s' H Q' \<and>
           Q' Ready_queue = Q Ready_queue @ [p] \<and> Q' Wait_queue = Q Wait_queue \<and> current_thread s' = NULL \<and>
           length (Q' Msgfree_sentinel) = length (Q Msgfree_sentinel)"
proof -
  let ?A = "ipc_of s Q"
  have c: "a_cur ?A = p" using assms(3) by (simp add: ipc_of_fields)
  have "ipc_rel H s ?A" using assms(1,2) by (auto simp: ipc_rel_def)
  from kipc.rendezvous[OF this, of want x a v] c assms kinv_current(1,2)[OF assms(1)]
  obtain s' where s': "kthen (recv p want a) (send x p v) s = Inr (MSGGOOD, s')" "mem s' a = Some v"
    "ipc_rel H s' (?A\<lparr>a_ready := a_ready ?A @ [p], a_cur := NULL, a_want := (a_want ?A)(p := - 1)\<rparr>)"
    by (auto simp: ipc_of_fields)
  then obtain Q' where Q': "kinv s' H Q'"
    "ipc_of s' Q' = ?A\<lparr>a_ready := a_ready ?A @ [p], a_cur := NULL, a_want := (a_want ?A)(p := - 1)\<rparr>"
    by (auto simp: ipc_rel_def)
  have "a_ready (ipc_of s' Q') = a_ready ?A @ [p]" "a_wait (ipc_of s' Q') = a_wait ?A"
    "a_cur (ipc_of s' Q') = NULL" "a_free (ipc_of s' Q') = a_free ?A" using Q'(2) by simp_all
  with s'(1,2) Q'(1) show ?thesis by (auto simp: ipc_of_fields)
qed

theorem blocked_receiver_served_witness:
  "\<exists>s'. kthen (recv 0x200 MAGIC_SSI 0x700) (send 0x100 0x200 5) (ex_run (ex_area 0 0 0 0)) = Inr (MSGGOOD, s') \<and> mem s' 0x700 = Some 5"
  using blocked_receiver_served[OF ex_running[of "ex_area 0 0 0 0"] ex_addr_ok, of "0x200" MAGIC_SSI "0x100" "0x700" 5]
  by (auto simp: ex_fields masked_sender_def ex_run_ipc satisfies_def)

section \<open>Termination of a subtree\<close>

text \<open>
  C6. \<open>terminate\<close> comes back and ends exactly the threads of the subtree: they leave the
  queues, their TCBs and the messages in their inboxes go back to the free lists in the
  order in which the threads end (children first), the thread count drops by their number,
  a running thread among them no longer runs, and no other TCB changes. The recursion bound
  \<open>TERMINATE_BOUND\<close> is always enough.
\<close>

theorem terminate_subtree:
  assumes "kinv s H Q" and "tree_at Q t" and "endable s H Q (post t)" and "parent_ok s H Q (root t) (post t)"
  shows "\<exists>s' Q'. terminate (root t) s = Inr ((), s') \<and> Q' = reap_list (post t) (orphaned s (root t) Q) \<and> kinv s' H Q' \<and>
     live s' Q' = live s Q - set (post t) \<and>
     unat (thread_count s') = unat (thread_count s) - length (post t) \<and>
     current_thread s' = (if current_thread s \<in> set (post t) then NULL else current_thread s) \<and>
     (\<forall>x. x \<notin> set (post t) \<longrightarrow> tcbs s' x = tcbs s x) \<and>
     trap_managers s' = fold delete_scan (post t) (trap_managers s) \<and> mem s' = mem s \<and> msgs s' = msgs s"
proof -
  let ?Q = "orphaned s (root t) Q"
  have "wp (terminate (root t)) (\<lambda>_ s'. ended s H ?Q (post t) s') no_stop s"
    by (rule wp_terminate[OF assms(1,2) refl assms(3,4)])
  then obtain s' where s': "terminate (root t) s = Inr ((), s')" and e: "ended s H ?Q (post t) s'" by (auto simp: wp_total)
  have oq: "?Q Ready_queue = Q Ready_queue" "?Q Wait_queue = Q Wait_queue"
    by (simp_all add: orphaned_def split: option.split)
  have k': "kinv s' H (reap_list (post t) ?Q)" and g: "gone s (post t) s'" using e by (simp_all add: ended_def)
  have lv: "live s' (reap_list (post t) ?Q) = live s Q - set (post t)"
    using g oq by (auto simp: live_def gone_def split: if_splits)
  have sub: "set (post t) \<subseteq> live s Q" and d: "distinct (post t)" using assms(3) by (auto simp: endable_def)
  have "unat (thread_count s') = unat (thread_count s) - length (post t)"
    unfolding kinv_thread_count[OF k'] kinv_thread_count[OF assms(1)] lv
    using sub d by (simp add: card_Diff_subset distinct_card)
  with s' k' lv g same_rest_fields(1,2)[of s s'] show ?thesis unfolding gone_def by blast
qed

lemma ex_tree:
  "tree_at ex_run_Q (Node 0x200 [Node 0x300 []])"
  "endable (ex_run area) ex_H ex_run_Q [0x300, 0x200]" "parent_ok (ex_run area) ex_H ex_run_Q 0x200 [0x300, 0x200]"
  by (simp_all add: ex_Q_simps endable_def live_def ex_fields parent_ok_def ex_tcb_def)

theorem terminate_subtree_witness:
  "\<exists>s'. terminate 0x200 (ex_run (ex_area 0 0 0 0)) = Inr ((), s') \<and> current_thread s' = NULL \<and> unat (thread_count s') = 1"
  using terminate_subtree[OF ex_running ex_tree(1)] ex_tree(2,3)[of "ex_area 0 0 0 0"]
  by (fastforce simp: ex_fields)

section \<open>The scheduler\<close>

text \<open>
  C20. When no thread runs and one is ready, the scheduler runs the first of the ready queue
  with a fresh time slice: its saved state is loaded, the rest of the queue keeps its order,
  and the interval timer is loaded with at least one and at most \<open>SCHED_TIME_SLICE\<close>
  microseconds, and never beyond the next pseudo clock tick.
\<close>

theorem scheduler_dispatches:
  assumes "kinv s H Q" and "bus_ok s" and "current_thread s = NULL" and "Q Ready_queue = p # ps"
  shows "\<exists>t s' v. tcbs s p = Some t \<and> scheduler s = Inr (LDST (t_state t), s') \<and> current_thread s' = p \<and>
     kinv s' H (Q(Ready_queue := ps)) \<and> tcbs s' = (tcbs s)(p \<mapsto> t\<lparr>cpu_slice := 0\<rparr>) \<and>
     mem s' BUS_INTERVALTIMER = Some (v * time_scale s) \<and> 1 \<le> v \<and> v \<le> SCHED_TIME_SLICE \<and>
     (pseudo_tick s' < SCHED_PSEUDO_CLOCK \<longrightarrow> v \<le> SCHED_PSEUDO_CLOCK - pseudo_tick s')"
proof -
  have "wp scheduler (\<lambda>r s'. \<exists>t v. tcbs s p = Some t \<and> r = LDST (t_state t) \<and> current_thread s' = p \<and>
     kinv s' H (Q(Ready_queue := ps)) \<and> tcbs s' = (tcbs s)(p \<mapsto> t\<lparr>cpu_slice := 0\<rparr>) \<and>
     mem s' BUS_INTERVALTIMER = Some (v * time_scale s) \<and> 1 \<le> v \<and> v \<le> SCHED_TIME_SLICE \<and>
     (pseudo_tick s' < SCHED_PSEUDO_CLOCK \<longrightarrow> v \<le> SCHED_PSEUDO_CLOCK - pseudo_tick s')) no_stop s"
  proof (rule wp_scheduler[OF assms(1,2)])
    fix q qs t L s1
    assume q: "Q Ready_queue = q # qs" "tcbs s q = Some t"
      "s1 = s\<lparr>current_thread := q, tcbs := (tcbs s)(q \<mapsto> t\<lparr>cpu_slice := 0\<rparr>), lst := L\<rparr>" "kinv s1 H (Q(Ready_queue := qs))"
    have e: "q = p" "qs = ps" using q(1) assms(4) by auto
    define v where "v = timer_value SCHED_TIME_SLICE (pseudo_tick (ticked s1))"
    have "1 \<le> v \<and> v \<le> MIN32 (max 1 SCHED_TIME_SLICE) SCHED_PSEUDO_CLOCK"
      unfolding v_def by (rule timer_value_bounds) simp
    then have "1 \<le> v" "v \<le> SCHED_TIME_SLICE" by (simp_all add: MIN32_def max_def)
    moreover have "pseudo_tick (timed SCHED_TIME_SLICE s1) = pseudo_tick (ticked s1)" by (simp add: timed_def)
    moreover have "mem (timed SCHED_TIME_SLICE s1) BUS_INTERVALTIMER = Some (v * time_scale s)"
      by (simp add: timed_def v_def q(3))
    ultimately show "\<exists>t' v. tcbs s p = Some t' \<and> LDST (t_state t) = LDST (t_state t') \<and>
       current_thread (timed SCHED_TIME_SLICE s1) = p \<and> kinv (timed SCHED_TIME_SLICE s1) H (Q(Ready_queue := ps)) \<and>
       tcbs (timed SCHED_TIME_SLICE s1) = (tcbs s)(p \<mapsto> t'\<lparr>cpu_slice := 0\<rparr>) \<and>
       mem (timed SCHED_TIME_SLICE s1) BUS_INTERVALTIMER = Some (v * time_scale s) \<and> 1 \<le> v \<and> v \<le> SCHED_TIME_SLICE \<and>
       (pseudo_tick (timed SCHED_TIME_SLICE s1) < SCHED_PSEUDO_CLOCK \<longrightarrow>
         v \<le> SCHED_PSEUDO_CLOCK - pseudo_tick (timed SCHED_TIME_SLICE s1))"
      using q e timer_value_before_tick[of "pseudo_tick (ticked s1)" SCHED_TIME_SLICE]
      by (intro exI[of _ t] exI[of _ v]) (simp add: v_def del: fun_upd_apply)
  qed (use assms(3,4) in auto)
  then show ?thesis by (auto simp: wp_total simp del: fun_upd_apply)
qed

theorem scheduler_dispatches_witness:
  "\<exists>s'. scheduler ex_idle = Inr (LDST (t_state (ex_tcb 0 (- 1) (- 1))), s') \<and> current_thread s' = 0x200"
  using scheduler_dispatches[OF ex_ready[of "ex_area 0 0 0 0"] ex_bus, of "0x200" "[0x300]"]
  by (auto simp: ex_fields ex_Q_simps simp del: fun_upd_apply)

text \<open>
  C21. What the scheduler does in every situation: it resumes the running thread if there is
  one; else it runs the first ready thread; else it halts the machine when only the SSI is
  left, waits for an interrupt when some thread waits for a service, and panics on deadlock.
  The invariant is kept and the set of live threads does not change.
\<close>

theorem scheduler_cases:
  assumes "kinv s H Q" and "bus_ok s"
  shows "(case scheduler s of
            Inr (LDST st, s') \<Rightarrow>
              current_thread s' = (if current_thread s \<noteq> NULL then current_thread s else hd (Q Ready_queue)) \<and>
              (current_thread s \<noteq> NULL \<or> Q Ready_queue \<noteq> []) \<and>
              map_option t_state (tcbs s (current_thread s')) = Some st \<and>
              (\<exists>Q'. kinv s' H Q' \<and> live s' Q' = live s Q)
          | Inr (WAIT, s') \<Rightarrow> current_thread s = NULL \<and> Q Ready_queue = [] \<and> length (Q Wait_queue) > 1 \<and>
              soft_block_count s \<noteq> 0 \<and> s' = idle_state s
          | Inl HALT \<Rightarrow> current_thread s = NULL \<and> Q Ready_queue = [] \<and> length (Q Wait_queue) = 1
          | Inl PANIC \<Rightarrow> current_thread s = NULL \<and> Q Ready_queue = [] \<and>
              (length (Q Wait_queue) = 0 \<or> length (Q Wait_queue) > 1 \<and> soft_block_count s = 0)
          | Inl _ \<Rightarrow> False)"
proof -
  note tc = kinv_thread_count[OF assms(1), unfolded kinv_card[OF assms(1)]]
  have one: "thread_count s = 1 \<longleftrightarrow> unat (thread_count s) = 1" and zero: "thread_count s = 0 \<longleftrightarrow> unat (thread_count s) = 0"
    by (auto simp: word_unat_eq_iff)
  have gt: "Q Wait_queue \<noteq> [] \<Longrightarrow> length (Q Wait_queue) \<noteq> Suc 0 \<Longrightarrow> Suc 0 < length (Q Wait_queue)"
    by (cases "Q Wait_queue") auto
  define runs where "runs st s' \<longleftrightarrow> current_thread s' = (if current_thread s \<noteq> NULL then current_thread s else hd (Q Ready_queue)) \<and>
      (current_thread s \<noteq> NULL \<or> Q Ready_queue \<noteq> []) \<and> map_option t_state (tcbs s (current_thread s')) = Some st \<and>
      (\<exists>Q'. kinv s' H Q' \<and> live s' Q' = live s Q)" for st s'
  have "wp scheduler (\<lambda>r s'. case r of LDST st \<Rightarrow> runs st s'
          | WAIT \<Rightarrow> current_thread s = NULL \<and> Q Ready_queue = [] \<and> length (Q Wait_queue) > 1 \<and>
              soft_block_count s \<noteq> 0 \<and> s' = idle_state s)
          (\<lambda>e. current_thread s = NULL \<and> Q Ready_queue = [] \<and> (e = HALT \<and> length (Q Wait_queue) = 1 \<or>
              e = PANIC \<and> (length (Q Wait_queue) = 0 \<or> length (Q Wait_queue) > 1 \<and> soft_block_count s = 0))) s"
  proof (rule wp_scheduler[OF assms])
    fix t assume "current_thread s \<noteq> NULL" "tcbs s (current_thread s) = Some t"
    moreover have "live (timed v s) Q = live s Q" "kinv (timed v s) H Q" for v using assms(1) by (simp_all add: live_def)
    ultimately show "case LDST (t_state t) of LDST st \<Rightarrow> runs st (timed (SCHED_TIME_SLICE - cpu_slice t) s)
      | WAIT \<Rightarrow> current_thread s = NULL \<and> Q Ready_queue = [] \<and> length (Q Wait_queue) > 1 \<and>
          soft_block_count s \<noteq> 0 \<and> timed (SCHED_TIME_SLICE - cpu_slice t) s = idle_state s"
      by (auto simp: runs_def simp del: kinv_timed)
  next
    fix p ps t L s1
    assume *: "current_thread s = NULL" "Q Ready_queue = p # ps" "tcbs s p = Some t"
      "s1 = s\<lparr>current_thread := p, tcbs := (tcbs s)(p \<mapsto> t\<lparr>cpu_slice := 0\<rparr>), lst := L\<rparr>" "kinv s1 H (Q(Ready_queue := ps))"
    have "p \<noteq> NULL" using kinv_live_not_NULL[OF assms(1), of p] *(2) by (simp add: live_def)
    then have "live (timed SCHED_TIME_SLICE s1) (Q(Ready_queue := ps)) = live s Q" using * by (auto simp: live_def)
    moreover have "kinv (timed SCHED_TIME_SLICE s1) H (Q(Ready_queue := ps))" using *(5) by simp
    ultimately show "case LDST (t_state t) of LDST st \<Rightarrow> runs st (timed SCHED_TIME_SLICE s1)
      | WAIT \<Rightarrow> current_thread s = NULL \<and> Q Ready_queue = [] \<and> length (Q Wait_queue) > 1 \<and>
          soft_block_count s \<noteq> 0 \<and> timed SCHED_TIME_SLICE s1 = idle_state s"
      using *(1-4) by (auto simp: runs_def simp del: kinv_timed fun_upd_apply)
  qed (use tc one zero gt in auto)
  then show ?thesis
    unfolding runs_def by (simp add: wp_def split: sum.splits prod.splits rom_call.splits stop.splits) auto
qed

theorem scheduler_cases_witness: "\<exists>st s'. scheduler ex_idle = Inr (LDST st, s') \<and> current_thread s' = 0x200"
  using scheduler_cases[OF ex_ready[of "ex_area 0 0 0 0"] ex_bus]
  by (auto simp: ex_fields ex_Q_simps split: sum.splits prod.splits rom_call.splits stop.splits)

end
