(* ===== verification/Handlers.thy ===== *)
theory Handlers
  imports Nucleus
begin

text \<open>
  The exception handlers as a whole: from the state in which the ROM enters them, with the
  registers of the interrupted thread in the old area, to the state in which the scheduler
  gives the processor to a thread again.
\<close>

section \<open>The thread goes on\<close>

lemma resumed:
  assumes "scheduled s H Q r s'" and "current_thread s = c" and "c \<noteq> NULL"
  obtains st where "r = LDST st" "map_option t_state (tcbs s c) = Some st" "kinv s' H Q" "ipc_of s' Q = ipc_of s Q"
    "current_thread s' = c" "tcbs s' = tcbs s"
proof -
  have r: "r \<noteq> WAIT" using assms by (auto simp: scheduled_def)
  then obtain st where st: "r = LDST st" by (cases r) auto
  have "ipc_of s' Q = ipc_of s Q" by (rule ipc_of_cong) (use assms st in \<open>simp_all add: scheduled_def\<close>)
  with assms st show thesis by (intro that[of st]) (auto simp: scheduled_def)
qed

text \<open>The registers with which a thread is entered into its TCB by the SYSCALL handler.\<close>

definition regs_ok :: "kstate \<Rightarrow> U32 \<Rightarrow> bool" where
  "regs_ok s area \<longleftrightarrow> length (gpr (areas s area)) = 29 \<and>
     (case tcbs s (current_thread s) of None \<Rightarrow> False | Some t \<Rightarrow> length (gpr (t_state t)) = 29)"

lemma sys_enter_state:
  assumes "regs_ok s SYSBK_OLDAREA" and "old = areas s SYSBK_OLDAREA"
  shows "map_option t_state (tcbs (sys_enter s) (current_thread s)) = Some (old\<lparr>pc_epc := pc_epc old + WORD_SIZE\<rparr>)"
  using assms
  by (auto simp: regs_ok_def sys_enter_tcb advance_def entered_def save_state_copy split: option.splits)

section \<open>System calls\<close>

text \<open>A \<open>SEND\<close> call as a whole: the caller always goes on.\<close>

lemma wp_send_call:
  assumes "kinv s H Q" and "addr_ok s" and "bus_ok s" and "c = current_thread s" and "c \<noteq> NULL"
    and "old = areas s SYSBK_OLDAREA" and "kernel_syscall old" and "gpr_get old reg_a0 = SEND" and "regs_ok s SYSBK_OLDAREA"
    and "tgt = send_target s old" and "tgt \<noteq> NULL"
    and "v = gpr_get old reg_a2" and "c \<notin> set (trap_managers s)" and "x = masked_sender s c"
    and "a_awaits (ipc_of s Q) x tgt \<Longrightarrow> reply_ok s tgt"
    and P: "\<And>r A s' Q'. a_send x tgt v (ipc_of s Q) = Some (r, A) \<Longrightarrow> kinv s' H Q' \<Longrightarrow> tree_kept Q Q' \<Longrightarrow> addr_ok s' \<Longrightarrow> bus_ok s' \<Longrightarrow>
        ipc_of s' Q' = A \<Longrightarrow> current_thread s' = c \<Longrightarrow> service_data s' = service_data s \<Longrightarrow>
        soft_block_count s' = soft_block_count s + (if gpr_get old reg_a1 = MAGIC_SSI then 1 else 0) \<Longrightarrow>
        (\<And>a. a \<noteq> BUS_INTERVALTIMER \<Longrightarrow> mem s' a = (if a_awaits (ipc_of s Q) x tgt \<and> a = reply_of s tgt then Some v else mem s a)) \<Longrightarrow>
        map_option t_state (tcbs s' c) = Some (gpr_set reg_v0 r (old\<lparr>pc_epc := pc_epc old + WORD_SIZE\<rparr>)) \<Longrightarrow>
        (\<And>q. q \<noteq> c \<Longrightarrow> tcbs s' q = woken_up s x tgt (a_awaits (ipc_of s Q) x tgt) q) \<Longrightarrow>
        P (LDST (gpr_set reg_v0 r (old\<lparr>pc_epc := pc_epc old + WORD_SIZE\<rparr>))) s'"
    and E: "a_send x tgt v (ipc_of s Q) = None \<Longrightarrow> E PANIC"
  shows "wp sysbp_handler P E s"
proof -
  let ?st = "old\<lparr>pc_epc := pc_epc old + WORD_SIZE\<rparr>" and ?e = "sys_enter s"
  obtain t where t: "tcbs s c = Some t" using kinv_tcb[OF assms(1) kinv_current_live] assms(4,5) by auto
  have tg: "tgt = send_target ?e old" using assms(10) by (simp add: send_target_def)
  have ro: "reply_ok ?e tgt = reply_ok s tgt" by (simp add: reply_ok_def sys_enter_frame)
  have "wp (sys_send old) P E ?e"
  proof (rule wp_sys_send[where H = H and Q = Q and c = c and x = x and v = v and tgt = tgt])
    fix r A1 s1 Q1
    assume a: "a_send x tgt v (ipc_of ?e Q) = Some (r, A1)" and k1: "kinv s1 H Q1" and tk: "tree_kept Q Q1" and ok1: "addr_ok s1" and b1: "bus_ok s1"
      and i: "ipc_of s1 Q1 = A1" and sv: "service_data s1 = service_data ?e"
      and sb: "soft_block_count s1 = soft_block_count (counted ?e old)"
      and me: "mem s1 = (if a_awaits (ipc_of ?e Q) x tgt then (mem ?e)(reply_of ?e tgt \<mapsto> v) else mem ?e)"
      and c1: "current_thread s1 = c"
      and st: "\<And>t. tcbs ?e c = Some t \<Longrightarrow> map_option t_state (tcbs s1 c) = Some (gpr_set reg_v0 r (t_state t))"
      and tw: "\<And>q. q \<noteq> c \<Longrightarrow> tcbs s1 q = woken_up ?e x tgt (a_awaits (ipc_of ?e Q) x tgt) q"
    have tw': "tcbs s1 q = woken_up s x tgt (a_awaits (ipc_of s Q) x tgt) q" if "q \<noteq> c" for q
      using tw[OF that] that assms(4) by (simp add: woken_up_def sys_enter_frame sys_enter_tcb)
    have st1: "map_option t_state (tcbs s1 c) = Some (gpr_set reg_v0 r ?st)"
      using sys_enter_state[OF assms(9,6)] st assms(4) by auto
    show "wp scheduler P E s1"
    proof (rule wp_scheduler_after[OF k1 b1])
      fix r' s' assume sc: "scheduled s1 H Q1 r' s'"
      then obtain st' where f: "r' = LDST st'" "map_option t_state (tcbs s1 c) = Some st'" "kinv s' H Q1"
        "ipc_of s' Q1 = ipc_of s1 Q1" "current_thread s' = c" "tcbs s' = tcbs s1"
        by (rule resumed[OF _ c1 assms(5)]) blast
      have sd: "service_data s' = service_data s1" "bus_ok s'" "soft_block_count s' = soft_block_count s1"
        "\<And>a. a \<noteq> BUS_INTERVALTIMER \<Longrightarrow> mem s' a = mem s1 a" using sc by (auto simp: scheduled_def)
      have "addr_ok s'" using ok1 f(6) service_data_fields(1)[OF sd(1)] by (simp add: addr_ok_def)
      then show "P r' s'"
        using P[of r A1 s' Q1] a f st1 i sv sb me sd tw' tk by (auto simp: sys_enter_frame counted_def)
    qed (use c1 assms(5) in \<open>simp add: nothing_runs_def\<close>)
  qed (use assms(1-15) E tg ro in \<open>simp_all add: sys_enter_frame trap_decision_def\<close>)
  then show ?thesis
    using assms(4,7,8) t by (subst wp_sysbp[OF assms(3) _ assms(6), of t]) simp_all
qed

text \<open>
  C18. \<open>SYSCALL(SEND, dest, payload)\<close> in kernel mode by a thread that manages no traps: the
  message is delivered as \<open>a_send\<close> specifies, to the SSI when \<open>dest\<close> is \<open>MAGIC_SSI\<close>; the
  caller goes on behind the call with all its registers but \<open>v0\<close>, which holds the outcome;
  the kernel panics only when no message is left.
\<close>

theorem syscall_send:
  assumes "kinv s H Q" and "addr_ok s" and "bus_ok s" and "c = current_thread s" and "c \<noteq> NULL"
    and "old = areas s SYSBK_OLDAREA" and "kernel_syscall old" and "gpr_get old reg_a0 = SEND" and "regs_ok s SYSBK_OLDAREA"
    and "tgt = (if gpr_get old reg_a1 = MAGIC_SSI then SSI_tcb s else gpr_get old reg_a1)" and "tgt \<noteq> NULL"
    and "v = gpr_get old reg_a2" and "c \<notin> set (trap_managers s)"
    and "a_awaits (ipc_of s Q) (masked_sender s c) tgt \<longrightarrow> reply_ok s tgt"
  shows "case a_send (masked_sender s c) tgt v (ipc_of s Q) of
      None \<Rightarrow> sysbp_handler s = Inl PANIC
    | Some (r, A) \<Rightarrow> \<exists>s' Q'. sysbp_handler s = Inr (LDST (gpr_set reg_v0 r (old\<lparr>pc_epc := pc_epc old + WORD_SIZE\<rparr>)), s') \<and>
        kinv s' H Q' \<and> ipc_of s' Q' = A \<and> current_thread s' = c \<and> service_data s' = service_data s \<and>
        soft_block_count s' = soft_block_count s + (if gpr_get old reg_a1 = MAGIC_SSI then 1 else 0) \<and>
        (a_awaits (ipc_of s Q) (masked_sender s c) tgt \<and> reply_of s tgt \<noteq> BUS_INTERVALTIMER \<longrightarrow>
           mem s' (reply_of s tgt) = Some v)"
proof -
  let ?x = "masked_sender s c" and ?st = "old\<lparr>pc_epc := pc_epc old + WORD_SIZE\<rparr>"
  let ?ok = "\<lambda>r A r' s'. \<exists>Q'. r' = LDST (gpr_set reg_v0 r ?st) \<and>
        kinv s' H Q' \<and> ipc_of s' Q' = A \<and> current_thread s' = c \<and> service_data s' = service_data s \<and>
        soft_block_count s' = soft_block_count s + (if gpr_get old reg_a1 = MAGIC_SSI then 1 else 0) \<and>
        (a_awaits (ipc_of s Q) ?x tgt \<and> reply_of s tgt \<noteq> BUS_INTERVALTIMER \<longrightarrow> mem s' (reply_of s tgt) = Some v)"
  have "wp sysbp_handler (\<lambda>r' s'. \<exists>r A. a_send ?x tgt v (ipc_of s Q) = Some (r, A) \<and> ?ok r A r' s')
          (\<lambda>e. e = PANIC \<and> a_send ?x tgt v (ipc_of s Q) = None) s"
    by (rule wp_send_call[where H = H and Q = Q and c = c and x = ?x and v = v and tgt = tgt and old = old])
      (use assms in \<open>auto simp: send_target_def simp del: reg_v0_def reg_a0_def reg_a1_def reg_a2_def\<close>)
  then show ?thesis by (auto simp: wp_def split: sum.splits option.splits)
qed

lemma ex_syscall:
  "kernel_syscall (ex_area 0x20 a0 a1 a2)" "gpr_get (ex_area 0x20 a0 a1 a2) 3 = a0" "gpr_get (ex_area 0x20 a0 a1 a2) 4 = a1"
  "gpr_get (ex_area 0x20 a0 a1 a2) 5 = a2" "regs_ok (ex_run (ex_area c a0 a1 a2)) area"
  by (simp_all add: kernel_syscall_def CAUSE_EXCCODE_GET_def gpr_get_def ex_area_def regs_ok_def ex_fields ex_tcb_def)

theorem syscall_send_witness:
  "\<exists>st s'. sysbp_handler (ex_run (ex_area 0x20 SEND MAGIC_SSI 42)) = Inr (LDST st, s') \<and> mem s' 0x700 = Some 42 \<and>
     soft_block_count s' = 1"
proof -
  let ?s = "ex_run (ex_area 0x20 1 0xFFFFFFFF 42)"
  have a: "a_send (masked_sender ?s 0x200) 0x100 42 (ipc_of ?s ex_run_Q) \<noteq> None"
    by (auto simp: a_send_def ex_run_awaits a_live_def ex_run_ipc)
  then obtain r A where "a_send (masked_sender ?s 0x200) 0x100 42 (ipc_of ?s ex_run_Q) = Some (r, A)" by auto
  with syscall_send[OF ex_running ex_addr_ok ex_bus, of "0x200" "ex_area 0x20 1 0xFFFFFFFF 42" "ex_area 0x20 1 0xFFFFFFFF 42" "0x100" 42]
  show ?thesis
    by (auto simp: ex_fields ex_syscall ex_run_awaits reply_ok_def reply_of_def ex_tcb_def)
qed

text \<open>A \<open>RECV\<close> call as a whole: the caller goes on with a message or gives up the processor.\<close>

definition blocked :: "kstate \<Rightarrow> list_head set \<Rightarrow> (list_head \<Rightarrow> U32 list) \<Rightarrow> U32 \<Rightarrow> U32 \<Rightarrow> kstate \<Rightarrow> (list_head \<Rightarrow> U32 list) \<Rightarrow> bool" where
  "blocked s H Q want a s1 Q1 \<longleftrightarrow> kinv s1 H Q1 \<and> tree_kept Q Q1 \<and> addr_ok s1 \<and> bus_ok s1 \<and> ipc_of s1 Q1 = snd (a_recv want (ipc_of s Q)) \<and>
     reply_of s1 (current_thread s) = a \<and> service_data s1 = service_data s \<and> mem s1 = mem s \<and>
     soft_block_count s1 = soft_block_count s \<and>
     map_option t_state (tcbs s1 (current_thread s)) = Some (gpr_set reg_v0 NULL
       ((areas s SYSBK_OLDAREA)\<lparr>pc_epc := pc_epc (areas s SYSBK_OLDAREA) + WORD_SIZE\<rparr>)) \<and>
     (\<forall>q. q \<noteq> current_thread s \<longrightarrow> tcbs s1 q = tcbs s q)"

lemma wp_recv_call:
  assumes "kinv s H Q" and "addr_ok s" and "bus_ok s" and "c = current_thread s" and "c \<noteq> NULL"
    and "old = areas s SYSBK_OLDAREA" and "kernel_syscall old" and "gpr_get old reg_a0 = RECV" and "regs_ok s SYSBK_OLDAREA"
    and "want = gpr_get old reg_a1" and "a = gpr_get old reg_a2"
    and mp: "fst (a_recv want (ipc_of s Q)) \<noteq> None \<Longrightarrow> mem s a \<noteq> None \<and> a \<noteq> BUS_TIMESCALE"
    and P1: "\<And>x v s' Q'. fst (a_recv want (ipc_of s Q)) = Some (x, v) \<Longrightarrow> kinv s' H Q' \<Longrightarrow> tree_kept Q Q' \<Longrightarrow> addr_ok s' \<Longrightarrow> bus_ok s' \<Longrightarrow>
        ipc_of s' Q' = snd (a_recv want (ipc_of s Q)) \<Longrightarrow> current_thread s' = c \<Longrightarrow> service_data s' = service_data s \<Longrightarrow>
        (\<And>b. b \<noteq> BUS_INTERVALTIMER \<Longrightarrow> mem s' b = ((mem s)(a \<mapsto> v)) b) \<Longrightarrow>
        map_option t_state (tcbs s' c) = Some (gpr_set reg_v0 x (old\<lparr>pc_epc := pc_epc old + WORD_SIZE\<rparr>)) \<Longrightarrow>
        P (LDST (gpr_set reg_v0 x (old\<lparr>pc_epc := pc_epc old + WORD_SIZE\<rparr>))) s'"
    and P2: "\<And>s1 Q1 r s'. fst (a_recv want (ipc_of s Q)) = None \<Longrightarrow> blocked s H Q want a s1 Q1 \<Longrightarrow> scheduled s1 H Q1 r s' \<Longrightarrow> P r s'"
    and E: "\<And>s1 Q1 e. fst (a_recv want (ipc_of s Q)) = None \<Longrightarrow> blocked s H Q want a s1 Q1 \<Longrightarrow> nothing_runs s1 Q1 e \<Longrightarrow> E e"
  shows "wp sysbp_handler P E s"
proof -
  let ?st = "old\<lparr>pc_epc := pc_epc old + WORD_SIZE\<rparr>" and ?e = "sys_enter s" and ?A = "a_recv want (ipc_of s Q)"
  obtain t where t: "tcbs s c = Some t" using kinv_tcb[OF assms(1) kinv_current_live] assms(4,5) by auto
  have "wp (sys_recv old) P E ?e"
  proof (rule wp_sys_recv[where H = H and Q = Q and c = c and want = want and a = a])
    fix v s1 Q1
    assume k1: "kinv s1 H Q1" and tk: "tree_kept Q Q1" and ok1: "addr_ok s1" and b1: "bus_ok s1" and i: "snd (a_recv want (ipc_of ?e Q)) = ipc_of s1 Q1"
      and cs: "case fst (a_recv want (ipc_of ?e Q)) of
           None \<Rightarrow> v = NULL \<and> mem s1 = mem ?e \<and> reply_of s1 c = a \<and> soft_block_count s1 = soft_block_count ?e
         | Some (x, y) \<Rightarrow> v = x \<and> mem s1 = (mem ?e)(a \<mapsto> y)"
      and sr: "same_registers ?e s1 (\<lambda>q. q = c) v" and ot: "\<And>q. q \<noteq> c \<Longrightarrow> tcbs s1 q = tcbs ?e q"
      and sv: "service_data s1 = service_data ?e"
    have "map_option t_state (tcbs ?e c) = Some ?st" using sys_enter_state[OF assms(9,6)] assms(4) by simp
    then have st1: "map_option t_state (tcbs s1 c) = Some (gpr_set reg_v0 v ?st)"
      using sr[unfolded same_registers_def, rule_format, of c] by (auto simp: option.map_comp comp_def)
    show "wp scheduler P E s1"
    proof (cases "fst ?A")
      case None
      have "tcbs s1 q = tcbs s q" if "q \<noteq> c" for q using ot[OF that] that assms(4) by (simp add: sys_enter_tcb)
      with None have "blocked s H Q want a s1 Q1" using k1 tk ok1 b1 i cs sv st1 assms(4,6) by (simp add: blocked_def sys_enter_frame)
      with None P2 E show ?thesis by (intro wp_scheduler_after[OF k1 b1]) blast+
    next
      case (Some xy)
      obtain x y where xy: "xy = (x, y)" by (cases xy)
      have c1: "current_thread s1 = c"
        using a_recv_cur[of want "ipc_of s Q"] Some arg_cong[of _ _ a_cur, OF i] assms(4)
        by (simp add: sys_enter_frame ipc_of_fields)
      have st1: "map_option t_state (tcbs s1 c) = Some (gpr_set reg_v0 x ?st)"
        using st1 cs Some xy by (simp add: sys_enter_frame)
      show ?thesis
      proof (rule wp_scheduler_after[OF k1 b1])
        fix r s' assume sc: "scheduled s1 H Q1 r s'"
        then obtain st' where f: "r = LDST st'" "map_option t_state (tcbs s1 c) = Some st'" "kinv s' H Q1"
          "ipc_of s' Q1 = ipc_of s1 Q1" "current_thread s' = c" "tcbs s' = tcbs s1"
          by (rule resumed[OF _ c1 assms(5)]) blast
        have sd: "service_data s' = service_data s1" "bus_ok s'" "\<And>a. a \<noteq> BUS_INTERVALTIMER \<Longrightarrow> mem s' a = mem s1 a"
          using sc by (auto simp: scheduled_def)
        have "addr_ok s'" using ok1 f(6) service_data_fields(1)[OF sd(1)] by (simp add: addr_ok_def)
        then show "P r s'" using P1[of x y s' Q1] f st1 i cs sv sd tk Some xy by (simp add: sys_enter_frame)
      qed (use c1 assms(5) in \<open>simp add: nothing_runs_def\<close>)
    qed
  qed (use assms(1-12) in \<open>simp_all add: sys_enter_frame\<close>)
  then show ?thesis
    using assms(4,7,8) t by (subst wp_sysbp[OF assms(3) _ assms(6), of t]) simp_all
qed

text \<open>
  C19. \<open>SYSCALL(RECV, source, addr)\<close> in kernel mode: when a message satisfies the request it is
  taken from the inbox, its payload is stored at \<open>addr\<close> and the caller goes on behind the
  call with the sender in \<open>v0\<close>; else the caller is suspended with its request recorded and
  the scheduler chooses another thread.
\<close>

theorem syscall_recv:
  assumes "kinv s H Q" and "addr_ok s" and "bus_ok s" and "c = current_thread s" and "c \<noteq> NULL"
    and "old = areas s SYSBK_OLDAREA" and "kernel_syscall old" and "gpr_get old reg_a0 = RECV" and "regs_ok s SYSBK_OLDAREA"
    and "want = gpr_get old reg_a1" and "a = gpr_get old reg_a2" and "mem s a \<noteq> None"
    and "a \<noteq> BUS_TIMESCALE" and "a \<noteq> BUS_INTERVALTIMER"
  shows "case a_recv want (ipc_of s Q) of
      (Some (x, v), A) \<Rightarrow> \<exists>s' Q'. sysbp_handler s = Inr (LDST (gpr_set reg_v0 x (old\<lparr>pc_epc := pc_epc old + WORD_SIZE\<rparr>)), s') \<and>
        kinv s' H Q' \<and> ipc_of s' Q' = A \<and> mem s' a = Some v \<and> service_data s' = service_data s
    | (None, A) \<Rightarrow> \<exists>s1 Q1. kinv s1 H Q1 \<and> ipc_of s1 Q1 = A \<and> reply_of s1 c = a \<and> service_data s1 = service_data s \<and>
        (case sysbp_handler s of Inr (r, s') \<Rightarrow> scheduled s1 H Q1 r s' | Inl e \<Rightarrow> nothing_runs s1 Q1 e)"
proof -
  let ?st = "old\<lparr>pc_epc := pc_epc old + WORD_SIZE\<rparr>" and ?A = "a_recv want (ipc_of s Q)"
  let ?ok = "\<lambda>r s'. case fst ?A of
      None \<Rightarrow> \<exists>s1 Q1. blocked s H Q want a s1 Q1 \<and> scheduled s1 H Q1 r s'
    | Some (x, v) \<Rightarrow> \<exists>Q'. r = LDST (gpr_set reg_v0 x ?st) \<and> kinv s' H Q' \<and> ipc_of s' Q' = snd ?A \<and> mem s' a = Some v \<and>
        service_data s' = service_data s"
  let ?stop = "\<lambda>e. fst ?A = None \<and> (\<exists>s1 Q1. blocked s H Q want a s1 Q1 \<and> nothing_runs s1 Q1 e)"
  have "wp sysbp_handler ?ok ?stop s"
    by (rule wp_recv_call[where H = H and Q = Q and c = c and want = want and a = a and old = old])
      (use assms in \<open>auto simp del: reg_v0_def reg_a0_def reg_a1_def reg_a2_def\<close>)
  then show ?thesis using assms(4)
    by (cases "sysbp_handler s"; cases ?A) (auto simp: wp_def blocked_def split: option.splits)
qed

theorem syscall_recv_witness:
  "\<exists>st s'. sysbp_handler (ex_run (ex_area 0x20 RECV ANYMESSAGE 0x700)) = Inr (LDST st, s') \<and> mem s' 0x700 = Some 7"
  using syscall_recv[OF ex_running ex_addr_ok ex_bus, of "0x200" "ex_area 0x20 2 0 0x700" "ex_area 0x20 2 0 0x700" 0 "0x700"]
  by (auto simp: ex_fields ex_syscall a_recv_def Let_def ex_run_ipc satisfies_def)

section \<open>Exceptions that are passed up\<close>

text \<open>
  C26. A thread that raises a program trap, a TLB trap, or a system call that is not message
  passing in kernel mode, and has named no manager for it, is ended together with its whole
  subtree; then the scheduler runs what is left, or stops the machine when nothing can run.
\<close>

theorem unmanaged_trap_ends_subtree:
  assumes "kinv s H Q" and "bus_ok s" and "c = current_thread s" and "c \<noteq> NULL"
    and "passes_up s handler field area s0" and "map_option field (tcbs s c) = Some NULL"
    and "tree_at Q tr" and "root tr = c" and "endable s H Q (post tr)" and "parent_ok s H Q c (post tr)"
  shows "\<exists>s1. ended s0 H (orphaned s c Q) (post tr) s1 \<and> current_thread s1 = NULL \<and>
     (case handler s of Inr (r, s') \<Rightarrow> scheduled s1 H (reap_list (post tr) (orphaned s c Q)) r s'
      | Inl e \<Rightarrow> nothing_runs s1 (reap_list (post tr) (orphaned s c Q)) e)"
proof -
  note f = passes_up_frame[OF assms(5)]
  have f14: "map_option field (tcbs s0 c) = Some NULL" using f(14)[of c] assms(6) by simp
  then obtain t0 where t0: "tcbs s0 c = Some t0" "field t0 = NULL" by auto
  obtain t where t: "tcbs s (current_thread s) = Some t" using assms(3,6) by auto
  let ?o = "orphaned s c Q"
  have "wp handler
     (\<lambda>r s'. \<exists>s1. ended s0 H ?o (post tr) s1 \<and> current_thread s1 = NULL \<and> scheduled s1 H (reap_list (post tr) ?o) r s')
     (\<lambda>e. \<exists>s1. ended s0 H ?o (post tr) s1 \<and> current_thread s1 = NULL \<and> nothing_runs s1 (reap_list (post tr) ?o) e) s"
  proof (rule wp_passes_up[OF assms(5,2) t], rule wp_pass_up_terminate[where H = H and Q = Q and tr = tr])
    show "kinv s0 H Q" "bus_ok s0" "current_thread s0 = c" "c \<noteq> NULL" "tcbs s0 c = Some t0" "field t0 = NULL"
      "tree_at Q tr" "root tr = c" "endable s0 H Q (post tr)" "parent_ok s0 H Q c (post tr)"
      using assms t0 by (simp_all add: f)
  qed (auto simp: f nothing_runs_def)
  then show ?thesis by (auto simp: wp_def split: sum.splits)
qed

lemma ex_traps: "passes_up s pgmtrap_handler pgmtrap_manager_thread PGMTRAP_OLDAREA (enter PGMTRAP_OLDAREA s)"
  by (simp add: passes_up_def)

theorem unmanaged_trap_ends_subtree_witness:
  "\<exists>s1. ended (enter PGMTRAP_OLDAREA (ex_run (ex_area 0 0 0 0))) ex_H
         (orphaned (ex_run (ex_area 0 0 0 0)) 0x200 ex_run_Q) [0x300, 0x200] s1 \<and> current_thread s1 = NULL"
  using unmanaged_trap_ends_subtree[OF ex_running[of "ex_area 0 0 0 0"] ex_bus _ _ ex_traps, where tr = "Node 0x200 [Node 0x300 []]" and c = "0x200"]
    ex_tree(1) ex_tree(2,3)[of "ex_area 0 0 0 0"]
  by (auto simp: ex_fields ex_tcb_def)

text \<open>
  C27. A thread that raises such an exception and has named a manager is frozen: the manager is
  sent the cause register, the thread waits for the manager on the wait queue with its registers
  saved, and the scheduler runs another thread. The kernel panics when no message is left for the manager.
\<close>

theorem managed_trap_freezes:
  assumes "kinv s H Q" and "addr_ok s" and "bus_ok s" and "c = current_thread s" and "c \<noteq> NULL"
    and "passes_up s handler field area s0" and "map_option field (tcbs s c) = Some mgr" and "mgr \<noteq> NULL"
    and "a_awaits (ipc_of s Q) (masked_sender s c) mgr \<longrightarrow> reply_ok s mgr"
  shows "case a_send (masked_sender s c) mgr (cause (areas s area)) (ipc_of s Q) of
      None \<Rightarrow> handler s = Inl PANIC
    | Some (v, A) \<Rightarrow> \<exists>s1 Q1. ipc_of s1 Q1 = A\<lparr>a_wait := a_wait A @ [c], a_cur := NULL, a_want := (a_want A)(c := mgr)\<rparr> \<and>
        (case handler s of Inr (r, s') \<Rightarrow> kinv s1 H Q1 \<and> service_data s1 = service_data s \<and>
            map_option t_state (tcbs s1 c) = map_option t_state (tcbs s0 c) \<and> scheduled s1 H Q1 r s'
         | Inl e \<Rightarrow> nothing_runs s1 Q1 e)"
proof -
  note f = passes_up_frame[OF assms(6)]
  have "map_option field (tcbs s0 c) = Some mgr" using f(14)[of c] assms(7) by simp
  then obtain t0 where t0: "tcbs s0 c = Some t0" "field t0 = mgr" by auto
  obtain t where t: "tcbs s (current_thread s) = Some t" using assms(4,7) by auto
  let ?x = "masked_sender s c" and ?v = "cause (areas s area)"
  define frozen where "frozen A s1 Q1 \<longleftrightarrow>
    ipc_of s1 Q1 = A\<lparr>a_wait := a_wait A @ [c], a_cur := NULL, a_want := (a_want A)(c := mgr)\<rparr>" for A s1 Q1
  have "wp handler
     (\<lambda>r s'. \<exists>v A s1 Q1. a_send ?x mgr ?v (ipc_of s Q) = Some (v, A) \<and> kinv s1 H Q1 \<and> frozen A s1 Q1 \<and>
        service_data s1 = service_data s \<and> map_option t_state (tcbs s1 c) = map_option t_state (tcbs s0 c) \<and> scheduled s1 H Q1 r s')
     (\<lambda>e. a_send ?x mgr ?v (ipc_of s Q) = None \<and> e = PANIC \<or>
        (\<exists>v A s1 Q1. a_send ?x mgr ?v (ipc_of s Q) = Some (v, A) \<and> frozen A s1 Q1 \<and> nothing_runs s1 Q1 e)) s"
  proof (rule wp_passes_up[OF assms(6,3) t], rule wp_pass_up_manager[where H = H and Q = Q and c = c and mgr = mgr and x = ?x])
    show "kinv s0 H Q" "addr_ok s0" "bus_ok s0" "c = current_thread s0" "c \<noteq> NULL" "tcbs s0 c = Some t0" "field t0 = mgr"
      "mgr \<noteq> NULL" "?x = masked_sender s0 c"
      using assms t0 by (simp_all add: f)
    show "a_awaits (ipc_of s0 Q) ?x mgr \<Longrightarrow> reply_ok s0 mgr" using assms(9) by (simp add: f reply_ok_def)
  qed (auto simp: f frozen_def t0(1))
  then show ?thesis
    unfolding frozen_def[symmetric] by (cases "handler s") (auto simp: wp_def split: option.splits, blast+)
qed

definition ex_managed :: "state_t \<Rightarrow> kstate" where
  "ex_managed area = (ex_run area)\<lparr>tcbs := (tcbs (ex_run area))(0x200 \<mapsto> (ex_tcb 0 (- 1) (- 1))\<lparr>pgmtrap_manager_thread := 0x300\<rparr>)\<rparr>"

lemma ex_managed_ok:
  "kinv (ex_managed area) ex_H ex_run_Q" "addr_ok (ex_managed area)" "bus_ok (ex_managed area)"
  using ex_running[of area] ex_addr_ok[of "0x200" "[0x300]" "[0x100]" area] ex_bus[of "0x200" "[0x300]" "[0x100]" area]
  by (simp_all add: ex_managed_def ex_fields, simp add: addr_ok_def ex_fields)

lemma ex_managed_fields:
  "current_thread (ex_managed area) = 0x200" "masked_sender (ex_managed area) 0x200 = 0x200"
  "tcbs (ex_managed area) 0x200 = Some ((ex_tcb 0 (- 1) (- 1))\<lparr>pgmtrap_manager_thread := 0x300\<rparr>)"
  "areas (ex_managed area) a = area"
  by (simp_all add: ex_managed_def ex_fields masked_sender_def)

theorem managed_trap_freezes_witness:
  "\<exists>A s1 Q1. a_send 0x200 0x300 0x10 (ipc_of (ex_managed (ex_area 0x10 0 0 0)) ex_run_Q) = Some (MSGGOOD, A) \<and>
     ipc_of s1 Q1 = A\<lparr>a_wait := [0x100, 0x200], a_cur := NULL, a_want := (a_want A)(0x200 := 0x300)\<rparr>"
proof -
  let ?s = "ex_managed (ex_area 0x10 0 0 0)"
  have c: "cause (ex_area 0x10 0 0 0) = 0x10" by (simp add: ex_area_def)
  have aw: "\<not> a_awaits (ipc_of ?s ex_run_Q) x 0x300" for x by (simp add: a_awaits_def ipc_of_fields ex_Q_simps)
  have sd: "\<exists>A. a_send 0x200 0x300 0x10 (ipc_of ?s ex_run_Q) = Some (MSGGOOD, A) \<and> a_wait A = [0x100]"
    using aw by (simp add: a_send_def a_live_def ipc_of_fields ex_Q_simps)
  then obtain A where A: "a_send 0x200 0x300 0x10 (ipc_of ?s ex_run_Q) = Some (MSGGOOD, A)" "a_wait A = [0x100]" by blast
  with managed_trap_freezes[OF ex_managed_ok[of "ex_area 0x10 0 0 0"] _ _ ex_traps, of "0x200" "0x300"] aw
  show ?thesis by (fastforce simp: ex_managed_fields c)
qed

section \<open>The decision of a trap manager\<close>

text \<open>
  C28. A trap manager that sends \<open>TRAPCONTINUE\<close> to a thread that waits for it makes that thread
  ready again, behind all others and with the registers it had at the trap; no message is
  used, and the manager goes on behind the call.
\<close>

theorem trap_continue:
  assumes "kinv s H Q" and "bus_ok s" and "c = current_thread s" and "c \<noteq> NULL"
    and "old = areas s SYSBK_OLDAREA" and "kernel_syscall old" and "gpr_get old reg_a0 = SEND" and "regs_ok s SYSBK_OLDAREA"
    and "tgt = send_target s old" and "gpr_get old reg_a2 = TRAPCONTINUE" and "trap_decision s c tgt" and "tgt \<in> set (Q Wait_queue)"
  shows "\<exists>s'. sysbp_handler s = Inr (LDST (old\<lparr>pc_epc := pc_epc old + WORD_SIZE\<rparr>), s') \<and> current_thread s' = c \<and>
     kinv s' H (Q(Wait_queue := remove1 tgt (Q Wait_queue), Ready_queue := Q Ready_queue @ [tgt])) \<and>
     tcbs s' tgt = tcbs s tgt \<and> msgs s' = msgs s"
proof -
  let ?e = "sys_enter s" and ?st = "old\<lparr>pc_epc := pc_epc old + WORD_SIZE\<rparr>"
  define Q2 where "Q2 = Q(Wait_queue := remove1 tgt (Q Wait_queue), Ready_queue := Q Ready_queue @ [tgt])"
  have ne: "tgt \<noteq> c" using kinv_current(2)[OF assms(1)] assms(3,4,12) by auto
  have d: "trap_decision ?e c tgt" using assms(3,11) ne by (simp add: trap_decision_def sys_enter_tcb)
  obtain t where t: "tcbs s (current_thread s) = Some t" using kinv_tcb[OF assms(1) kinv_current_live] assms(3,4) by auto
  have "wp (sys_send old) (\<lambda>r s'. r = LDST ?st \<and> current_thread s' = c \<and> kinv s' H Q2 \<and> tcbs s' tgt = tcbs s tgt \<and> msgs s' = msgs s)
     no_stop ?e"
  proof (rule wp_trap_continue[where H = H and Q = Q and c = c and tgt = tgt])
    fix s1 r s'
    assume tc: "tcbs s1 = tcbs ?e" and ms: "msgs s1 = msgs ?e" and c1: "current_thread s1 = c"
      and sc: "scheduled s1 H (Q(Wait_queue := remove1 tgt (Q Wait_queue), Ready_queue := Q Ready_queue @ [tgt])) r s'"
    have "map_option t_state (tcbs s1 c) = Some ?st" using sys_enter_state[OF assms(8,5)] tc assms(3) by simp
    moreover from sc obtain st' where "r = LDST st'" "map_option t_state (tcbs s1 c) = Some st'" "kinv s' H Q2"
      "current_thread s' = c" "tcbs s' = tcbs s1"
      unfolding Q2_def[symmetric] by (rule resumed[OF _ c1 assms(4)]) blast
    moreover have "msgs s' = msgs s" using sc ms by (simp add: scheduled_def)
    moreover have "tcbs ?e tgt = tcbs s tgt" using ne assms(3) by (simp add: sys_enter_tcb)
    ultimately show "r = LDST ?st \<and> current_thread s' = c \<and> kinv s' H Q2 \<and> tcbs s' tgt = tcbs s tgt \<and> msgs s' = msgs s"
      using tc by auto
  qed (use assms d in \<open>simp_all add: sys_enter_frame\<close>)
  then have "wp sysbp_handler (\<lambda>r s'. r = LDST ?st \<and> current_thread s' = c \<and> kinv s' H Q2 \<and> tcbs s' tgt = tcbs s tgt \<and> msgs s' = msgs s) no_stop s"
    using assms(6,7) by (subst wp_sysbp[OF assms(2) t assms(5)]) simp
  then show ?thesis by (auto simp: wp_total Q2_def)
qed

text \<open>
  C29. A trap manager that sends \<open>TRAPTERMINATE\<close> to a thread that waits for it ends that thread
  with its whole subtree; the scheduler then resumes the manager, unless the manager was part
  of the subtree.
\<close>

theorem trap_terminate:
  assumes "kinv s H Q" and "bus_ok s" and "c = current_thread s" and "c \<noteq> NULL"
    and "old = areas s SYSBK_OLDAREA" and "kernel_syscall old" and "gpr_get old reg_a0 = SEND"
    and "tgt = send_target s old" and "gpr_get old reg_a2 = TRAPTERMINATE" and "trap_decision s c tgt"
    and "tree_at Q tr" and "root tr = tgt" and "endable s H Q (post tr)" and "parent_ok s H Q tgt (post tr)"
  shows "\<exists>s1. ended (counted (sys_enter s) old) H (orphaned s tgt Q) (post tr) s1 \<and>
     (case sysbp_handler s of Inr (r, s') \<Rightarrow> scheduled s1 H (reap_list (post tr) (orphaned s tgt Q)) r s'
      | Inl e \<Rightarrow> c \<in> set (post tr) \<and> nothing_runs s1 (reap_list (post tr) (orphaned s tgt Q)) e)"
proof -
  let ?e = "sys_enter s" and ?o = "orphaned s tgt Q"
  obtain t where t: "tcbs s (current_thread s) = Some t" using kinv_tcb[OF assms(1) kinv_current_live] assms(3,4) by auto
  have d: "trap_decision ?e c tgt"
    using assms(3,10) by (auto simp: trap_decision_def sys_enter_tcb split: option.splits)
  have "wp (sys_send old)
     (\<lambda>r s'. \<exists>s1. ended (counted ?e old) H ?o (post tr) s1 \<and> scheduled s1 H (reap_list (post tr) ?o) r s')
     (\<lambda>e. \<exists>s1. ended (counted ?e old) H ?o (post tr) s1 \<and> nothing_runs s1 (reap_list (post tr) ?o) e) ?e"
    by (rule wp_trap_terminate[where H = H and Q = Q and c = c and tgt = tgt and tr = tr])
       (use assms d in \<open>auto simp: sys_enter_frame\<close>)
  then have w: "wp sysbp_handler
     (\<lambda>r s'. \<exists>s1. ended (counted ?e old) H ?o (post tr) s1 \<and> scheduled s1 H (reap_list (post tr) ?o) r s')
     (\<lambda>e. \<exists>s1. ended (counted ?e old) H ?o (post tr) s1 \<and> nothing_runs s1 (reap_list (post tr) ?o) e) s"
    using assms(6,7) by (subst wp_sysbp[OF assms(2) t assms(5)]) simp
  have in_tree: "c \<in> set (post tr)" if "ended (counted ?e old) H ?o (post tr) s1" "nothing_runs s1 X e" for s1 X e
  proof -
    have "current_thread s1 = (if c \<in> set (post tr) then NULL else c)"
      using that(1) assms(3) unfolding ended_def gone_def by simp
    with that(2) assms(4) show ?thesis by (simp add: nothing_runs_def split: if_splits)
  qed
  have "wp sysbp_handler
     (\<lambda>r s'. \<exists>s1. ended (counted ?e old) H ?o (post tr) s1 \<and> scheduled s1 H (reap_list (post tr) ?o) r s')
     (\<lambda>e. \<exists>s1. ended (counted ?e old) H ?o (post tr) s1 \<and> c \<in> set (post tr) \<and> nothing_runs s1 (reap_list (post tr) ?o) e) s"
    by (rule wp_mono[OF w]) (use in_tree in blast)+
  then show ?thesis by (auto simp: wp_def split: sum.splits)
qed

definition ex_frozen :: "state_t \<Rightarrow> kstate" where
  "ex_frozen area = (ex_state 0x200 [] [0x100, 0x300] area)\<lparr>
     tcbs := (tcbs (ex_state 0x200 [] [0x100, 0x300] area))(0x300 \<mapsto> ex_tcb 0x200 0x200 0x700), trap_managers := [0x200]\<rparr>"

abbreviation "ex_frozen_Q \<equiv> mk_Q (ex_contents [] [0x100, 0x300])"

lemma ex_frozen_ok: "kinv (ex_frozen area) ex_H ex_frozen_Q" "bus_ok (ex_frozen area)"
proof -
  have "kinv (ex_state 0x200 [] [0x100, 0x300] area) ex_H ex_frozen_Q"
    by (rule ex_kinv) (simp add: snapshot_defs insert_commute)
  then show "kinv (ex_frozen area) ex_H ex_frozen_Q" by (simp add: ex_frozen_def ex_fields)
  show "bus_ok (ex_frozen area)" using ex_bus[of "0x200" "[]" "[0x100, 0x300]" area] by (simp add: ex_frozen_def)
qed

lemma ex_frozen_fields:
  "current_thread (ex_frozen area) = 0x200" "areas (ex_frozen area) a = area" "SSI_tcb (ex_frozen area) = 0x100"
  "trap_decision (ex_frozen area) 0x200 0x300"
  "tcbs (ex_frozen area) p = (if p = 0x300 then Some (ex_tcb 0x200 0x200 0x700) else tcbs (ex_state 0x200 [] [0x100, 0x300] area) p)"
  by (simp_all add: ex_frozen_def ex_fields trap_decision_def ex_tcb_def)

lemma ex_frozen_regs: "regs_ok (ex_frozen (ex_area c a0 a1 a2)) area"
  by (simp add: regs_ok_def ex_frozen_fields ex_fields ex_area_def ex_tcb_def)

theorem trap_continue_witness:
  "\<exists>st s'. sysbp_handler (ex_frozen (ex_area 0x20 SEND 0x300 TRAPCONTINUE)) = Inr (LDST st, s') \<and>
     kinv s' ex_H (ex_frozen_Q(Wait_queue := [0x100], Ready_queue := [0x300]))"
  using trap_continue[OF ex_frozen_ok[of "ex_area 0x20 1 0x300 1"], of "0x200" "ex_area 0x20 1 0x300 1" "0x300"]
  by (auto simp: ex_frozen_fields ex_syscall ex_frozen_regs send_target_def ex_Q_simps simp del: fun_upd_apply)

theorem trap_terminate_witness:
  "\<exists>s1. current_thread s1 = 0x200 \<and> kinv s1 ex_H (reap_list [0x300] (orphaned (ex_frozen (ex_area 0x20 SEND 0x300 TRAPTERMINATE)) 0x300 ex_frozen_Q))"
proof -
  have "tree_at ex_frozen_Q (Node 0x300 [])"
    "endable (ex_frozen (ex_area 0x20 1 0x300 0)) ex_H ex_frozen_Q [0x300]"
    "parent_ok (ex_frozen (ex_area 0x20 1 0x300 0)) ex_H ex_frozen_Q 0x300 [0x300]"
    by (simp_all add: ex_Q_simps endable_def live_def ex_frozen_fields parent_ok_def ex_tcb_def)
  with trap_terminate[OF ex_frozen_ok[of "ex_area 0x20 1 0x300 0"], where c = "0x200" and old = "ex_area 0x20 1 0x300 0"
    and tgt = "0x300" and tr = "Node 0x300 []"]
  obtain s1 where "ended (counted (sys_enter (ex_frozen (ex_area 0x20 1 0x300 0))) (ex_area 0x20 1 0x300 0)) ex_H
      (orphaned (ex_frozen (ex_area 0x20 1 0x300 0)) 0x300 ex_frozen_Q) [0x300] s1"
    by (auto simp: ex_frozen_fields ex_syscall send_target_def)
  then show ?thesis by (intro exI[of _ s1]) (simp add: ended_def gone_def ex_frozen_fields)
qed

end
