(* ===== verification/Interrupts.thy ===== *)
theory Interrupts
  imports Exceptions
begin

text \<open>
  \<^verbatim>\<open>phase2/src/interrupts.c\<close>: the interrupt handler. What a device does when a command is
  written to its register is not part of the kernel: it is the parameter \<open>dev\<close>, which gives
  the memory after the reaction to a write of a value at an address.
\<close>

unbundle bit_operations_syntax

type_synonym device = "U32 \<Rightarrow> U32 \<Rightarrow> (U32 \<rightharpoonup> U32) \<Rightarrow> (U32 \<rightharpoonup> U32)"

section \<open>The routines\<close>

definition which_device :: "U32 \<Rightarrow> nat" where
  "which_device bitmap =
     (if bitmap = (bitmap OR 0x1) then 0
      else if bitmap = (bitmap OR 0x2) then 1
      else if bitmap = (bitmap OR 0x4) then 2
      else if bitmap = (bitmap OR 0x8) then 3
      else if bitmap = (bitmap OR 0x10) then 4
      else if bitmap = (bitmap OR 0x20) then 5
      else if bitmap = (bitmap OR 0x40) then 6
      else 7)"

definition bus_write :: "device \<Rightarrow> U32 \<Rightarrow> U32 \<Rightarrow> unit kmon" where
  "bus_write dev a v =
     kthen (mem_write a v) (kmodify (\<lambda>s. s\<lparr>mem := dev a v (mem s)\<rparr>))"

text \<open>The fields of \<open>interrupt_msg_array[i]\<close>, and the message to the SSI about it.\<close>

definition int_msg_addr :: "layout \<Rightarrow> nat \<Rightarrow> U32" where
  "int_msg_addr lay i = interrupt_msg_array lay + of_nat (12 * i)"

definition fill_int_msg :: "layout \<Rightarrow> U32 \<Rightarrow> U32 \<Rightarrow> unit kmon" where
  "fill_int_msg lay service arg =
     kbind (kget interrupt_i) (\<lambda>i.
     kthen (mem_write (int_msg_addr lay i) service)
     (kthen (mem_write (int_msg_addr lay i + 4) arg)
     (mem_write (int_msg_addr lay i + 8) NOREPLY)))"

definition notify_SSI :: "layout \<Rightarrow> U32 \<Rightarrow> unit kmon" where
  "notify_SSI lay sender =
     kbind (kget interrupt_i) (\<lambda>i.
     kbind (kget SSI_tcb) (\<lambda>ssi.
     kbind (send sender ssi (int_msg_addr lay i)) (\<lambda>r.
     if r = MSGNOGOOD then kstop PANIC else kreturn ())))"

text \<open>
  Line 2, the interval timer. At the end of the branch the running thread is put behind the
  ready queue when its slice is over, else the timer is set again. The macro \<open>SET_IT\<close> does
  not put its argument in parentheses, so \<open>SET_IT(SCHED_PSEUDO_CLOCK - pseudo_tick)\<close> scales
  only the second operand.
\<close>

definition timer_tail :: "unit kmon" where
  "timer_tail =
     kbind (kget current_thread) (\<lambda>cur.
     kbind (if cur \<noteq> NULL then kbind (get_tcb cur) (\<lambda>t. kreturn (cpu_slice t \<ge> SCHED_TIME_SLICE))
            else kreturn False) (\<lambda>expired.
     if expired then
       kthen (insertThread Ready_queue cur)
       (kmodify (\<lambda>s. s\<lparr>current_thread := NULL\<rparr>))
     else
       kbind (kget pseudo_tick) (\<lambda>tick.
       kbind (mem_read BUS_TIMESCALE) (\<lambda>scale.
       mem_write BUS_INTERVALTIMER (SCHED_PSEUDO_CLOCK - tick * scale)))))"

definition timer_interrupt :: "layout \<Rightarrow> unit kmon" where
  "timer_interrupt lay =
     kthen update_pseudo_tick
     (kbind (kget pseudo_tick) (\<lambda>tick.
     kthen (if tick \<ge> SCHED_PSEUDO_CLOCK then
              kthen (fill_int_msg lay PSEUDOCLOCK_MSG 0)
              (kthen (notify_SSI lay BUS_INTERVALTIMER)
              (kthen (kmodify (\<lambda>s. s\<lparr>pseudo_tick := 0\<rparr>))
              (kbind GET_TODLOW (\<lambda>t.
              kmodify (\<lambda>s. s\<lparr>start_pseudo_tick := t\<rparr>)))))
            else kreturn ())
     timer_tail))"

definition pending_bitmap_addr :: "nat \<Rightarrow> U32" where
  "pending_bitmap_addr line = PENDING_BITMAP_START + WORD_SIZE * of_nat (line - INT_LOWEST)"

definition device_baseaddr :: "nat \<Rightarrow> nat \<Rightarrow> U32" where
  "device_baseaddr line dev_number =
     DEV_REGS_START + of_nat (line - INT_LOWEST) * 0x80 + of_nat dev_number * 0x10"

text \<open>Lines 3 to 6: disks, tapes, the unused line and printers are treated alike.\<close>

definition dtp_interrupt :: "layout \<Rightarrow> device \<Rightarrow> nat \<Rightarrow> unit kmon" where
  "dtp_interrupt lay dev line =
     kbind (mem_read (pending_bitmap_addr line)) (\<lambda>bitmap.
     let base = device_baseaddr line (which_device bitmap) in
     kthen (bus_write dev (base + 0x4) DEV_C_ACK)
     (kbind (mem_read base) (\<lambda>status_word.
     kthen (fill_int_msg lay INTERRUPT_MSG status_word)
     (notify_SSI lay base))))"

definition disk_interrupt :: "layout \<Rightarrow> device \<Rightarrow> unit kmon" where
  "disk_interrupt lay dev = dtp_interrupt lay dev INT_DISK"

definition tape_interrupt :: "layout \<Rightarrow> device \<Rightarrow> unit kmon" where
  "tape_interrupt lay dev = dtp_interrupt lay dev INT_TAPE"

definition unused_interrupt :: "layout \<Rightarrow> device \<Rightarrow> unit kmon" where
  "unused_interrupt lay dev = dtp_interrupt lay dev INT_UNUSED"

definition printer_interrupt :: "layout \<Rightarrow> device \<Rightarrow> unit kmon" where
  "printer_interrupt lay dev = dtp_interrupt lay dev INT_PRINTER"

text \<open>Line 7: a terminal is a transmitter and a receiver, the transmitter first.\<close>

definition terminal_interrupt :: "layout \<Rightarrow> device \<Rightarrow> unit kmon" where
  "terminal_interrupt lay dev =
     kbind (mem_read (pending_bitmap_addr INT_TERMINAL)) (\<lambda>bitmap.
     let base = device_baseaddr INT_TERMINAL (which_device bitmap) in
     kbind (mem_read (base + 0x8)) (\<lambda>status_trans.
     if (status_trans AND STATUSMASK) = DEV_TTRS_S_CHARTRSM then
       kbind (mem_read (base + 0x8)) (\<lambda>arg.
       kthen (fill_int_msg lay INTERRUPT_MSG arg)
       (kthen (notify_SSI lay (base + 0x8))
       (bus_write dev (base + 0xC) DEV_C_ACK)))
     else
       kbind (mem_read base) (\<lambda>status_rec.
       if (status_rec AND STATUSMASK) = DEV_TRCV_S_CHARRECV then
         kbind (mem_read base) (\<lambda>arg.
         kthen (fill_int_msg lay INTERRUPT_MSG arg)
         (kthen (notify_SSI lay base)
         (bus_write dev (base + 0x4) DEV_C_ACK)))
       else kreturn ())))"

definition int_handler :: "layout \<Rightarrow> device \<Rightarrow> rom_call kmon" where
  "int_handler lay dev =
     kbind (kget current_thread) (\<lambda>cur.
     kthen (if cur \<noteq> NULL then kthen charge_current (save_current INT_OLDAREA) else kreturn ())
     (kbind (kget (\<lambda>s. cause (areas s INT_OLDAREA))) (\<lambda>int_cause.
     kthen
       (if CAUSE_IP_GET int_cause INT_TIMER \<noteq> 0 then timer_interrupt lay
        else if CAUSE_IP_GET int_cause INT_DISK \<noteq> 0 then disk_interrupt lay dev
        else if CAUSE_IP_GET int_cause INT_TAPE \<noteq> 0 then tape_interrupt lay dev
        else if CAUSE_IP_GET int_cause INT_UNUSED \<noteq> 0 then unused_interrupt lay dev
        else if CAUSE_IP_GET int_cause INT_PRINTER \<noteq> 0 then printer_interrupt lay dev
        else if CAUSE_IP_GET int_cause INT_TERMINAL \<noteq> 0 then terminal_interrupt lay dev
        else kreturn ())
     (kthen (kmodify (\<lambda>s. s\<lparr>interrupt_i := (interrupt_i s + 1) mod 48\<rparr>))
     scheduler))))"

section \<open>Devices and their registers\<close>

lemma or_single_bit: "(b = (b OR 2 ^ n)) \<longleftrightarrow> bit b n" if "n < 32" for b :: U32
proof -
  have "(b = (b OR 2 ^ n)) \<longleftrightarrow> (\<forall>k<32. bit b k \<longleftrightarrow> bit b k \<or> k = n)"
    by (auto simp: bit_eq_iff bit_simps)
  with that show ?thesis by auto
qed

lemma which_device_bits:
  "which_device b = (if bit b 0 then 0 else if bit b 1 then 1 else if bit b 2 then 2 else if bit b 3 then 3
     else if bit b 4 then 4 else if bit b 5 then 5 else if bit b 6 then 6 else 7)"
  using or_single_bit[of 0 b] or_single_bit[of 1 b] or_single_bit[of 2 b] or_single_bit[of 3 b]
    or_single_bit[of 4 b] or_single_bit[of 5 b] or_single_bit[of 6 b]
  by (simp add: which_device_def)

lemma which_device_less: "which_device b < 8"
  by (simp add: which_device_bits)

text \<open>What the kernel relies on about devices: a command changes device registers only.\<close>

definition dev_region :: "U32 set" where
  "dev_region = {a. 0x10000050 \<le> a \<and> a < 0x100002d0}"

definition device_ok :: "device \<Rightarrow> bool" where
  "device_ok dev \<longleftrightarrow> (\<forall>a v M x. (dev a v M x = None \<longleftrightarrow> M x = None) \<and> (x \<notin> dev_region \<longrightarrow> dev a v M x = M x))"

section \<open>Telling the SSI\<close>

text \<open>The three words of an entry of \<open>interrupt_msg_array\<close>.\<close>

definition msg_words :: "U32 \<Rightarrow> U32 set" where
  "msg_words m = {m, m + 4, m + 8}"

definition int_msg_ok :: "layout \<Rightarrow> kstate \<Rightarrow> bool" where
  "int_msg_ok lay s \<longleftrightarrow> (\<forall>a\<in>msg_words (int_msg_addr lay (interrupt_i s)).
     mem s a \<noteq> None \<and> a \<notin> dev_region \<and> a \<noteq> BUS_TIMESCALE \<and> a \<noteq> BUS_INTERVALTIMER)"

definition filled :: "U32 \<Rightarrow> U32 \<Rightarrow> U32 \<Rightarrow> (U32 \<rightharpoonup> U32) \<Rightarrow> (U32 \<rightharpoonup> U32)" where
  "filled m service arg M = M(m \<mapsto> service, m + 4 \<mapsto> arg, m + 8 \<mapsto> NOREPLY)"

lemma msg_words_distinct [simp]: "m + 4 \<noteq> m" "m + 8 \<noteq> m" "m + 8 \<noteq> m + 4" for m :: U32
  by simp_all

lemma filled_words:
  "filled m service arg M m = Some service" "filled m service arg M (m + 4) = Some arg"
  "filled m service arg M (m + 8) = Some NOREPLY" "a \<notin> msg_words m \<Longrightarrow> filled m service arg M a = M a"
  by (auto simp: filled_def msg_words_def)

lemma wp_fill_int_msg:
  assumes "int_msg_ok lay s"
  shows "wp (fill_int_msg lay service arg) P E s
     = P () (s\<lparr>mem := filled (int_msg_addr lay (interrupt_i s)) service arg (mem s)\<rparr>)"
proof -
  obtain x y z where "mem s (int_msg_addr lay (interrupt_i s)) = Some x" "mem s (int_msg_addr lay (interrupt_i s) + 4) = Some y"
    "mem s (int_msg_addr lay (interrupt_i s) + 8) = Some z"
    using assms by (auto simp: int_msg_ok_def msg_words_def)
  then show ?thesis by (simp add: fill_int_msg_def filled_def)
qed

text \<open>
  An entry is filled in and its address sent to the SSI in the name of a register \<open>x\<close>. The
  kernel panics when the SSI is dead or no message is left.
\<close>

lemma wp_report:
  assumes k: "kinv s H Q" and ok: "addr_ok s" and b: "bus_ok s" and i: "int_msg_ok lay s"
    and m: "m = int_msg_addr lay (interrupt_i s)" and x: "x \<noteq> SSI_tcb s"
    and rp: "a_awaits (ipc_of s Q) x (SSI_tcb s) \<Longrightarrow> reply_ok s (SSI_tcb s)"
    and P: "\<And>A s' Q'. a_send x (SSI_tcb s) m (ipc_of s Q) = Some (MSGGOOD, A) \<Longrightarrow> kinv s' H Q' \<Longrightarrow> tree_kept Q Q' \<Longrightarrow> addr_ok s' \<Longrightarrow> bus_ok s' \<Longrightarrow>
       ipc_of s' Q' = A \<Longrightarrow> ipc_only s s' \<Longrightarrow> service_data s' = service_data s \<Longrightarrow>
       tcbs s' = woken_up s x (SSI_tcb s) (a_awaits (ipc_of s Q) x (SSI_tcb s)) \<Longrightarrow>
       mem s' = (if a_awaits (ipc_of s Q) x (SSI_tcb s) then (filled m service arg (mem s))(reply_of s (SSI_tcb s) \<mapsto> m)
                 else filled m service arg (mem s)) \<Longrightarrow> P () s'"
    and E: "\<nexists>A. a_send x (SSI_tcb s) m (ipc_of s Q) = Some (MSGGOOD, A) \<Longrightarrow> E PANIC"
  shows "wp (kthen (fill_int_msg lay service arg) (notify_SSI lay x)) P E s"
proof -
  define s1 where "s1 = s\<lparr>mem := filled m service arg (mem s)\<rparr>"
  let ?ssi = "SSI_tcb s"
  have k1: "kinv s1 H Q" and ok1: "addr_ok s1" and x1: "x = masked_sender s1 x"
    using k ok x by (simp_all add: s1_def addr_ok_def masked_sender_def)
  have i1: "ipc_of s1 Q = ipc_of s Q" by (rule ipc_of_cong) (simp_all add: s1_def)
  have wk1: "woken_up s1 = woken_up s" by (simp add: s1_def woken_up_def fun_eq_iff)
  have sv1: "service_data s1 = service_data s" by (simp add: s1_def)
  have nz: "?ssi \<noteq> NULL" using ok kinv_rep[OF k] by (auto simp: addr_ok_def rep_def pools_ok_def)
  have rp1: "reply_of s1 p = reply_of s p" for p by (simp add: s1_def reply_of_def)
  have dom1: "mem s1 a = None \<longleftrightarrow> mem s a = None" for a
  proof (cases "a \<in> msg_words m")
    case True
    then have "mem s a \<noteq> None" using i unfolding m int_msg_ok_def by blast
    moreover have "mem s1 a \<noteq> None" using True by (auto simp: s1_def msg_words_def filled_words)
    ultimately show ?thesis by blast
  next
    case False
    then show ?thesis by (simp add: s1_def filled_words(4))
  qed
  have b1: "bus_ok s1"
  proof -
    have "BUS_TIMESCALE \<notin> msg_words m" "BUS_INTERVALTIMER \<notin> msg_words m" using i unfolding m int_msg_ok_def by blast+
    then have "mem s1 BUS_TIMESCALE = mem s BUS_TIMESCALE" "mem s1 BUS_INTERVALTIMER = mem s BUS_INTERVALTIMER"
      by (simp_all add: s1_def filled_words(4))
    with b show ?thesis by (simp add: bus_ok_def)
  qed
  let ?aw = "a_awaits (ipc_of s Q) x ?ssi"
  have mp: "a_awaits (ipc_of s1 Q) x ?ssi \<Longrightarrow> mem s1 (reply_of s1 ?ssi) \<noteq> None"
    using rp by (simp add: i1 rp1 dom1 reply_ok_def)
  have "wp (send x ?ssi m) (\<lambda>r. wp (if r = MSGNOGOOD then kstop PANIC else kreturn ()) P E) E s1"
  proof (rule wp_mono[OF wp_send_refines[OF k1 ok1 nz x1 mp]])
    fix r s'
    assume "\<exists>Q'. kinv s' H Q' \<and> tree_kept Q Q' \<and> addr_ok s' \<and> a_send x ?ssi m (ipc_of s1 Q) = Some (r, ipc_of s' Q') \<and> SSI_tcb s' = SSI_tcb s1 \<and>
        service_data s' = service_data s1 \<and> ipc_only s1 s' \<and> tcbs s' = woken_up s1 x ?ssi (a_awaits (ipc_of s1 Q) x ?ssi) \<and> soft_block_count s' = soft_block_count s1 \<and>
        same_registers s1 s' (\<lambda>q. q = ?ssi \<and> a_awaits (ipc_of s1 Q) x ?ssi) x \<and>
        mem s' = (if a_awaits (ipc_of s1 Q) x ?ssi then (mem s1)(reply_of s1 ?ssi \<mapsto> m) else mem s1)"
    then obtain Q' where k': "kinv s' H Q'" "tree_kept Q Q'" "addr_ok s'" and sd: "a_send x ?ssi m (ipc_of s Q) = Some (r, ipc_of s' Q')"
      and sv: "service_data s' = service_data s" and io: "ipc_only s1 s'"
      and wk: "tcbs s' = woken_up s x ?ssi ?aw"
      and me: "mem s' = (if ?aw then (mem s1)(reply_of s ?ssi \<mapsto> m) else mem s1)"
      using sv1 wk1 by (auto simp: i1 rp1)
    have io': "ipc_only s s'" using io by (cases s; cases s') (simp add: ipc_only_def s1_def)
    have b': "bus_ok s'"
    proof (cases ?aw)
      case True
      then show ?thesis using me rp by (intro bus_ok_mem(1)[OF b1]) (auto simp: reply_ok_def)
    next
      case False
      then show ?thesis using me by (intro bus_ok_mem(2)[OF b1]) simp
    qed
    have r: "r = MSGGOOD \<or> r = MSGNOGOOD" using sd by (auto simp: a_send_def split: if_splits)
    from r show "wp (if r = MSGNOGOOD then kstop PANIC else kreturn ()) P E s'"
    proof
      assume "r = MSGGOOD"
      with P[of "ipc_of s' Q'" s' Q'] sd k' b' io' sv wk me show ?thesis by (simp add: s1_def)
    next
      assume "r = MSGNOGOOD"
      with E sd show ?thesis by simp
    qed
  qed (use E in \<open>auto simp: i1\<close>)
  then show ?thesis
    by (simp add: wp_fill_int_msg[OF i] notify_SSI_def) (simp add: s1_def m)
qed

section \<open>Device interrupts\<close>

text \<open>The state after the acknowledgement written to the command register \<open>a\<close>.\<close>

definition acked :: "device \<Rightarrow> U32 \<Rightarrow> kstate \<Rightarrow> kstate" where
  "acked dev a s = s\<lparr>mem := dev a DEV_C_ACK ((mem s)(a \<mapsto> DEV_C_ACK))\<rparr>"

lemma wp_ack: "mem s a \<noteq> None \<Longrightarrow> wp (bus_write dev a DEV_C_ACK) P E s = P () (acked dev a s)"
  by (auto simp: bus_write_def acked_def)

lemma acked_simps [simp]:
  "kinv (acked dev a s) H Q = kinv s H Q" "addr_ok (acked dev a s) = addr_ok s" "reply_of (acked dev a s) p = reply_of s p"
  "service_data (acked dev a s) = service_data s" "interrupt_i (acked dev a s) = interrupt_i s" "SSI_tcb (acked dev a s) = SSI_tcb s"
  "current_thread (acked dev a s) = current_thread s" "ipc_of (acked dev a s) Q = ipc_of s Q"
  by (simp_all add: acked_def addr_ok_def reply_of_def, rule ipc_of_cong, simp_all)

lemma acked_mem:
  assumes "device_ok dev" and "a \<in> dev_region" and "mem s a \<noteq> None"
  shows "mem (acked dev a s) x = None \<longleftrightarrow> mem s x = None" "x \<notin> dev_region \<Longrightarrow> mem (acked dev a s) x = mem s x"
    "bus_ok (acked dev a s) = bus_ok s" "int_msg_ok lay (acked dev a s) = int_msg_ok lay s"
    "reply_ok (acked dev a s) p = reply_ok s p"
proof -
  show d: "mem (acked dev a s) x = None \<longleftrightarrow> mem s x = None" for x
    using assms(1,3) by (auto simp: device_ok_def acked_def)
  show o: "x \<notin> dev_region \<Longrightarrow> mem (acked dev a s) x = mem s x" for x
    using assms(1,2) by (auto simp: device_ok_def acked_def)
  show "bus_ok (acked dev a s) = bus_ok s"
    using o[of BUS_TIMESCALE] o[of BUS_INTERVALTIMER] by (simp add: bus_ok_def dev_region_def)
  show "int_msg_ok lay (acked dev a s) = int_msg_ok lay s" by (simp add: int_msg_ok_def d)
  show "reply_ok (acked dev a s) p = reply_ok s p" by (simp add: reply_ok_def d)
qed

lemma device_baseaddr_cases:
  assumes "line \<in> {3, 4, 5, 6, 7}" and "d < 8"
  shows "device_baseaddr line d \<in> dev_region" "device_baseaddr line d + 4 \<in> dev_region"
    "device_baseaddr line d + 8 \<in> dev_region" "device_baseaddr line d + 0xC \<in> dev_region"
proof -
  have "d \<in> {0, 1, 2, 3, 4, 5, 6, 7}" using assms(2) by auto
  then show "device_baseaddr line d \<in> dev_region" "device_baseaddr line d + 4 \<in> dev_region"
    "device_baseaddr line d + 8 \<in> dev_region" "device_baseaddr line d + 0xC \<in> dev_region"
    using assms(1) by (auto simp: device_baseaddr_def dev_region_def)
qed

text \<open>
  \<open>told_SSI\<close>: the SSI has been sent a message by the register \<open>x\<close>, with an entry of
  \<open>interrupt_msg_array\<close> that holds the service and its argument.
\<close>

definition told_SSI :: "layout \<Rightarrow> kstate \<Rightarrow> list_head set \<Rightarrow> (list_head \<Rightarrow> U32 list) \<Rightarrow> U32 \<Rightarrow> U32 \<Rightarrow> U32 \<Rightarrow>
    kstate \<Rightarrow> (list_head \<Rightarrow> U32 list) \<Rightarrow> bool" where
  "told_SSI lay s H Q x service arg s1 Q1 \<longleftrightarrow>
     a_send x (SSI_tcb s) (int_msg_addr lay (interrupt_i s)) (ipc_of s Q) = Some (MSGGOOD, ipc_of s1 Q1) \<and> kinv s1 H Q1 \<and>
     mem s1 (int_msg_addr lay (interrupt_i s)) = Some service \<and> mem s1 (int_msg_addr lay (interrupt_i s) + 4) = Some arg \<and>
     mem s1 (int_msg_addr lay (interrupt_i s) + 8) = Some NOREPLY"

text \<open>Memory after the report: the entry, and its address where the SSI waits for a message.\<close>

definition report_mem :: "layout \<Rightarrow> kstate \<Rightarrow> (list_head \<Rightarrow> U32 list) \<Rightarrow> U32 \<Rightarrow> U32 \<Rightarrow> U32 \<Rightarrow> (U32 \<rightharpoonup> U32)" where
  "report_mem lay s Q x service arg =
     (let m = int_msg_addr lay (interrupt_i s); M = filled m service arg (mem s) in
      if a_awaits (ipc_of s Q) x (SSI_tcb s) then M(reply_of s (SSI_tcb s) \<mapsto> m) else M)"

definition SSI_reachable :: "layout \<Rightarrow> kstate \<Rightarrow> (list_head \<Rightarrow> U32 list) \<Rightarrow> U32 \<Rightarrow> bool" where
  "SSI_reachable lay s Q x \<longleftrightarrow> x \<noteq> SSI_tcb s \<and> int_msg_ok lay s \<and>
     (a_awaits (ipc_of s Q) x (SSI_tcb s) \<longrightarrow> reply_ok s (SSI_tcb s) \<and>
        reply_of s (SSI_tcb s) \<notin> msg_words (int_msg_addr lay (interrupt_i s)))"

definition no_message :: "layout \<Rightarrow> kstate \<Rightarrow> (list_head \<Rightarrow> U32 list) \<Rightarrow> U32 \<Rightarrow> bool" where
  "no_message lay s Q x \<longleftrightarrow>
     (\<nexists>A. a_send x (SSI_tcb s) (int_msg_addr lay (interrupt_i s)) (ipc_of s Q) = Some (MSGGOOD, A))"

lemma SSI_reachable_acked [simp]:
  assumes "device_ok dev" and "a \<in> dev_region" and "mem s a \<noteq> None"
  shows "SSI_reachable lay (acked dev a s) Q x = SSI_reachable lay s Q x"
  by (simp add: SSI_reachable_def acked_mem[OF assms])

lemma wp_tell:
  assumes "kinv s H Q" and "addr_ok s" and "bus_ok s" and r: "SSI_reachable lay s Q x"
    and P: "\<And>s1 Q1. told_SSI lay s H Q x service arg s1 Q1 \<Longrightarrow> addr_ok s1 \<Longrightarrow> bus_ok s1 \<Longrightarrow> ipc_only s s1 \<Longrightarrow>
       service_data s1 = service_data s \<Longrightarrow> tcbs s1 = woken_up s x (SSI_tcb s) (a_awaits (ipc_of s Q) x (SSI_tcb s)) \<Longrightarrow> (\<And>a. mem s1 a = None \<longleftrightarrow> mem s a = None) \<Longrightarrow>
       mem s1 = report_mem lay s Q x service arg \<Longrightarrow> P () s1"
    and E: "no_message lay s Q x \<Longrightarrow> E PANIC"
  shows "wp (kthen (fill_int_msg lay service arg) (notify_SSI lay x)) P E s"
proof (rule wp_report[OF assms(1-3), where m = "int_msg_addr lay (interrupt_i s)"])
  let ?m = "int_msg_addr lay (interrupt_i s)" and ?ssi = "SSI_tcb s"
  show "int_msg_ok lay s" "x \<noteq> ?ssi" "a_awaits (ipc_of s Q) x ?ssi \<Longrightarrow> reply_ok s ?ssi"
    using r by (simp_all add: SSI_reachable_def)
  fix A s' Q'
  assume *: "a_send x ?ssi ?m (ipc_of s Q) = Some (MSGGOOD, A)" "kinv s' H Q'" "tree_kept Q Q'" "addr_ok s'" "bus_ok s'"
    "ipc_of s' Q' = A" "ipc_only s s'" "service_data s' = service_data s"
    "tcbs s' = woken_up s x ?ssi (a_awaits (ipc_of s Q) x ?ssi)"
    and me: "mem s' = (if a_awaits (ipc_of s Q) x ?ssi then (filled ?m service arg (mem s))(reply_of s ?ssi \<mapsto> ?m)
                 else filled ?m service arg (mem s))"
  have fd: "filled ?m service arg (mem s) a = None \<longleftrightarrow> mem s a = None" for a
    using r by (auto simp: SSI_reachable_def int_msg_ok_def msg_words_def filled_def)
  have "mem s' a = None \<longleftrightarrow> mem s a = None" for a
    using r fd[of a] unfolding me by (auto simp: SSI_reachable_def reply_ok_def)
  moreover have "mem s' a = filled ?m service arg (mem s) a" if "a \<in> msg_words ?m" for a
    using r that unfolding me by (auto simp: SSI_reachable_def)
  then have "told_SSI lay s H Q x service arg s' Q'"
    using * by (simp add: told_SSI_def msg_words_def filled_words)
  moreover have "mem s' = report_mem lay s Q x service arg" by (simp add: report_mem_def Let_def me)
  ultimately show "P () s'" using P[of s' Q'] * by blast
qed (use E in \<open>simp_all add: no_message_def\<close>)

lemma report_mem_scale: "SSI_reachable lay s Q x \<Longrightarrow> report_mem lay s Q x service arg BUS_TIMESCALE = mem s BUS_TIMESCALE"
  by (auto simp: report_mem_def Let_def SSI_reachable_def int_msg_ok_def reply_ok_def filled_words(4))

lemma told_SSI_cong:
  assumes "told_SSI lay s H Q x service arg s1 Q1" and "kinv s2 H Q1" and "ipc_of s2 Q1 = ipc_of s1 Q1"
    and "\<And>a. a \<in> msg_words (int_msg_addr lay (interrupt_i s)) \<Longrightarrow> mem s2 a = mem s1 a"
  shows "told_SSI lay s H Q x service arg s2 Q1"
  using assms by (simp add: told_SSI_def msg_words_def)

text \<open>Disks, tapes, the unused line and printers.\<close>

lemma wp_dtp_interrupt:
  assumes k: "kinv s H Q" and ok: "addr_ok s" and b: "bus_ok s" and dev: "device_ok dev" and l: "line \<in> {3, 4, 5, 6}"
    and bm: "mem s (pending_bitmap_addr line) = Some bitmap" and base: "base = device_baseaddr line (which_device bitmap)"
    and cm: "mem s (base + 4) \<noteq> None" and st: "mem (acked dev (base + 4) s) base = Some st" and r: "SSI_reachable lay s Q base"
    and P: "\<And>s1 Q1. told_SSI lay s H Q base INTERRUPT_MSG st s1 Q1 \<Longrightarrow> addr_ok s1 \<Longrightarrow> bus_ok s1 \<Longrightarrow>
       service_data s1 = service_data s \<Longrightarrow> current_thread s1 = current_thread s \<Longrightarrow> P () s1"
    and E: "no_message lay s Q base \<Longrightarrow> E PANIC"
  shows "wp (dtp_interrupt lay dev line) P E s"
proof -
  let ?s = "acked dev (base + 4) s"
  have reg: "base + 4 \<in> dev_region" using device_baseaddr_cases(2)[of line "which_device bitmap"] l which_device_less base by auto
  note a = acked_mem[OF dev reg cm]
  have "wp (kthen (fill_int_msg lay INTERRUPT_MSG st) (notify_SSI lay base)) P E ?s"
  proof (rule wp_tell[where H = H and Q = Q])
    fix s1 Q1
    assume t: "told_SSI lay ?s H Q base INTERRUPT_MSG st s1 Q1" and "addr_ok s1" "bus_ok s1" and io: "ipc_only ?s s1"
      and "service_data s1 = service_data ?s"
    moreover have "current_thread s1 = current_thread s" using ipc_only_fields(1)[OF io] by simp
    ultimately show "P () s1" by (intro P[of s1 Q1]) (simp_all add: told_SSI_def)
  qed (use k ok b r a E dev reg cm in \<open>simp_all add: no_message_def\<close>)
  then show ?thesis
    using bm st by (simp add: dtp_interrupt_def Let_def base[symmetric] wp_ack[OF cm] del: DEV_C_ACK_def)
qed

text \<open>Terminals: the transmitter has priority.\<close>

lemma wp_terminal_interrupt:
  assumes k: "kinv s H Q" and ok: "addr_ok s" and b: "bus_ok s" and dev: "device_ok dev"
    and bm: "mem s (pending_bitmap_addr 7) = Some bitmap" and base: "base = device_baseaddr 7 (which_device bitmap)"
    and tr: "mem s (base + 8) = Some tr_st" and rc: "mem s base = Some rc_st"
    and cm: "mem s (base + 4) \<noteq> None" "mem s (base + 0xC) \<noteq> None"
    and x: "x = (if tr_st AND STATUSMASK = DEV_TTRS_S_CHARTRSM then base + 8 else base)"
    and st: "st = (if tr_st AND STATUSMASK = DEV_TTRS_S_CHARTRSM then tr_st else rc_st)"
    and ready: "st AND STATUSMASK = 5" and r: "SSI_reachable lay s Q x"
    and P: "\<And>s1 Q1. told_SSI lay s H Q x INTERRUPT_MSG st s1 Q1 \<Longrightarrow> addr_ok s1 \<Longrightarrow> bus_ok s1 \<Longrightarrow>
       service_data s1 = service_data s \<Longrightarrow> current_thread s1 = current_thread s \<Longrightarrow>
       mem s1 = dev (x + 4) DEV_C_ACK ((report_mem lay s Q x INTERRUPT_MSG st)(x + 4 \<mapsto> DEV_C_ACK)) \<Longrightarrow> P () s1"
    and E: "no_message lay s Q x \<Longrightarrow> E PANIC"
  shows "wp (terminal_interrupt lay dev) P E s"
proof -
  note reg = device_baseaddr_cases[of 7 "which_device bitmap", OF _ which_device_less, folded base, simplified]
  have c: "x + 4 \<in> dev_region" "mem s (x + 4) \<noteq> None" using x reg(2,4) cm by (simp_all add: add.commute[of 12])
  have "wp (kthen (fill_int_msg lay INTERRUPT_MSG st) (notify_SSI lay x)) (\<lambda>_. wp (bus_write dev (x + 4) DEV_C_ACK) P E) E s"
  proof (rule wp_tell[OF k ok b r])
    fix s1 Q1
    assume t: "told_SSI lay s H Q x INTERRUPT_MSG st s1 Q1" and ok1: "addr_ok s1" and b1: "bus_ok s1" and io: "ipc_only s s1"
      and sv: "service_data s1 = service_data s" and d: "\<And>a. mem s1 a = None \<longleftrightarrow> mem s a = None"
      and me: "mem s1 = report_mem lay s Q x INTERRUPT_MSG st"
    have c1: "mem s1 (x + 4) \<noteq> None" using c(2) d by simp
    have "mem (acked dev (x + 4) s1) = dev (x + 4) DEV_C_ACK ((report_mem lay s Q x INTERRUPT_MSG st)(x + 4 \<mapsto> DEV_C_ACK))"
      by (simp add: acked_def me)
    moreover note a = acked_mem[OF dev c(1) c1]
    have "told_SSI lay s H Q x INTERRUPT_MSG st (acked dev (x + 4) s1) Q1"
      by (rule told_SSI_cong[OF t])
         (use t a(2) r in \<open>auto simp: told_SSI_def SSI_reachable_def int_msg_ok_def\<close>)
    ultimately show "wp (bus_write dev (x + 4) DEV_C_ACK) P E s1"
      unfolding wp_ack[OF c1] using ok1 b1 sv ipc_only_fields(1)[OF io] a(3) by (intro P) simp_all
  qed (rule E)
  then show ?thesis
    using bm tr rc st ready x by (simp add: terminal_interrupt_def Let_def base[symmetric] add.assoc split: if_splits)
qed

section \<open>The interval timer\<close>



definition slice_over :: "kstate \<Rightarrow> bool" where
  "slice_over s \<longleftrightarrow> current_thread s \<noteq> NULL \<and>
     (case tcbs s (current_thread s) of None \<Rightarrow> False | Some t \<Rightarrow> cpu_slice t \<ge> SCHED_TIME_SLICE)"

lemma wp_timer_tail:
  assumes k: "kinv s H Q" and b: "bus_ok s"
    and P1: "\<And>L. slice_over s \<Longrightarrow>
       kinv (s\<lparr>current_thread := NULL, lst := L\<rparr>) H (Q(Ready_queue := Q Ready_queue @ [current_thread s])) \<Longrightarrow>
       P () (s\<lparr>current_thread := NULL, lst := L\<rparr>)"
    and P2: "\<And>v. \<not> slice_over s \<Longrightarrow> P () (s\<lparr>mem := (mem s)(BUS_INTERVALTIMER \<mapsto> v)\<rparr>)"
  shows "wp timer_tail P E s"
proof (cases "slice_over s")
  case True
  then have c: "current_thread s \<noteq> NULL" by (simp add: slice_over_def)
  have "wp (insertThread Ready_queue (current_thread s)) (\<lambda>_. wp (kmodify (\<lambda>s. s\<lparr>current_thread := NULL\<rparr>)) P E) E s"
    by (rule wp_requeue[OF k refl c]) (use P1[OF True] in auto)
  with True show ?thesis by (auto simp: timer_tail_def slice_over_def split: option.splits)
next
  case False
  obtain t where t: "current_thread s \<noteq> NULL \<Longrightarrow> tcbs s (current_thread s) = Some t"
    using kinv_tcb[OF k kinv_current_live] by auto
  show ?thesis
    using False P2 b t by (auto simp: timer_tail_def slice_over_def bus_ok_def split: option.splits)
qed

lemma ticked_fields [simp]:
  "kinv (ticked s) H Q = kinv s H Q" "bus_ok (ticked s) = bus_ok s" "addr_ok (ticked s) = addr_ok s"
  "ipc_of (ticked s) Q = ipc_of s Q" "service_data (ticked s) = service_data s" "tcbs (ticked s) = tcbs s"
  "current_thread (ticked s) = current_thread s" "mem (ticked s) = mem s" "SSI_tcb (ticked s) = SSI_tcb s"
  "interrupt_i (ticked s) = interrupt_i s" "msgs (ticked s) = msgs s" "soft_block_count (ticked s) = soft_block_count s"
  by (simp_all add: ticked_def addr_ok_def, rule ipc_of_cong, simp_all)

text \<open>What the report to the SSI depends on.\<close>

lemma report_cong:
  assumes "SSI_tcb s' = SSI_tcb s" "interrupt_i s' = interrupt_i s" "ipc_of s' Q = ipc_of s Q" "mem s' = mem s"
    "\<And>p. reply_of s' p = reply_of s p"
  shows "told_SSI lay s' H Q = told_SSI lay s H Q" "SSI_reachable lay s' Q = SSI_reachable lay s Q"
    "no_message lay s' Q = no_message lay s Q" "report_mem lay s' Q = report_mem lay s Q"
proof -
  show "report_mem lay s' Q = report_mem lay s Q" by (intro ext) (simp add: report_mem_def Let_def assms)
qed (use assms in \<open>simp_all add: told_SSI_def SSI_reachable_def no_message_def int_msg_ok_def reply_ok_def fun_eq_iff\<close>)

lemma ticked_report [simp]:
  "told_SSI lay (ticked s) H Q = told_SSI lay s H Q" "SSI_reachable lay (ticked s) Q = SSI_reachable lay s Q"
  "no_message lay (ticked s) Q = no_message lay s Q" "report_mem lay (ticked s) Q = report_mem lay s Q"
  by (rule report_cong; simp add: reply_of_def)+

lemma wp_timer_interrupt:
  assumes k: "kinv s H Q" and ok: "addr_ok s" and b: "bus_ok s"
    and r: "pseudo_tick (ticked s) \<ge> SCHED_PSEUDO_CLOCK \<Longrightarrow> SSI_reachable lay s Q BUS_INTERVALTIMER"
    and P1: "pseudo_tick (ticked s) < SCHED_PSEUDO_CLOCK \<Longrightarrow> wp timer_tail P E (ticked s)"
    and P2: "\<And>s1 Q1. pseudo_tick (ticked s) \<ge> SCHED_PSEUDO_CLOCK \<Longrightarrow>
       told_SSI lay s H Q BUS_INTERVALTIMER PSEUDOCLOCK_MSG 0 s1 Q1 \<Longrightarrow> addr_ok s1 \<Longrightarrow> bus_ok s1 \<Longrightarrow> pseudo_tick s1 = 0 \<Longrightarrow>
       current_thread s1 = current_thread s \<Longrightarrow> tcbs s1 (current_thread s) = tcbs s (current_thread s) \<Longrightarrow>
       service_data s1 = service_data s \<Longrightarrow> start_pseudo_tick s1 = now s 2 \<Longrightarrow> now s1 0 = now s 3 \<Longrightarrow> wp timer_tail P E s1"
    and E: "pseudo_tick (ticked s) \<ge> SCHED_PSEUDO_CLOCK \<Longrightarrow> no_message lay s Q BUS_INTERVALTIMER \<Longrightarrow> E PANIC"
  shows "wp (timer_interrupt lay) P E s"
proof -
  let ?s = "ticked s" and ?x = BUS_INTERVALTIMER
  let ?reset = "\<lambda>_::unit. wp (kthen (kmodify (\<lambda>s. s\<lparr>pseudo_tick := 0\<rparr>))
     (kthen (kbind GET_TODLOW (\<lambda>t. kmodify (\<lambda>s. s\<lparr>start_pseudo_tick := t\<rparr>))) timer_tail)) P E"
  have tick: "wp (kthen (fill_int_msg lay PSEUDOCLOCK_MSG 0) (notify_SSI lay ?x)) ?reset E ?s"
    if c: "pseudo_tick ?s \<ge> SCHED_PSEUDO_CLOCK"
  proof (rule wp_tell[where H = H and Q = Q])
    fix s1 Q1
    assume t: "told_SSI lay ?s H Q ?x PSEUDOCLOCK_MSG 0 s1 Q1" and ok1: "addr_ok s1" and b1: "bus_ok s1" and io: "ipc_only ?s s1"
      and sv: "service_data s1 = service_data ?s"
      and wk: "tcbs s1 = woken_up ?s ?x (SSI_tcb ?s) (a_awaits (ipc_of ?s Q) ?x (SSI_tcb ?s))"
      and me: "mem s1 = report_mem lay ?s Q ?x PSEUDOCLOCK_MSG 0"
    define s2 where "s2 = s1\<lparr>pseudo_tick := 0, tod_reads := Suc (tod_reads s1), start_pseudo_tick := now s1 0\<rparr>"
    have i2: "ipc_of s2 Q1 = ipc_of s1 Q1" by (rule ipc_of_cong) (simp_all add: s2_def)
    have "told_SSI lay s H Q ?x PSEUDOCLOCK_MSG 0 s2 Q1"
      using t i2 by (simp add: told_SSI_def) (simp add: s2_def)
    moreover have "addr_ok s2" "bus_ok s2" "pseudo_tick s2 = 0" "service_data s2 = service_data s"
      "current_thread s2 = current_thread s"
      using ok1 b1 sv ipc_only_fields(1)[OF io] by (simp_all add: s2_def addr_ok_def)
    moreover have "tcbs s2 (current_thread s) = tcbs s (current_thread s)"
      using wk kinv_current(2)[OF k] by (auto simp: s2_def woken_up_def a_awaits_def ipc_of_fields)
         (metis (no_types) NULL_def kinv_heads(2) kinv_rep k rep_not_NULL)
    moreover have "time_scale s1 = time_scale s" using report_mem_scale[OF r[OF c]] by (simp add: time_scale_def me)
    then have "start_pseudo_tick s2 = now s 2" "now s2 0 = now s 3"
      using ipc_only_fields(5,6)[OF io]
      by (simp_all add: s2_def now_def ticked_def time_scale_def numeral_2_eq_2 numeral_3_eq_3)
    ultimately have "wp timer_tail P E s2" using P2[OF c] by simp
    then show "?reset () s1" using b1 by (simp add: wp_GET_TODLOW s2_def now_def time_scale_def)
  qed (use k ok b r E c in simp_all)
  show ?thesis
    unfolding timer_interrupt_def using P1 tick b by (simp add: wp_update_pseudo_tick not_le)
qed

section \<open>The whole handler\<close>

text \<open>The line that is served: the lowest one that is pending, from line 2 on.\<close>

definition pending_line :: "kstate \<Rightarrow> nat option" where
  "pending_line s = find (\<lambda>l. CAUSE_IP_GET (cause (areas s INT_OLDAREA)) l \<noteq> 0) [2..<8]"

definition serve_line :: "layout \<Rightarrow> device \<Rightarrow> nat \<Rightarrow> unit kmon" where
  "serve_line lay dev line =
     (if line = 2 then timer_interrupt lay else if line = 7 then terminal_interrupt lay dev else dtp_interrupt lay dev line)"

definition int_enter :: "kstate \<Rightarrow> kstate" where
  "int_enter s = (if current_thread s = NULL then s else enter INT_OLDAREA s)"

lemma int_enter_fields [simp]:
  "kinv (int_enter s) H Q = kinv s H Q" "bus_ok (int_enter s) = bus_ok s" "addr_ok (int_enter s) = addr_ok s"
  "ipc_of (int_enter s) Q = ipc_of s Q" "service_data (int_enter s) = service_data s"
  "current_thread (int_enter s) = current_thread s" "mem (int_enter s) = mem s" "areas (int_enter s) = areas s"
  "reply_of (int_enter s) p = reply_of s p" "SSI_tcb (int_enter s) = SSI_tcb s" "interrupt_i (int_enter s) = interrupt_i s"
  by (simp_all add: int_enter_def enter_frame, simp add: enter_def)

lemma int_enter_report [simp]:
  "told_SSI lay (int_enter s) H Q = told_SSI lay s H Q" "SSI_reachable lay (int_enter s) Q = SSI_reachable lay s Q"
  "no_message lay (int_enter s) Q = no_message lay s Q" "report_mem lay (int_enter s) Q = report_mem lay s Q"
  by (rule report_cong; simp)+

lemma wp_int_handler:
  assumes k: "kinv s H Q" and b: "bus_ok s"
  shows "wp (int_handler lay dev) P E s =
    wp (case pending_line s of None \<Rightarrow> kreturn () | Some line \<Rightarrow> serve_line lay dev line)
      (\<lambda>_ s'. wp scheduler P E (s'\<lparr>interrupt_i := (interrupt_i s' + 1) mod 48\<rparr>)) E (int_enter s)"
proof -
  have ls: "[2..<8] = [2, 3, 4, 5, 6, 7 :: nat]" by (simp add: upt_rec)
  let ?c = "cause (areas s INT_OLDAREA)"
  have line: "(if CAUSE_IP_GET ?c INT_TIMER \<noteq> 0 then timer_interrupt lay
        else if CAUSE_IP_GET ?c INT_DISK \<noteq> 0 then disk_interrupt lay dev
        else if CAUSE_IP_GET ?c INT_TAPE \<noteq> 0 then tape_interrupt lay dev
        else if CAUSE_IP_GET ?c INT_UNUSED \<noteq> 0 then unused_interrupt lay dev
        else if CAUSE_IP_GET ?c INT_PRINTER \<noteq> 0 then printer_interrupt lay dev
        else if CAUSE_IP_GET ?c INT_TERMINAL \<noteq> 0 then terminal_interrupt lay dev
        else kreturn ()) = (case pending_line s of None \<Rightarrow> kreturn () | Some line \<Rightarrow> serve_line lay dev line)"
    by (simp add: pending_line_def ls serve_line_def disk_interrupt_def tape_interrupt_def unused_interrupt_def printer_interrupt_def)
  have enter: "wp (if current_thread s \<noteq> NULL then kthen charge_current (save_current INT_OLDAREA) else kreturn ()) R E s
     = R () (int_enter s)" for R
  proof (cases "current_thread s = NULL")
    case False
    then obtain t where "tcbs s (current_thread s) = Some t" using kinv_tcb[OF k kinv_current_live] by auto
    with False b wp_enter[of s t INT_OLDAREA] show ?thesis by (simp add: int_enter_def)
  qed (simp add: int_enter_def)
  have modify: "wp (kmodify f) R E = (\<lambda>s. R () (f s))" for f and R :: "unit \<Rightarrow> kstate \<Rightarrow> bool" by (rule ext) simp
  show ?thesis
    unfolding int_handler_def
    by (simp only: wp_kbind wp_kthen wp_kget enter) (simp only: modify int_enter_fields line)
qed

end
