(* ===== verification/Ssi.thy ===== *)
theory Ssi
  imports Exceptions
begin

text \<open>
  \<^verbatim>\<open>phase2/src/ssi.c\<close>: the system service interface. The SSI is a thread: it reaches the
  kernel through the SYSCALL instruction like any other, and it calls \<open>allocTcb\<close>,
  \<open>insertThread\<close> or \<open>terminate\<close> directly. One pass of its endless loop, from the
  return of \<open>MsgRecv\<close> to the next call of it, is \<open>SSI_serve\<close>. The effect of the trap
  and of the ROM routine \<open>LDST\<close> on the registers is a parameter, \<open>rom\<close>.
\<close>

unbundle bit_operations_syntax

section \<open>The routines\<close>

definition rest_index :: "U32 \<Rightarrow> int" where
  "rest_index dev =
     (
      if dev = 0x10000050 then 0
      else if dev = 0x10000060 then 1
      else if dev = 0x10000070 then 2
      else if dev = 0x10000080 then 3
      else if dev = 0x10000090 then 4
      else if dev = 0x100000a0 then 5
      else if dev = 0x100000b0 then 6
      else if dev = 0x100000c0 then 7
      else if dev = 0x100000d0 then 8
      else if dev = 0x100000e0 then 9
      else if dev = 0x100000f0 then 10
      else if dev = 0x10000100 then 11
      else if dev = 0x10000110 then 12
      else if dev = 0x10000120 then 13
      else if dev = 0x10000130 then 14
      else if dev = 0x10000140 then 15
      else if dev = 0x10000150 then 16
      else if dev = 0x10000160 then 17
      else if dev = 0x10000170 then 18
      else if dev = 0x10000180 then 19
      else if dev = 0x10000190 then 20
      else if dev = 0x100001a0 then 21
      else if dev = 0x100001b0 then 22
      else if dev = 0x100001c0 then 23
      else if dev = 0x100001d0 then 24
      else if dev = 0x100001e0 then 25
      else if dev = 0x100001f0 then 26
      else if dev = 0x10000200 then 27
      else if dev = 0x10000210 then 28
      else if dev = 0x10000220 then 29
      else if dev = 0x10000230 then 30
      else if dev = 0x10000240 then 31
      else if dev = 0x10000250 then 32
      else if dev = 0x10000250 + 0x8 then 33
      else if dev = 0x10000260 then 34
      else if dev = 0x10000260 + 0x8 then 35
      else if dev = 0x10000270 then 36
      else if dev = 0x10000270 + 0x8 then 37
      else if dev = 0x10000280 then 38
      else if dev = 0x10000280 + 0x8 then 39
      else if dev = 0x10000290 then 40
      else if dev = 0x10000290 + 0x8 then 41
      else if dev = 0x100002a0 then 42
      else if dev = 0x100002a0 + 0x8 then 43
      else if dev = 0x100002b0 then 44
      else if dev = 0x100002b0 + 0x8 then 45
      else if dev = 0x100002c0 then 46
      else if dev = 0x100002c0 + 0x8 then 47
      else - 1)"

text \<open>
  The machine as the thread sees it: \<open>trap st a0 a1 a2\<close> is the state that the trap of a
  SYSCALL with these arguments stores in the old area, \<open>load st\<close> the registers after
  \<open>LDST\<close> of \<open>st\<close>. The routines rely on what the manual of the machine says: the trap
  keeps the arguments in \<open>a0\<close> to \<open>a2\<close>, reports a system call and pushes the mode bit,
  and \<open>LDST\<close> loads the general registers and pops it.
\<close>

record rom =
  trap :: "state_t \<Rightarrow> U32 \<Rightarrow> U32 \<Rightarrow> U32 \<Rightarrow> state_t"
  load :: "state_t \<Rightarrow> state_t"

definition kernel_mode :: "state_t \<Rightarrow> bool" where
  "kernel_mode st \<longleftrightarrow> status st AND STATUS_KUc = 0"

definition rom_ok :: "rom \<Rightarrow> bool" where
  "rom_ok rom \<longleftrightarrow>
     (\<forall>st a0 a1 a2. length (gpr st) = 29 \<longrightarrow>
        (let old = trap rom st a0 a1 a2 in
         length (gpr old) = 29 \<and> gpr_get old reg_a0 = a0 \<and> gpr_get old reg_a1 = a1 \<and> gpr_get old reg_a2 = a2 \<and>
         CAUSE_EXCCODE_GET (cause old) = EXC_SYSCALL \<and> (status old AND STATUS_KUp = 0 \<longleftrightarrow> kernel_mode st))) \<and>
     (\<forall>st. gpr (load rom st) = gpr st \<and> (kernel_mode (load rom st) \<longleftrightarrow> status st AND STATUS_KUp = 0))"

text \<open>
  \<open>SYSCALL\<close>: the result is \<open>v0\<close> when the caller goes on, and \<open>None\<close> when the
  processor went to another thread or waits; \<open>cpu\<close> has the registers that run now.
\<close>

definition SYSCALL :: "rom \<Rightarrow> U32 \<Rightarrow> U32 \<Rightarrow> U32 \<Rightarrow> U32 option kmon" where
  "SYSCALL rom a0 a1 a2 =
     kbind (kget current_thread) (\<lambda>caller.
     kthen (kmodify (\<lambda>s. s\<lparr>areas := (areas s)(SYSBK_OLDAREA := trap rom (cpu s) a0 a1 a2)\<rparr>))
     (kbind sysbp_handler (\<lambda>r.
     case r of
       LDST st \<Rightarrow>
         kthen (kmodify (\<lambda>s. s\<lparr>cpu := load rom st\<rparr>))
         (kget (\<lambda>s. if current_thread s = caller then Some (gpr_get (cpu s) reg_v0) else None))
     | WAIT \<Rightarrow> kreturn None)))"

definition MsgSend :: "rom \<Rightarrow> U32 \<Rightarrow> U32 \<Rightarrow> U32 \<Rightarrow> unit kmon" where
  "MsgSend rom code dest payload =
     kbind (SYSCALL rom code dest payload) (\<lambda>r.
     case r of None \<Rightarrow> kstop Preempted | Some v \<Rightarrow> kreturn ())"

definition MsgRecv :: "rom \<Rightarrow> U32 \<Rightarrow> U32 \<Rightarrow> U32 \<Rightarrow> U32 option kmon" where
  "MsgRecv rom code source reply_addr = SYSCALL rom code source reply_addr"

text \<open>
  \<open>SSIRequest\<close>, run by the thread that asks for a service; \<open>request\<close> is the address of
  its local \<open>struct SSI_request_msg\<close>.
\<close>

definition SSIRequest :: "rom \<Rightarrow> U32 \<Rightarrow> U32 \<Rightarrow> U32 \<Rightarrow> U32 \<Rightarrow> U32 option kmon" where
  "SSIRequest rom request service payload reply_addr =
     kthen (mem_write request service)
     (kthen (mem_write (request + 4) payload)
     (kthen (mem_write (request + 8) reply_addr)
     (kthen (MsgSend rom SEND MAGIC_SSI request)
     (MsgRecv rom RECV MAGIC_SSI reply_addr))))"

definition set_nth :: "'a list \<Rightarrow> nat \<Rightarrow> 'a \<Rightarrow> 'a list kmon" where
  "set_nth xs i v = (if i < length xs then kreturn (xs[i := v]) else kstop Fault)"

text \<open>The initialisation of the arrays, before the endless loop.\<close>

definition SSI_init :: "unit kmon" where
  "SSI_init = kmodify (\<lambda>s. s\<lparr>devStatus_array := replicate 48 (- 1), devTcb_array := replicate 48 NULL,
                             clockTcb_array := replicate MAXTHREADS NULL\<rparr>)"

text \<open>\<open>PSEUDOCLOCK_MSG\<close>: wake up the threads that wait for the tick, up to the first free entry.\<close>

fun wake_clock :: "rom \<Rightarrow> nat \<Rightarrow> nat \<Rightarrow> unit kmon" where
  "wake_clock rom 0 i = kreturn ()"
| "wake_clock rom (Suc n) i =
     kbind (kget clockTcb_array) (\<lambda>arr.
     kbind (array_get arr i) (\<lambda>p.
     if p \<noteq> NULL then
       kthen (MsgSend rom SEND p 42)
       (kthen (kmodify (\<lambda>s. s\<lparr>clockTcb_array := (clockTcb_array s)[i := NULL]\<rparr>))
       (wake_clock rom n (Suc i)))
     else kreturn ()))"

text \<open>\<open>INTERRUPT_MSG\<close>: the sender of the message is the device register.\<close>

definition serve_interrupt :: "rom \<Rightarrow> U32 \<Rightarrow> U32 \<Rightarrow> unit kmon" where
  "serve_interrupt rom req_thread req_struct =
     (let device_num = rest_index req_thread in
     if device_num < 0 then kstop Fault
     else
       kbind (kget devTcb_array) (\<lambda>arr.
       kbind (array_get arr (nat device_num)) (\<lambda>wfio_thread.
       kbind (mem_read (req_struct + 4)) (\<lambda>arg.
       if wfio_thread = NULL then
         kbind (kget devStatus_array) (\<lambda>st.
         kbind (set_nth st (nat device_num) arg) (\<lambda>st'.
         kmodify (\<lambda>s. s\<lparr>devStatus_array := st'\<rparr>)))
       else
         kthen (MsgSend rom SEND wfio_thread (arg AND STATUSMASK))
         (kmodify (\<lambda>s. s\<lparr>devTcb_array := (devTcb_array s)[nat device_num := NULL]\<rparr>))))))"

text \<open>\<open>WAITFORCLOCK\<close>: the first free entry among the first \<open>MAXTHREADS - 1\<close>.\<close>

fun put_first_free :: "nat \<Rightarrow> U32 \<Rightarrow> U32 list \<Rightarrow> U32 list" where
  "put_first_free 0 p xs = xs"
| "put_first_free (Suc n) p [] = []"
| "put_first_free (Suc n) p (x # xs) = (if x = NULL then p # xs else x # put_first_free n p xs)"

text \<open>A \<open>state_t\<close> in memory, word by word.\<close>

fun read_words :: "U32 \<Rightarrow> nat \<Rightarrow> U32 list kmon" where
  "read_words a 0 = kreturn []"
| "read_words a (Suc n) =
     kbind (mem_read a) (\<lambda>w. kbind (read_words (a + 4) n) (\<lambda>ws. kreturn (w # ws)))"

definition read_state :: "U32 \<Rightarrow> state_t kmon" where
  "read_state a =
     kbind (read_words a 35) (\<lambda>ws.
     kreturn \<lparr>entry_hi = ws ! 0, cause = ws ! 1, status = ws ! 2, pc_epc = ws ! 3,
              gpr = take 29 (drop 4 ws), hi = ws ! 33, lo = ws ! 34\<rparr>)"

text \<open>
  \<open>CREATEBROTHER\<close> and \<open>CREATESON\<close>: when no TCB is left the requester is told so, and
  the code goes on with the null pointer.
\<close>

definition create_brother :: "rom \<Rightarrow> U32 \<Rightarrow> U32 \<Rightarrow> unit kmon" where
  "create_brother rom req_thread arg =
     kbind allocTcb (\<lambda>new_thread.
     kthen (if new_thread = NULL then MsgSend rom SEND req_thread CREATENOGOOD else kreturn ())
     (kbind (get_tcb req_thread) (\<lambda>t.
     kthen (if t_parent t = NULL then insertSibling req_thread new_thread
            else insertChild (t_parent t) new_thread)
     (kthen (kmodify (\<lambda>s. s\<lparr>thread_count := thread_count s + 1\<rparr>))
     (kbind (read_state arg) (\<lambda>st.
     kthen (upd_tcb new_thread (\<lambda>t. t\<lparr>t_state := save_state st (t_state t)\<rparr>))
     (kthen (insertThread Ready_queue new_thread)
     (MsgSend rom SEND req_thread new_thread))))))))"

definition create_son :: "rom \<Rightarrow> U32 \<Rightarrow> U32 \<Rightarrow> unit kmon" where
  "create_son rom req_thread arg =
     kbind allocTcb (\<lambda>new_thread.
     kthen (if new_thread = NULL then MsgSend rom SEND req_thread CREATENOGOOD else kreturn ())
     (kthen (insertChild req_thread new_thread)
     (kthen (kmodify (\<lambda>s. s\<lparr>thread_count := thread_count s + 1\<rparr>))
     (kbind (read_state arg) (\<lambda>st.
     kthen (upd_tcb new_thread (\<lambda>t. t\<lparr>t_state := save_state st (t_state t)\<rparr>))
     (kbind (get_tcb req_thread) (\<lambda>rt.
     kthen (upd_tcb new_thread (\<lambda>t. t\<lparr>
              sysbp_manager_thread := sysbp_manager_thread rt,
              pgmtrap_manager_thread := pgmtrap_manager_thread rt,
              tlbtrap_manager_thread := tlbtrap_manager_thread rt\<rparr>))
     (kthen (insertThread Ready_queue new_thread)
     (MsgSend rom SEND req_thread new_thread)))))))))"

text \<open>
  \<open>SPECPRGMGR\<close>, \<open>SPECTLBMGR\<close>, \<open>SPECSYSMGR\<close>: the same code on three different fields.
\<close>

definition spec_manager ::
  "rom \<Rightarrow> (tcb_t \<Rightarrow> U32) \<Rightarrow> (U32 \<Rightarrow> tcb_t \<Rightarrow> tcb_t) \<Rightarrow> U32 \<Rightarrow> U32 \<Rightarrow> unit kmon" where
  "spec_manager rom field set_field req_thread arg =
     kbind (get_tcb req_thread) (\<lambda>t.
     kbind (if field t \<noteq> NULL then kreturn True
            else kbind (thereIsThread Ready_queue arg) (\<lambda>r.
              if r \<noteq> NULL then kreturn False
              else kbind (thereIsThread Wait_queue arg) (\<lambda>w. kreturn (w = NULL)))) (\<lambda>refused.
     if refused then terminate req_thread
     else
       kthen (add_manager arg)
       (kthen (upd_tcb req_thread (set_field arg))
       (MsgSend rom SEND req_thread 0))))"

definition spec_prg_manager :: "rom \<Rightarrow> U32 \<Rightarrow> U32 \<Rightarrow> unit kmon" where
  "spec_prg_manager rom = spec_manager rom pgmtrap_manager_thread (\<lambda>m t. t\<lparr>pgmtrap_manager_thread := m\<rparr>)"

definition spec_tlb_manager :: "rom \<Rightarrow> U32 \<Rightarrow> U32 \<Rightarrow> unit kmon" where
  "spec_tlb_manager rom = spec_manager rom tlbtrap_manager_thread (\<lambda>m t. t\<lparr>tlbtrap_manager_thread := m\<rparr>)"

definition spec_sys_manager :: "rom \<Rightarrow> U32 \<Rightarrow> U32 \<Rightarrow> unit kmon" where
  "spec_sys_manager rom = spec_manager rom sysbp_manager_thread (\<lambda>m t. t\<lparr>sysbp_manager_thread := m\<rparr>)"

definition get_cpu_time :: "rom \<Rightarrow> U32 \<Rightarrow> unit kmon" where
  "get_cpu_time rom req_thread = kbind (get_tcb req_thread) (\<lambda>t. MsgSend rom SEND req_thread (cpu_time t))"

definition wait_for_io :: "rom \<Rightarrow> U32 \<Rightarrow> U32 \<Rightarrow> unit kmon" where
  "wait_for_io rom req_thread arg =
     (let device_num = rest_index arg in
     if device_num = - 1 then terminate req_thread
     else
       kbind (kget devStatus_array) (\<lambda>arr.
       kbind (array_get arr (nat device_num)) (\<lambda>st.
       if st = - 1 then
         kbind (kget devTcb_array) (\<lambda>tc.
         kbind (set_nth tc (nat device_num) req_thread) (\<lambda>tc'.
         kmodify (\<lambda>s. s\<lparr>devTcb_array := tc'\<rparr>)))
       else
         kthen (MsgSend rom SEND req_thread st)
         (kmodify (\<lambda>s. s\<lparr>devStatus_array := (devStatus_array s)[nat device_num := - 1]\<rparr>)))))"

definition serve_request :: "rom \<Rightarrow> U32 \<Rightarrow> U32 \<Rightarrow> unit kmon" where
  "serve_request rom req_thread req_struct =
     kbind (mem_read req_struct) (\<lambda>service.
     if service = WAITFORCLOCK then
       kmodify (\<lambda>s. s\<lparr>clockTcb_array := put_first_free (MAXTHREADS - 1) req_thread (clockTcb_array s)\<rparr>)
     else if service = CREATEBROTHER then kbind (mem_read (req_struct + 4)) (create_brother rom req_thread)
     else if service = CREATESON then kbind (mem_read (req_struct + 4)) (create_son rom req_thread)
     else if service = TERMINATE then terminate req_thread
     else if service = SPECPRGMGR then kbind (mem_read (req_struct + 4)) (spec_prg_manager rom req_thread)
     else if service = SPECTLBMGR then kbind (mem_read (req_struct + 4)) (spec_tlb_manager rom req_thread)
     else if service = SPECSYSMGR then kbind (mem_read (req_struct + 4)) (spec_sys_manager rom req_thread)
     else if service = GETCPUTIME then get_cpu_time rom req_thread
     else if service = WAITFORIO then kbind (mem_read (req_struct + 4)) (wait_for_io rom req_thread)
     else kstop PANIC)"

text \<open>One pass of the loop of \<open>SSI_thread\<close>.\<close>

definition SSI_serve :: "rom \<Rightarrow> U32 \<Rightarrow> U32 \<Rightarrow> unit kmon" where
  "SSI_serve rom req_thread req_struct =
     kbind (mem_read req_struct) (\<lambda>service.
     kthen
       (if service = PSEUDOCLOCK_MSG then wake_clock rom (MAXTHREADS - 1) 0
        else if service = INTERRUPT_MSG then serve_interrupt rom req_thread req_struct
        else kreturn ())
     (kbind (thereIsThread Ready_queue req_thread) (\<lambda>r.
      kbind (thereIsThread Wait_queue req_thread) (\<lambda>w.
      if r \<noteq> NULL \<or> w \<noteq> NULL then serve_request rom req_thread req_struct
      else kreturn ()))))"

definition SSI_after_recv :: "rom \<Rightarrow> U32 \<Rightarrow> U32 \<Rightarrow> unit kmon" where
  "SSI_after_recv rom slot req_thread = kbind (mem_read slot) (SSI_serve rom req_thread)"

text \<open>
  The body of the loop, with the call of \<open>MsgRecv\<close>; \<open>slot\<close> is the address of the local
  variable \<open>req_struct\<close>. \<open>None\<close>: the SSI waits for a message, and goes on with
  \<open>SSI_after_recv\<close> when it runs again.
\<close>

definition SSI_thread_body :: "rom \<Rightarrow> U32 \<Rightarrow> unit option kmon" where
  "SSI_thread_body rom slot =
     kbind (MsgRecv rom RECV ANYMESSAGE slot) (\<lambda>r.
     case r of
       None \<Rightarrow> kreturn None
     | Some req_thread \<Rightarrow> kthen (SSI_after_recv rom slot req_thread) (kreturn (Some ())))"

end
