(* ===== verification/Int_Props.thy ===== *)
theory Int_Props
  imports Handlers Interrupts Ssi Phase1
begin

text \<open>
  The properties of the interrupt handler: which device is served, how its register is
  numbered in the tables of the SSI, and what the handler does for devices, terminals and the
  interval timer.
\<close>

unbundle bit_operations_syntax

section \<open>Device numbers\<close>

text \<open>\<open>which_device\<close> finds the pending device with the lowest number.\<close>

theorem which_device_lowest:
  assumes "\<exists>i<8. bit bitmap i"
  shows "which_device bitmap = (LEAST i. bit bitmap i)"
proof -
  obtain i where i: "i < 8" "bit bitmap i" using assms by blast
  show ?thesis
  proof (rule Least_equality[symmetric])
    have "i \<in> {0, 1, 2, 3, 4, 5, 6, 7}" using i(1) by auto
    with i(2) show "bit bitmap (which_device bitmap)" by (auto simp: which_device_bits)
    fix j assume "bit bitmap j"
    moreover have "j < 7 \<Longrightarrow> j \<in> {0, 1, 2, 3, 4, 5, 6}" by auto
    ultimately show "which_device bitmap \<le> j"
      by (cases "j < 7") (auto simp: which_device_bits)
  qed
qed

theorem which_device_lowest_witness: "which_device 0x14 = (LEAST i. bit (0x14 :: U32) i)"
  by (rule which_device_lowest) (rule exI[of _ 2], simp)

text \<open>The chain of tests of \<open>rest_index\<close> as a search in a table.\<close>

fun search :: "(U32 \<times> int) list \<Rightarrow> U32 \<Rightarrow> int" where
  "search [] a = - 1"
| "search ((x, n) # xs) a = (if a = x then n else search xs a)"

definition rest_table :: "(U32 \<times> int) list" where
  "rest_table =
     [(0x10000050, 0), (0x10000060, 1), (0x10000070, 2), (0x10000080, 3), (0x10000090, 4), (0x100000a0, 5),
      (0x100000b0, 6), (0x100000c0, 7), (0x100000d0, 8), (0x100000e0, 9), (0x100000f0, 10), (0x10000100, 11),
      (0x10000110, 12), (0x10000120, 13), (0x10000130, 14), (0x10000140, 15), (0x10000150, 16), (0x10000160, 17),
      (0x10000170, 18), (0x10000180, 19), (0x10000190, 20), (0x100001a0, 21), (0x100001b0, 22), (0x100001c0, 23),
      (0x100001d0, 24), (0x100001e0, 25), (0x100001f0, 26), (0x10000200, 27), (0x10000210, 28), (0x10000220, 29),
      (0x10000230, 30), (0x10000240, 31), (0x10000250, 32), (0x10000250 + 0x8, 33), (0x10000260, 34), (0x10000260 + 0x8, 35),
      (0x10000270, 36), (0x10000270 + 0x8, 37), (0x10000280, 38), (0x10000280 + 0x8, 39), (0x10000290, 40), (0x10000290 + 0x8, 41),
      (0x100002a0, 42), (0x100002a0 + 0x8, 43), (0x100002b0, 44), (0x100002b0 + 0x8, 45), (0x100002c0, 46), (0x100002c0 + 0x8, 47)]"

lemma rest_index_search: "rest_index a = search rest_table a"
  by (simp only: rest_index_def rest_table_def search.simps)

text \<open>The register with a given number.\<close>

definition slot_addr :: "int \<Rightarrow> U32" where
  "slot_addr n = (if n < 32 then 0x10000050 + of_int n * 0x10
     else 0x10000250 + of_int ((n - 32) div 2) * 0x10 + (if odd n then 8 else 0))"

lemma rest_table_slots: "rest_table = map (\<lambda>n. (slot_addr n, n)) [0..47]"
  by (simp add: rest_table_def slot_addr_def upto_rec1)

lemma search_member: "search xs a \<noteq> - 1 \<Longrightarrow> (a, search xs a) \<in> set xs"
  by (induction xs a rule: search.induct) (auto split: if_splits)

lemma search_found: "distinct (map fst xs) \<Longrightarrow> (a, n) \<in> set xs \<Longrightarrow> search xs a = n"
  by (induction xs a rule: search.induct) (auto simp: image_iff)

lemma rest_index_slot: "rest_index a \<noteq> - 1 \<Longrightarrow> a = slot_addr (rest_index a) \<and> 0 \<le> rest_index a \<and> rest_index a < 48"
  using search_member[of rest_table a] by (auto simp: rest_index_search rest_table_slots)

lemma slot_rest_index:
  assumes "0 \<le> n" and "n < 48"
  shows "rest_index (slot_addr n) = n"
proof -
  have "distinct (map fst rest_table)" by (simp add: rest_table_def)
  moreover have "(slot_addr n, n) \<in> set rest_table" using assms by (auto simp: rest_table_slots)
  ultimately show ?thesis unfolding rest_index_search by (rule search_found)
qed

lemma device_slot_addr:
  assumes "d < 8"
  shows "line \<in> {3, 4, 5, 6} \<Longrightarrow> device_baseaddr line d = slot_addr (8 * (int line - 3) + int d)"
    "device_baseaddr 7 d = slot_addr (32 + 2 * int d)" "device_baseaddr 7 d + 8 = slot_addr (33 + 2 * int d)"
proof -
  have "(1 + 2 * int d) div 2 = int d" by simp
  then show "device_baseaddr 7 d = slot_addr (32 + 2 * int d)" "device_baseaddr 7 d + 8 = slot_addr (33 + 2 * int d)"
    by (simp_all add: device_baseaddr_def slot_addr_def)
  show "line \<in> {3, 4, 5, 6} \<Longrightarrow> device_baseaddr line d = slot_addr (8 * (int line - 3) + int d)"
    using assms by (auto simp: device_baseaddr_def slot_addr_def algebra_simps)
qed

text \<open>
  C39. The registers the interrupt handler reports and the indices the SSI computes from them
  agree: every disk, tape, unused device and printer has the index \<open>8 * (line - 3) + number\<close>,
  the receiver and the transmitter of a terminal have one each behind them; every index is
  used once, and any other address gives \<open>-1\<close>.
\<close>

theorem device_slots:
  assumes "d < 8"
  shows "(line \<in> {3, 4, 5, 6} \<longrightarrow> rest_index (device_baseaddr line d) = 8 * (int line - 3) + int d) \<and>
     rest_index (device_baseaddr 7 d) = 32 + 2 * int d \<and> rest_index (device_baseaddr 7 d + 8) = 33 + 2 * int d \<and>
     (rest_index a = rest_index b \<longrightarrow> rest_index a \<noteq> - 1 \<longrightarrow> a = b) \<and> - 1 \<le> rest_index a \<and> rest_index a < 48"
proof -
  have "rest_index a = rest_index b \<Longrightarrow> rest_index a \<noteq> - 1 \<Longrightarrow> a = b"
    using rest_index_slot[of a] rest_index_slot[of b] by metis
  moreover have "- 1 \<le> rest_index a \<and> rest_index a < 48"
    using rest_index_slot[of a] by (cases "rest_index a = - 1") auto
  moreover have "line \<in> {3, 4, 5, 6} \<Longrightarrow> rest_index (device_baseaddr line d) = 8 * (int line - 3) + int d"
    using assms by (subst device_slot_addr(1)) (auto intro!: slot_rest_index)
  moreover have "rest_index (device_baseaddr 7 d) = 32 + 2 * int d"
    using assms by (subst device_slot_addr(2)) (auto intro!: slot_rest_index)
  moreover have "rest_index (device_baseaddr 7 d + 8) = 33 + 2 * int d"
    using assms by (subst device_slot_addr(3)) (auto intro!: slot_rest_index)
  ultimately show ?thesis by blast
qed

theorem device_slots_witness:
  "rest_index (device_baseaddr 6 2) = 26 \<and> rest_index (device_baseaddr 7 3 + 8) = 39"
  using device_slots[of 2 6] device_slots[of 3 7] by simp

section \<open>Devices\<close>

text \<open>A line whose service ends with a report to the SSI; \<open>K\<close> is what is known of memory then.\<close>

lemma int_reported:
  assumes k: "kinv s H Q" and b: "bus_ok s" and l: "pending_line s = Some line"
    and serve: "\<And>P E. (\<And>s1 Q1. told_SSI lay s H Q x service arg s1 Q1 \<Longrightarrow> bus_ok s1 \<Longrightarrow> service_data s1 = service_data s \<Longrightarrow> K (mem s1) \<Longrightarrow> P () s1) \<Longrightarrow>
       (no_message lay s Q x \<Longrightarrow> E PANIC) \<Longrightarrow> wp (serve_line lay dev line) P E (int_enter s)"
  shows "if no_message lay s Q x then int_handler lay dev s = Inl PANIC
     else \<exists>s1 Q1. told_SSI lay s H Q x service arg s1 Q1 \<and> K (mem s1) \<and> interrupt_i s1 = (interrupt_i s + 1) mod 48 \<and>
       (case int_handler lay dev s of Inr (r, s') \<Rightarrow> scheduled s1 H Q1 r s' | Inl e \<Rightarrow> nothing_runs s1 Q1 e)"
proof -
  let ?told = "\<lambda>s1 Q1. told_SSI lay s H Q x service arg s1 Q1 \<and> K (mem s1) \<and> interrupt_i s1 = (interrupt_i s + 1) mod 48"
  have ex: "told_SSI lay s H Q x service arg s1 Q1 \<Longrightarrow> \<not> no_message lay s Q x" for s1 Q1
    by (auto simp: told_SSI_def no_message_def)
  have w: "wp (int_handler lay dev) (\<lambda>r s'. \<exists>s1 Q1. ?told s1 Q1 \<and> scheduled s1 H Q1 r s')
     (\<lambda>e. no_message lay s Q x \<and> e = PANIC \<or> (\<exists>s1 Q1. ?told s1 Q1 \<and> nothing_runs s1 Q1 e)) s"
    unfolding wp_int_handler[OF k b] l option.case
  proof (rule serve)
    fix s1 Q1 assume t: "told_SSI lay s H Q x service arg s1 Q1" and b1: "bus_ok s1" and sv: "service_data s1 = service_data s"
      and m1: "K (mem s1)"
    define s2 where "s2 = s1\<lparr>interrupt_i := (interrupt_i s1 + 1) mod 48\<rparr>"
    have i2: "ipc_of s2 Q1 = ipc_of s1 Q1" by (rule ipc_of_cong) (simp_all add: s2_def)
    have k2: "kinv s2 H Q1" using t by (simp add: s2_def told_SSI_def)
    have "told_SSI lay s H Q x service arg s2 Q1" by (rule told_SSI_cong[OF t k2 i2]) (simp add: s2_def)
    moreover have "interrupt_i s2 = (interrupt_i s + 1) mod 48" using service_data_fields(8)[OF sv] by (simp add: s2_def)
    moreover have "bus_ok s2" "K (mem s2)" using b1 m1 by (simp_all add: s2_def bus_ok_def)
    ultimately have "wp scheduler (\<lambda>r s'. \<exists>s1 Q1. ?told s1 Q1 \<and> scheduled s1 H Q1 r s')
      (\<lambda>e. no_message lay s Q x \<and> e = PANIC \<or> (\<exists>s1 Q1. ?told s1 Q1 \<and> nothing_runs s1 Q1 e)) s2"
      by (intro wp_scheduler_after[OF k2]) blast+
    then show "wp scheduler (\<lambda>r s'. \<exists>s1 Q1. ?told s1 Q1 \<and> scheduled s1 H Q1 r s')
      (\<lambda>e. no_message lay s Q x \<and> e = PANIC \<or> (\<exists>s1 Q1. ?told s1 Q1 \<and> nothing_runs s1 Q1 e))
      (s1\<lparr>interrupt_i := (interrupt_i s1 + 1) mod 48\<rparr>)" by (simp only: s2_def)
  qed simp
  show ?thesis
  proof (cases "no_message lay s Q x")
    case True
    then have "\<not> told_SSI lay s H Q x service arg s1 Q1" for s1 Q1 using ex by blast
    with w True show ?thesis by (simp add: wp_def split: sum.splits prod.splits)
  next
    case False
    have "wp (int_handler lay dev) (\<lambda>r s'. \<exists>s1 Q1. ?told s1 Q1 \<and> scheduled s1 H Q1 r s')
      (\<lambda>e. \<exists>s1 Q1. ?told s1 Q1 \<and> nothing_runs s1 Q1 e) s"
      by (rule wp_mono[OF w]) (use False in auto)
    from wp_outcome[OF this] False show ?thesis by (simp add: conj_assoc)
  qed
qed

lemma acked_int_enter [simp]: "mem (acked dev a (int_enter s)) = mem (acked dev a s)"
  by (simp add: acked_def)

text \<open>
  C22. An interrupt of a disk, a tape, the unused line or a printer: the device with the lowest
  number is acknowledged, and the SSI is sent a message in the name of its register, with the
  status of the device in the next entry of the interrupt messages. The interrupted thread is
  resumed (or, if there was none, the scheduler looks again). The kernel panics when the
  message cannot be sent.
\<close>

theorem device_interrupt_reported:
  assumes "kinv s H Q" and "addr_ok s" and "bus_ok s" and "device_ok dev" and "pending_line s = Some line" and "line \<in> {3, 4, 5, 6}"
    and "mem s (pending_bitmap_addr line) = Some bitmap" and "base = device_baseaddr line (which_device bitmap)"
    and "mem s (base + 4) \<noteq> None" and "mem (acked dev (base + 4) s) base = Some st" and "SSI_reachable lay s Q base"
  shows "if no_message lay s Q base then int_handler lay dev s = Inl PANIC
     else \<exists>s1 Q1. told_SSI lay s H Q base INTERRUPT_MSG st s1 Q1 \<and> interrupt_i s1 = (interrupt_i s + 1) mod 48 \<and>
       (case int_handler lay dev s of Inr (r, s') \<Rightarrow> scheduled s1 H Q1 r s' | Inl e \<Rightarrow> nothing_runs s1 Q1 e)"
proof -
  have "if no_message lay s Q base then int_handler lay dev s = Inl PANIC
     else \<exists>s1 Q1. told_SSI lay s H Q base INTERRUPT_MSG st s1 Q1 \<and> True \<and> interrupt_i s1 = (interrupt_i s + 1) mod 48 \<and>
       (case int_handler lay dev s of Inr (r, s') \<Rightarrow> scheduled s1 H Q1 r s' | Inl e \<Rightarrow> nothing_runs s1 Q1 e)"
  proof (rule int_reported[OF assms(1,3,5)])
    fix P E
    assume "\<And>s1 Q1. told_SSI lay s H Q base INTERRUPT_MSG st s1 Q1 \<Longrightarrow> bus_ok s1 \<Longrightarrow> service_data s1 = service_data s \<Longrightarrow> True \<Longrightarrow> P () s1"
      and "no_message lay s Q base \<Longrightarrow> E PANIC"
    then have "wp (dtp_interrupt lay dev line) P E (int_enter s)"
      by (intro wp_dtp_interrupt[where H = H and Q = Q and base = base and st = st and bitmap = bitmap]) (use assms in simp_all)
    with assms(6) show "wp (serve_line lay dev line) P E (int_enter s)" by (auto simp: serve_line_def)
  qed
  then show ?thesis unfolding simp_thms .
qed

text \<open>The small machine with a disk and a terminal whose devices ignore commands.\<close>

definition ex_irq :: "U32 \<Rightarrow> kstate" where
  "ex_irq c = (ex_run (ex_area c 0 0 0))\<lparr>mem := mem (ex_run (ex_area c 0 0 0)) ++
     map_of [(0x1000003c, 1), (0x10000050, 1), (0x10000054, 0), (0x1000004c, 1), (0x10000250, 1), (0x10000254, 0),
             (0x10000258, 0x4105), (0x1000025c, 0), (0x4000, 0), (0x4004, 0), (0x4008, 0)]\<rparr>"

abbreviation ex_dev :: device where
  "ex_dev \<equiv> (\<lambda>a v M. M)"

lemma ex_dev_ok: "device_ok ex_dev"
  by (simp add: device_ok_def)

text \<open>A terminal whose transmitter is ready again once its interrupt is acknowledged.\<close>

definition ex_ready_dev :: device where
  "ex_ready_dev = (\<lambda>a v M. if a = 0x1000025c \<and> v = DEV_C_ACK \<and> M 0x10000258 \<noteq> None then M(0x10000258 \<mapsto> 1) else M)"

lemma ex_ready_dev_ok: "device_ok ex_ready_dev"
  by (auto simp: device_ok_def ex_ready_dev_def dev_region_def)

lemma ex_irq_fields:
  "current_thread (ex_irq c) = 0x200" "SSI_tcb (ex_irq c) = 0x100" "interrupt_i (ex_irq c) = 0" "areas (ex_irq c) a = ex_area c 0 0 0"
  "tcbs (ex_irq c) = tcbs (ex_run (ex_area c 0 0 0))" "ipc_of (ex_irq c) Q = ipc_of (ex_run (ex_area c 0 0 0)) Q"
  "reply_of (ex_irq c) 0x100 = 0x700"
proof -
  show "ipc_of (ex_irq c) Q = ipc_of (ex_run (ex_area c 0 0 0)) Q" by (rule ipc_of_cong) (simp_all add: ex_irq_def)
  show "interrupt_i (ex_irq c) = 0" by (simp add: ex_irq_def ex_state_def)
qed (simp_all add: ex_irq_def ex_fields reply_of_def ex_tcb_def)

lemma ex_irq_mem:
  "mem (ex_irq c) 0x1000003c = Some 1" "mem (ex_irq c) 0x10000050 = Some 1" "mem (ex_irq c) 0x10000054 = Some 0"
  "mem (ex_irq c) 0x1000004c = Some 1" "mem (ex_irq c) 0x10000250 = Some 1" "mem (ex_irq c) 0x10000254 = Some 0"
  "mem (ex_irq c) 0x10000258 = Some 0x4105" "mem (ex_irq c) 0x1000025c = Some 0"
  "mem (ex_irq c) 0x4000 = Some 0" "mem (ex_irq c) 0x4004 = Some 0" "mem (ex_irq c) 0x4008 = Some 0"
  "mem (ex_irq c) 0x700 = Some 0" "mem (ex_irq c) 0x10000024 = Some 1" "mem (ex_irq c) 0x10000020 = Some 0"
  by (simp_all add: ex_irq_def ex_fields map_add_def)

lemma ex_irq_ok: "kinv (ex_irq c) ex_H ex_run_Q" "addr_ok (ex_irq c)" "bus_ok (ex_irq c)"
  using ex_running[of "ex_area c 0 0 0"] ex_addr_ok[of "0x200" "[0x300]" "[0x100]" "ex_area c 0 0 0"]
  by (simp_all add: ex_irq_def addr_ok_def ex_fields, simp add: bus_ok_def ex_fields map_add_def)

lemma ex_irq_SSI:
  "SSI_reachable ex_lay (ex_irq c) ex_run_Q x" "\<not> no_message ex_lay (ex_irq c) ex_run_Q x" if "x \<noteq> 0x100"
proof -
  show "SSI_reachable ex_lay (ex_irq c) ex_run_Q x"
    using that
    by (simp add: SSI_reachable_def int_msg_ok_def msg_words_def int_msg_addr_def ex_irq_fields ex_irq_mem ex_lay_def
        dev_region_def reply_ok_def)
  show "\<not> no_message ex_lay (ex_irq c) ex_run_Q x"
    by (simp add: no_message_def ex_irq_fields a_send_def ex_run_awaits a_live_def ex_run_ipc)
qed

lemma ex_irq_line: "pending_line (ex_irq 0x800) = Some 3" "pending_line (ex_irq 0x8000) = Some 7" "pending_line (ex_irq 0x400) = Some 2"
  by (simp_all add: pending_line_def ex_irq_fields ex_area_def CAUSE_IP_GET_def upt_rec)

theorem device_interrupt_reported_witness:
  "\<exists>s1 Q1. told_SSI ex_lay (ex_irq 0x800) ex_H ex_run_Q 0x10000050 INTERRUPT_MSG 1 s1 Q1 \<and> interrupt_i s1 = 1"
proof -
  have "which_device 1 = 0" by (simp add: which_device_bits)
  then have b: "device_baseaddr 3 (which_device 1) = 0x10000050" by (simp add: device_baseaddr_def)
  show ?thesis
    using device_interrupt_reported[OF ex_irq_ok ex_dev_ok ex_irq_line(1), of 1 "0x10000050" 1 ex_lay] ex_irq_SSI[of "0x10000050" "0x800"]
    by (auto simp: pending_bitmap_addr_def ex_irq_mem b acked_def ex_irq_fields)
qed

text \<open>
  C31. An interrupt of a terminal whose transmitter or receiver is done: the transmitter has
  priority, the SSI is sent a message in the name of the status register concerned, with its
  status, and then the sub-device is acknowledged: the memory the kernel goes on with is what
  the device makes of the command \<open>DEV_C_ACK\<close> in the command register next to that status, and
  of that command alone. The kernel panics when the message cannot be sent.
\<close>

theorem terminal_interrupt_reported:
  assumes "kinv s H Q" and "addr_ok s" and "bus_ok s" and "device_ok dev" and "pending_line s = Some 7"
    and "mem s (pending_bitmap_addr 7) = Some bitmap" and "base = device_baseaddr 7 (which_device bitmap)"
    and "mem s (base + 8) = Some tr_st" and "mem s base = Some rc_st" and "mem s (base + 4) \<noteq> None" and "mem s (base + 0xC) \<noteq> None"
    and "x = (if tr_st AND STATUSMASK = DEV_TTRS_S_CHARTRSM then base + 8 else base)"
    and "st = (if tr_st AND STATUSMASK = DEV_TTRS_S_CHARTRSM then tr_st else rc_st)"
    and "st AND STATUSMASK = 5" and "SSI_reachable lay s Q x"
  shows "if no_message lay s Q x then int_handler lay dev s = Inl PANIC
     else \<exists>s1 Q1. told_SSI lay s H Q x INTERRUPT_MSG st s1 Q1 \<and>
       mem s1 = dev (x + 4) DEV_C_ACK ((report_mem lay s Q x INTERRUPT_MSG st)(x + 4 \<mapsto> DEV_C_ACK)) \<and>
       interrupt_i s1 = (interrupt_i s + 1) mod 48 \<and>
       (case int_handler lay dev s of Inr (r, s') \<Rightarrow> scheduled s1 H Q1 r s' | Inl e \<Rightarrow> nothing_runs s1 Q1 e)"
proof (rule int_reported[OF assms(1,3,5)])
  fix P E
  assume "\<And>s1 Q1. told_SSI lay s H Q x INTERRUPT_MSG st s1 Q1 \<Longrightarrow> bus_ok s1 \<Longrightarrow> service_data s1 = service_data s \<Longrightarrow>
      mem s1 = dev (x + 4) DEV_C_ACK ((report_mem lay s Q x INTERRUPT_MSG st)(x + 4 \<mapsto> DEV_C_ACK)) \<Longrightarrow> P () s1"
    and "no_message lay s Q x \<Longrightarrow> E PANIC"
  then have "wp (terminal_interrupt lay dev) P E (int_enter s)"
    by (intro wp_terminal_interrupt[where H = H and Q = Q and base = base and x = x and st = st and bitmap = bitmap
          and tr_st = tr_st and rc_st = rc_st]) (use assms in \<open>simp_all del: STATUSMASK_def\<close>)
  then show "wp (serve_line lay dev 7) P E (int_enter s)" by (simp add: serve_line_def)
qed

theorem terminal_interrupt_reported_witness:
  "\<exists>s1 Q1. told_SSI ex_lay (ex_irq 0x8000) ex_H ex_run_Q 0x10000258 INTERRUPT_MSG 0x4105 s1 Q1 \<and> interrupt_i s1 = 1 \<and>
     mem s1 0x10000258 = Some 1 \<and> mem s1 0x1000025c = Some DEV_C_ACK"
proof -
  have "which_device 1 = 0" by (simp add: which_device_bits)
  then have b: "device_baseaddr 7 (which_device 1) = 0x10000250" by (simp add: device_baseaddr_def)
  have "(if no_message ex_lay (ex_irq 0x8000) ex_run_Q 0x10000258 then int_handler ex_lay ex_ready_dev (ex_irq 0x8000) = Inl PANIC
     else \<exists>s1 Q1. told_SSI ex_lay (ex_irq 0x8000) ex_H ex_run_Q 0x10000258 INTERRUPT_MSG 0x4105 s1 Q1 \<and>
       mem s1 = ex_ready_dev (0x10000258 + 4) DEV_C_ACK
         ((report_mem ex_lay (ex_irq 0x8000) ex_run_Q 0x10000258 INTERRUPT_MSG 0x4105)(0x10000258 + 4 \<mapsto> DEV_C_ACK)) \<and>
       interrupt_i s1 = (interrupt_i (ex_irq 0x8000) + 1) mod 48 \<and>
       (case int_handler ex_lay ex_ready_dev (ex_irq 0x8000) of Inr (r, s') \<Rightarrow> scheduled s1 ex_H Q1 r s' | Inl e \<Rightarrow> nothing_runs s1 Q1 e))"
    by (rule terminal_interrupt_reported[OF ex_irq_ok ex_ready_dev_ok ex_irq_line(2), where bitmap = 1 and base = "0x10000250"
          and tr_st = "0x4105" and rc_st = 1])
       (simp_all add: pending_bitmap_addr_def ex_irq_mem b ex_irq_SSI(1))
  with ex_irq_SSI(2)[of "0x10000258" "0x8000"] obtain s1 Q1 where
    t: "told_SSI ex_lay (ex_irq 0x8000) ex_H ex_run_Q 0x10000258 INTERRUPT_MSG 0x4105 s1 Q1" and i: "interrupt_i s1 = 1"
    and m: "mem s1 = ex_ready_dev 0x1000025c DEV_C_ACK
         ((report_mem ex_lay (ex_irq 0x8000) ex_run_Q 0x10000258 INTERRUPT_MSG 0x4105)(0x1000025c \<mapsto> DEV_C_ACK))"
    by (auto simp: ex_irq_fields(3))
  have "report_mem ex_lay (ex_irq 0x8000) ex_run_Q 0x10000258 INTERRUPT_MSG 0x4105 0x10000258 \<noteq> None"
    by (simp add: report_mem_def Let_def filled_def int_msg_addr_def ex_lay_def ex_irq_fields ex_irq_mem)
  then have "mem s1 0x10000258 = Some 1" "mem s1 0x1000025c = Some DEV_C_ACK"
    unfolding m by (auto simp: ex_ready_dev_def)
  with t i show ?thesis by (intro exI[of _ s1] exI[of _ Q1]) simp
qed

section \<open>The interval timer\<close>

text \<open>
  C32. Round robin: when the timer interrupts a thread that has used up its time slice, and
  the pseudo clock does not tick at that moment, the thread goes to the end of the ready queue
  and the first ready thread runs.
\<close>

theorem timer_preempts:
  assumes "kinv s H Q" and "addr_ok s" and "bus_ok s" and "pending_line s = Some 2"
    and "slice_over (int_enter s)" and "pseudo_tick (ticked (int_enter s)) < SCHED_PSEUDO_CLOCK"
    and "q = Q Ready_queue @ [current_thread s]"
  shows "\<exists>st s'. int_handler lay dev s = Inr (LDST st, s') \<and> current_thread s' = hd q \<and> kinv s' H (Q(Ready_queue := tl q)) \<and>
     map_option t_state (tcbs (int_enter s) (hd q)) = Some st"
proof -
  let ?e = "int_enter s" and ?c = "current_thread s"
  let ?P = "\<lambda>r s'. \<exists>st. r = LDST st \<and> current_thread s' = hd q \<and> kinv s' H (Q(Ready_queue := tl q)) \<and>
     map_option t_state (tcbs (int_enter s) (hd q)) = Some st"
  have "wp (timer_interrupt lay) (\<lambda>_ s'. wp scheduler ?P no_stop (s'\<lparr>interrupt_i := (interrupt_i s' + 1) mod 48\<rparr>)) no_stop ?e"
  proof (rule wp_timer_interrupt[where H = H and Q = Q])
    show "wp timer_tail (\<lambda>_ s'. wp scheduler ?P no_stop (s'\<lparr>interrupt_i := (interrupt_i s' + 1) mod 48\<rparr>)) no_stop (ticked ?e)"
    proof (rule wp_timer_tail[where H = H and Q = Q])
      fix L
      define s2 where "s2 = (ticked ?e)\<lparr>current_thread := NULL, lst := L, interrupt_i := (interrupt_i s + 1) mod 48\<rparr>"
      assume "kinv ((ticked ?e)\<lparr>current_thread := NULL, lst := L\<rparr>) H (Q(Ready_queue := Q Ready_queue @ [current_thread (ticked ?e)]))"
      then have k2: "kinv s2 H (Q(Ready_queue := q))" using assms(7) by (simp add: s2_def)
      have "wp scheduler ?P no_stop s2"
      proof (rule wp_scheduler_after[OF k2])
        show "bus_ok s2" using assms(3) by (simp add: s2_def bus_ok_def)
        fix r s' assume "scheduled s2 H (Q(Ready_queue := q)) r s'"
        then show "?P r s'"
          using assms(7) by (cases r) (auto simp: scheduled_def s2_def)
      qed (use assms(7) in \<open>simp add: nothing_runs_def\<close>)
      then show "wp scheduler ?P no_stop ((ticked ?e)\<lparr>current_thread := NULL, lst := L,
          interrupt_i := (interrupt_i ((ticked ?e)\<lparr>current_thread := NULL, lst := L\<rparr>) + 1) mod 48\<rparr>)"
        by (simp add: s2_def)
    qed (use assms in \<open>simp_all add: slice_over_def\<close>)
  qed (use assms in simp_all)
  then have "wp (int_handler lay dev) ?P no_stop s"
    unfolding wp_int_handler[OF assms(1,3)] assms(4) by (simp add: serve_line_def)
  then show ?thesis by (auto simp: wp_total)
qed

definition ex_late :: kstate where
  "ex_late = (ex_irq 0x400)\<lparr>tcbs := (tcbs (ex_irq 0x400))(0x200 \<mapsto> (ex_tcb 0 (- 1) (- 1))\<lparr>cpu_slice := 6000\<rparr>)\<rparr>"

lemma ex_late_ok:
  "kinv ex_late ex_H ex_run_Q" "addr_ok ex_late" "bus_ok ex_late" "pending_line ex_late = Some 2" "slice_over (int_enter ex_late)"
  "current_thread ex_late = 0x200" "pseudo_tick (ticked (int_enter ex_late)) < SCHED_PSEUDO_CLOCK"
proof -
  have "tcbs (ex_irq 0x400) 0x200 \<noteq> None" by (simp add: ex_irq_fields ex_fields)
  then show "kinv ex_late ex_H ex_run_Q" "addr_ok ex_late" "bus_ok ex_late"
    using ex_irq_ok[of "0x400"] by (auto simp: ex_late_def addr_ok_def bus_ok_def)
  show "pending_line ex_late = Some 2" using ex_irq_line(3) by (simp add: pending_line_def ex_late_def)
  show c: "current_thread ex_late = 0x200" by (simp add: ex_late_def ex_irq_fields)
  have n: "now ex_late 0 = 0" "current_thread_tod ex_late = 0"
    by (simp_all add: now_def ex_late_def ex_irq_def ex_state_def)
  have "tcbs ex_late 0x200 = Some ((ex_tcb 0 (- 1) (- 1))\<lparr>cpu_slice := 6000\<rparr>)" by (simp add: ex_late_def)
  then show "slice_over (int_enter ex_late)"
    by (simp add: slice_over_def c int_enter_def enter_def entered_def n)
  show "pseudo_tick (ticked (int_enter ex_late)) < SCHED_PSEUDO_CLOCK"
    by (simp add: int_enter_def c ticked_def enter_def now_def)
       (simp add: ex_late_def ex_irq_def ex_state_def time_scale_def map_add_def)
qed

theorem timer_preempts_witness:
  "\<exists>st s'. int_handler ex_lay ex_dev ex_late = Inr (LDST st, s') \<and> current_thread s' = 0x300 \<and>
     kinv s' ex_H (ex_run_Q(Ready_queue := [0x200]))"
  using timer_preempts[OF ex_late_ok(1-5,7) refl, of ex_lay ex_dev] by (auto simp: ex_Q_simps ex_late_ok(6) simp del: fun_upd_apply)

text \<open>
  The state in which the interrupt handler calls the scheduler at a tick of the pseudo clock: the
  SSI has been told, the interrupted thread has been put behind the ready queue if its slice is
  used up, and the pseudo clock starts again from the third reading of the clock.
\<close>

definition tick_told :: "layout \<Rightarrow> kstate \<Rightarrow> list_head set \<Rightarrow> (list_head \<Rightarrow> U32 list) \<Rightarrow> kstate \<Rightarrow> (list_head \<Rightarrow> U32 list) \<Rightarrow> bool" where
  "tick_told lay s H Q s1 Q1 \<longleftrightarrow>
     (let m = int_msg_addr lay (interrupt_i s) in
      (\<exists>A. a_send BUS_INTERVALTIMER (SSI_tcb s) m (ipc_of s Q) = Some (MSGGOOD, A) \<and>
         ipc_of s1 Q1 = (if slice_over (int_enter s) then A\<lparr>a_ready := a_ready A @ [current_thread s], a_cur := NULL\<rparr> else A)) \<and>
      mem s1 m = Some PSEUDOCLOCK_MSG \<and> mem s1 (m + 4) = Some 0 \<and> mem s1 (m + 8) = Some NOREPLY \<and>
      kinv s1 H Q1 \<and> pseudo_tick s1 = 0 \<and> start_pseudo_tick s1 = now (int_enter s) 2 \<and>
      interrupt_i s1 = (interrupt_i s + 1) mod 48)"

lemma tick_told_sent: "tick_told lay s H Q s1 Q1 \<Longrightarrow> \<not> no_message lay s Q BUS_INTERVALTIMER"
  by (auto simp: tick_told_def no_message_def Let_def)

lemma ipc_of_preempt:
  assumes "c = current_thread s" and "c \<noteq> NULL"
  shows "ipc_of (s\<lparr>current_thread := NULL, lst := L, interrupt_i := n\<rparr>) (Q(Ready_queue := Q Ready_queue @ [c])) =
    (ipc_of s Q)\<lparr>a_ready := a_ready (ipc_of s Q) @ [c], a_cur := NULL\<rparr>"
  using assms by (intro ipc_eqI) (auto simp: ipc_of_fields live_def msg_pair_def)

text \<open>The branch of the timer, up to the call of the scheduler.\<close>

lemma wp_clock_tick:
  assumes s: "kinv s H Q" "addr_ok s" "bus_ok s" "pending_line s = Some 2"
    and t: "pseudo_tick (ticked (int_enter s)) \<ge> SCHED_PSEUDO_CLOCK" "SSI_reachable lay s Q BUS_INTERVALTIMER"
    and P: "\<And>s1 Q1. tick_told lay s H Q s1 Q1 \<Longrightarrow> bus_ok s1 \<Longrightarrow> now s1 0 = now (int_enter s) 3 \<Longrightarrow> wp scheduler P E s1"
    and full: "no_message lay s Q BUS_INTERVALTIMER \<Longrightarrow> E PANIC"
  shows "wp (int_handler lay dev) P E s"
proof -
  let ?e = "int_enter s" and ?c = "current_thread s" and ?x = BUS_INTERVALTIMER and ?m = "int_msg_addr lay (interrupt_i s)"
  have "wp (timer_interrupt lay) (\<lambda>_ s'. wp scheduler P E (s'\<lparr>interrupt_i := (interrupt_i s' + 1) mod 48\<rparr>)) E ?e"
  proof (rule wp_timer_interrupt[where H = H and Q = Q])
    fix s1 Q1
    assume t1: "told_SSI lay ?e H Q ?x PSEUDOCLOCK_MSG 0 s1 Q1" and b1: "bus_ok s1" and p: "pseudo_tick s1 = 0"
      and c: "current_thread s1 = current_thread ?e" and tc: "tcbs s1 (current_thread ?e) = tcbs ?e (current_thread ?e)"
      and sv: "service_data s1 = service_data ?e" and st: "start_pseudo_tick s1 = now ?e 2" "now s1 0 = now ?e 3"
    have k1: "kinv s1 H Q1" using t1 by (simp add: told_SSI_def)
    have so: "slice_over s1 = slice_over ?e" using c tc by (simp add: slice_over_def)
    have i: "interrupt_i s1 = interrupt_i s" using service_data_fields(8)[OF sv] by simp
    show "wp timer_tail (\<lambda>_ s'. wp scheduler P E (s'\<lparr>interrupt_i := (interrupt_i s' + 1) mod 48\<rparr>)) E s1"
    proof (rule wp_timer_tail[OF k1 b1])
      fix L
      let ?s2 = "s1\<lparr>current_thread := NULL, lst := L, interrupt_i := (interrupt_i s + 1) mod 48\<rparr>"
      assume o: "slice_over s1" and k: "kinv (s1\<lparr>current_thread := NULL, lst := L\<rparr>) H (Q1(Ready_queue := Q1 Ready_queue @ [current_thread s1]))"
      have "?c \<noteq> NULL" "?c = current_thread s1" using o c by (simp_all add: slice_over_def)
      from ipc_of_preempt[OF this(2,1)] k
      have "tick_told lay s H Q ?s2 (Q1(Ready_queue := Q1 Ready_queue @ [?c]))"
        using t1 o so c p st(1) by (simp add: tick_told_def told_SSI_def Let_def)
      moreover have "bus_ok ?s2" "now ?s2 0 = now ?e 3" using b1 st(2) by (simp_all add: bus_ok_def now_def time_scale_def)
      ultimately have "wp scheduler P E ?s2" by (rule P)
      then show "wp scheduler P E (s1\<lparr>current_thread := NULL, lst := L,
          interrupt_i := (interrupt_i (s1\<lparr>current_thread := NULL, lst := L\<rparr>) + 1) mod 48\<rparr>)" by (simp add: i)
    next
      fix v
      let ?s2 = "s1\<lparr>mem := (mem s1)(?x \<mapsto> v), interrupt_i := (interrupt_i s + 1) mod 48\<rparr>"
      assume o: "\<not> slice_over s1"
      have "?x \<notin> msg_words ?m" using t(2) by (auto simp: SSI_reachable_def int_msg_ok_def)
      then have "?m \<noteq> ?x" "?m + 4 \<noteq> ?x" "?m + 8 \<noteq> ?x" by (auto simp: msg_words_def)
      moreover have "ipc_of ?s2 Q1 = ipc_of s1 Q1" by (rule ipc_of_cong) simp_all
      ultimately have "tick_told lay s H Q ?s2 Q1"
        using t1 o so p st(1) by (simp add: tick_told_def told_SSI_def Let_def)
      moreover have "bus_ok ?s2" "now ?s2 0 = now ?e 3" using b1 st(2) by (simp_all add: bus_ok_def now_def time_scale_def)
      ultimately have "wp scheduler P E ?s2" by (rule P)
      then show "wp scheduler P E (s1\<lparr>mem := (mem s1)(?x \<mapsto> v),
          interrupt_i := (interrupt_i (s1\<lparr>mem := (mem s1)(?x \<mapsto> v)\<rparr>) + 1) mod 48\<rparr>)" by (simp add: i)
    qed
  qed (use s t full in simp_all)
  then show ?thesis unfolding wp_int_handler[OF s(1,3)] s(4) by (simp add: serve_line_def)
qed

text \<open>When the scheduler gives the processor to a thread, the time since the last count is added to the pseudo clock.\<close>

lemma scheduler_tick:
  assumes "kinv s H Q" and "bus_ok s"
  shows "wp scheduler (\<lambda>r s'. r \<noteq> WAIT \<longrightarrow> pseudo_tick s' = pseudo_tick s + (now s 0 - start_pseudo_tick s)) (\<lambda>_. True) s"
  by (rule wp_scheduler[OF assms]) (simp_all add: timed_def ticked_def now_def time_scale_def)

text \<open>
  C33. When 100 milliseconds of the pseudo clock have passed at a timer interrupt, the SSI is
  sent an urgent message in the name of the timer, which it receives before all others: the next
  entry of the interrupt messages, which the memory then holds with the service
  \<open>PSEUDOCLOCK_MSG\<close>. The count starts again: when a thread is resumed, the pseudo clock is the
  time between two readings of the clock, the one that followed the message and the next. The
  interrupted thread is preempted only if its slice is used up. The kernel panics when the
  message cannot be sent.
\<close>

theorem clock_tick_reported:
  assumes "kinv s H Q" and "addr_ok s" and "bus_ok s" and "pending_line s = Some 2"
    and "pseudo_tick (ticked (int_enter s)) \<ge> SCHED_PSEUDO_CLOCK" and "SSI_reachable lay s Q BUS_INTERVALTIMER"
    and "m = int_msg_addr lay (interrupt_i s)"
  shows "if no_message lay s Q BUS_INTERVALTIMER then int_handler lay dev s = Inl PANIC
     else \<exists>s1 Q1. tick_told lay s H Q s1 Q1 \<and> int_handler lay dev s = scheduler s1 \<and>
       (case int_handler lay dev s of
          Inr (r, s') \<Rightarrow> scheduled s1 H Q1 r s' \<and>
            mem s' m = Some PSEUDOCLOCK_MSG \<and> mem s' (m + 4) = Some 0 \<and> mem s' (m + 8) = Some NOREPLY \<and>
            pseudo_tick s' = (if r = WAIT then 0 else now (int_enter s) 3 - now (int_enter s) 2)
        | Inl e \<Rightarrow> nothing_runs s1 Q1 e)"
proof -
  define out where "out s1 Q1 r s' \<longleftrightarrow> scheduled s1 H Q1 r s' \<and>
      mem s' m = Some PSEUDOCLOCK_MSG \<and> mem s' (m + 4) = Some 0 \<and> mem s' (m + 8) = Some NOREPLY \<and>
      pseudo_tick s' = (if r = WAIT then 0 else now (int_enter s) 3 - now (int_enter s) 2)" for s1 Q1 r s'
  let ?G = "\<lambda>s1 Q1. tick_told lay s H Q s1 Q1 \<and> bus_ok s1 \<and> now s1 0 = now (int_enter s) 3"
  have nm: "m \<noteq> BUS_INTERVALTIMER" "m + 4 \<noteq> BUS_INTERVALTIMER" "m + 8 \<noteq> BUS_INTERVALTIMER"
    using assms(6,7) by (auto simp: SSI_reachable_def int_msg_ok_def msg_words_def)
  have sch: "wp scheduler (out s1 Q1) (nothing_runs s1 Q1) s1" if g: "?G s1 Q1" for s1 Q1
  proof -
    have k1: "kinv s1 H Q1" using g by (simp add: tick_told_def Let_def)
    have "wp scheduler (scheduled s1 H Q1) (nothing_runs s1 Q1) s1" by (rule wp_scheduler_after[OF k1]) (use g in simp_all)
    with scheduler_tick[OF k1, of] g nm show ?thesis
      by (auto simp: wp_def out_def scheduled_def tick_told_def Let_def assms(7)[symmetric] idle_state_def
          split: sum.splits prod.splits rom_call.splits)
  qed
  show ?thesis
  proof (cases "no_message lay s Q BUS_INTERVALTIMER")
    case True
    have "wp (int_handler lay dev) (\<lambda>_ _. False) (\<lambda>e. e = PANIC) s"
      by (rule wp_clock_tick[OF assms(1-6)]) (use True tick_told_sent in blast)+
    with True show ?thesis by (simp add: wp_def split: sum.splits prod.splits)
  next
    case False
    have "wp (int_handler lay dev) (\<lambda>r s'. \<exists>s1 Q1. ?G s1 Q1 \<and> scheduler s1 = Inr (r, s')) (\<lambda>e. \<exists>s1 Q1. ?G s1 Q1 \<and> scheduler s1 = Inl e) s"
      by (rule wp_clock_tick[OF assms(1-6)]) (use False in \<open>auto simp: wp_def split: sum.splits\<close>)
    then obtain s1 Q1 where g: "?G s1 Q1" and e: "int_handler lay dev s = scheduler s1"
      by (auto simp: wp_def split: sum.splits prod.splits)
    have "case int_handler lay dev s of Inr (r, s') \<Rightarrow> out s1 Q1 r s' | Inl e \<Rightarrow> nothing_runs s1 Q1 e"
      using sch[OF g] by (simp add: e wp_def)
    with False g e show ?thesis unfolding out_def by auto
  qed
qed

lemma ex_tick:
  fixes s defines "s \<equiv> (ex_irq 0x400)\<lparr>pseudo_tick := 100000\<rparr>"
  shows "kinv s ex_H ex_run_Q" "addr_ok s" "bus_ok s" "pending_line s = Some 2"
    "pseudo_tick (ticked (int_enter s)) \<ge> SCHED_PSEUDO_CLOCK" "SSI_reachable ex_lay s ex_run_Q BUS_INTERVALTIMER"
    "\<not> no_message ex_lay s ex_run_Q BUS_INTERVALTIMER"
proof -
  show "kinv s ex_H ex_run_Q" "addr_ok s" "bus_ok s" "pending_line s = Some 2"
    using ex_irq_ok[of "0x400"] ex_irq_line(3) by (simp_all add: s_def addr_ok_def bus_ok_def pending_line_def)
  have "current_thread s = 0x200" by (simp add: s_def ex_irq_fields)
  then show "pseudo_tick (ticked (int_enter s)) \<ge> SCHED_PSEUDO_CLOCK"
    by (simp add: int_enter_def ticked_def enter_def now_def)
       (simp add: s_def ex_irq_def ex_state_def time_scale_def map_add_def)
  have i: "ipc_of s ex_run_Q = ipc_of (ex_irq 0x400) ex_run_Q" by (rule ipc_of_cong) (simp_all add: s_def)
  have "SSI_reachable ex_lay s ex_run_Q = SSI_reachable ex_lay (ex_irq 0x400) ex_run_Q"
    by (rule report_cong(2)[OF _ _ i]) (simp_all add: s_def reply_of_def)
  moreover have "no_message ex_lay s ex_run_Q = no_message ex_lay (ex_irq 0x400) ex_run_Q"
    by (rule report_cong(3)[OF _ _ i]) (simp_all add: s_def reply_of_def)
  ultimately show "SSI_reachable ex_lay s ex_run_Q BUS_INTERVALTIMER" "\<not> no_message ex_lay s ex_run_Q BUS_INTERVALTIMER"
    using ex_irq_SSI[of BUS_INTERVALTIMER "0x400"] by simp_all
qed

theorem clock_tick_reported_witness:
  "\<exists>s1 Q1. tick_told ex_lay ((ex_irq 0x400)\<lparr>pseudo_tick := 100000\<rparr>) ex_H ex_run_Q s1 Q1 \<and>
     int_handler ex_lay ex_dev ((ex_irq 0x400)\<lparr>pseudo_tick := 100000\<rparr>) = scheduler s1 \<and> mem s1 0x4000 = Some PSEUDOCLOCK_MSG"
proof -
  let ?s = "(ex_irq 0x400)\<lparr>pseudo_tick := 100000\<rparr>"
  have m: "int_msg_addr ex_lay (interrupt_i (ex_irq 0x400)) = 0x4000" by (simp add: int_msg_addr_def ex_lay_def ex_irq_fields)
  from clock_tick_reported[OF ex_tick(1-6) refl, of ex_dev] ex_tick(7)
  obtain s1 Q1 where "tick_told ex_lay ?s ex_H ex_run_Q s1 Q1" "int_handler ex_lay ex_dev ?s = scheduler s1" by auto
  moreover from this(1) have "mem s1 0x4000 = Some PSEUDOCLOCK_MSG" by (simp add: tick_told_def Let_def m)
  ultimately show ?thesis by blast
qed

end
