(* ===== verification/Boot.thy ===== *)
theory Boot
  imports Interrupts Ssi
begin

text \<open>
  \<^verbatim>\<open>phase2/src/boot.c\<close>: the population of the new areas and \<open>main\<close>, which sets up the
  kernel's data, creates the SSI and the test thread and enters the scheduler.
\<close>

unbundle bit_operations_syntax

section \<open>The routines\<close>

definition RAMTOP :: "U32 kmon" where
  "RAMTOP =
     kbind (mem_read BUS_RAMBASEADDR) (\<lambda>base.
     kbind (mem_read BUS_INSTALLEDRAM) (\<lambda>size. kreturn (base + size)))"

definition area_populate :: "U32 \<Rightarrow> U32 \<Rightarrow> unit kmon" where
  "area_populate area handler =
     kbind (kget cpu) (\<lambda>st.
     kbind RAMTOP (\<lambda>top.
     let st1 = gpr_set reg_t9 handler (st\<lparr>pc_epc := handler\<rparr>);
         st2 = gpr_set reg_sp top st1;
         st3 = st2\<lparr>status := status st2 AND NOT STATUS_KUc\<rparr>;
         st4 = st3\<lparr>status := status st3 AND NOT STATUS_VMc\<rparr>;
         st5 = st4\<lparr>status := status st4 AND NOT STATUS_IEc\<rparr> in
     kmodify (\<lambda>s. s\<lparr>areas := (areas s)(area := st5)\<rparr>)))"

text \<open>The state both initial threads get: interrupts on, no virtual memory, kernel mode.\<close>

definition boot_state :: "U32 \<Rightarrow> U32 \<Rightarrow> state_t \<Rightarrow> state_t" where
  "boot_state sp entry st =
     (let st1 = st\<lparr>status := (status st OR STATUS_IEp OR STATUS_INT_UNMASKED)
                             AND NOT STATUS_KUp AND NOT STATUS_VMp\<rparr>;
          st2 = gpr_set reg_sp sp st1 in
      gpr_set reg_t9 entry (st2\<lparr>pc_epc := entry\<rparr>))"

definition create_boot_thread :: "(U32 \<Rightarrow> kstate \<Rightarrow> kstate) \<Rightarrow> U32 \<Rightarrow> U32 \<Rightarrow> unit kmon" where
  "create_boot_thread set_global frames entry =
     kbind allocTcb (\<lambda>p.
     kthen (kmodify (set_global p))
     (if p = NULL then kstop PANIC
      else
        kbind RAMTOP (\<lambda>top.
        kthen (upd_tcb p (\<lambda>t. t\<lparr>t_state := boot_state (top - frames * FRAME_SIZE) entry (t_state t)\<rparr>))
        (kthen (insertThread Ready_queue p)
        (kmodify (\<lambda>s. s\<lparr>thread_count := thread_count s + 1\<rparr>))))))"

definition init_globals :: "kstate \<Rightarrow> kstate" where
  "init_globals s = s\<lparr>thread_count := 0, soft_block_count := 0, current_thread := NULL,
     pseudo_tick := 0, start_pseudo_tick := 0, current_thread_tod := 0\<rparr>"

definition main :: "layout \<Rightarrow> rom_call kmon" where
  "main lay =
     kthen (area_populate SYSBK_NEWAREA (sysbp_handler_addr lay))
     (kthen (area_populate PGMTRAP_NEWAREA (pgmtrap_handler_addr lay))
     (kthen (area_populate TLB_NEWAREA (tlb_handler_addr lay))
     (kthen (area_populate INT_NEWAREA (int_handler_addr lay))
     (kthen (initTcbs lay)
     (kthen (initMsg lay)
     (kthen (mkEmptyThreadQ Ready_queue)
     (kthen (mkEmptyThreadQ Wait_queue)
     (kthen (kmodify init_globals)
     (kthen (create_boot_thread (\<lambda>p s. s\<lparr>SSI_tcb := p\<rparr>) 1 (SSI_thread_addr lay))
     (kthen (create_boot_thread (\<lambda>p s. s\<lparr>TEST_tcb := p\<rparr>) 2 (test_addr lay))
     (kbind GET_TODLOW (\<lambda>t.
     kthen (kmodify (\<lambda>s. s\<lparr>start_pseudo_tick := t\<rparr>))
     scheduler))))))))))))"

end
