(* ===== verification/Boot_Props.thy ===== *)
theory Boot_Props
  imports Boot Int_Props
begin

text \<open>
  The boot of the kernel: \<open>main\<close> establishes the invariant of all queues and gives the
  processor to the SSI, with the test thread ready behind it.
\<close>

unbundle bit_operations_syntax

section \<open>Creating a thread at boot\<close>

lemma wp_RAMTOP:
  assumes "mem s BUS_RAMBASEADDR = Some base" and "mem s BUS_INSTALLEDRAM = Some ram"
  shows "wp RAMTOP P E s = P (base + ram) s"
  using assms by (simp add: RAMTOP_def)

definition booted :: "U32 \<Rightarrow> U32 \<Rightarrow> tcb_t \<Rightarrow> tcb_t" where
  "booted sp entry t = (fresh_tcb t)\<lparr>t_state := boot_state sp entry (t_state (fresh_tcb t))\<rparr>"

lemma wp_create_boot_thread:
  assumes r: "rep s H Q" and h: "Ready_queue \<in> H" "Tcbfree_sentinel \<in> H" and q: "Q Tcbfree_sentinel = p # ps"
    and nc: "\<And>x. x \<in> set (p # ps) \<Longrightarrow> T_child x \<notin> H \<and> T_inbox x \<notin> H \<and> unlinked H Q By_t_sib x"
    and un: "\<And>k. k \<in> H \<Longrightarrow> linker_of k = By_t_next \<Longrightarrow> k \<noteq> Tcbfree_sentinel \<Longrightarrow> p \<notin> set (Q k)"
    and m: "mem s BUS_RAMBASEADDR = Some base" "mem s BUS_INSTALLEDRAM = Some ram"
    and g: "set_global = (\<lambda>p s. s\<lparr>SSI_tcb := p\<rparr>) \<or> set_global = (\<lambda>p s. s\<lparr>TEST_tcb := p\<rparr>)"
    and T: "\<And>t. T t = booted (base + ram - frames * FRAME_SIZE) entry t"
    and P: "\<And>t L s'. tcbs s p = Some t \<Longrightarrow> p \<noteq> NULL \<Longrightarrow>
       s' = (set_global p s)\<lparr>tcbs := (tcbs s)(p \<mapsto> T t), thread_count := thread_count s + 1, lst := L\<rparr> \<Longrightarrow>
       rep s' (insert (T_inbox p) (insert (T_child p) H))
         (Q(Tcbfree_sentinel := ps, T_child p := [], T_inbox p := [], Ready_queue := Q Ready_queue @ [p])) \<Longrightarrow> P () s'"
  shows "wp (create_boot_thread set_global frames entry) P E s"
proof -
  let ?H = "insert (T_inbox p) (insert (T_child p) H)"
  let ?rest = "\<lambda>p. if p = NULL then kstop PANIC else
        kbind RAMTOP (\<lambda>top.
        kthen (upd_tcb p (\<lambda>t. t\<lparr>t_state := boot_state (top - frames * FRAME_SIZE) entry (t_state t)\<rparr>))
        (kthen (insertThread Ready_queue p)
        (kmodify (\<lambda>s. s\<lparr>thread_count := thread_count s + 1\<rparr>))))"
  have "wp allocTcb (\<lambda>p. wp (kthen (kmodify (set_global p)) (?rest p)) P E) E s"
  proof (rule wp_allocTcb[OF r h(2)])
    fix p' ps' t L
    assume q': "Q Tcbfree_sentinel = p' # ps'" and t: "tcbs s p' = Some t" and nz: "p' \<noteq> NULL"
      and r1: "rep (s\<lparr>lst := L, tcbs := (tcbs s)(p' \<mapsto> fresh_tcb t)\<rparr>) (insert (T_inbox p') (insert (T_child p') H))
         (Q(Tcbfree_sentinel := ps', T_child p' := [], T_inbox p' := []))"
    have eq: "p' = p" "ps' = ps" using q q' by simp_all
    define Q1 where "Q1 = Q(Tcbfree_sentinel := ps, T_child p := [], T_inbox p := [])"
    define s1 where "s1 = (set_global p s)\<lparr>tcbs := (tcbs s)(p \<mapsto> T t), lst := L\<rparr>"
    have same: "lst s1 = L" "tcbs s1 = (tcbs s)(p \<mapsto> T t)" "msgs s1 = msgs s" "thread_count s1 = thread_count s" using g by (auto simp: s1_def)
    have "rep s1 ?H Q1 = rep (s\<lparr>lst := L, tcbs := (tcbs s)(p \<mapsto> fresh_tcb t)\<rparr>) ?H Q1"
      by (rule rep_cong[OF _ lvalid_cong]) (use same in auto)
    with r1 have rs1: "rep s1 ?H Q1" by (simp add: eq Q1_def)
    have dis: "p \<notin> set ps" using rep_distinct[OF r h(2)] q by simp
    have up: "unlinked ?H Q1 By_t_next p"
      unfolding unlinked_def Q1_def using un dis by auto
    have ins: "wp (insertThread Ready_queue p) (\<lambda>_. wp (kmodify (\<lambda>s. s\<lparr>thread_count := thread_count s + 1\<rparr>)) P E) E s1"
    proof (rule wp_insertThread[OF rs1 _ _ up])
      fix L'
      assume r2: "rep (s1\<lparr>lst := L'\<rparr>) ?H (Q1(Ready_queue := Q1 Ready_queue @ [p]))"
      define s' where "s' = (set_global p s)\<lparr>tcbs := (tcbs s)(p \<mapsto> T t), thread_count := thread_count s + 1, lst := L'\<rparr>"
      have s': "s1\<lparr>lst := L', thread_count := thread_count (s1\<lparr>lst := L'\<rparr>) + 1\<rparr> = s'"
        using g by (auto simp: s1_def s'_def)
      have "rep s' ?H (Q1(Ready_queue := Q1 Ready_queue @ [p])) = rep (s1\<lparr>lst := L'\<rparr>) ?H (Q1(Ready_queue := Q1 Ready_queue @ [p]))"
        by (rule rep_cong[OF _ lvalid_cong]) (use g in \<open>auto simp: s1_def s'_def\<close>)
      with r2 have "rep s' ?H (Q(Tcbfree_sentinel := ps, T_child p := [], T_inbox p := [], Ready_queue := Q Ready_queue @ [p]))"
        by (simp add: Q1_def)
      then have "P () s'" using P[of t s' L'] t nz by (simp add: eq s'_def)
      then show "wp (kmodify (\<lambda>s. s\<lparr>thread_count := thread_count s + 1\<rparr>)) P E (s1\<lparr>lst := L'\<rparr>)"
        using s' by simp
    qed (use h same in simp_all)
    have ord: "(set_global p (s\<lparr>lst := L, tcbs := (tcbs s)(p \<mapsto> fresh_tcb t)\<rparr>))\<lparr>tcbs := (tcbs s)(p \<mapsto> T t)\<rparr> = s1"
      using g by (auto simp: s1_def)
    have top: "wp RAMTOP R E (set_global p (s\<lparr>lst := L, tcbs := (tcbs s)(p \<mapsto> fresh_tcb t)\<rparr>))
      = R (base + ram) (set_global p (s\<lparr>lst := L, tcbs := (tcbs s)(p \<mapsto> fresh_tcb t)\<rparr>))" for R
      by (rule wp_RAMTOP) (use m g in auto)
    have tc: "tcbs (set_global p (s\<lparr>lst := L, tcbs := (tcbs s)(p \<mapsto> fresh_tcb t)\<rparr>)) = (tcbs s)(p \<mapsto> fresh_tcb t)" using g by auto
    show "wp (kthen (kmodify (set_global p')) (?rest p')) P E (s\<lparr>lst := L, tcbs := (tcbs s)(p' \<mapsto> fresh_tcb t)\<rparr>)"
      using nz ins by (simp add: eq top tc ord[unfolded T booted_def FRAME_SIZE_def])
  qed (use nc q in auto)
  then show ?thesis by (simp add: create_boot_thread_def)
qed

section \<open>The new areas and the lists\<close>

definition vector :: "U32 \<Rightarrow> U32 \<Rightarrow> state_t \<Rightarrow> state_t" where
  "vector handler rtop st = (gpr_set reg_sp rtop (gpr_set reg_t9 handler (st\<lparr>pc_epc := handler\<rparr>)))
     \<lparr>status := ((status st AND NOT STATUS_KUc) AND NOT STATUS_VMc) AND NOT STATUS_IEc\<rparr>"

lemma wp_area_populate:
  assumes "mem s BUS_RAMBASEADDR = Some base" and "mem s BUS_INSTALLEDRAM = Some ram"
  shows "wp (area_populate area handler) P E s
    = P () (s\<lparr>areas := (areas s)(area := vector handler (base + ram) (cpu s))\<rparr>)"
  using assms by (simp add: area_populate_def wp_RAMTOP vector_def gpr_set_def Let_def)

definition new_areas :: "layout \<Rightarrow> U32 \<Rightarrow> kstate \<Rightarrow> kstate" where
  "new_areas lay rtop s = s\<lparr>areas := (areas s)(
     SYSBK_NEWAREA := vector (sysbp_handler_addr lay) rtop (cpu s), PGMTRAP_NEWAREA := vector (pgmtrap_handler_addr lay) rtop (cpu s),
     TLB_NEWAREA := vector (tlb_handler_addr lay) rtop (cpu s), INT_NEWAREA := vector (int_handler_addr lay) rtop (cpu s))\<rparr>"

definition boot_heads :: "list_head set" where
  "boot_heads = {Ready_queue, Wait_queue, Tcbfree_sentinel, Msgfree_sentinel}"

definition boot_lists :: "layout \<Rightarrow> U32 list \<Rightarrow> U32 list \<Rightarrow> list_head \<Rightarrow> U32 list" where
  "boot_lists lay ready free h =
     (if h = Ready_queue then ready else if h = Tcbfree_sentinel then free
      else if h = Msgfree_sentinel then msg_array lay else [])"

lemma wp_boot_lists:
  assumes "pools_ok s" and "tcb_layout lay s" and "msg_layout lay s"
    and P: "\<And>L. rep (s\<lparr>lst := L\<rparr>) boot_heads (boot_lists lay [] (thread_array lay)) \<Longrightarrow> wp rest P E (s\<lparr>lst := L\<rparr>)"
  shows "wp (kthen (initTcbs lay) (kthen (initMsg lay) (kthen (mkEmptyThreadQ Ready_queue)
           (kthen (mkEmptyThreadQ Wait_queue) rest)))) P E s"
proof -
  let ?Q0 = "\<lambda>_. [] :: U32 list" and ?q = "thread_array lay" and ?m = "msg_array lay"
  have r0: "rep s {} ?Q0" using assms(1) by (simp add: rep_def rings_def)
  have "wp (initTcbs lay) (\<lambda>_. wp (initMsg lay) (\<lambda>_. wp (kthen (mkEmptyThreadQ Ready_queue)
           (kthen (mkEmptyThreadQ Wait_queue) rest)) P E) E) E s"
  proof (rule wp_initTcbs[OF r0 _ assms(2)])
    fix L assume r1: "rep (s\<lparr>lst := L\<rparr>) {Tcbfree_sentinel} (?Q0(Tcbfree_sentinel := ?q))"
    show "wp (initMsg lay) (\<lambda>_. wp (kthen (mkEmptyThreadQ Ready_queue)
           (kthen (mkEmptyThreadQ Wait_queue) rest)) P E) E (s\<lparr>lst := L\<rparr>)"
    proof (rule wp_initMsg[OF r1])
      fix L2 assume r2: "rep (s\<lparr>lst := L, lst := L2\<rparr>) {Msgfree_sentinel, Tcbfree_sentinel}
         (?Q0(Tcbfree_sentinel := ?q, Msgfree_sentinel := ?m))"
      let ?L3 = "self_loop Ready_queue L2" and ?L4 = "self_loop Wait_queue (self_loop Ready_queue L2)"
      have "rep (s\<lparr>lst := ?L3\<rparr>) {Ready_queue, Msgfree_sentinel, Tcbfree_sentinel}
         (?Q0(Tcbfree_sentinel := ?q, Msgfree_sentinel := ?m, Ready_queue := []))"
        using rep_self_loop[where s = s and L = L2 and l = Ready_queue, OF r2[simplified]] by simp
      from rep_self_loop[where s = s and L = ?L3 and l = Wait_queue, OF this]
      have "rep (s\<lparr>lst := ?L4\<rparr>) {Wait_queue, Ready_queue, Msgfree_sentinel, Tcbfree_sentinel}
         (?Q0(Tcbfree_sentinel := ?q, Msgfree_sentinel := ?m, Ready_queue := [], Wait_queue := []))" by simp
      also have "{Wait_queue, Ready_queue, Msgfree_sentinel, Tcbfree_sentinel} = boot_heads" by (auto simp: boot_heads_def)
      also have "?Q0(Tcbfree_sentinel := ?q, Msgfree_sentinel := ?m, Ready_queue := [], Wait_queue := []) = boot_lists lay [] ?q"
        by (auto simp: boot_lists_def fun_eq_iff)
      finally show "wp (kthen (mkEmptyThreadQ Ready_queue) (kthen (mkEmptyThreadQ Wait_queue) rest)) P E (s\<lparr>lst := L, lst := L2\<rparr>)"
        using P[of ?L4] by (simp add: mkEmptyThreadQ_def)
    qed (use assms(3) in \<open>simp_all add: msg_layout_def unlinked_def\<close>)
  qed (simp_all add: unlinked_def)
  then show ?thesis by simp
qed

section \<open>The first two threads\<close>

lemma wp_main_areas:
  assumes "mem s BUS_RAMBASEADDR = Some base" and "mem s BUS_INSTALLEDRAM = Some ram"
  shows "wp (kthen (area_populate SYSBK_NEWAREA (sysbp_handler_addr lay))
     (kthen (area_populate PGMTRAP_NEWAREA (pgmtrap_handler_addr lay))
     (kthen (area_populate TLB_NEWAREA (tlb_handler_addr lay))
     (kthen (area_populate INT_NEWAREA (int_handler_addr lay)) rest)))) P E s
    = wp rest P E (new_areas lay (base + ram) s)"
  using assms by (simp add: wp_area_populate new_areas_def)

definition first_thread :: "U32 \<Rightarrow> U32 \<Rightarrow> tcb_t" where
  "first_thread sp entry = \<lparr>t_parent = NULL, t_state = boot_state sp entry zero_state,
     waiting_for = - 1, reply = - 1, sysbp_manager_thread = NULL, pgmtrap_manager_thread = NULL,
     tlbtrap_manager_thread = NULL, cpu_time = 0, cpu_slice = 0\<rparr>"

lemma booted_first_thread: "length (gpr (t_state t)) = 29 \<Longrightarrow> booted sp entry t = first_thread sp entry"
  by (cases t) (simp add: booted_def first_thread_def fresh_tcb_def init_t_state_eq)

definition two_threads :: "layout \<Rightarrow> U32 \<Rightarrow> U32 \<Rightarrow> U32 \<Rightarrow> kstate \<Rightarrow> kstate" where
  "two_threads lay rtop p0 p1 s = s\<lparr>SSI_tcb := p0, TEST_tcb := p1, thread_count := 2,
     tcbs := (tcbs s)(p0 \<mapsto> first_thread (rtop - FRAME_SIZE) (SSI_thread_addr lay),
                      p1 \<mapsto> first_thread (rtop - 2 * FRAME_SIZE) (test_addr lay))\<rparr>"

definition first_heads :: "U32 \<Rightarrow> U32 \<Rightarrow> list_head set" where
  "first_heads p0 p1 = {T_inbox p1, T_child p1, T_inbox p0, T_child p0} \<union> boot_heads"

lemma wp_boot_threads:
  assumes r: "rep s boot_heads (boot_lists lay [] (p0 # p1 # ps))" and z: "thread_count s = 0" and d: "distinct (p0 # p1 # ps)"
    and m: "mem s BUS_RAMBASEADDR = Some base" "mem s BUS_INSTALLEDRAM = Some ram"
    and g: "\<And>p t. tcbs s p = Some t \<Longrightarrow> length (gpr (t_state t)) = 29"
    and P: "\<And>L s'. s' = (two_threads lay (base + ram) p0 p1 s)\<lparr>lst := L\<rparr> \<Longrightarrow>
       rep s' (first_heads p0 p1) (boot_lists lay [p0, p1] ps) \<Longrightarrow> wp rest P E s'"
  shows "wp (kthen (create_boot_thread (\<lambda>p s. s\<lparr>SSI_tcb := p\<rparr>) 1 (SSI_thread_addr lay))
     (kthen (create_boot_thread (\<lambda>p s. s\<lparr>TEST_tcb := p\<rparr>) 2 (test_addr lay)) rest)) P E s"
proof -
  have "wp (create_boot_thread (\<lambda>p s. s\<lparr>SSI_tcb := p\<rparr>) 1 (SSI_thread_addr lay))
    (\<lambda>_. wp (create_boot_thread (\<lambda>p s. s\<lparr>TEST_tcb := p\<rparr>) 2 (test_addr lay)) (\<lambda>_. wp rest P E) E) E s"
  proof (rule wp_create_boot_thread[OF r _ _ _ _ _ m disjI1[OF refl] refl])
    fix t L s1
    assume t: "tcbs s p0 = Some t" and s1: "s1 = s\<lparr>SSI_tcb := p0,
        tcbs := (tcbs s)(p0 \<mapsto> booted (base + ram - 1 * FRAME_SIZE) (SSI_thread_addr lay) t), thread_count := thread_count s + 1, lst := L\<rparr>"
      and r1: "rep s1 (insert (T_inbox p0) (insert (T_child p0) boot_heads))
        ((boot_lists lay [] (p0 # p1 # ps))(Tcbfree_sentinel := p1 # ps, T_child p0 := [], T_inbox p0 := [],
           Ready_queue := boot_lists lay [] (p0 # p1 # ps) Ready_queue @ [p0]))"
    have "(boot_lists lay [] (p0 # p1 # ps))(Tcbfree_sentinel := p1 # ps, T_child p0 := [], T_inbox p0 := [],
           Ready_queue := boot_lists lay [] (p0 # p1 # ps) Ready_queue @ [p0]) = boot_lists lay [p0] (p1 # ps)"
      by (auto simp: boot_lists_def fun_eq_iff)
    with r1 have r1': "rep s1 (insert (T_inbox p0) (insert (T_child p0) boot_heads)) (boot_lists lay [p0] (p1 # ps))" by simp
    show "wp (create_boot_thread (\<lambda>p s. s\<lparr>TEST_tcb := p\<rparr>) 2 (test_addr lay)) (\<lambda>_. wp rest P E) E s1"
    proof (rule wp_create_boot_thread[OF r1' _ _ _ _ _ _ _ disjI2[OF refl] refl])
      fix t' L' s2
      assume t': "tcbs s1 p1 = Some t'" and s2: "s2 = s1\<lparr>TEST_tcb := p1,
          tcbs := (tcbs s1)(p1 \<mapsto> booted (base + ram - 2 * FRAME_SIZE) (test_addr lay) t'), thread_count := thread_count s1 + 1, lst := L'\<rparr>"
        and r2: "rep s2 (insert (T_inbox p1) (insert (T_child p1) (insert (T_inbox p0) (insert (T_child p0) boot_heads))))
          ((boot_lists lay [p0] (p1 # ps))(Tcbfree_sentinel := ps, T_child p1 := [], T_inbox p1 := [],
            Ready_queue := boot_lists lay [p0] (p1 # ps) Ready_queue @ [p1]))"
      have "(boot_lists lay [p0] (p1 # ps))(Tcbfree_sentinel := ps, T_child p1 := [], T_inbox p1 := [],
            Ready_queue := boot_lists lay [p0] (p1 # ps) Ready_queue @ [p1]) = boot_lists lay [p0, p1] ps"
        by (auto simp: boot_lists_def fun_eq_iff)
      with r2 have r2': "rep s2 (first_heads p0 p1) (boot_lists lay [p0, p1] ps)" by (simp add: first_heads_def insert_commute)
      have t1: "tcbs s p1 = Some t'" using t' d by (auto simp: s1)
      have "s2 = (two_threads lay (base + ram) p0 p1 s)\<lparr>lst := L'\<rparr>"
        unfolding s2 s1 two_threads_def booted_first_thread[OF g[OF t]] booted_first_thread[OF g[OF t1]] using z by simp
      from P[OF this r2'] show "wp rest P E s2" .
    qed (use d m in \<open>auto simp: boot_lists_def boot_heads_def unlinked_def s1\<close>)
  qed (use d in \<open>auto simp: boot_lists_def boot_heads_def unlinked_def\<close>)
  then show ?thesis by simp
qed

lemma boot_kinv:
  assumes "rep s (first_heads p0 p1) (boot_lists lay [p0, p1] ps)" and "distinct (p0 # p1 # ps)"
    and "dom (tcbs s) = set (p0 # p1 # ps)" and "dom (msgs s) = set (msg_array lay)"
    and "current_thread s = NULL" and "thread_count s = 2"
  shows "kinv s (first_heads p0 p1) (boot_lists lay [p0, p1] ps)"
proof (rule kinv_intro[OF assms(1)])
  have l: "live s (boot_lists lay [p0, p1] ps) = {p0, p1}" using assms(5) by (auto simp: live_def boot_lists_def)
  show "base_heads s (boot_lists lay [p0, p1] ps) \<subseteq> first_heads p0 p1"
    by (auto simp: base_heads_def l first_heads_def boot_heads_def)
  show "thread_count s = of_nat (card (live s (boot_lists lay [p0, p1] ps)))"
    using assms(2,6) by (simp add: l)
  have "(tcbs s p \<noteq> None) = (p \<in> set (p0 # p1 # ps))" "(msgs s m \<noteq> None) = (m \<in> set (msg_array lay))" for p m
    unfolding domIff[symmetric] using assms(3,4) by simp_all
  then show "accounted s (boot_lists lay [p0, p1] ps)"
    by (simp add: accounted_def l boot_lists_def)
qed (use assms(5) in simp)

lemma wp_first_dispatch:
  assumes k: "kinv s H (boot_lists lay (p # ps') ps)" and b: "bus_ok s" and c: "current_thread s = NULL"
    and t: "tcbs s p = Some t" "cpu_slice t = 0"
    and P: "\<And>s'. kinv s' H (boot_lists lay ps' ps) \<Longrightarrow> current_thread s' = p \<Longrightarrow> tcbs s' = tcbs s \<Longrightarrow>
      service_data s' = service_data s \<Longrightarrow> soft_block_count s' = soft_block_count s \<Longrightarrow> bus_ok s' \<Longrightarrow>
      (\<And>a. a \<noteq> BUS_INTERVALTIMER \<Longrightarrow> mem s' a = mem s a) \<Longrightarrow> P (LDST (t_state t)) s'"
  shows "wp scheduler P E s"
proof (rule wp_scheduler[OF k b])
  fix p2 ps2 t2 L s1
  assume "boot_lists lay (p # ps') ps Ready_queue = p2 # ps2" "tcbs s p2 = Some t2"
    and s1: "s1 = s\<lparr>current_thread := p2, tcbs := (tcbs s)(p2 \<mapsto> t2\<lparr>cpu_slice := 0\<rparr>), lst := L\<rparr>"
    and k1: "kinv s1 H ((boot_lists lay (p # ps') ps)(Ready_queue := ps2))"
  then have e: "p2 = p" "ps2 = ps'" "t2 = t" using t by (simp_all add: boot_lists_def)
  have "(boot_lists lay (p # ps') ps)(Ready_queue := ps') = boot_lists lay ps' ps" by (auto simp: boot_lists_def)
  with k1 have "kinv (timed SCHED_TIME_SLICE s1) H (boot_lists lay ps' ps)" by (simp add: e)
  moreover have tt: "(tcbs s)(p \<mapsto> t\<lparr>cpu_slice := 0\<rparr>) = tcbs s" using t by auto
  moreover have "bus_ok s1" using b by (simp add: s1 bus_ok_def)
  ultimately show "P (LDST (t_state t2)) (timed SCHED_TIME_SLICE s1)"
    using P[of "timed SCHED_TIME_SLICE s1"] timed_mem(1)[of s1] timed_mem(2)[of _ SCHED_TIME_SLICE s1] t by (simp add: s1 e)
qed (use c in \<open>simp_all add: boot_lists_def\<close>)

section \<open>Boot\<close>

text \<open>What \<open>main\<close> leaves, with what it does not touch.\<close>

lemma boot_result:
  assumes "pools_ok s" and "tcb_layout lay s" and "msg_layout lay s"
    and "dom (tcbs s) = set (thread_array lay)" and "dom (msgs s) = set (msg_array lay)"
    and "\<forall>t\<in>ran (tcbs s). length (gpr (t_state t)) = 29"
    and "MAGIC_SSI \<notin> set (thread_array lay)" and "BUS_INTERVALTIMER \<notin> set (thread_array lay)"
    and "bus_ok s" and "mem s BUS_RAMBASEADDR = Some base" and "mem s BUS_INSTALLEDRAM = Some ram"
  shows "\<exists>p0 p1 ps s'. thread_array lay = p0 # p1 # ps \<and>
     main lay s = Inr (LDST (boot_state (base + ram - FRAME_SIZE) (SSI_thread_addr lay) zero_state), s') \<and>
     kinv s' (first_heads p0 p1) (boot_lists lay [p1] ps) \<and> addr_ok s' \<and> bus_ok s' \<and>
     current_thread s' = p0 \<and> SSI_tcb s' = p0 \<and> TEST_tcb s' = p1 \<and> thread_count s' = 2 \<and> soft_block_count s' = 0 \<and>
     tcbs s' p0 = Some (first_thread (base + ram - FRAME_SIZE) (SSI_thread_addr lay)) \<and>
     tcbs s' p1 = Some (first_thread (base + ram - 2 * FRAME_SIZE) (test_addr lay)) \<and>
     areas s' = (areas s)(
       SYSBK_NEWAREA := vector (sysbp_handler_addr lay) (base + ram) (cpu s),
       PGMTRAP_NEWAREA := vector (pgmtrap_handler_addr lay) (base + ram) (cpu s),
       TLB_NEWAREA := vector (tlb_handler_addr lay) (base + ram) (cpu s),
       INT_NEWAREA := vector (int_handler_addr lay) (base + ram) (cpu s)) \<and>
     (trap_managers s' = trap_managers s \<and> interrupt_i s' = interrupt_i s \<and>
      (\<forall>p. p \<noteq> p0 \<and> p \<noteq> p1 \<longrightarrow> tcbs s' p = tcbs s p) \<and> (\<forall>a. a \<noteq> BUS_INTERVALTIMER \<longrightarrow> mem s' a = mem s a))"
    (is "\<exists>p0 p1 ps s'. _ \<and> main lay s = Inr (?r, s') \<and> ?post p0 p1 ps s'")
proof -
  have "length (thread_array lay) = Suc (Suc 18)" using assms(2) by (simp add: tcb_layout_def)
  then obtain p0 p1 ps where q: "thread_array lay = p0 # p1 # ps" by (cases "thread_array lay"; cases "tl (thread_array lay)") auto
  have d: "distinct (p0 # p1 # ps)" using assms(2) by (simp add: tcb_layout_def flip: q)
  let ?s = "new_areas lay (base + ram) s"
  have same: "tcbs ?s = tcbs s" "msgs ?s = msgs s" "mem ?s = mem s" by (simp_all add: new_areas_def)
  have lv: "lvalid ?s = lvalid s" by (rule lvalid_cong) (simp_all add: same)
  have ok: "pools_ok ?s" "tcb_layout lay ?s" "msg_layout lay ?s"
    using assms(1-3) pools_ok_cong[OF lv] by (simp_all add: tcb_layout_def msg_layout_def same)
  have "wp (main lay) (\<lambda>r s'. r = ?r \<and> ?post p0 p1 ps s') no_stop s"
    unfolding main_def wp_main_areas[OF assms(10,11)]
  proof (rule wp_boot_lists[OF ok], unfold wp_kthen wp_kmodify)
    fix L
    let ?s1 = "init_globals (?s\<lparr>lst := L\<rparr>)"
    assume "rep (?s\<lparr>lst := L\<rparr>) boot_heads (boot_lists lay [] (thread_array lay))"
    moreover have "lvalid ?s1 = lvalid (?s\<lparr>lst := L\<rparr>)" by (rule lvalid_cong) (simp_all add: init_globals_def)
    ultimately have r1: "rep ?s1 boot_heads (boot_lists lay [] (p0 # p1 # ps))"
      using rep_cong[of ?s1 "?s\<lparr>lst := L\<rparr>"] by (simp add: q init_globals_def)
    have x: "mem ?s1 = mem s" "tcbs ?s1 = tcbs s" "thread_count ?s1 = 0" by (simp_all add: init_globals_def same)
    show "wp (create_boot_thread (\<lambda>p s. s\<lparr>SSI_tcb := p\<rparr>) 1 (SSI_thread_addr lay))
      (\<lambda>_. wp (create_boot_thread (\<lambda>p s. s\<lparr>TEST_tcb := p\<rparr>) 2 (test_addr lay))
      (\<lambda>_. wp (kbind GET_TODLOW (\<lambda>t. kthen (kmodify (\<lambda>s. s\<lparr>start_pseudo_tick := t\<rparr>)) scheduler))
      (\<lambda>r s'. r = ?r \<and> ?post p0 p1 ps s') no_stop) no_stop) no_stop ?s1"
      unfolding wp_kthen[symmetric]
    proof (rule wp_boot_threads[OF r1 x(3) d, unfolded x, OF assms(10,11)])
      fix L2 s2
      assume s2: "s2 = (two_threads lay (base + ram) p0 p1 ?s1)\<lparr>lst := L2\<rparr>"
        and r2: "rep s2 (first_heads p0 p1) (boot_lists lay [p0, p1] ps)"
      let ?s3 = "s2\<lparr>tod_reads := Suc (tod_reads s2), start_pseudo_tick := now s2 0\<rparr>"
      have f: "dom (tcbs s2) = set (p0 # p1 # ps)" "dom (msgs s2) = set (msg_array lay)" "mem s2 = mem s"
        "current_thread s2 = NULL" "thread_count s2 = 2" "soft_block_count s2 = 0" "areas s2 = areas ?s"
        using assms(4,5) unfolding q by (auto simp: s2 two_threads_def init_globals_def same)
      have k: "kinv ?s3 (first_heads p0 p1) (boot_lists lay [p0, p1] ps)"
        using boot_kinv[OF r2 d f(1,2,4,5)] by simp
      have b: "bus_ok s2" "bus_ok ?s3" using assms(9) f(3) by (simp_all add: bus_ok_def)
      have T: "tcbs s2 p0 = Some (first_thread (base + ram - FRAME_SIZE) (SSI_thread_addr lay))"
        "tcbs s2 p1 = Some (first_thread (base + ram - 2 * FRAME_SIZE) (test_addr lay))"
        "SSI_tcb s2 = p0" "TEST_tcb s2 = p1" using d by (simp_all add: s2 two_threads_def)
      have n: "tcbs s2 MAGIC_SSI = None" "tcbs s2 BUS_INTERVALTIMER = None" using f(1) assms(7,8) by (auto simp: q)
      have "wp scheduler (\<lambda>r s'. r = ?r \<and> ?post p0 p1 ps s') no_stop ?s3"
      proof (rule wp_first_dispatch[OF k b(2)])
        fix s4
        assume "kinv s4 (first_heads p0 p1) (boot_lists lay [p1] ps)" and s4: "current_thread s4 = p0" "tcbs s4 = tcbs ?s3"
          "service_data s4 = service_data ?s3" "soft_block_count s4 = soft_block_count ?s3" "bus_ok s4"
          "\<And>a. a \<noteq> BUS_INTERVALTIMER \<Longrightarrow> mem s4 a = mem ?s3 a"
        moreover have "addr_ok s4" using n T service_data_fields(1)[OF s4(3)] s4(2) by (simp add: addr_ok_def)
        moreover have "trap_managers s2 = trap_managers s" "interrupt_i s2 = interrupt_i s" "\<forall>p. p \<noteq> p0 \<and> p \<noteq> p1 \<longrightarrow> tcbs s2 p = tcbs s p"
          by (simp_all add: s2 two_threads_def init_globals_def same) (simp_all add: new_areas_def)
        ultimately show "LDST (t_state (first_thread (base + ram - FRAME_SIZE) (SSI_thread_addr lay))) = ?r \<and> ?post p0 p1 ps s4"
          using T f service_data_fields[OF s4(3)] by (simp add: new_areas_def first_thread_def)
      qed (use f T in \<open>simp_all add: first_thread_def\<close>)
      then show "wp (kbind GET_TODLOW (\<lambda>t. kthen (kmodify (\<lambda>s. s\<lparr>start_pseudo_tick := t\<rparr>)) scheduler))
          (\<lambda>r s'. r = ?r \<and> ?post p0 p1 ps s') no_stop s2"
        using b by (simp add: wp_GET_TODLOW)
    qed (use assms(6) in \<open>auto simp: ran_def\<close>)
  qed
  with q show ?thesis by (auto simp: wp_total)
qed

text \<open>
  C7. The kernel boots: from any state of the links, \<open>main\<close> builds the two pools and the two
  empty queues, creates the SSI and the test thread with their stacks on the last two frames of
  memory, kernel mode and interrupts on, and enters the SSI. The state it leaves satisfies the
  invariant of the kernel, with the test thread ready, all other TCBs and all messages free,
  and the four new areas hold the entry points of the handlers.
\<close>

theorem boot_establishes_invariant:
  assumes "pools_ok s" and "tcb_layout lay s" and "msg_layout lay s"
    and "dom (tcbs s) = set (thread_array lay)" and "dom (msgs s) = set (msg_array lay)"
    and "\<forall>t\<in>ran (tcbs s). length (gpr (t_state t)) = 29"
    and "MAGIC_SSI \<notin> set (thread_array lay)" and "BUS_INTERVALTIMER \<notin> set (thread_array lay)"
    and "bus_ok s" and "mem s BUS_RAMBASEADDR = Some base" and "mem s BUS_INSTALLEDRAM = Some ram"
  shows "\<exists>p0 p1 ps s'. thread_array lay = p0 # p1 # ps \<and>
     main lay s = Inr (LDST (boot_state (base + ram - FRAME_SIZE) (SSI_thread_addr lay) zero_state), s') \<and>
     kinv s' (first_heads p0 p1) (boot_lists lay [p1] ps) \<and> addr_ok s' \<and> bus_ok s' \<and>
     current_thread s' = p0 \<and> SSI_tcb s' = p0 \<and> TEST_tcb s' = p1 \<and> thread_count s' = 2 \<and> soft_block_count s' = 0 \<and>
     tcbs s' p0 = Some (first_thread (base + ram - FRAME_SIZE) (SSI_thread_addr lay)) \<and>
     tcbs s' p1 = Some (first_thread (base + ram - 2 * FRAME_SIZE) (test_addr lay)) \<and>
     areas s' = (areas s)(
       SYSBK_NEWAREA := vector (sysbp_handler_addr lay) (base + ram) (cpu s),
       PGMTRAP_NEWAREA := vector (pgmtrap_handler_addr lay) (base + ram) (cpu s),
       TLB_NEWAREA := vector (tlb_handler_addr lay) (base + ram) (cpu s),
       INT_NEWAREA := vector (int_handler_addr lay) (base + ram) (cpu s))"
  using boot_result[OF assms] by blast

definition ex_power_on :: kstate where
  "ex_power_on = ex_reset\<lparr>mem := [0x10000000 \<mapsto> 0x20000000, 0x10000004 \<mapsto> 0x100000, 0x10000024 \<mapsto> 1, 0x10000020 \<mapsto> 0]\<rparr>"

lemma ex_power_on_ok:
  "pools_ok ex_power_on" "tcb_layout ex_lay ex_power_on" "msg_layout ex_lay ex_power_on" "bus_ok ex_power_on"
proof -
  have f: "tcbs ex_power_on = tcbs ex_reset" "msgs ex_power_on = msgs ex_reset" by (simp_all add: ex_power_on_def)
  have "lvalid ex_power_on = lvalid ex_reset" by (rule lvalid_cong) (simp_all add: f)
  then show "pools_ok ex_power_on" using pools_ok_cong ex_reset_ok(1) by metis
  show "tcb_layout ex_lay ex_power_on" "msg_layout ex_lay ex_power_on"
    using ex_reset_ok by (simp_all add: tcb_layout_def msg_layout_def f)
  show "bus_ok ex_power_on" by (simp add: bus_ok_def ex_power_on_def)
qed

theorem boot_establishes_invariant_witness:
  "\<exists>s'. main ex_lay ex_power_on = Inr (LDST (boot_state 0x200FF000 0x5400 zero_state), s') \<and>
     current_thread s' = 0x1000 \<and> kinv s' (first_heads 0x1000 0x1100) (boot_lists ex_lay [0x1100] (drop 2 (thread_array ex_lay)))"
proof -
  have d: "dom (tcbs ex_power_on) = set (thread_array ex_lay)" "dom (msgs ex_power_on) = set (msg_array ex_lay)"
    by (auto simp: ex_power_on_def ex_reset_def dom_def split: if_splits)
  have g: "\<forall>t\<in>ran (tcbs ex_power_on). length (gpr (t_state t)) = 29"
    by (auto simp: ex_power_on_def ex_reset_def ran_def ex_tcb_def split: if_splits)
  have n: "MAGIC_SSI \<notin> set (thread_array ex_lay)" "BUS_INTERVALTIMER \<notin> set (thread_array ex_lay)"
    by (simp_all add: ex_lay_def upt_rec)
  have m: "mem ex_power_on BUS_RAMBASEADDR = Some 0x20000000" "mem ex_power_on BUS_INSTALLEDRAM = Some 0x100000"
    by (simp_all add: ex_power_on_def)
  have a: "thread_array ex_lay = 0x1000 # 0x1100 # drop 2 (thread_array ex_lay)" by (simp add: ex_lay_def upt_rec)
  have e: "SSI_thread_addr ex_lay = 0x5400" by (simp add: ex_lay_def)
  obtain p0 p1 ps s' where s': "thread_array ex_lay = p0 # p1 # ps"
    "main ex_lay ex_power_on = Inr (LDST (boot_state (0x20000000 + 0x100000 - FRAME_SIZE) 0x5400 zero_state), s')"
    "kinv s' (first_heads p0 p1) (boot_lists ex_lay [p1] ps)" "current_thread s' = p0"
    using boot_establishes_invariant[OF ex_power_on_ok(1-3) d g n ex_power_on_ok(4) m] unfolding e by blast
  moreover have "p0 = 0x1000" "p1 = 0x1100" "ps = drop 2 (thread_array ex_lay)" using s'(1) a by simp_all
  ultimately show ?thesis by simp
qed

end
