(* ===== verification/Ssi_Calls.thy ===== *)
theory Ssi_Calls
  imports Ssi Handlers
begin

text \<open>
  The kernel calls as a thread sees them: the rules for \<open>MsgSend\<close> and \<open>MsgRecv\<close> run by a
  thread in kernel mode, on any machine that satisfies \<open>rom_ok\<close>.
\<close>

section \<open>A running thread\<close>

definition thread_runs :: "kstate \<Rightarrow> list_head set \<Rightarrow> (list_head \<Rightarrow> U32 list) \<Rightarrow> U32 \<Rightarrow> bool" where
  "thread_runs s H Q c \<longleftrightarrow> kinv s H Q \<and> addr_ok s \<and> bus_ok s \<and> current_thread s = c \<and> c \<noteq> NULL \<and>
     kernel_mode (cpu s) \<and> length (gpr (cpu s)) = 29 \<and> c \<notin> set (trap_managers s) \<and>
     (case tcbs s c of None \<Rightarrow> False | Some t \<Rightarrow> length (gpr (t_state t)) = 29)"

lemma thread_runsD:
  assumes "thread_runs s H Q c"
  shows "kinv s H Q" "addr_ok s" "bus_ok s" "current_thread s = c" "c \<noteq> NULL" "kernel_mode (cpu s)"
    "length (gpr (cpu s)) = 29" "c \<notin> set (trap_managers s)"
  using assms by (simp_all add: thread_runs_def)

text \<open>What a call keeps of the data of the services: all but the old area.\<close>

definition same_service :: "kstate \<Rightarrow> kstate \<Rightarrow> bool" where
  "same_service s s' \<longleftrightarrow> service_data s' = service_data (s\<lparr>areas := areas s'\<rparr>)"

lemma same_service_fields:
  assumes "same_service s s'"
  shows "SSI_tcb s' = SSI_tcb s" "TEST_tcb s' = TEST_tcb s" "thread_count s' = thread_count s"
    "trap_managers s' = trap_managers s" "devStatus_array s' = devStatus_array s" "devTcb_array s' = devTcb_array s"
    "clockTcb_array s' = clockTcb_array s" "interrupt_i s' = interrupt_i s"
    "map_option tcb_links (tcbs s' p) = map_option tcb_links (tcbs s p)" "tcbs s' p = None \<longleftrightarrow> tcbs s p = None"
  using service_data_fields[OF assms[unfolded same_service_def]] by simp_all

lemma same_service_refl [simp]: "same_service s s"
  by (simp add: same_service_def)

lemma same_service_trans: "same_service s s1 \<Longrightarrow> same_service s1 s2 \<Longrightarrow> same_service s s2"
  unfolding same_service_def service_data_def by simp

section \<open>The machine\<close>

lemma rom_trap:
  assumes "rom_ok rom" and "length (gpr st) = 29" and "kernel_mode st"
  shows "length (gpr (trap rom st a0 a1 a2)) = 29" "gpr_get (trap rom st a0 a1 a2) reg_a0 = a0"
    "gpr_get (trap rom st a0 a1 a2) reg_a1 = a1" "gpr_get (trap rom st a0 a1 a2) reg_a2 = a2"
    "kernel_syscall (trap rom st a0 a1 a2)" "status (trap rom st a0 a1 a2) AND STATUS_KUp = 0"
  using assms(2,3) assms(1)[unfolded rom_ok_def, THEN conjunct1, rule_format, of st a0 a1 a2]
  by (simp_all add: Let_def kernel_syscall_def)

lemma rom_load:
  assumes "rom_ok rom"
  shows "gpr (load rom st) = gpr st" "kernel_mode (load rom st) \<longleftrightarrow> status st AND STATUS_KUp = 0"
  using assms by (simp_all add: rom_ok_def)

text \<open>The processor after the call: the registers of the caller with the result in \<open>v0\<close>.\<close>

lemma rom_resumes:
  assumes "rom_ok rom" and "length (gpr st) = 29" and "kernel_mode st"
    and "st' = load rom (gpr_set reg_v0 v ((trap rom st a0 a1 a2)\<lparr>pc_epc := pc\<rparr>))"
  shows "kernel_mode st'" "length (gpr st') = 29" "gpr_get st' reg_v0 = v"
  using rom_trap[OF assms(1-3), of a0 a1 a2] rom_load[OF assms(1)]
  by (simp_all add: assms(4) gpr_set_def gpr_get_def)

text \<open>The state in which the trap enters the handler.\<close>

definition trapped :: "rom \<Rightarrow> U32 \<Rightarrow> U32 \<Rightarrow> U32 \<Rightarrow> kstate \<Rightarrow> kstate" where
  "trapped rom a0 a1 a2 s = s\<lparr>areas := (areas s)(SYSBK_OLDAREA := trap rom (cpu s) a0 a1 a2)\<rparr>"

lemma trapped_frame [simp]:
  "kinv (trapped rom a0 a1 a2 s) H Q = kinv s H Q" "addr_ok (trapped rom a0 a1 a2 s) = addr_ok s"
  "bus_ok (trapped rom a0 a1 a2 s) = bus_ok s" "ipc_of (trapped rom a0 a1 a2 s) Q = ipc_of s Q"
  "reply_of (trapped rom a0 a1 a2 s) p = reply_of s p" "masked_sender (trapped rom a0 a1 a2 s) p = masked_sender s p"
  "reply_ok (trapped rom a0 a1 a2 s) p = reply_ok s p"
  "current_thread (trapped rom a0 a1 a2 s) = current_thread s" "mem (trapped rom a0 a1 a2 s) = mem s"
  "tcbs (trapped rom a0 a1 a2 s) = tcbs s" "trap_managers (trapped rom a0 a1 a2 s) = trap_managers s"
  "soft_block_count (trapped rom a0 a1 a2 s) = soft_block_count s" "SSI_tcb (trapped rom a0 a1 a2 s) = SSI_tcb s"
  "areas (trapped rom a0 a1 a2 s) 0x20000348 = trap rom (cpu s) a0 a1 a2"
  by (simp_all add: trapped_def addr_ok_def bus_ok_def reply_of_def reply_ok_def masked_sender_def
       ipc_of_cong[of "s\<lparr>areas := _\<rparr>" s])

lemma same_service_trapped: "service_data s' = service_data (trapped rom a0 a1 a2 s) \<Longrightarrow> same_service s s'"
  using service_data_fields(9)[of s' "trapped rom a0 a1 a2 s"]
  by (simp add: same_service_def) (simp add: trapped_def)

section \<open>The calls\<close>

lemma wp_SYSCALL:
  "wp (SYSCALL rom a0 a1 a2) P E s = wp sysbp_handler (\<lambda>r s'. case r of
       LDST st \<Rightarrow> P (if current_thread s' = current_thread s then Some (gpr_get (load rom st) reg_v0) else None) (s'\<lparr>cpu := load rom st\<rparr>)
     | WAIT \<Rightarrow> P None s') E (trapped rom a0 a1 a2 s)"
  unfolding SYSCALL_def trapped_def wp_kbind wp_kget wp_kthen wp_kmodify
  by (rule arg_cong[where f = "\<lambda>R. wp sysbp_handler R E _"]) (rule ext, rule ext, simp split: rom_call.split)

text \<open>A call that returns to its caller leaves a running thread.\<close>

lemma thread_runs_after:
  assumes "rom_ok rom" and "thread_runs s H Q c" and "old = trap rom (cpu s) a0 a1 a2"
    and "st = gpr_set reg_v0 v (old\<lparr>pc_epc := pc_epc old + WORD_SIZE\<rparr>)" and "map_option t_state (tcbs s' c) = Some st"
    and "kinv s' H Q'" and "addr_ok s'" and "bus_ok s'" and "current_thread s' = c"
    and "service_data s' = service_data (trapped rom a0 a1 a2 s)"
  shows "thread_runs (s'\<lparr>cpu := load rom st\<rparr>) H Q' c" "ipc_of (s'\<lparr>cpu := load rom st\<rparr>) Q' = ipc_of s' Q'"
    "same_service s (s'\<lparr>cpu := load rom st\<rparr>)" "gpr_get (load rom st) reg_v0 = v"
proof -
  note d = thread_runsD[OF assms(2)]
  have "load rom st = load rom (gpr_set reg_v0 v ((trap rom (cpu s) a0 a1 a2)\<lparr>pc_epc := pc_epc old + WORD_SIZE\<rparr>))"
    by (simp only: assms(3,4))
  note re = rom_resumes[OF assms(1) d(7,6) this]
  show "gpr_get (load rom st) reg_v0 = v" by (rule re(3))
  have "length (gpr st) = 29" using rom_load(1)[OF assms(1)] re(2) by simp
  then show "thread_runs (s'\<lparr>cpu := load rom st\<rparr>) H Q' c"
    using assms(5-9) re(1,2) d(5,8) service_data_fields(4)[OF assms(10)]
    by (auto simp: thread_runs_def addr_ok_def bus_ok_def split: option.splits)
  show "ipc_of (s'\<lparr>cpu := load rom st\<rparr>) Q' = ipc_of s' Q'" by (rule ipc_of_cong) simp_all
  show "same_service s (s'\<lparr>cpu := load rom st\<rparr>)" using assms(10) by (intro same_service_trapped) simp
qed

lemma trapped_regs_ok:
  "rom_ok rom \<Longrightarrow> thread_runs s H Q c \<Longrightarrow> regs_ok (trapped rom a0 a1 a2 s) SYSBK_OLDAREA"
  using rom_trap(1)[of rom "cpu s"] by (auto simp: regs_ok_def thread_runs_def split: option.splits)

lemma wp_MsgSend:
  assumes rom: "rom_ok rom" and run: "thread_runs s H Q c"
    and tgt: "tgt = (if dest = MAGIC_SSI then SSI_tcb s else dest)" "tgt \<noteq> NULL" and x: "x = masked_sender s c"
    and ro: "a_awaits (ipc_of s Q) x tgt \<Longrightarrow> reply_ok s tgt"
    and P: "\<And>r A s' Q'. a_send x tgt v (ipc_of s Q) = Some (r, A) \<Longrightarrow> thread_runs s' H Q' c \<Longrightarrow> tree_kept Q Q' \<Longrightarrow> ipc_of s' Q' = A \<Longrightarrow>
        same_service s s' \<Longrightarrow> soft_block_count s' = soft_block_count s + (if dest = MAGIC_SSI then 1 else 0) \<Longrightarrow>
        (\<And>a. a \<noteq> BUS_INTERVALTIMER \<Longrightarrow> mem s' a = (if a_awaits (ipc_of s Q) x tgt \<and> a = reply_of s tgt then Some v else mem s a)) \<Longrightarrow>
        (\<And>q. q \<noteq> c \<Longrightarrow> tcbs s' q = woken_up s x tgt (a_awaits (ipc_of s Q) x tgt) q) \<Longrightarrow> P () s'"
    and E: "a_send x tgt v (ipc_of s Q) = None \<Longrightarrow> E PANIC"
  shows "wp (MsgSend rom SEND dest v) P E s"
  unfolding MsgSend_def wp_kbind wp_SYSCALL
proof (rule wp_send_call[where H = H and Q = Q and c = c and x = x and v = v and tgt = tgt and old = "trap rom (cpu s) SEND dest v"])
  fix r A s' Q'
  let ?s = "trapped rom SEND dest v s" and ?old = "trap rom (cpu s) SEND dest v"
  let ?st = "gpr_set reg_v0 r (?old\<lparr>pc_epc := pc_epc ?old + WORD_SIZE\<rparr>)"
  assume a: "a_send x tgt v (ipc_of ?s Q) = Some (r, A)" and k: "kinv s' H Q'" and tk: "tree_kept Q Q'" and k2: "addr_ok s'" "bus_ok s'" and i: "ipc_of s' Q' = A"
    and c': "current_thread s' = c" and sv: "service_data s' = service_data ?s"
    and sb: "soft_block_count s' = soft_block_count ?s + (if gpr_get ?old reg_a1 = MAGIC_SSI then 1 else 0)"
    and me: "\<And>a. a \<noteq> BUS_INTERVALTIMER \<Longrightarrow> mem s' a = (if a_awaits (ipc_of ?s Q) x tgt \<and> a = reply_of ?s tgt then Some v else mem ?s a)"
    and st: "map_option t_state (tcbs s' c) = Some ?st"
    and tw: "\<And>q. q \<noteq> c \<Longrightarrow> tcbs s' q = woken_up ?s x tgt (a_awaits (ipc_of ?s Q) x tgt) q"
  note f = thread_runs_after[OF rom run refl refl st k k2 c' sv]
  have "P () (s'\<lparr>cpu := load rom ?st\<rparr>)"
    using a f(1,3) i sb me tw tk rom_trap(3)[OF rom thread_runsD(7,6)[OF run], of SEND dest v]
    by (intro P[of r A]) (auto simp only: f(2), auto simp: woken_up_def)
  then show "case LDST ?st of
       LDST st \<Rightarrow> wp (case if current_thread s' = current_thread s then Some (gpr_get (load rom st) reg_v0) else None of
           None \<Rightarrow> kstop Preempted | Some v \<Rightarrow> kreturn ()) P E (s'\<lparr>cpu := load rom st\<rparr>)
     | WAIT \<Rightarrow> wp (case None of None \<Rightarrow> kstop Preempted | Some v \<Rightarrow> kreturn ()) P E s'"
    using c' thread_runsD(4)[OF run] by simp
qed (use thread_runsD[OF run] tgt x ro E rom_trap[OF rom thread_runsD(7,6)[OF run], of SEND dest v] trapped_regs_ok[OF rom run]
     in \<open>simp_all add: send_target_def\<close>)

text \<open>
  \<open>MsgRecv\<close>: with a message the caller goes on; without one it is suspended, and the
  processor goes to another thread or waits.
\<close>

lemma wp_MsgRecv:
  assumes rom: "rom_ok rom" and run: "thread_runs s H Q c"
    and mp: "fst (a_recv want (ipc_of s Q)) \<noteq> None \<Longrightarrow> mem s a \<noteq> None \<and> a \<noteq> BUS_TIMESCALE"
    and P1: "\<And>x v s' Q'. fst (a_recv want (ipc_of s Q)) = Some (x, v) \<Longrightarrow> thread_runs s' H Q' c \<Longrightarrow> tree_kept Q Q' \<Longrightarrow>
        ipc_of s' Q' = snd (a_recv want (ipc_of s Q)) \<Longrightarrow> same_service s s' \<Longrightarrow>
        (\<And>b. b \<noteq> BUS_INTERVALTIMER \<Longrightarrow> mem s' b = ((mem s)(a \<mapsto> v)) b) \<Longrightarrow> P (Some x) s'"
    and P2: "\<And>s1 Q1 r s'. fst (a_recv want (ipc_of s Q)) = None \<Longrightarrow> blocked (trapped rom RECV want a s) H Q want a s1 Q1 \<Longrightarrow>
        scheduled s1 H Q1 r s' \<Longrightarrow> current_thread s' \<noteq> c \<Longrightarrow>
        P None (case r of LDST st \<Rightarrow> s'\<lparr>cpu := load rom st\<rparr> | WAIT \<Rightarrow> s')"
    and E: "\<And>s1 Q1 e. fst (a_recv want (ipc_of s Q)) = None \<Longrightarrow> blocked (trapped rom RECV want a s) H Q want a s1 Q1 \<Longrightarrow>
        nothing_runs s1 Q1 e \<Longrightarrow> E e"
  shows "wp (MsgRecv rom RECV want a) P E s"
  unfolding MsgRecv_def wp_SYSCALL
proof (rule wp_recv_call[where H = H and Q = Q and c = c and want = want and a = a and old = "trap rom (cpu s) RECV want a"])
  let ?s = "trapped rom RECV want a s" and ?old = "trap rom (cpu s) RECV want a"
  fix x v s' Q'
  let ?st = "gpr_set reg_v0 x (?old\<lparr>pc_epc := pc_epc ?old + WORD_SIZE\<rparr>)"
  assume fs: "fst (a_recv want (ipc_of ?s Q)) = Some (x, v)" and k: "kinv s' H Q'" and tk: "tree_kept Q Q'" and k2: "addr_ok s'" "bus_ok s'"
    and i: "ipc_of s' Q' = snd (a_recv want (ipc_of ?s Q))" and c': "current_thread s' = c" and sv: "service_data s' = service_data ?s"
    and me: "\<And>b. b \<noteq> BUS_INTERVALTIMER \<Longrightarrow> mem s' b = ((mem ?s)(a \<mapsto> v)) b" and st: "map_option t_state (tcbs s' c) = Some ?st"
  note f = thread_runs_after[OF rom run refl refl st k k2 c' sv]
  have "P (Some x) (s'\<lparr>cpu := load rom ?st\<rparr>)"
    using fs f(1,3) i me tk by (intro P1[of x v]) (auto simp only: f(2), auto)
  then show "case LDST ?st of LDST st \<Rightarrow> P (if current_thread s' = current_thread s then Some (gpr_get (load rom st) reg_v0) else None) (s'\<lparr>cpu := load rom st\<rparr>)
      | WAIT \<Rightarrow> P None s'"
    using c' thread_runsD(4)[OF run] f(4) by simp
next
  let ?s = "trapped rom RECV want a s"
  fix s1 Q1 r s'
  assume n: "fst (a_recv want (ipc_of ?s Q)) = None" and b: "blocked ?s H Q want a s1 Q1" and sc: "scheduled s1 H Q1 r s'"
  note d = thread_runsD[OF run]
  have A: "a_wait (ipc_of s1 Q1) = Q Wait_queue @ [c]" "a_cur (ipc_of s1 Q1) = NULL"
    using b n d(4) by (auto simp: blocked_def a_recv_def Let_def ipc_of_fields split: option.splits)
  have k1: "kinv s1 H Q1" using b by (simp add: blocked_def)
  have w: "c \<in> set (Q1 Wait_queue)" "current_thread s1 = NULL" using A by (simp_all add: ipc_of_fields)
  have "current_thread s' \<noteq> c"
  proof (cases r)
    case (LDST st)
    then have "current_thread s' \<in> set (Q1 Ready_queue)" using sc w by (auto simp: scheduled_def)
    with kinv_disjoint(1)[OF k1] w(1) show ?thesis by auto
  next
    case WAIT
    with sc w d(5) show ?thesis by (auto simp: scheduled_def idle_state_def)
  qed
  with P2[OF _ b sc] n d(4) show "case r of LDST st \<Rightarrow> P (if current_thread s' = current_thread s then Some (gpr_get (load rom st) reg_v0) else None) (s'\<lparr>cpu := load rom st\<rparr>)
      | WAIT \<Rightarrow> P None s'"
    by (cases r) simp_all
qed (use thread_runsD[OF run] mp E rom_trap[OF rom thread_runsD(7,6)[OF run], of RECV want a] trapped_regs_ok[OF rom run]
     in \<open>simp_all\<close>)

section \<open>A machine\<close>

text \<open>
  The status register as the machine handles it: the trap pushes the three pairs of mode and
  interrupt bits, \<open>LDST\<close> pops them.
\<close>

definition ex_rom :: rom where
  "ex_rom = \<lparr>
     trap = (\<lambda>st a0 a1 a2. gpr_set reg_a0 a0 (gpr_set reg_a1 a1 (gpr_set reg_a2 a2
       (st\<lparr>cause := 0x20, status := (status st AND NOT 0x3f) OR push_bit 2 (status st AND 0xf)\<rparr>)))),
     load = (\<lambda>st. st\<lparr>status := (status st AND NOT 0xf) OR drop_bit 2 (status st AND 0x3c)\<rparr>)\<rparr>"

lemma and_bit_iff: "(w :: U32) AND 2 = 0 \<longleftrightarrow> \<not> bit w 1" "(w :: U32) AND 8 = 0 \<longleftrightarrow> \<not> bit w 3"
  using and_exp_eq_0_iff_not_bit[of w 1] and_exp_eq_0_iff_not_bit[of w 3] by simp_all

lemma ex_rom_ok: "rom_ok ex_rom"
proof -
  have "bit (((w :: U32) AND NOT 0x3f) OR push_bit 2 (w AND 0xf)) 3 = bit w 1"
    "bit ((w AND NOT 0xf) OR drop_bit 2 (w AND 0x3c)) 1 = bit w 3" for w
    by (simp_all add: bit_simps)
  then show ?thesis
    by (simp add: rom_ok_def ex_rom_def kernel_mode_def and_bit_iff gpr_set_def gpr_get_def CAUSE_EXCCODE_GET_def)
qed

text \<open>
  The SSI at \<open>0x100\<close> runs, \<open>0x200\<close> is ready and \<open>0x300\<close> waits for the answer of the SSI;
  \<open>ws\<close> are further words of memory.
\<close>

definition ex_ssi :: "(U32 \<times> U32) list \<Rightarrow> kstate" where
  "ex_ssi ws = (ex_state 0x100 [0x200] [0x300] (ex_area 0 0 0 0))
     \<lparr>mem := mem (ex_state 0x100 [0x200] [0x300] (ex_area 0 0 0 0)) ++ map_of ws\<rparr>"

abbreviation "ex_ssi_Q \<equiv> mk_Q (ex_contents [0x200] [0x300])"

lemma ex_ssi_fields:
  "current_thread (ex_ssi ws) = 0x100" "SSI_tcb (ex_ssi ws) = 0x100" "tcbs (ex_ssi ws) = tcbs (ex_state 0x100 [0x200] [0x300] (ex_area 0 0 0 0))"
  "mem (ex_ssi ws) = mem (ex_state 0x100 [0x200] [0x300] (ex_area 0 0 0 0)) ++ map_of ws" "trap_managers (ex_ssi ws) = replicate 20 0"
  "devStatus_array (ex_ssi ws) = replicate 48 (- 1)" "devTcb_array (ex_ssi ws) = replicate 48 0"
  "clockTcb_array (ex_ssi ws) = replicate 20 0" "cpu (ex_ssi ws) = ex_area 0 0 0 0"
  "soft_block_count (ex_ssi ws) = 0" "thread_count (ex_ssi ws) = 3"
  by (simp_all add: ex_ssi_def ex_state_def)

lemma ex_ssi_runs:
  assumes "map_of ws 0x10000024 = None" and "map_of ws 0x10000020 = None"
  shows "thread_runs (ex_ssi ws) ex_H ex_ssi_Q 0x100"
proof -
  have "kinv (ex_state 0x100 [0x200] [0x300] (ex_area 0 0 0 0)) ex_H ex_ssi_Q"
    by (rule ex_kinv) (simp add: snapshot_defs insert_commute)
  then have "kinv (ex_ssi ws) ex_H ex_ssi_Q" by (simp add: ex_ssi_def)
  moreover have "addr_ok (ex_ssi ws)" using ex_addr_ok by (simp add: addr_ok_def ex_ssi_fields ex_fields)
  moreover have "bus_ok (ex_ssi ws)"
    using assms by (simp add: bus_ok_def ex_ssi_fields ex_fields map_add_def split: option.splits)
  ultimately show ?thesis
    by (simp add: thread_runs_def ex_ssi_fields ex_fields ex_tcb_def ex_area_def kernel_mode_def)
qed

end
