(* ===== verification/Ssi_Props.thy ===== *)
theory Ssi_Props
  imports Ssi_Calls
begin

text \<open>
  The services of the SSI. Each theorem follows one or more passes of the loop of
  \<open>SSI_thread\<close>, from the return of \<open>MsgRecv\<close>, in a state that satisfies the invariant
  of the kernel and in which the SSI is the running thread.
\<close>

section \<open>Answers\<close>

text \<open>The thread \<open>p\<close> has made a request and waits for the answer of the SSI at \<open>a\<close>.\<close>

definition asks :: "kstate \<Rightarrow> (list_head \<Rightarrow> U32 list) \<Rightarrow> U32 \<Rightarrow> U32 \<Rightarrow> bool" where
  "asks s Q p a \<longleftrightarrow> p \<in> set (Q Wait_queue) \<and>
     (case tcbs s p of None \<Rightarrow> False | Some t \<Rightarrow> waiting_for t = MAGIC_SSI \<and> reply t = a) \<and>
     mem s a \<noteq> None \<and> a \<noteq> BUS_TIMESCALE \<and> a \<noteq> BUS_INTERVALTIMER"

definition released :: "U32 \<Rightarrow> ipc \<Rightarrow> ipc" where
  "released p A = A\<lparr>a_wait := remove1 p (a_wait A), a_ready := a_ready A @ [p], a_want := (a_want A)(p := - 1)\<rparr>"

text \<open>The answer has been delivered: \<open>p\<close> is ready, woken up by the SSI, and \<open>v\<close> is stored at \<open>a\<close>.\<close>

definition answered :: "kstate \<Rightarrow> list_head set \<Rightarrow> (list_head \<Rightarrow> U32 list) \<Rightarrow> U32 \<Rightarrow> U32 \<Rightarrow> U32 \<Rightarrow> kstate \<Rightarrow> (list_head \<Rightarrow> U32 list) \<Rightarrow> bool" where
  "answered s H Q p a v s' Q' \<longleftrightarrow> thread_runs s' H Q' (SSI_tcb s') \<and> tree_kept Q Q' \<and> ipc_of s' Q' = released p (ipc_of s Q) \<and>
     soft_block_count s' = soft_block_count s \<and>
     (\<forall>b. b \<noteq> BUS_INTERVALTIMER \<longrightarrow> mem s' b = ((mem s)(a \<mapsto> v)) b) \<and>
     (\<forall>q. q \<noteq> SSI_tcb s \<longrightarrow> tcbs s' q = woken_up s MAGIC_SSI p True q)"

lemma asks_awaits:
  assumes "asks s Q p a"
  shows "a_awaits (ipc_of s Q) MAGIC_SSI p" "reply_ok s p" "reply_of s p = a"
  using assms by (auto simp: asks_def a_awaits_def satisfies_def ipc_of_fields reply_ok_def reply_of_def split: option.splits)

lemma asks_thread:
  assumes "thread_runs s H Q c" and "asks s Q p a"
  shows "p \<noteq> NULL" "p \<noteq> MAGIC_SSI" "p \<noteq> BUS_INTERVALTIMER" "p \<noteq> c" "p \<in> live s Q"
proof -
  note d = thread_runsD[OF assms(1)]
  show l: "p \<in> live s Q" using assms(2) by (simp add: asks_def live_def)
  show "p \<noteq> NULL" using kinv_live_not_NULL[OF d(1) l] .
  show "p \<noteq> MAGIC_SSI" "p \<noteq> BUS_INTERVALTIMER" using d(2) assms(2) by (auto simp: addr_ok_def asks_def split: option.splits)
  show "p \<noteq> c" using kinv_current(2)[OF d(1)] d(4,5) assms(2) by (auto simp: asks_def)
qed

lemma wp_answer:
  assumes rom: "rom_ok rom" and run: "thread_runs s H Q (SSI_tcb s)" and p: "asks s Q p a"
    and P: "\<And>s' Q'. answered s H Q p a v s' Q' \<Longrightarrow> same_service s s' \<Longrightarrow> P () s'"
  shows "wp (MsgSend rom SEND p v) P E s"
proof (rule wp_MsgSend[OF rom run])
  note t = asks_thread[OF run p] and w = asks_awaits[OF p]
  have as: "a_send MAGIC_SSI p v (ipc_of s Q) = Some (MSGGOOD, released p (ipc_of s Q))"
    using w(1) by (auto simp: a_send_def a_live_def released_def a_awaits_def)
  show "p = (if p = MAGIC_SSI then SSI_tcb s else p)" "p \<noteq> NULL" "MAGIC_SSI = masked_sender s (SSI_tcb s)"
    using t by (simp_all add: masked_sender_def)
  show "reply_ok s p" by (rule w(2))
  show "E PANIC" if "a_send MAGIC_SSI p v (ipc_of s Q) = None" using that as by simp
  fix r A s' Q'
  assume "a_send MAGIC_SSI p v (ipc_of s Q) = Some (r, A)" and s': "thread_runs s' H Q' (SSI_tcb s)" "tree_kept Q Q'" "ipc_of s' Q' = A" "same_service s s'"
    "soft_block_count s' = soft_block_count s + (if p = MAGIC_SSI then 1 else 0)"
    and m: "\<And>b. b \<noteq> BUS_INTERVALTIMER \<Longrightarrow> mem s' b = (if a_awaits (ipc_of s Q) MAGIC_SSI p \<and> b = reply_of s p then Some v else mem s b)"
    and tw: "\<And>q. q \<noteq> SSI_tcb s \<Longrightarrow> tcbs s' q = woken_up s MAGIC_SSI p (a_awaits (ipc_of s Q) MAGIC_SSI p) q"
  then have A: "A = released p (ipc_of s Q)" using as by simp
  show "P () s'"
    using s' m tw w t A by (intro P) (auto simp: answered_def same_service_fields(1)[OF s'(4)])
qed

lemma ex_ssi_asks: "map_of ws 0x700 = None \<Longrightarrow> asks (ex_ssi ws) ex_ssi_Q 0x300 0x700"
  by (simp add: asks_def ex_ssi_fields ex_fields ex_Q_simps ex_tcb_def map_add_def)

section \<open>Requests\<close>

text \<open>A request is served when its sender is still in one of the queues, and dropped otherwise.\<close>

lemma wp_SSI_serve:
  assumes k: "kinv s H Q" and m: "mem s req = Some service" and "service \<noteq> PSEUDOCLOCK_MSG" and "service \<noteq> INTERRUPT_MSG"
  shows "wp (SSI_serve rom p req) P E s =
    (if p \<in> set (Q Ready_queue) \<union> set (Q Wait_queue) then wp (serve_request rom p req) P E s else P () s)"
proof -
  note r = kinv_rep[OF k] and h = kinv_heads[OF k]
  have "p \<noteq> NULL" if "p \<in> set (Q Ready_queue) \<union> set (Q Wait_queue)"
    using kinv_live_not_NULL[OF k, of p] that by (auto simp: live_def)
  with assms show ?thesis
    by (auto simp: SSI_serve_def wp_thereIsThread[OF r h(1)] wp_thereIsThread[OF r h(2)])
qed

lemma SSI_waiting_request:
  assumes "thread_runs s H Q c" and "asks s Q p a" and "mem s req = Some service"
    and "service \<noteq> PSEUDOCLOCK_MSG" and "service \<noteq> INTERRUPT_MSG"
  shows "wp (SSI_serve rom p req) P E s = wp (serve_request rom p req) P E s"
  using wp_SSI_serve[OF thread_runsD(1)[OF assms(1)] assms(3-5)] assms(2) by (simp add: asks_def)

text \<open>
  \<open>GETCPUTIME\<close>: the thread that asked is answered with its processor time and is ready
  to run; no other thread and none of the SSI's tables change.
\<close>

theorem cpu_time_service:
  assumes "rom_ok rom" and "thread_runs s H Q (SSI_tcb s)" and "asks s Q p a" and "tcbs s p = Some t"
    and "mem s req = Some GETCPUTIME"
  shows "\<exists>s' Q'. SSI_serve rom p req s = Inr ((), s') \<and> answered s H Q p a (cpu_time t) s' Q' \<and> same_service s s'"
proof -
  have "wp (MsgSend rom SEND p (cpu_time t)) (\<lambda>_ s'. \<exists>Q'. answered s H Q p a (cpu_time t) s' Q' \<and> same_service s s') no_stop s"
    by (rule wp_answer[OF assms(1-3)]) blast
  then have "wp (SSI_serve rom p req) (\<lambda>_ s'. \<exists>Q'. answered s H Q p a (cpu_time t) s' Q' \<and> same_service s s') no_stop s"
    using assms(4,5) by (subst SSI_waiting_request[OF assms(2,3,5)]) (simp_all add: serve_request_def get_cpu_time_def)
  then show ?thesis by (auto simp: wp_total)
qed

theorem cpu_time_service_witness:
  "\<exists>s' Q'. SSI_serve ex_rom 0x300 0x800 (ex_ssi [(0x800, 7)]) = Inr ((), s') \<and>
     answered (ex_ssi [(0x800, 7)]) ex_H ex_ssi_Q 0x300 0x700 0 s' Q'"
  using cpu_time_service[OF ex_rom_ok, of "ex_ssi [(0x800, 7)]" ex_H ex_ssi_Q "0x300" "0x700" "ex_tcb 0x200 (- 1) 0x700" "0x800"]
    ex_ssi_runs[of "[(0x800, 7)]"] ex_ssi_asks[of "[(0x800, 7)]"]
  by (auto simp: ex_ssi_fields ex_fields map_add_def ex_tcb_def)

text \<open>
  A request whose sender has been terminated in the meantime is dropped without any
  effect, whatever service it names; and a request for an unknown service by a live thread
  stops the kernel.
\<close>

theorem stale_or_unknown_request:
  assumes "kinv s H Q" and "mem s req = Some service" and "service \<noteq> PSEUDOCLOCK_MSG" and "service \<noteq> INTERRUPT_MSG"
  shows "if p \<in> set (Q Ready_queue) \<union> set (Q Wait_queue)
    then service = 0 \<or> 9 < service \<longrightarrow> SSI_serve rom p req s = Inl PANIC
    else SSI_serve rom p req s = Inr ((), s)"
proof (cases "p \<in> set (Q Ready_queue) \<union> set (Q Wait_queue)")
  case False
  then show ?thesis
    using wp_SSI_serve[OF assms, of rom p "\<lambda>_ s'. s' = s" no_stop] by (auto simp: wp_total)
next
  case True
  have "SSI_serve rom p req s = Inl PANIC" if "service = 0 \<or> 9 < service"
  proof -
    have "wp (SSI_serve rom p req) (\<lambda>_ _. False) may_panic s"
      using wp_SSI_serve[OF assms, of rom p] True assms(2) that by (auto simp: serve_request_def)
    then show ?thesis by (auto simp: wp_def split: sum.splits)
  qed
  with True show ?thesis by simp
qed

theorem stale_or_unknown_request_witness:
  "SSI_serve ex_rom 0x400 0x800 (ex_ssi [(0x800, 3)]) = Inr ((), ex_ssi [(0x800, 3)]) \<and>
   SSI_serve ex_rom 0x300 0x800 (ex_ssi [(0x800, 10)]) = Inl PANIC"
  using stale_or_unknown_request[OF thread_runsD(1)[OF ex_ssi_runs], of "[(0x800, 3)]" "0x800" 3 "0x400" ex_rom]
    stale_or_unknown_request[OF thread_runsD(1)[OF ex_ssi_runs], of "[(0x800, 10)]" "0x800" 10 "0x300" ex_rom]
  by (simp add: ex_ssi_fields map_add_def ex_Q_simps)

section \<open>Devices\<close>

lemma asks_cong:
  "tcbs s' p = tcbs s p \<Longrightarrow> mem s' a = mem s a \<Longrightarrow> asks s' Q p a = asks s Q p a"
  by (simp add: asks_def)

lemma thread_runs_tables [simp]:
  "thread_runs (s\<lparr>devTcb_array := x\<rparr>) H Q c = thread_runs s H Q c"
  "thread_runs (s\<lparr>devStatus_array := x\<rparr>) H Q c = thread_runs s H Q c"
  "thread_runs (s\<lparr>clockTcb_array := x\<rparr>) H Q c = thread_runs s H Q c"
  by (simp_all add: thread_runs_def addr_ok_def bus_ok_def)

lemma ipc_of_tables [simp]:
  "ipc_of (s\<lparr>devTcb_array := x\<rparr>) Q = ipc_of s Q" "ipc_of (s\<lparr>devStatus_array := x\<rparr>) Q = ipc_of s Q"
  "ipc_of (s\<lparr>clockTcb_array := x\<rparr>) Q = ipc_of s Q"
  by (rule ipc_of_cong; simp)+

lemma asks_tables [simp]:
  "asks (s\<lparr>devTcb_array := x\<rparr>) Q p a = asks s Q p a" "asks (s\<lparr>devStatus_array := x\<rparr>) Q p a = asks s Q p a"
  "asks (s\<lparr>clockTcb_array := x\<rparr>) Q p a = asks s Q p a"
  by (simp_all add: asks_def)

lemma answered_tables [simp]:
  "answered (s\<lparr>devTcb_array := x\<rparr>) H Q p a v s' Q' = answered s H Q p a v s' Q'"
  "answered (s\<lparr>devStatus_array := x\<rparr>) H Q p a v s' Q' = answered s H Q p a v s' Q'"
  "answered s H Q p a v (s'\<lparr>devTcb_array := x\<rparr>) Q' = answered s H Q p a v s' Q'"
  "answered s H Q p a v (s'\<lparr>devStatus_array := x\<rparr>) Q' = answered s H Q p a v s' Q'"
  by (simp_all add: answered_def woken_up_def)

text \<open>
  The messages of the interrupt handler: the sender of a device message is the device register,
  the sender of a tick the interval timer; neither is a thread.
\<close>

lemma wp_SSI_kernel_msg:
  assumes m: "mem s msg = Some service" and d: "service = PSEUDOCLOCK_MSG \<and> job = wake_clock rom (MAXTHREADS - 1) 0
      \<or> service = INTERRUPT_MSG \<and> job = serve_interrupt rom dev msg"
    and P: "wp job (\<lambda>_ s'. (\<exists>Q'. kinv s' H Q') \<and> tcbs s' dev = None \<and> P () s') E s"
  shows "wp (SSI_serve rom dev msg) P E s"
proof -
  let ?rest = "kbind (thereIsThread Ready_queue dev) (\<lambda>r. kbind (thereIsThread Wait_queue dev) (\<lambda>w.
      if r \<noteq> NULL \<or> w \<noteq> NULL then serve_request rom dev msg else kreturn ()))"
  have "wp ?rest P E s'" if as: "(\<exists>Q'. kinv s' H Q') \<and> tcbs s' dev = None \<and> P () s'" for s'
  proof -
    obtain Q' where k': "kinv s' H Q'" using as by blast
    note r = kinv_rep[OF k'] and h = kinv_heads[OF k']
    have "dev \<notin> set (Q' Ready_queue)" "dev \<notin> set (Q' Wait_queue)"
      using kinv_tcb[OF k', of dev] as by (auto simp: live_def)
    with as show ?thesis by (simp add: wp_thereIsThread[OF r h(1)] wp_thereIsThread[OF r h(2)])
  qed
  then have "wp job (\<lambda>_. wp ?rest P E) E s" by (intro wp_mono[OF P]) auto
  with m d show ?thesis by (auto simp: SSI_serve_def)
qed

definition io_tables :: "kstate \<Rightarrow> nat \<Rightarrow> bool" where
  "io_tables s n \<longleftrightarrow> n < 48 \<and> length (devStatus_array s) = 48 \<and> length (devTcb_array s) = 48"

text \<open>An interrupt without a waiting thread is remembered; with one it is passed on to that thread.\<close>

lemma wp_interrupt_early:
  assumes "kinv s H Q" and "mem s msg = Some INTERRUPT_MSG" and "mem s (msg + 4) = Some st" and "tcbs s dev = None"
    and "rest_index dev = int n" and "io_tables s n" and "devTcb_array s ! n = NULL"
    and "P () (s\<lparr>devStatus_array := (devStatus_array s)[n := st]\<rparr>)"
  shows "wp (SSI_serve rom dev msg) P E s"
  by (rule wp_SSI_kernel_msg[OF assms(2) disjI2[OF conjI[OF refl refl]], where H = H])
    (use assms in \<open>auto simp: serve_interrupt_def io_tables_def set_nth_def Let_def\<close>)

lemma wp_interrupt_awaited:
  assumes rom: "rom_ok rom" and run: "thread_runs s H Q (SSI_tcb s)" and p: "asks s Q p a"
    and m: "mem s msg = Some INTERRUPT_MSG" "mem s (msg + 4) = Some st" and d: "tcbs s dev = None" "rest_index dev = int n"
    and io: "io_tables s n" "devTcb_array s ! n = p"
    and P: "\<And>s' Q'. answered s H Q p a (st AND STATUSMASK) s' Q' \<Longrightarrow> same_service s s' \<Longrightarrow>
      P () (s'\<lparr>devTcb_array := (devTcb_array s)[n := NULL]\<rparr>)"
  shows "wp (SSI_serve rom dev msg) P E s"
proof (rule wp_SSI_kernel_msg[OF m(1) disjI2[OF conjI[OF refl refl]], where H = H])
  let ?R = "\<lambda>_ s'. (\<exists>Q'. kinv s' H Q') \<and> tcbs s' dev = None \<and> P () s'"
  have "wp (MsgSend rom SEND p (st AND STATUSMASK)) (\<lambda>_. wp (kmodify (\<lambda>s. s\<lparr>devTcb_array := (devTcb_array s)[n := NULL]\<rparr>)) ?R E) E s"
  proof (rule wp_answer[OF rom run p])
    fix s' Q' assume a: "answered s H Q p a (st AND STATUSMASK) s' Q'" and sv: "same_service s s'"
    have "kinv s' H Q'" using a thread_runsD(1) by (auto simp: answered_def)
    then have "Ex (kinv (s'\<lparr>devTcb_array := x\<rparr>) H)" for x by (intro exI[of _ Q']) simp
    moreover have "tcbs s' dev = None" using same_service_fields(10)[OF sv, of dev] d(1) by simp
    ultimately show "wp (kmodify (\<lambda>s. s\<lparr>devTcb_array := (devTcb_array s)[n := NULL]\<rparr>)) ?R E s'"
      using P[OF a sv] same_service_fields(6)[OF sv] unfolding wp_kmodify by simp
  qed
  then show "wp (serve_interrupt rom dev msg) ?R E s"
    using m d io asks_thread(1)[OF run p] by (simp add: serve_interrupt_def io_tables_def Let_def)
qed

lemma wp_io_first:
  assumes "thread_runs s H Q c" and "asks s Q p a" and "mem s req = Some WAITFORIO" and "mem s (req + 4) = Some dev"
    and "rest_index dev = int n" and "io_tables s n" and "devStatus_array s ! n = - 1"
    and "P () (s\<lparr>devTcb_array := (devTcb_array s)[n := p]\<rparr>)"
  shows "wp (SSI_serve rom p req) P E s"
  using assms by (subst SSI_waiting_request[OF assms(1-3)])
    (simp_all add: serve_request_def wait_for_io_def io_tables_def Let_def set_nth_def)

lemma wp_io_second:
  assumes rom: "rom_ok rom" and run: "thread_runs s H Q (SSI_tcb s)" and p: "asks s Q p a"
    and m: "mem s req = Some WAITFORIO" "mem s (req + 4) = Some dev" "rest_index dev = int n"
    and io: "io_tables s n" "devStatus_array s ! n = st" "st \<noteq> - 1"
    and P: "\<And>s' Q'. answered s H Q p a st s' Q' \<Longrightarrow> same_service s s' \<Longrightarrow>
      P () (s'\<lparr>devStatus_array := (devStatus_array s)[n := - 1]\<rparr>)"
  shows "wp (SSI_serve rom p req) P E s"
proof -
  have "wp (MsgSend rom SEND p st) (\<lambda>_. wp (kmodify (\<lambda>s. s\<lparr>devStatus_array := (devStatus_array s)[n := - 1]\<rparr>)) P E) E s"
    by (rule wp_answer[OF rom run p]) (use P same_service_fields(5) in auto)
  then show ?thesis
    using m io by (subst SSI_waiting_request[OF run p m(1)])
      (simp_all add: serve_request_def wait_for_io_def io_tables_def Let_def)
qed

text \<open>
  C23. The rendezvous of a thread with a device, in both orders. If the thread asks first, the
  SSI notes it, and the interrupt wakes it up with the status byte; if the interrupt comes
  first, the SSI keeps the status word, and the request is answered with it at once. Both
  orders leave the tables of the SSI as they were, and the thread ready.
\<close>

theorem io_rendezvous:
  assumes "rom_ok rom" and "thread_runs s H Q (SSI_tcb s)" and "asks s Q p a"
    and "mem s req = Some WAITFORIO" and "mem s (req + 4) = Some dev" and "rest_index dev = int n"
    and "mem s msg = Some INTERRUPT_MSG" and "mem s (msg + 4) = Some st" and "tcbs s dev = None"
    and "io_tables s n" and "devStatus_array s ! n = - 1" and "devTcb_array s ! n = NULL" and "st \<noteq> - 1"
  shows "(\<exists>s' Q'. kthen (SSI_serve rom p req) (SSI_serve rom dev msg) s = Inr ((), s') \<and>
            answered s H Q p a (st AND STATUSMASK) s' Q' \<and> same_service s s') \<and>
         (\<exists>s' Q'. kthen (SSI_serve rom dev msg) (SSI_serve rom p req) s = Inr ((), s') \<and>
            answered s H Q p a st s' Q' \<and> same_service s s')"
proof
  note k = thread_runsD(1)[OF assms(2)]
  have bk: "(devTcb_array s)[n := NULL] = devTcb_array s" "(devStatus_array s)[n := - 1] = devStatus_array s"
    using assms(11,12) by (metis list_update_id)+
  have n: "n < length (devTcb_array s)" "n < length (devStatus_array s)" using assms(10) by (simp_all add: io_tables_def)
  let ?ok = "\<lambda>v _ s'. \<exists>Q'. answered s H Q p a v s' Q' \<and> same_service s s'"
  have "wp (SSI_serve rom p req) (\<lambda>_. wp (SSI_serve rom dev msg) (?ok (st AND STATUSMASK)) no_stop) no_stop s"
  proof (rule wp_io_first[OF assms(2-6,10,11)])
    let ?s = "s\<lparr>devTcb_array := (devTcb_array s)[n := p]\<rparr>"
    show "wp (SSI_serve rom dev msg) (?ok (st AND STATUSMASK)) no_stop ?s"
    proof (rule wp_interrupt_awaited[OF assms(1)])
      fix s' Q' assume "answered ?s H Q p a (st AND STATUSMASK) s' Q'" and "same_service ?s s'"
      then show "?ok (st AND STATUSMASK) () (s'\<lparr>devTcb_array := (devTcb_array ?s)[n := NULL]\<rparr>)"
        by (auto simp: bk(1)[simplified] same_service_def service_data_def)
    qed (use assms n in \<open>simp_all add: io_tables_def\<close>)
  qed
  then show "\<exists>s' Q'. kthen (SSI_serve rom p req) (SSI_serve rom dev msg) s = Inr ((), s') \<and>
            answered s H Q p a (st AND STATUSMASK) s' Q' \<and> same_service s s'"
    unfolding wp_kthen[symmetric] by (auto simp: wp_total simp del: wp_kthen)
  have "wp (SSI_serve rom dev msg) (\<lambda>_. wp (SSI_serve rom p req) (?ok st) no_stop) no_stop s"
  proof (rule wp_interrupt_early[OF k assms(7-9,6,10,12)])
    let ?s = "s\<lparr>devStatus_array := (devStatus_array s)[n := st]\<rparr>"
    show "wp (SSI_serve rom p req) (?ok st) no_stop ?s"
    proof (rule wp_io_second[OF assms(1)])
      fix s' Q' assume "answered ?s H Q p a st s' Q'" and "same_service ?s s'"
      then show "?ok st () (s'\<lparr>devStatus_array := (devStatus_array ?s)[n := - 1]\<rparr>)"
        by (auto simp: bk(2) same_service_def service_data_def)
    qed (use assms n in \<open>simp_all add: io_tables_def\<close>)
  qed
  then show "\<exists>s' Q'. kthen (SSI_serve rom dev msg) (SSI_serve rom p req) s = Inr ((), s') \<and>
            answered s H Q p a st s' Q' \<and> same_service s s'"
    unfolding wp_kthen[symmetric] by (auto simp: wp_total simp del: wp_kthen)
qed

theorem io_rendezvous_witness:
  "\<exists>s' Q'. kthen (SSI_serve ex_rom 0x300 0x800) (SSI_serve ex_rom 0x10000050 0x900)
       (ex_ssi [(0x800, 9), (0x804, 0x10000050), (0x900, 255), (0x904, 0x105)]) = Inr ((), s') \<and>
     answered (ex_ssi [(0x800, 9), (0x804, 0x10000050), (0x900, 255), (0x904, 0x105)]) ex_H ex_ssi_Q 0x300 0x700 5 s' Q'"
proof -
  let ?ws = "[(0x800, 9), (0x804, 0x10000050), (0x900, 255), (0x904, 0x105)] :: (U32 \<times> U32) list"
  have run: "thread_runs (ex_ssi ?ws) ex_H ex_ssi_Q (SSI_tcb (ex_ssi ?ws))" using ex_ssi_runs[of ?ws] by (simp add: ex_ssi_fields)
  have as: "asks (ex_ssi ?ws) ex_ssi_Q 0x300 0x700" by (rule ex_ssi_asks) simp
  show ?thesis
    using io_rendezvous[OF ex_rom_ok run as, of "0x800" "0x10000050" 0 "0x900" "0x105"]
    by (auto simp: ex_ssi_fields ex_fields map_add_def rest_index_def io_tables_def)
qed

end
