(* ===== verification/Ssi_Clock.thy ===== *)
theory Ssi_Clock
  imports Ssi_Props
begin

text \<open>
  The pseudo clock: threads that ask for \<open>WAITFORCLOCK\<close> are collected in
  \<open>clockTcb_array\<close> and released together by the message of the next tick.
\<close>

section \<open>Registration\<close>

lemma put_first_free_append:
  "NULL \<notin> set ps \<Longrightarrow> length ps < n \<Longrightarrow> put_first_free n p (ps @ NULL # qs) = ps @ p # qs"
proof (induction ps arbitrary: n)
  case Nil
  then show ?case by (cases n) simp_all
next
  case (Cons x ps)
  then show ?case by (cases n) simp_all
qed

text \<open>There are more entries than threads that can wait.\<close>

lemma waiters_bound:
  assumes "thread_runs s H Q c" and "distinct ps" and "set ps \<subseteq> set (Q Wait_queue)"
  shows "length ps < MAXTHREADS"
proof -
  note d = thread_runsD[OF assms(1)]
  have "insert c (set ps) \<subseteq> live s Q" using assms(3) d(4,5) by (auto simp: live_def)
  from card_mono[OF kinv_live_finite this] have "card (insert c (set ps)) \<le> MAXTHREADS"
    using kinv_card_le[OF d(1)] by simp
  moreover have "c \<notin> set ps" using kinv_current(2)[OF d(1)] d(4,5) assms(3) by auto
  ultimately show ?thesis using assms(2) by (simp add: distinct_card)
qed

lemma wp_wait_for_clock:
  assumes run: "thread_runs s H Q c" and p: "asks s Q p a" and m: "mem s req = Some WAITFORCLOCK"
    and arr: "clockTcb_array s = ps @ NULL # qs" "NULL \<notin> set ps" "length ps < MAXTHREADS - 1"
    and P: "P () (s\<lparr>clockTcb_array := ps @ p # qs\<rparr>)"
  shows "wp (SSI_serve rom p req) P E s"
  using m P put_first_free_append[OF arr(2,3), of p qs] arr(1)
  by (subst SSI_waiting_request[OF run p m]) (simp_all add: serve_request_def)

definition clock_reg :: "U32 list \<Rightarrow> kstate \<Rightarrow> kstate" where
  "clock_reg ps s = s\<lparr>clockTcb_array := ps @ replicate (MAXTHREADS - length ps) NULL\<rparr>"

lemma wp_clock_requests:
  assumes "thread_runs s H Q c" and "distinct (ps @ map fst reqs)"
    and "\<And>p req. (p, req) \<in> set reqs \<Longrightarrow> asks s Q p (adr p) \<and> mem s req = Some WAITFORCLOCK"
    and "\<And>p. p \<in> set ps \<Longrightarrow> asks s Q p (adr p)" and "P () (clock_reg (ps @ map fst reqs) s)"
  shows "wp (kfor reqs (\<lambda>(p, req). SSI_serve rom p req)) P E (clock_reg ps s)"
  using assms
proof (induction reqs arbitrary: ps)
  case Nil
  then show ?case unfolding kfor.simps wp_kreturn by simp
next
  case (Cons r reqs)
  obtain p req where r: "r = (p, req)" by (cases r)
  have p: "asks s Q p (adr p)" "mem s req = Some WAITFORCLOCK" using Cons.prems(3)[of p req] r by auto
  have "set (ps @ [p]) \<subseteq> set (Q Wait_queue)" using Cons.prems(4) p(1) by (auto simp: asks_def)
  then have len: "length ps < MAXTHREADS - 1"
    using waiters_bound[OF Cons.prems(1), of "ps @ [p]"] Cons.prems(2) r by simp
  then obtain k where k: "MAXTHREADS - length ps = Suc k" by (cases "MAXTHREADS - length ps") auto
  have nz: "NULL \<notin> set ps" using asks_thread(1)[OF Cons.prems(1)] Cons.prems(4) by metis
  have "wp (SSI_serve rom p req) (\<lambda>_. wp (kfor reqs (\<lambda>(p, req). SSI_serve rom p req)) P E) E (clock_reg ps s)"
  proof (rule wp_wait_for_clock[where c = c and Q = Q and H = H and a = "adr p" and ps = ps and qs = "replicate k NULL"])
    have "MAXTHREADS - length (ps @ [p]) = k" using k len by simp
    then have "(clock_reg ps s)\<lparr>clockTcb_array := ps @ p # replicate k NULL\<rparr> = clock_reg (ps @ [p]) s" by (simp add: clock_reg_def)
    then show "wp (kfor reqs (\<lambda>(p, req). SSI_serve rom p req)) P E ((clock_reg ps s)\<lparr>clockTcb_array := ps @ p # replicate k NULL\<rparr>)"
      using Cons.IH[of "ps @ [p]"] Cons.prems p r by auto
  qed (use Cons.prems(1) p k nz len in \<open>simp_all add: clock_reg_def\<close>)
  then show ?case by (simp add: r)
qed

section \<open>The tick\<close>

text \<open>All of \<open>ps\<close> have been sent 42.\<close>

definition all_answered :: "kstate \<Rightarrow> list_head set \<Rightarrow> (list_head \<Rightarrow> U32 list) \<Rightarrow> U32 list \<Rightarrow> (U32 \<Rightarrow> U32) \<Rightarrow> kstate \<Rightarrow> (list_head \<Rightarrow> U32 list) \<Rightarrow> bool" where
  "all_answered s H Q ps adr s' Q' \<longleftrightarrow> thread_runs s' H Q' (SSI_tcb s') \<and> tree_kept Q Q' \<and> ipc_of s' Q' = fold released ps (ipc_of s Q) \<and>
     soft_block_count s' = soft_block_count s \<and>
     (\<forall>b. b \<noteq> BUS_INTERVALTIMER \<longrightarrow> mem s' b = (if b \<in> adr ` set ps then Some 42 else mem s b)) \<and>
     (\<forall>q. q \<noteq> SSI_tcb s \<and> q \<notin> set ps \<longrightarrow> tcbs s' q = tcbs s q)"

lemma asks_after:
  assumes "thread_runs s H Q (SSI_tcb s)" and "answered s H Q p a v s' Q'" and "asks s Q q b" and "q \<noteq> p"
  shows "asks s' Q' q b"
proof -
  have "a_wait (ipc_of s' Q') = remove1 p (a_wait (ipc_of s Q))" using assms(2) by (simp add: answered_def released_def)
  then have w: "Q' Wait_queue = remove1 p (Q Wait_queue)" by (simp add: ipc_of_fields)
  have "tcbs s' q = tcbs s q" "mem s' b \<noteq> None"
    using assms(2-4) asks_thread(4)[OF assms(1,3)] by (auto simp: answered_def asks_def woken_up_def)
  then show ?thesis using assms(3,4) by (auto simp: asks_def w in_set_remove1)
qed

lemma wp_wake_clock:
  assumes rom: "rom_ok rom"
  shows "thread_runs s H Q (SSI_tcb s) \<Longrightarrow> clockTcb_array s = replicate i NULL @ ps @ replicate (Suc k) NULL \<Longrightarrow>
    length ps \<le> n \<Longrightarrow> distinct ps \<Longrightarrow> (\<And>p. p \<in> set ps \<Longrightarrow> asks s Q p (adr p)) \<Longrightarrow>
    (\<And>s' Q'. all_answered s H Q ps adr s' Q' \<Longrightarrow> same_service s (s'\<lparr>clockTcb_array := clockTcb_array s\<rparr>) \<Longrightarrow>
       clockTcb_array s' = replicate (i + length ps + Suc k) NULL \<Longrightarrow> P () s') \<Longrightarrow>
    wp (wake_clock rom n i) P E s"
proof (induction ps arbitrary: n i s Q)
  case Nil
  have "clockTcb_array s = replicate (i + Suc k) NULL" by (simp only: Nil.prems(2) replicate_add append_Nil)
  then have "P () s" using Nil.prems(1) by (intro Nil.prems(6)[of s Q]) (simp_all add: all_answered_def same_service_def service_data_def)
  moreover have "i < length (clockTcb_array s)" "clockTcb_array s ! i = NULL" by (simp_all add: Nil.prems(2) nth_append)
  ultimately show ?case by (cases n) (simp_all only: wake_clock.simps wp_kreturn wp_kbind wp_kget wp_array_get if_True wp_if simp_thms if_False)
next
  case (Cons p ps)
  obtain m where n: "n = Suc m" "length ps \<le> m" using Cons.prems(3) by (cases n) auto
  have p: "asks s Q p (adr p)" using Cons.prems(5) by simp
  have nth: "i < length (clockTcb_array s)" "clockTcb_array s ! i = p" by (simp_all add: Cons.prems(2) nth_append)
  have "wp (MsgSend rom SEND p 42) (\<lambda>_. wp (kthen (kmodify (\<lambda>s. s\<lparr>clockTcb_array := (clockTcb_array s)[i := NULL]\<rparr>))
       (wake_clock rom m (Suc i))) P E) E s"
  proof (rule wp_answer[OF rom Cons.prems(1) p])
    fix s1 Q1 assume an: "answered s H Q p (adr p) 42 s1 Q1" and sv: "same_service s s1"
    let ?arr = "replicate (Suc i) NULL @ ps @ replicate (Suc k) NULL"
    let ?s = "s1\<lparr>clockTcb_array := ?arr\<rparr>"
    have arr: "(clockTcb_array s1)[i := NULL] = ?arr"
      using same_service_fields(7)[OF sv] by (simp add: Cons.prems(2) list_update_append replicate_append_same[symmetric])
    have "wp (wake_clock rom m (Suc i)) P E ?s"
    proof (rule Cons.IH)
      show "thread_runs ?s H Q1 (SSI_tcb ?s)" using an by (simp add: answered_def)
      show "asks ?s Q1 q (adr q)" if "q \<in> set ps" for q
        using asks_after[OF Cons.prems(1) an, of q "adr q"] Cons.prems(4,5) that by auto
      show "clockTcb_array ?s = replicate (Suc i) NULL @ ps @ replicate (Suc k) NULL" by simp
    next
      fix s2 Q2
      assume a2: "all_answered ?s H Q1 ps adr s2 Q2" and sv2: "same_service ?s (s2\<lparr>clockTcb_array := clockTcb_array ?s\<rparr>)"
        and c2: "clockTcb_array s2 = replicate (Suc i + length ps + Suc k) NULL"
      have "all_answered s H Q (p # ps) adr s2 Q2"
        using a2 an same_service_fields(1)[OF sv] by (auto simp: all_answered_def answered_def woken_up_def elim: tree_kept_trans)
      moreover have "same_service s (s2\<lparr>clockTcb_array := clockTcb_array s\<rparr>)"
        using sv sv2 by (simp add: same_service_def service_data_def)
      ultimately show "P () s2" using c2 by (intro Cons.prems(6)) (simp_all)
    qed (use Cons.prems(4) n in auto)
    then show "wp (kthen (kmodify (\<lambda>s. s\<lparr>clockTcb_array := (clockTcb_array s)[i := NULL]\<rparr>)) (wake_clock rom m (Suc i))) P E s1"
      by (simp only: wp_kthen wp_kmodify arr)
  qed
  then show ?case using nth asks_thread(1)[OF Cons.prems(1) p] by (simp only: n(1) wake_clock.simps wp_kbind wp_kthen wp_kget wp_array_get if_True wp_if simp_thms)
qed

text \<open>
  C24. The pseudo clock service. Any threads that ask for \<open>WAITFORCLOCK\<close> while the table
  is empty are all noted, however many there are, and the next tick answers each of them: they
  are appended to the ready queue in the order of their requests, each finds 42 at its reply
  address, and the table is empty again.
\<close>

theorem clock_service:
  assumes "rom_ok rom" and "thread_runs s H Q (SSI_tcb s)" and "clockTcb_array s = replicate MAXTHREADS NULL"
    and "distinct (map fst reqs)"
    and "\<forall>(p, req)\<in>set reqs. asks s Q p (adr p) \<and> mem s req = Some WAITFORCLOCK"
    and "mem s msg = Some PSEUDOCLOCK_MSG"
  shows "\<exists>s' Q'. kthen (kfor reqs (\<lambda>(p, req). SSI_serve rom p req)) (SSI_serve rom BUS_INTERVALTIMER msg) s = Inr ((), s') \<and>
     all_answered s H Q (map fst reqs) adr s' Q' \<and> same_service s s' \<and> Q' Ready_queue = Q Ready_queue @ map fst reqs"
proof -
  let ?ps = "map fst reqs" and ?s = "clock_reg (map fst reqs) s"
  let ?R = "\<lambda>_ s'. \<exists>Q'. all_answered s H Q ?ps adr s' Q' \<and> same_service s s'"
  have as: "asks s Q p (adr p)" if "p \<in> set ?ps" for p using assms(5) that by auto
  have len: "length ?ps < MAXTHREADS"
    by (rule waiters_bound[OF assms(2,4)]) (use as in \<open>auto simp: asks_def\<close>)
  then obtain k where k: "MAXTHREADS - length ?ps = Suc k" by (metis gr0_implies_Suc zero_less_diff)
  have z: "s = clock_reg [] s" using assms(3) by (simp add: clock_reg_def)
  have tick: "wp (SSI_serve rom BUS_INTERVALTIMER msg) ?R no_stop ?s"
  proof (rule wp_SSI_kernel_msg[OF _ disjI1[OF conjI[OF refl refl]], where H = H])
    show "wp (wake_clock rom (MAXTHREADS - 1) 0) (\<lambda>_ s'. (\<exists>Q'. kinv s' H Q') \<and> tcbs s' BUS_INTERVALTIMER = None \<and> ?R () s') no_stop ?s"
    proof (rule wp_wake_clock[OF assms(1)])
      fix s' Q'
      assume a: "all_answered ?s H Q ?ps adr s' Q'" and sv: "same_service ?s (s'\<lparr>clockTcb_array := clockTcb_array ?s\<rparr>)"
        and c: "clockTcb_array s' = replicate (0 + length ?ps + Suc k) NULL"
      have a': "all_answered s H Q ?ps adr s' Q'" using a by (simp add: all_answered_def clock_reg_def)
      have "length ?ps + Suc k = MAXTHREADS" using k len by simp
      then have "same_service s s'" using sv c assms(3) by (simp add: same_service_def service_data_def clock_reg_def)
      moreover have "kinv s' H Q'" "addr_ok s'" using a' thread_runsD(1,2)[of s' H Q' "SSI_tcb s'"] by (simp_all add: all_answered_def)
      ultimately show "(\<exists>Q'. kinv s' H Q') \<and> tcbs s' BUS_INTERVALTIMER = None \<and> ?R () s'" using a' by (auto simp: addr_ok_def)
    qed (use assms(2,4) as len k in \<open>simp_all add: clock_reg_def\<close>)
  qed (use assms(6) in \<open>simp add: clock_reg_def\<close>)
  have "wp (kfor reqs (\<lambda>(p, req). SSI_serve rom p req)) (\<lambda>_. wp (SSI_serve rom BUS_INTERVALTIMER msg) ?R no_stop) no_stop s"
    by (subst z, rule wp_clock_requests[OF assms(2)]) (use assms(4,5) tick in auto)
  then obtain s' Q' where s': "kthen (kfor reqs (\<lambda>(p, req). SSI_serve rom p req)) (SSI_serve rom BUS_INTERVALTIMER msg) s = Inr ((), s')"
    "all_answered s H Q ?ps adr s' Q'" "same_service s s'"
    unfolding wp_kthen[symmetric] by (auto simp: wp_total simp del: wp_kthen)
  have "a_ready (fold released ps A) = a_ready A @ ps" for ps A by (induction ps arbitrary: A) (simp_all add: released_def)
  then have "a_ready (ipc_of s' Q') = a_ready (ipc_of s Q) @ ?ps" using s'(2) by (simp add: all_answered_def)
  with s' show ?thesis by (auto simp: ipc_of_fields)
qed

theorem clock_service_witness:
  "\<exists>s' Q'. kthen (kfor [(0x300, 0x800)] (\<lambda>(p, req). SSI_serve ex_rom p req)) (SSI_serve ex_rom BUS_INTERVALTIMER 0x900)
       (ex_ssi [(0x800, 8), (0x900, 254)]) = Inr ((), s') \<and> Q' Ready_queue = [0x200, 0x300] \<and> kinv s' ex_H Q' \<and> mem s' 0x700 = Some 42"
proof -
  let ?reqs = "[(0x300, 0x800)] :: (U32 \<times> U32) list"
  let ?ws = "[(0x800, 8), (0x900, 254)] :: (U32 \<times> U32) list"
  have run: "thread_runs (ex_ssi ?ws) ex_H ex_ssi_Q (SSI_tcb (ex_ssi ?ws))" using ex_ssi_runs[of ?ws] by (simp add: ex_ssi_fields)
  have as: "asks (ex_ssi ?ws) ex_ssi_Q 0x300 0x700" by (rule ex_ssi_asks) simp
  have "\<exists>s' Q'. kthen (kfor ?reqs (\<lambda>(p, req). SSI_serve ex_rom p req)) (SSI_serve ex_rom BUS_INTERVALTIMER 0x900) (ex_ssi ?ws) = Inr ((), s') \<and>
     all_answered (ex_ssi ?ws) ex_H ex_ssi_Q (map fst ?reqs) (\<lambda>_. 0x700) s' Q' \<and> same_service (ex_ssi ?ws) s' \<and>
     Q' Ready_queue = ex_ssi_Q Ready_queue @ map fst ?reqs"
    by (rule clock_service[OF ex_rom_ok run]) (use as in \<open>simp_all add: ex_ssi_fields map_add_def ex_fields\<close>)
  then show ?thesis by (auto simp: all_answered_def thread_runs_def ex_Q_simps)
qed

end
