(* ===== verification/Ssi_Create.thy ===== *)
theory Ssi_Create
  imports Ssi_Props
begin

text \<open>
  The creation of threads: \<open>CREATESON\<close> and \<open>CREATEBROTHER\<close>, with a free TCB and without.
\<close>

section \<open>The state of the new thread\<close>

lemma read_words_mem:
  "read_words a n s = Inr (ws, s1) \<Longrightarrow> s1 = s \<and> length ws = n \<and> (\<forall>s'. mem s' = mem s \<longrightarrow> read_words a n s' = Inr (ws, s'))"
proof (induction n arbitrary: a ws)
  case 0
  then show ?case by simp
next
  case (Suc n)
  obtain w where w: "mem s a = Some w"
    using Suc.prems by (cases "mem s a") (simp_all add: mem_read_def kbind_def)
  obtain vs where v: "read_words (a + 4) n s = Inr (vs, s1)" "ws = w # vs"
    using Suc.prems w by (cases "read_words (a + 4) n s") (auto simp: mem_read_def kbind_def)
  from Suc.IH[OF v(1)] w v(2) show ?case by (simp add: mem_read_def kbind_def)
qed

lemma read_state_mem:
  assumes "read_state a s = Inr (st, s)"
  shows "length (gpr st) = 29" "mem s' = mem s \<Longrightarrow> wp (read_state a) P E s' = P st s'"
proof -
  obtain ws where ws: "read_words a 35 s = Inr (ws, s)"
    using assms by (cases "read_words a 35 s") (auto simp: read_state_def kbind_def)
  with assms show "length (gpr st) = 29" using read_words_mem[OF ws] by (auto simp: read_state_def)
  assume "mem s' = mem s"
  then have "read_words a 35 s' = Inr (ws, s')" using read_words_mem[OF ws] by blast
  with assms ws show "wp (read_state a) P E s' = P st s'" by (simp add: read_state_def wp_def)
qed

definition new_tcb :: "U32 \<Rightarrow> state_t \<Rightarrow> tcb_t" where
  "new_tcb parent st = \<lparr>t_parent = parent, t_state = st, waiting_for = - 1, reply = - 1, sysbp_manager_thread = NULL,
     pgmtrap_manager_thread = NULL, tlbtrap_manager_thread = NULL, cpu_time = 0, cpu_slice = 0\<rparr>"

lemma fresh_becomes_new:
  "length (gpr (t_state t)) = 29 \<Longrightarrow> length (gpr st) = 29 \<Longrightarrow>
   (fresh_tcb t)\<lparr>t_parent := parent, t_state := save_state st (t_state ((fresh_tcb t)\<lparr>t_parent := parent\<rparr>))\<rparr> = new_tcb parent st"
  by (cases t) (simp add: fresh_tcb_def new_tcb_def init_t_state_eq save_state_copy zero_state_def)

definition inherits :: "tcb_t \<Rightarrow> tcb_t \<Rightarrow> tcb_t" where
  "inherits rt t = t\<lparr>sysbp_manager_thread := sysbp_manager_thread rt, pgmtrap_manager_thread := pgmtrap_manager_thread rt,
     tlbtrap_manager_thread := tlbtrap_manager_thread rt\<rparr>"

section \<open>The queues with the new thread\<close>

text \<open>The lists of free TCBs are forgotten: no list that the kernel uses hangs on a free TCB.\<close>

definition free_clean :: "list_head set \<Rightarrow> (list_head \<Rightarrow> U32 list) \<Rightarrow> bool" where
  "free_clean H Q \<longleftrightarrow> (\<forall>q\<in>set (Q Tcbfree_sentinel). T_child q \<notin> H \<and> T_inbox q \<notin> H \<and> unlinked H Q By_t_sib q)"

definition born_H :: "U32 \<Rightarrow> list_head set \<Rightarrow> list_head set" where
  "born_H c H = insert (T_inbox c) (insert (T_child c) H)"

definition born_Q :: "U32 \<Rightarrow> U32 \<Rightarrow> (list_head \<Rightarrow> U32 list) \<Rightarrow> list_head \<Rightarrow> U32 list" where
  "born_Q par c Q = Q(Tcbfree_sentinel := tl (Q Tcbfree_sentinel), T_child c := [], T_inbox c := [],
     T_child par := Q (T_child par) @ [c], Ready_queue := Q Ready_queue @ [c])"

lemma kinv_born:
  assumes k: "kinv s H Q" and q: "Q Tcbfree_sentinel = c # cs" and r: "rep s' (born_H c H) (born_Q par c Q)"
    and same: "current_thread s' = current_thread s" "thread_count s' = thread_count s + 1"
      "\<And>p. tcbs s' p = None \<longleftrightarrow> tcbs s p = None" "\<And>m. msgs s' m = None \<longleftrightarrow> msgs s m = None"
    and cl: "T_inbox c \<notin> H"
  shows "kinv s' (born_H c H) (born_Q par c Q)"
proof (rule kinv_intro[OF r])
  note h = kinv_heads[OF k]
  have c: "c \<in> set (Q Tcbfree_sentinel)" "c \<notin> live s Q"
    using q kinv_disjoint(2,3)[OF k, of c] kinv_current(3)[OF k] by (auto simp: live_def split: if_splits)
  have l: "live s' (born_Q par c Q) = insert c (live s Q)"
    using same(1) by (auto simp: live_def born_Q_def)
  show "base_heads s' (born_Q par c Q) \<subseteq> born_H c H"
    using k by (auto simp: kinv_def base_heads_def l born_H_def)
  show "thread_count s' = of_nat (card (live s' (born_Q par c Q)))"
    using k c(2) kinv_live_finite[of s Q] same(2) by (simp add: l kinv_def)
  have ib: "born_Q par c Q (T_inbox p) = Q (T_inbox p)" if "p \<in> live s Q" for p
    using that c(2) by (auto simp: born_Q_def)
  have "accounted s Q" using k by (simp add: kinv_def)
  then show "accounted s' (born_Q par c Q)"
    unfolding accounted_def l same(3,4) using ib q by (auto simp: born_Q_def)
  assume nz: "current_thread s' \<noteq> NULL"
  then have "current_thread s \<noteq> NULL" using same(1) by simp
  moreover have "current_thread s \<noteq> c" using c(2) calculation by (auto simp: live_def)
  ultimately show "unlinked (born_H c H) (born_Q par c Q) By_t_next (current_thread s')"
    using kinv_current[OF k] k q unfolding kinv_def unlinked_def by (auto simp: born_H_def born_Q_def same(1))
qed

lemma wp_enlist:
  assumes k: "kinv s H Q" and q: "Q Tcbfree_sentinel = c # cs"
    and r: "rep s' (born_H c H) (Q(Tcbfree_sentinel := cs, T_child c := [], T_inbox c := [], T_child par := Q (T_child par) @ [c]))"
    and same: "current_thread s' = current_thread s" "thread_count s' = thread_count s + 1"
      "\<And>p. tcbs s' p = None \<longleftrightarrow> tcbs s p = None" "\<And>m. msgs s' m = None \<longleftrightarrow> msgs s m = None"
    and cl: "T_inbox c \<notin> H"
    and P: "\<And>L. kinv (s'\<lparr>lst := L\<rparr>) (born_H c H) (born_Q par c Q) \<Longrightarrow> P () (s'\<lparr>lst := L\<rparr>)"
  shows "wp (insertThread Ready_queue c) P E s'"
proof -
  define Q1 where "Q1 = Q(Tcbfree_sentinel := cs, T_child c := [], T_inbox c := [], T_child par := Q (T_child par) @ [c])"
  have r1: "rep s' (born_H c H) Q1" using r by (simp add: Q1_def)
  have Q2: "Q1(Ready_queue := Q1 Ready_queue @ [c]) = born_Q par c Q" by (simp add: Q1_def born_Q_def q)
  have d: "c \<notin> set cs" using rep_distinct[OF kinv_rep[OF k] kinv_heads(3)[OF k]] q by simp
  have un: "unlinked (born_H c H) Q1 By_t_next c"
    unfolding unlinked_def
  proof (intro ballI impI)
    fix g assume g: "g \<in> born_H c H" "linker_of g = By_t_next"
    have "sentinel g" using rep_rings[OF r1] g by (auto dest: rings_sentinel)
    with g(2) have "g \<in> {Ready_queue, Wait_queue, Tcbfree_sentinel}" by (cases g) (auto simp: sentinel_def)
    then show "c \<notin> set (Q1 g)" using d kinv_disjoint(2,3)[OF k, of c] q by (auto simp: Q1_def)
  qed
  have tc: "tcbs s' c \<noteq> None" using rep_tcb[OF kinv_rep[OF k] kinv_heads(3)[OF k], of c] q same(3)[of c] by simp
  show ?thesis
  proof (rule wp_insertThread[OF r1 _ _ un tc])
    fix L assume "rep (s'\<lparr>lst := L\<rparr>) (born_H c H) (Q1(Ready_queue := Q1 Ready_queue @ [c]))"
    then show "P () (s'\<lparr>lst := L\<rparr>)"
      unfolding Q2 by (intro P kinv_born[OF k q]) (use same cl in simp_all)
  qed (use kinv_heads(1)[OF k] in \<open>simp_all add: born_H_def\<close>)
qed

text \<open>
  What allocating \<open>c\<close> and then \<open>ins c\<close> comes to when \<open>ins\<close> puts it below \<open>par\<close>. For \<open>par = NULL\<close>
  the thread becomes nobody's child, and the update of \<open>Q\<close> at \<open>T_child NULL\<close> says nothing.
\<close>

definition places :: "(U32 \<Rightarrow> unit kmon) \<Rightarrow> U32 \<Rightarrow> U32 \<Rightarrow> kstate \<Rightarrow> list_head set \<Rightarrow> (list_head \<Rightarrow> U32 list) \<Rightarrow> bool" where
  "places ins par c s H Q \<longleftrightarrow> (\<forall>P E. (\<forall>t L. tcbs s c = Some t \<longrightarrow>
      rep (s\<lparr>tcbs := (tcbs s)(c \<mapsto> (fresh_tcb t)\<lparr>t_parent := par\<rparr>), lst := L\<rparr>) (born_H c H)
        (Q(Tcbfree_sentinel := tl (Q Tcbfree_sentinel), T_child c := [], T_inbox c := [], T_child par := Q (T_child par) @ [c])) \<longrightarrow>
      P (s\<lparr>tcbs := (tcbs s)(c \<mapsto> (fresh_tcb t)\<lparr>t_parent := par\<rparr>), lst := L\<rparr>)) \<longrightarrow>
    wp allocTcb (\<lambda>n s1. n = c \<and> wp (ins c) (\<lambda>_. P) E s1) E s)"

lemma wp_alloc_first:
  assumes k: "kinv s H Q" and q: "Q Tcbfree_sentinel = c # cs" and cl: "free_clean H Q"
    and P: "\<And>t s1 Q1 L. tcbs s c = Some t \<Longrightarrow> s1 = s\<lparr>lst := L, tcbs := (tcbs s)(c \<mapsto> fresh_tcb t)\<rparr> \<Longrightarrow>
      Q1 = Q(Tcbfree_sentinel := cs, T_child c := [], T_inbox c := []) \<Longrightarrow> c \<noteq> NULL \<Longrightarrow>
      rep s1 (born_H c H) Q1 \<Longrightarrow> unlinked (born_H c H) Q1 By_t_sib c \<Longrightarrow>
      (\<And>x. x \<noteq> c \<Longrightarrow> lprev L (T_sib x) = lprev (lst s) (T_sib x)) \<Longrightarrow> P c s1"
  shows "wp allocTcb P E s"
proof (rule wp_allocTcb[OF kinv_rep[OF k] kinv_heads(3)[OF k]])
  fix p ps t L
  assume "Q Tcbfree_sentinel = p # ps" and t: "tcbs s p = Some t" and nz: "p \<noteq> NULL"
    and r: "rep (s\<lparr>lst := L, tcbs := (tcbs s)(p \<mapsto> fresh_tcb t)\<rparr>) (insert (T_inbox p) (insert (T_child p) H))
         (Q(Tcbfree_sentinel := ps, T_child p := [], T_inbox p := []))"
    and so: "\<And>x. x \<noteq> p \<Longrightarrow> lprev L (T_sib x) = lprev (lst s) (T_sib x)"
  then have e: "p = c" "ps = cs" using q by simp_all
  have "unlinked H Q By_t_sib c" using cl q by (simp add: free_clean_def)
  then have un: "unlinked (born_H c H) (Q(Tcbfree_sentinel := cs, T_child c := [], T_inbox c := [])) By_t_sib c"
    by (auto simp: unlinked_def born_H_def)
  from P[OF t[unfolded e] refl refl nz[unfolded e] _ un, of L] r so
  show "P p (s\<lparr>lst := L, tcbs := (tcbs s)(p \<mapsto> fresh_tcb t)\<rparr>)" by (simp add: e born_H_def)
qed (use cl q in \<open>auto simp: free_clean_def\<close>)

lemma places_child:
  assumes k: "kinv s H Q" and q: "Q Tcbfree_sentinel = c # cs" and cl: "free_clean H Q" and par: "T_child par \<in> H"
    and ins: "\<And>R E s1. (\<And>x. x \<noteq> c \<Longrightarrow> tcbs s1 x = tcbs s x) \<Longrightarrow> wp (ins c) R E s1 = wp (insertChild par c) R E s1"
  shows "places ins par c s H Q"
  unfolding places_def
proof (intro allI impI)
  fix P E
  let ?s2 = "\<lambda>t L. s\<lparr>tcbs := (tcbs s)(c \<mapsto> (fresh_tcb t)\<lparr>t_parent := par\<rparr>), lst := L\<rparr>"
    and ?Q2 = "Q(Tcbfree_sentinel := tl (Q Tcbfree_sentinel), T_child c := [], T_inbox c := [], T_child par := Q (T_child par) @ [c])"
  assume "\<forall>t L. tcbs s c = Some t \<longrightarrow> rep (?s2 t L) (born_H c H) ?Q2 \<longrightarrow> P (?s2 t L)"
  then have P: "P (?s2 t L)" if "tcbs s c = Some t" "rep (?s2 t L) (born_H c H) ?Q2" for t L using that by blast
  have pc: "par \<noteq> c" using cl par q by (auto simp: free_clean_def)
  show "wp allocTcb (\<lambda>n s1. n = c \<and> wp (ins c) (\<lambda>_. P) E s1) E s"
  proof (rule wp_alloc_first[OF k q cl])
    fix t s1 Q1 L
    assume t: "tcbs s c = Some t" and s1: "s1 = s\<lparr>lst := L, tcbs := (tcbs s)(c \<mapsto> fresh_tcb t)\<rparr>"
      and Q1: "Q1 = Q(Tcbfree_sentinel := cs, T_child c := [], T_inbox c := [])"
      and r: "rep s1 (born_H c H) Q1" and un: "unlinked (born_H c H) Q1 By_t_sib c"
    have tc: "tcbs s1 c = Some (fresh_tcb t)" by (simp add: s1)
    have "wp (insertChild par c) (\<lambda>_. P) E s1"
    proof (rule wp_insertChild[OF r _ un tc])
      fix L' assume "rep (s1\<lparr>tcbs := (tcbs s1)(c \<mapsto> (fresh_tcb t)\<lparr>t_parent := par\<rparr>), lst := L'\<rparr>) (born_H c H)
        (Q1(T_child par := Q1 (T_child par) @ [c]))"
      moreover have "s1\<lparr>tcbs := (tcbs s1)(c \<mapsto> (fresh_tcb t)\<lparr>t_parent := par\<rparr>), lst := L'\<rparr> = ?s2 t L'" by (simp add: s1)
      moreover have "Q1(T_child par := Q1 (T_child par) @ [c]) = ?Q2" using pc q by (simp add: Q1)
      ultimately show "P (s1\<lparr>tcbs := (tcbs s1)(c \<mapsto> (fresh_tcb t)\<lparr>t_parent := par\<rparr>), lst := L'\<rparr>)"
        using P[OF t] by (simp only:)
    qed (use par in \<open>simp add: born_H_def\<close>)
    then show "c = c \<and> wp (ins c) (\<lambda>_. P) E s1" by (simp add: ins s1)
  qed
qed

text \<open>A brother of a thread that is nobody's child.\<close>

lemma places_sibling:
  assumes k: "kinv s H Q" and q: "Q Tcbfree_sentinel = c # cs" and cl: "free_clean H Q"
    and prev: "lprev (lst s) (T_sib p) = T_sib b" and pc: "p \<noteq> c"
    and un: "\<And>x. x \<in> {p, b} \<Longrightarrow> unlinked H Q By_t_sib x \<and> tcbs s x \<noteq> None"
    and ins: "\<And>R E s1. (\<And>x. x \<noteq> c \<Longrightarrow> tcbs s1 x = tcbs s x) \<Longrightarrow> wp (ins c) R E s1 = wp (insertSibling p c) R E s1"
  shows "places ins NULL c s H Q"
  unfolding places_def
proof (intro allI impI)
  fix P E
  let ?s2 = "\<lambda>t L. s\<lparr>tcbs := (tcbs s)(c \<mapsto> (fresh_tcb t)\<lparr>t_parent := NULL\<rparr>), lst := L\<rparr>"
    and ?Q2 = "Q(Tcbfree_sentinel := tl (Q Tcbfree_sentinel), T_child c := [], T_inbox c := [], T_child NULL := Q (T_child NULL) @ [c])"
  assume "\<forall>t L. tcbs s c = Some t \<longrightarrow> rep (?s2 t L) (born_H c H) ?Q2 \<longrightarrow> P (?s2 t L)"
  then have P: "P (?s2 t L)" if "tcbs s c = Some t" "rep (?s2 t L) (born_H c H) ?Q2" for t L using that by blast
  have nH: "T_child NULL \<notin> H" using kinv_rep[OF k] by (auto simp: rep_def pools_ok_def)
  show "wp allocTcb (\<lambda>n s1. n = c \<and> wp (ins c) (\<lambda>_. P) E s1) E s"
  proof (rule wp_alloc_first[OF k q cl])
    fix t s1 Q1 L
    assume t: "tcbs s c = Some t" and s1: "s1 = s\<lparr>lst := L, tcbs := (tcbs s)(c \<mapsto> fresh_tcb t)\<rparr>"
      and Q1: "Q1 = Q(Tcbfree_sentinel := cs, T_child c := [], T_inbox c := [])" and nz: "c \<noteq> NULL"
      and r: "rep s1 (born_H c H) Q1" and uc: "unlinked (born_H c H) Q1 By_t_sib c"
      and so: "\<And>x. x \<noteq> c \<Longrightarrow> lprev L (T_sib x) = lprev (lst s) (T_sib x)"
    have "wp (insertSibling p c) (\<lambda>_. P) E s1"
    proof (rule wp_insertSibling[OF r])
      show "lprev (lst s1) (T_sib p) = T_sib b" using so[OF pc] prev by (simp add: s1)
      show "unlinked (born_H c H) Q1 By_t_sib x \<and> tcbs s1 x \<noteq> None" if "x \<in> {c, p, b}" for x
      proof (cases "x = c")
        case False
        then have "unlinked H Q By_t_sib x" "tcbs s x \<noteq> None" using un that by blast+
        then show ?thesis by (auto simp: unlinked_def born_H_def Q1 s1)
      qed (use uc in \<open>simp add: s1\<close>)
      fix L' assume "rep (s1\<lparr>lst := L'\<rparr>) (born_H c H) Q1"
      moreover have "(fresh_tcb t)\<lparr>t_parent := NULL\<rparr> = fresh_tcb t" by (cases t) (simp add: fresh_tcb_def)
      then have "s1\<lparr>lst := L'\<rparr> = ?s2 t L'" by (simp add: s1)
      moreover have "rep (?s2 t L') (born_H c H) ?Q2 = rep (?s2 t L') (born_H c H) Q1"
        by (rule rep_Q_cong) (use nH nz q in \<open>auto simp: born_H_def Q1\<close>)
      ultimately show "P (s1\<lparr>lst := L'\<rparr>)" using P[OF t] by (simp only:)
    qed
    then show "c = c \<and> wp (ins c) (\<lambda>_. P) E s1" by (simp add: ins s1)
  qed
qed

section \<open>The services\<close>

text \<open>The kernel with the new thread \<open>c\<close>, before the answer is sent.\<close>

definition born :: "U32 \<Rightarrow> tcb_t \<Rightarrow> kstate \<Rightarrow> kstate" where
  "born c tc s = s\<lparr>tcbs := (tcbs s)(c \<mapsto> tc), thread_count := thread_count s + 1\<rparr>"

text \<open>
  From the allocation to the ready queue. \<open>ins\<close> places the new thread; \<open>fin\<close> fills its TCB, with \<open>f\<close> as the last change, and is to end with the ready queue and \<open>K\<close>.
\<close>

lemma wp_creation:
  assumes k: "kinv s H Q" and pl: "places ins par c s H Q" and g: "length (gpr st) = 29"
    and rs: "\<And>R s'. mem s' = mem s \<Longrightarrow> R st s' \<Longrightarrow> wp (read_state arg) R E s'"
    and q: "Q Tcbfree_sentinel = c # cs" and cl: "free_clean H Q"
    and t: "tcbs s c = Some t" "length (gpr (t_state t)) = 29"
    and fin: "\<And>t3 s3. tcbs s3 = (tcbs s)(c \<mapsto> t3) \<Longrightarrow> wp (fin c st) P E s3 =
      wp (kthen (insertThread Ready_queue c) K) P E
           (s3\<lparr>tcbs := (tcbs s)(c \<mapsto> f (t3\<lparr>t_state := save_state st (t_state t3)\<rparr>))\<rparr>)"
    and K: "\<And>L. kinv ((born c (f (new_tcb par st)) s)\<lparr>lst := L\<rparr>) (born_H c H) (born_Q par c Q) \<Longrightarrow>
        wp K P E ((born c (f (new_tcb par st)) s)\<lparr>lst := L\<rparr>)"
  shows "wp (kbind allocTcb (\<lambda>n. kthen (if n = NULL then x else kreturn ()) (kthen (ins n)
     (kthen (kmodify (\<lambda>s. s\<lparr>thread_count := thread_count s + 1\<rparr>)) (kbind (read_state arg) (fin n)))))) P E s"
proof -
  let ?rest = "kthen (kmodify (\<lambda>s. s\<lparr>thread_count := thread_count s + 1\<rparr>)) (kbind (read_state arg) (fin c))"
  have nz: "c \<noteq> NULL" using rep_not_NULL[OF kinv_rep[OF k] kinv_heads(3)[OF k], of c] q by simp
  have "wp allocTcb (\<lambda>n s1. n = c \<and> wp (ins c) (\<lambda>_. wp ?rest P E) E s1) E s"
  proof (rule pl[unfolded places_def, rule_format])
    fix t' L
    assume t': "tcbs s c = Some t'"
      and r2: "rep (s\<lparr>tcbs := (tcbs s)(c \<mapsto> (fresh_tcb t')\<lparr>t_parent := par\<rparr>), lst := L\<rparr>) (born_H c H)
          (Q(Tcbfree_sentinel := tl (Q Tcbfree_sentinel), T_child c := [], T_inbox c := [], T_child par := Q (T_child par) @ [c]))"
    have tt: "t' = t" using t' t(1) by simp
    let ?s2 = "s\<lparr>tcbs := (tcbs s)(c \<mapsto> (fresh_tcb t)\<lparr>t_parent := par\<rparr>), lst := L\<rparr>"
    let ?s3 = "?s2\<lparr>thread_count := thread_count s + 1\<rparr>" and ?tc = "f (new_tcb par st)"
    have n: "(fresh_tcb t)\<lparr>t_parent := par, t_state := save_state st (t_state ((fresh_tcb t)\<lparr>t_parent := par\<rparr>))\<rparr> = new_tcb par st"
      by (rule fresh_becomes_new[OF t(2) g])
    define s4 where "s4 = (born c ?tc s)\<lparr>lst := L\<rparr>"
    have r4: "rep s4 (born_H c H) (Q(Tcbfree_sentinel := cs, T_child c := [], T_inbox c := [], T_child par := Q (T_child par) @ [c]))"
      using r2[unfolded tt] q by (subst rep_cong[OF _ lvalid_cong, where s = ?s2]) (simp_all add: s4_def born_def)
    have "wp (insertThread Ready_queue c) (\<lambda>_. wp K P E) E s4"
    proof (rule wp_enlist[OF k q r4])
      show "T_inbox c \<notin> H" using cl q by (simp add: free_clean_def)
      show "wp K P E (s4\<lparr>lst := L'\<rparr>)" if "kinv (s4\<lparr>lst := L'\<rparr>) (born_H c H) (born_Q par c Q)" for L'
        using K[of L'] that by (simp add: s4_def)
    qed (use t(1) in \<open>simp_all add: s4_def born_def\<close>)
    then have "wp (kthen (insertThread Ready_queue c) K) P E s4" by simp
    moreover have "?s3\<lparr>tcbs := (tcbs s)(c \<mapsto> ?tc)\<rparr> = s4" by (simp add: s4_def born_def)
    ultimately have "wp (fin c st) P E ?s3" by (subst fin[of ?s3 "(fresh_tcb t)\<lparr>t_parent := par\<rparr>"]) (simp_all only: n, simp)
    then have "wp (read_state arg) (\<lambda>st. wp (fin c st) P E) E ?s3" by (intro rs) simp_all
    then have "wp ?rest P E ?s2" by simp
    then show "wp ?rest P E (s\<lparr>tcbs := (tcbs s)(c \<mapsto> (fresh_tcb t')\<lparr>t_parent := par\<rparr>), lst := L\<rparr>)" by (simp only: tt)
  qed
  then show ?thesis
    unfolding wp_kbind[of allocTcb] by (rule wp_mono) (use nz in simp_all)
qed

text \<open>The requester is told the address of the new thread.\<close>

lemma wp_born_answer:
  assumes rom: "rom_ok rom" and run: "thread_runs s H Q (SSI_tcb s)" and p: "asks s Q p a" and q: "Q Tcbfree_sentinel = c # cs"
    and k3: "kinv ((born c tc s)\<lparr>lst := L\<rparr>) (born_H c H) (born_Q par c Q)"
    and P: "\<And>s' Q'. answered ((born c tc s)\<lparr>lst := L\<rparr>) (born_H c H) (born_Q par c Q) p a c s' Q' \<Longrightarrow>
        same_service (born c tc s) s' \<Longrightarrow> P () s'"
  shows "wp (MsgSend rom SEND p c) P E ((born c tc s)\<lparr>lst := L\<rparr>)"
proof (rule wp_answer[OF rom])
  let ?s3 = "(born c tc s)\<lparr>lst := L\<rparr>"
  note d = thread_runsD[OF run]
  have tc: "tcbs s c \<noteq> None" using rep_tcb[OF kinv_rep[OF d(1)] kinv_heads(3)[OF d(1)], of c] q by simp
  have c: "c \<noteq> SSI_tcb s" "c \<noteq> p"
    using kinv_current(3)[OF d(1)] d(4,5) kinv_disjoint(3)[OF d(1), of c] p q by (auto simp: asks_def)
  show "thread_runs ?s3 (born_H c H) (born_Q par c Q) (SSI_tcb ?s3)"
    using run k3 c(1) tc by (auto simp: thread_runs_def born_def addr_ok_def bus_ok_def)
  show "asks ?s3 (born_Q par c Q) p a" using p c(2) by (simp add: asks_def born_Q_def born_def)
  fix s' Q' assume "answered ?s3 (born_H c H) (born_Q par c Q) p a c s' Q'" "same_service ?s3 s'"
  then show "P () s'" by (intro P) (simp_all add: same_service_def service_data_def)
qed

text \<open>What the answer leaves of the state with the new thread.\<close>

lemma created:
  assumes run: "thread_runs s H Q (SSI_tcb s)" and p: "asks s Q p a" and q: "Q Tcbfree_sentinel = c # cs" and par: "par \<noteq> c"
    and an: "answered ((born c tc s)\<lparr>lst := L\<rparr>) (born_H c H) (born_Q par c Q) p a c s' Q'" and sv: "same_service (born c tc s) s'"
  shows "thread_runs s' (born_H c H) Q' (SSI_tcb s)" "tcbs s' c = Some tc" "thread_count s' = thread_count s + 1" "mem s' a = Some c"
    "Q' Ready_queue = Q Ready_queue @ [c, p]" "Q' Wait_queue = remove1 p (Q Wait_queue)"
    "Q' (T_child par) = Q (T_child par) @ [c]" "Q' (T_child c) = []" "Q' Tcbfree_sentinel = cs"
proof -
  note d = thread_runsD[OF run]
  have c: "c \<noteq> p" "c \<noteq> SSI_tcb s"
    using kinv_current(3)[OF d(1)] d(4,5) kinv_disjoint(3)[OF d(1), of c] p q by (auto simp: asks_def)
  have i: "ipc_of s' Q' = released p (ipc_of ((born c tc s)\<lparr>lst := L\<rparr>) (born_Q par c Q))" using an by (simp add: answered_def)
  show "Q' Ready_queue = Q Ready_queue @ [c, p]" "Q' Wait_queue = remove1 p (Q Wait_queue)"
    using arg_cong[OF i, of a_ready] arg_cong[OF i, of a_wait] by (simp_all add: released_def ipc_of_fields born_Q_def)
  show "Q' (T_child par) = Q (T_child par) @ [c]" "Q' (T_child c) = []" "Q' Tcbfree_sentinel = cs"
    using an q par by (auto simp: answered_def tree_kept_def born_Q_def)
  show "thread_count s' = thread_count s + 1" using same_service_fields(3)[OF sv] by (simp add: born_def)
  show "thread_runs s' (born_H c H) Q' (SSI_tcb s)"
    using an same_service_fields(1)[OF sv] by (simp add: answered_def born_def woken_up_def)
  show "tcbs s' c = Some tc" "mem s' a = Some c" using an c p by (simp_all add: answered_def born_def asks_def woken_up_def)
qed

text \<open>
  C25. \<open>CREATESON\<close> with a free TCB: the first free TCB becomes the youngest child of the
  requester, with the processor state that the request points to and the trap managers of its
  parent; it is ready, and behind it the requester, which is told the address of its new
  child. The invariant of the kernel holds with one more thread.
\<close>

theorem create_son_service:
  assumes "rom_ok rom" and "thread_runs s H Q (SSI_tcb s)" and "asks s Q p a" and "tcbs s p = Some rt" and "T_child p \<in> H"
    and "mem s req = Some CREATESON" and "mem s (req + 4) = Some arg" and "read_state arg s = Inr (st, s)"
    and "Q Tcbfree_sentinel = c # cs" and "free_clean H Q" and "tcbs s c = Some t" and "length (gpr (t_state t)) = 29"
  shows "\<exists>s' Q'. SSI_serve rom p req s = Inr ((), s') \<and> thread_runs s' (born_H c H) Q' (SSI_tcb s) \<and>
     tcbs s' c = Some (inherits rt (new_tcb p st)) \<and> thread_count s' = thread_count s + 1 \<and> mem s' a = Some c \<and>
     Q' Ready_queue = Q Ready_queue @ [c, p] \<and> Q' Wait_queue = remove1 p (Q Wait_queue) \<and>
     Q' (T_child p) = Q (T_child p) @ [c] \<and> Q' (T_child c) = [] \<and> Q' Tcbfree_sentinel = cs"
proof -
  let ?tc = "inherits rt (new_tcb p st)"
  let ?R = "\<lambda>_ s'. \<exists>L Q'. answered ((born c ?tc s)\<lparr>lst := L\<rparr>) (born_H c H) (born_Q p c Q) p a c s' Q' \<and> same_service (born c ?tc s) s'"
  note d = thread_runsD[OF assms(2)]
  have g: "length (gpr st) = 29" by (rule read_state_mem(1)[OF assms(8)])
  have rs: "wp (read_state arg) R E s'" if "mem s' = mem s" "R st s'" for R E s'
    using that read_state_mem(2)[OF assms(8)] by simp
  have pc: "p \<noteq> c" using assms(5,9,10) by (auto simp: free_clean_def)
  have K: "wp (MsgSend rom SEND p c) ?R no_stop ((born c ?tc s)\<lparr>lst := L\<rparr>)"
    if "kinv ((born c ?tc s)\<lparr>lst := L\<rparr>) (born_H c H) (born_Q p c Q)" for L
    by (rule wp_born_answer[OF assms(1-3,9) that]) blast
  have "wp (create_son rom p arg) ?R no_stop s"
    unfolding create_son_def
    by (rule wp_creation[OF d(1) places_child[where ins = "insertChild p", OF d(1) assms(9,10,5) refl] g rs assms(9-12), where f = "inherits rt" and K = "MsgSend rom SEND p c"],
        simp, simp) (use assms(4) pc in \<open>simp add: inherits_def\<close>, rule K)
  then have "wp (SSI_serve rom p req) ?R no_stop s"
    using assms(6,7) by (subst SSI_waiting_request[OF assms(2,3,6)]) (simp_all add: serve_request_def)
  then obtain s' L Q' where s': "SSI_serve rom p req s = Inr ((), s')"
    "answered ((born c ?tc s)\<lparr>lst := L\<rparr>) (born_H c H) (born_Q p c Q) p a c s' Q'" "same_service (born c ?tc s) s'"
    by (auto simp: wp_total)
  with created[OF assms(2,3,9) pc s'(2,3)] show ?thesis by blast
qed

text \<open>
  Where the brother of \<open>p\<close> goes: among the children of the parent, or, when there is none, before
  \<open>p\<close> in a ring of threads that are nobody's children.
\<close>

definition brother_place :: "kstate \<Rightarrow> list_head set \<Rightarrow> (list_head \<Rightarrow> U32 list) \<Rightarrow> U32 \<Rightarrow> U32 \<Rightarrow> bool" where
  "brother_place s H Q p par \<longleftrightarrow> (if par = NULL then
       (\<exists>b. lprev (lst s) (T_sib p) = T_sib b \<and> (\<forall>x\<in>{p, b}. unlinked H Q By_t_sib x \<and> tcbs s x \<noteq> None))
     else T_child par \<in> H)"

lemma places_brother:
  assumes k: "kinv s H Q" and q: "Q Tcbfree_sentinel = c # cs" and cl: "free_clean H Q" and pc: "p \<noteq> c"
    and bp: "brother_place s H Q p par"
    and ins: "\<And>R E s1. (\<And>x. x \<noteq> c \<Longrightarrow> tcbs s1 x = tcbs s x) \<Longrightarrow>
      wp (ins c) R E s1 = wp (if par = NULL then insertSibling p c else insertChild par c) R E s1"
  shows "places ins par c s H Q"
proof (cases "par = NULL")
  case True
  with bp obtain b where "lprev (lst s) (T_sib p) = T_sib b" "\<And>x. x \<in> {p, b} \<Longrightarrow> unlinked H Q By_t_sib x \<and> tcbs s x \<noteq> None"
    by (auto simp: brother_place_def)
  from places_sibling[where ins = ins, OF k q cl this(1) pc this(2)] ins True show ?thesis by simp
next
  case False
  then have "T_child par \<in> H" using bp by (simp add: brother_place_def)
  from places_child[where ins = ins, OF k q cl this] ins False show ?thesis by simp
qed

text \<open>
  C36. \<open>CREATEBROTHER\<close>: the new thread is the youngest child of the parent of the requester, or
  nobody's child when the requester is nobody's child. Unlike a son it inherits no trap managers.
\<close>

theorem create_brother_service:
  assumes "rom_ok rom" and "thread_runs s H Q (SSI_tcb s)" and "asks s Q p a" and "tcbs s p = Some rt"
    and "t_parent rt = par" and "brother_place s H Q p par"
    and "mem s req = Some CREATEBROTHER" and "mem s (req + 4) = Some arg" and "read_state arg s = Inr (st, s)"
    and "Q Tcbfree_sentinel = c # cs" and "free_clean H Q" and "tcbs s c = Some t" and "length (gpr (t_state t)) = 29"
  shows "\<exists>s' Q'. SSI_serve rom p req s = Inr ((), s') \<and> thread_runs s' (born_H c H) Q' (SSI_tcb s) \<and>
     tcbs s' c = Some (new_tcb par st) \<and> thread_count s' = thread_count s + 1 \<and> mem s' a = Some c \<and>
     Q' Ready_queue = Q Ready_queue @ [c, p] \<and> Q' Wait_queue = remove1 p (Q Wait_queue) \<and> Q' Tcbfree_sentinel = cs \<and>
     Q' (T_child par) = Q (T_child par) @ [c] \<and> Q' (T_child c) = [] \<and> (\<forall>x. x \<notin> {par, c} \<longrightarrow> Q' (T_child x) = Q (T_child x))"
proof -
  note d = thread_runsD[OF assms(2)]
  let ?tc = "new_tcb par st"
  let ?R = "\<lambda>_ s'. \<exists>L Q'. answered ((born c ?tc s)\<lparr>lst := L\<rparr>) (born_H c H) (born_Q par c Q) p a c s' Q' \<and> same_service (born c ?tc s) s'"
  have g: "length (gpr st) = 29" by (rule read_state_mem(1)[OF assms(9)])
  have rs: "wp (read_state arg) R E s'" if "mem s' = mem s" "R st s'" for R E s'
    using that read_state_mem(2)[OF assms(9)] by simp
  have nz: "c \<noteq> NULL" using rep_not_NULL[OF kinv_rep[OF d(1)] kinv_heads(3)[OF d(1)], of c] assms(10) by simp
  have pc: "par \<noteq> c" using assms(6,10,11) nz by (auto simp: brother_place_def free_clean_def split: if_splits)
  have pc': "p \<noteq> c" using kinv_disjoint(3)[OF d(1), of c] assms(3,10) by (auto simp: asks_def)
  let ?ins = "\<lambda>n. kbind (get_tcb p) (\<lambda>t. if t_parent t = NULL then insertSibling p n else insertChild (t_parent t) n)"
  let ?fin = "\<lambda>n st. kthen (upd_tcb n (\<lambda>t. t\<lparr>t_state := save_state st (t_state t)\<rparr>))
     (kthen (insertThread Ready_queue n) (MsgSend rom SEND p n))"
  have K: "wp (MsgSend rom SEND p c) ?R no_stop ((born c ?tc s)\<lparr>lst := L\<rparr>)"
    if "kinv ((born c ?tc s)\<lparr>lst := L\<rparr>) (born_H c H) (born_Q par c Q)" for L
    by (rule wp_born_answer[OF assms(1-3,10) that]) blast
  have "wp (kbind allocTcb (\<lambda>n. kthen (if n = NULL then MsgSend rom SEND p CREATENOGOOD else kreturn ()) (kthen (?ins n)
     (kthen (kmodify (\<lambda>s. s\<lparr>thread_count := thread_count s + 1\<rparr>)) (kbind (read_state arg) (?fin n)))))) ?R no_stop s"
    by (rule wp_creation[OF d(1) places_brother[where ins = ?ins, OF d(1) assms(10,11) pc' assms(6)] g rs assms(10-13), where f = "\<lambda>t. t" and K = "MsgSend rom SEND p c"])
      (use assms(4,5) pc' K in auto)
  then have "wp (create_brother rom p arg) ?R no_stop s"
    by (simp add: create_brother_def)
  then have "wp (SSI_serve rom p req) ?R no_stop s"
    using assms(7,8) by (subst SSI_waiting_request[OF assms(2,3,7)]) (simp_all add: serve_request_def)
  then obtain s' L Q' where s': "SSI_serve rom p req s = Inr ((), s')"
    "answered ((born c ?tc s)\<lparr>lst := L\<rparr>) (born_H c H) (born_Q par c Q) p a c s' Q'" "same_service (born c ?tc s) s'"
    by (auto simp: wp_total)
  have "Q' (T_child x) = Q (T_child x)" if "x \<notin> {par, c}" for x
    using s'(2) that by (simp add: answered_def tree_kept_def born_Q_def)
  with created[OF assms(2,3,10) pc s'(2,3)] s'(1) show ?thesis by blast
qed

text \<open>
  C37. Without a free TCB the creation services answer \<open>CREATENOGOOD\<close> and then go on with the
  null pointer: the pass of the SSI does not come to an end but dereferences \<open>NULL\<close>.
\<close>

theorem create_exhausted_faults:
  assumes "rom_ok rom" and "thread_runs s H Q (SSI_tcb s)" and "asks s Q p a" and "Q Tcbfree_sentinel = []"
    and "mem s req = Some service" and "service = CREATESON \<or> service = CREATEBROTHER" and "mem s (req + 4) = Some arg"
  shows "SSI_serve rom p req s = Inl Fault"
proof -
  note d = thread_runsD[OF assms(2)]
  let ?F = "\<lambda>e. e = Fault" and ?R = "\<lambda>_ _. False"
  have no: "wp (insertChild q NULL) R ?F s1" "wp (insertSibling q NULL) R ?F s1" if "tcbs s1 NULL = None" for q s1 R
    using that by (simp_all add: insertChild_def insertSibling_def list_add_tail_def list_add_between_def)
  let ?ins = "kbind (get_tcb p) (\<lambda>t. if t_parent t = NULL then insertSibling p NULL else insertChild (t_parent t) NULL)"
  have sent: "wp (MsgSend rom SEND p CREATENOGOOD) (\<lambda>_ s1. tcbs s1 NULL = None) ?F s"
  proof (rule wp_answer[OF assms(1-3)])
    fix s' Q' assume sv: "same_service s s'"
    have "tcbs s NULL = None" using kinv_rep[OF d(1)] by (simp add: rep_def pools_ok_def)
    then show "tcbs s' NULL = None" using same_service_fields(10)[OF sv, of NULL] by simp
  qed
  have mp: "wp (MsgSend rom SEND p CREATENOGOOD) (\<lambda>_. wp (insertChild p NULL) R ?F) ?F s"
    "wp (MsgSend rom SEND p CREATENOGOOD) (\<lambda>_. wp ?ins R ?F) ?F s" for R
    by (rule wp_mono[OF sent]; use no in \<open>simp split: option.splits\<close>)+
  have al: "wp allocTcb R E s = R NULL s" for R E
    using rep_empty_iff[OF kinv_rep[OF d(1)] kinv_heads(3)[OF d(1)]] assms(4) by (simp add: allocTcb_def)
  have "wp (create_son rom p arg) ?R ?F s" "wp (create_brother rom p arg) ?R ?F s"
    using mp by (simp_all add: create_son_def create_brother_def al)
  then have "wp (SSI_serve rom p req) ?R ?F s"
    using assms(5-7) by (subst SSI_waiting_request[OF assms(2,3,5)]) (auto simp: serve_request_def)
  then show ?thesis by (auto simp: wp_def split: sum.splits)
qed

section \<open>Examples\<close>

text \<open>The small machine with all of memory mapped; the last thread has a parent.\<close>

definition ex_mem :: "(U32 \<times> U32) list \<Rightarrow> kstate" where
  "ex_mem ws = (ex_ssi [])\<lparr>mem := (\<lambda>a. Some (case map_of ws a of None \<Rightarrow> 1 | Some v \<Rightarrow> v))\<rparr>"

lemma read_words_total: "(\<And>a. mem s a \<noteq> None) \<Longrightarrow> \<exists>ws. read_words a n s = Inr (ws, s)"
proof (induction n arbitrary: a)
  case (Suc n)
  obtain w where "mem s a = Some w" using Suc.prems[of a] by auto
  moreover obtain ws where "read_words (a + 4) n s = Inr (ws, s)" using Suc by blast
  ultimately show ?case by (simp add: mem_read_def kbind_def)
qed simp

lemma ex_mem_ok:
  assumes "map_of ws 0x10000024 = None"
  shows "thread_runs (ex_mem ws) ex_H ex_ssi_Q (SSI_tcb (ex_mem ws))" "asks (ex_mem ws) ex_ssi_Q 0x300 0x700"
    "\<exists>st. read_state a (ex_mem ws) = Inr (st, ex_mem ws)" "free_clean ex_H ex_ssi_Q"
proof -
  show "thread_runs (ex_mem ws) ex_H ex_ssi_Q (SSI_tcb (ex_mem ws))"
    using ex_ssi_runs[of "[]"] assms by (simp add: ex_mem_def thread_runs_def addr_ok_def bus_ok_def ex_ssi_fields)
  show "asks (ex_mem ws) ex_ssi_Q 0x300 0x700"
    using ex_ssi_asks[of "[]"] by (simp add: ex_mem_def asks_def)
  obtain vs where "read_words a 35 (ex_mem ws) = Inr (vs, ex_mem ws)"
    using read_words_total[of "ex_mem ws" a 35] by (auto simp: ex_mem_def)
  then show "\<exists>st. read_state a (ex_mem ws) = Inr (st, ex_mem ws)" by (simp add: read_state_def)
  show "free_clean ex_H ex_ssi_Q" by (simp add: free_clean_def ex_Q_simps unlinked_def)
qed

lemma ex_mem_tcbs: "tcbs (ex_mem ws) = tcbs (ex_ssi [])" "thread_count (ex_mem ws) = 3"
  by (simp_all add: ex_mem_def ex_ssi_fields)

theorem create_son_service_witness:
  "\<exists>s' Q'. SSI_serve ex_rom 0x300 0x800 (ex_mem [(0x800, 2), (0x804, 0xA00)]) = Inr ((), s') \<and>
     thread_count s' = 4 \<and> mem s' 0x700 = Some 0x400 \<and> Q' (T_child 0x300) = [0x400] \<and> kinv s' (born_H 0x400 ex_H) Q'"
proof -
  let ?s = "ex_mem [(0x800, 2), (0x804, 0xA00)]"
  obtain st where st: "read_state 0xA00 ?s = Inr (st, ?s)" using ex_mem_ok(3)[of "[(0x800, 2), (0x804, 0xA00)]"] by auto
  have t: "tcbs ?s 0x300 = Some (ex_tcb 0x200 (- 1) 0x700)" "tcbs ?s 0x400 = Some (ex_tcb 0 0 0)"
    by (simp_all add: ex_mem_tcbs ex_ssi_fields ex_fields)
  from create_son_service[OF ex_rom_ok ex_mem_ok(1,2) t(1) _ _ _ st _ ex_mem_ok(4)[of "[]"] t(2), of "0x800" "[]"]
  show ?thesis by (auto simp: ex_mem_tcbs ex_mem_def ex_Q_simps ex_tcb_def thread_runs_def ex_ssi_fields)
qed

theorem create_brother_service_witness:
  "\<exists>s' Q'. SSI_serve ex_rom 0x300 0x800 (ex_mem [(0x800, 1), (0x804, 0xA00)]) = Inr ((), s') \<and>
     thread_count s' = 4 \<and> mem s' 0x700 = Some 0x400 \<and> Q' (T_child 0x200) = [0x300, 0x400] \<and> kinv s' (born_H 0x400 ex_H) Q'"
proof -
  let ?s = "ex_mem [(0x800, 1), (0x804, 0xA00)]"
  obtain st where st: "read_state 0xA00 ?s = Inr (st, ?s)" using ex_mem_ok(3)[of "[(0x800, 1), (0x804, 0xA00)]"] by auto
  have t: "tcbs ?s 0x300 = Some (ex_tcb 0x200 (- 1) 0x700)" "tcbs ?s 0x400 = Some (ex_tcb 0 0 0)"
    by (simp_all add: ex_mem_tcbs ex_ssi_fields ex_fields)
  from create_brother_service[OF ex_rom_ok ex_mem_ok(1,2) t(1) _ _ _ _ st _ ex_mem_ok(4)[of "[]"] t(2), of "0x200" "0x800" "[]"]
  show ?thesis by (auto simp: brother_place_def ex_mem_tcbs ex_mem_def ex_Q_simps ex_tcb_def thread_runs_def ex_ssi_fields)
qed

text \<open>The same machine with its fourth thread alive: no TCB is free.\<close>

definition ex_full_contents :: contents where
  "ex_full_contents =
     [(Ready_queue, [0x200, 0x400]), (Wait_queue, [0x300]), (Tcbfree_sentinel, []), (Msgfree_sentinel, [0x500, 0x600]),
      (T_inbox 0x100, []), (T_inbox 0x200, []), (T_inbox 0x300, []), (T_inbox 0x400, [])]"

definition ex_full :: kstate where
  "ex_full = (ex_mem [(0x800, 2), (0x804, 0xA00)])\<lparr>lst := mk_links ex_full_contents, thread_count := 4\<rparr>"

lemma ex_full_runs:
  "thread_runs ex_full (set (map fst ex_full_contents)) (mk_Q ex_full_contents) (SSI_tcb ex_full)"
proof -
  have "kinv ex_full (set (map fst ex_full_contents)) (mk_Q ex_full_contents)"
  proof (rule snapshot_kinv[of _ ex_TCBS ex_MSGS])
    show "tcbs ex_full p \<noteq> None \<longleftrightarrow> p \<in> set ex_TCBS" "msgs ex_full p \<noteq> None \<longleftrightarrow> p \<in> set ex_MSGS" for p
      by (simp_all add: ex_full_def ex_mem_tcbs ex_ssi_fields ex_fields) (simp add: ex_mem_def ex_ssi_def ex_state_def)
  qed (simp_all add: ex_full_def ex_mem_def ex_ssi_fields ex_full_contents_def snapshot_defs insert_commute)
  then show ?thesis using ex_mem_ok(1)[of "[(0x800, 2), (0x804, 0xA00)]"]
    by (simp add: thread_runs_def ex_full_def addr_ok_def bus_ok_def)
qed

theorem create_exhausted_faults_witness: "SSI_serve ex_rom 0x300 0x800 ex_full = Inl Fault"
  by (rule create_exhausted_faults[OF ex_rom_ok ex_full_runs, where a = "0x700" and arg = "0xA00" and service = 2])
    (simp_all add: asks_def ex_full_def ex_mem_tcbs ex_ssi_fields ex_fields ex_tcb_def mk_Q_def ex_full_contents_def, simp_all add: ex_mem_def)

end
