(* ===== verification/Ssi_Managers.thy ===== *)
theory Ssi_Managers
  imports Ssi_Create
begin

text \<open>
  The services that name a trap manager, and the requests that end the requester: \<open>TERMINATE\<close>
  and every misuse of the other services.
\<close>

section \<open>Naming a manager\<close>

text \<open>The three services and the fields of the TCB they are about.\<close>

definition manager_service :: "U32 \<Rightarrow> (tcb_t \<Rightarrow> U32) \<Rightarrow> (U32 \<Rightarrow> tcb_t \<Rightarrow> tcb_t) \<Rightarrow> bool" where
  "manager_service service field set_field \<longleftrightarrow>
     service = SPECPRGMGR \<and> field = pgmtrap_manager_thread \<and> set_field = (\<lambda>m t. t\<lparr>pgmtrap_manager_thread := m\<rparr>) \<or>
     service = SPECTLBMGR \<and> field = tlbtrap_manager_thread \<and> set_field = (\<lambda>m t. t\<lparr>tlbtrap_manager_thread := m\<rparr>) \<or>
     service = SPECSYSMGR \<and> field = sysbp_manager_thread \<and> set_field = (\<lambda>m t. t\<lparr>sysbp_manager_thread := m\<rparr>)"

lemma manager_service_fields:
  assumes "manager_service service field set_field"
  shows "waiting_for (set_field m t) = waiting_for t" "reply (set_field m t) = reply t" "t_state (set_field m t) = t_state t"
    "field (set_field m t) = m" "service \<noteq> PSEUDOCLOCK_MSG" "service \<noteq> INTERRUPT_MSG"
  using assms by (auto simp: manager_service_def)

lemma wp_manager_request:
  assumes ms: "manager_service service field set_field" and k: "kinv s H Q"
    and t: "tcbs s p = Some t" and m: "mem s req = Some service" "mem s (req + 4) = Some mgr"
  shows "wp (serve_request rom p req) P E s =
    wp (if field t \<noteq> NULL \<or> mgr \<notin> set (Q Ready_queue) \<union> set (Q Wait_queue) then terminate p
        else kthen (add_manager mgr) (kthen (upd_tcb p (set_field mgr)) (MsgSend rom SEND p 0))) P E s"
proof -
  note r = kinv_rep[OF k] and h = kinv_heads[OF k]
  have "mgr \<noteq> NULL" if "mgr \<in> set (Q Ready_queue) \<union> set (Q Wait_queue)"
    using kinv_live_not_NULL[OF k, of mgr] that by (auto simp: live_def)
  then have "wp (spec_manager rom field set_field p mgr) P E s =
    wp (if field t \<noteq> NULL \<or> mgr \<notin> set (Q Ready_queue) \<union> set (Q Wait_queue) then terminate p
        else kthen (add_manager mgr) (kthen (upd_tcb p (set_field mgr)) (MsgSend rom SEND p 0))) P E s"
    using t by (auto simp: spec_manager_def wp_thereIsThread[OF r h(1)] wp_thereIsThread[OF r h(2)])
  then show ?thesis
    using ms m by (auto simp: manager_service_def serve_request_def spec_prg_manager_def spec_tlb_manager_def spec_sys_manager_def)
qed

text \<open>The state in which the manager has been recorded.\<close>

definition managed :: "(U32 \<Rightarrow> tcb_t \<Rightarrow> tcb_t) \<Rightarrow> U32 \<Rightarrow> tcb_t \<Rightarrow> U32 \<Rightarrow> kstate \<Rightarrow> kstate" where
  "managed set_field p t mgr s = s\<lparr>trap_managers := add_scan mgr (trap_managers s), tcbs := (tcbs s)(p \<mapsto> set_field mgr t)\<rparr>"

lemma kinv_managed [simp]: "tcbs s p = Some t \<Longrightarrow> kinv (managed set_field p t mgr s) H Q = kinv s H Q"
  by (rule kinv_cong) (auto simp: managed_def)

text \<open>
  A thread that names a live thread as its manager for program traps, TLB traps or
  system calls, and has named none of that kind before, is answered; the manager is recorded
  in the field of that kind alone, and is in the kernel's table of managers if the table had
  room for it.
\<close>

theorem manager_named:
  assumes "rom_ok rom" and "thread_runs s H Q (SSI_tcb s)" and "asks s Q p a" and "tcbs s p = Some t"
    and "manager_service service field set_field" and "field t = NULL" and "mem s req = Some service" and "mem s (req + 4) = Some mgr"
    and "mgr \<in> set (Q Ready_queue) \<union> set (Q Wait_queue)" and "NULL \<in> set (trap_managers s)"
  shows "\<exists>s' Q'. SSI_serve rom p req s = Inr ((), s') \<and> answered (managed set_field p t mgr s) H Q p a 0 s' Q' \<and>
     map_option tcb_links (tcbs s' p) = Some (tcb_links (set_field mgr t)) \<and>
     mgr \<in> set (trap_managers s') \<and> same_service (managed set_field p t mgr s) s'"
proof -
  note d = thread_runsD[OF assms(2)] and f = manager_service_fields[OF assms(5)] and p = asks_thread[OF assms(2,3)]
  let ?s = "managed set_field p t mgr s"
  have mg: "mgr \<noteq> SSI_tcb s" using kinv_current(1,2)[OF d(1)] d(4,5) assms(9) by auto
  have run: "thread_runs ?s H Q (SSI_tcb ?s)"
    using assms(2,4) p(4) mg d(5) add_scan_others[of "SSI_tcb s" mgr "trap_managers s"]
    by (auto simp: thread_runs_def managed_def addr_ok_def bus_ok_def)
  have as: "asks ?s Q p a" using assms(3,4) f by (simp add: asks_def managed_def)
  have "wp (MsgSend rom SEND p 0) (\<lambda>_ s'. \<exists>Q'. answered ?s H Q p a 0 s' Q' \<and> same_service ?s s') no_stop ?s"
    by (rule wp_answer[OF assms(1) run as]) blast
  then have "wp (SSI_serve rom p req) (\<lambda>_ s'. \<exists>Q'. answered ?s H Q p a 0 s' Q' \<and> same_service ?s s') no_stop s"
    using assms(4,6,9)
    by (subst SSI_waiting_request[OF assms(2,3,7) f(5,6)], subst wp_manager_request[OF assms(5) d(1) assms(4,7,8)])
       (simp add: add_manager_def managed_def)
  then obtain s' Q' where s': "SSI_serve rom p req s = Inr ((), s')" "answered ?s H Q p a 0 s' Q'" "same_service ?s s'"
    by (auto simp: wp_total)
  have "map_option tcb_links (tcbs s' p) = Some (tcb_links (set_field mgr t))"
    using same_service_fields(9)[OF s'(3), of p] by (simp add: managed_def)
  moreover have "mgr \<in> set (trap_managers s')"
    using same_service_fields(4)[OF s'(3)] add_scan_present[of "trap_managers s" mgr] assms(10) by (simp add: managed_def)
  ultimately show ?thesis using s' by blast
qed

theorem manager_named_witness:
  "\<exists>s'. SSI_serve ex_rom 0x300 0x800 (ex_mem [(0x800, 5), (0x804, 0x200)]) = Inr ((), s') \<and> 0x200 \<in> set (trap_managers s') \<and>
     map_option tlbtrap_manager_thread (tcbs s' 0x300) = Some 0x200"
proof -
  let ?s = "ex_mem [(0x800, 5), (0x804, 0x200)]"
  have t: "tcbs ?s 0x300 = Some (ex_tcb 0x200 (- 1) 0x700)" by (simp add: ex_mem_tcbs ex_ssi_fields ex_fields)
  have ms: "manager_service 5 tlbtrap_manager_thread (\<lambda>m t. t\<lparr>tlbtrap_manager_thread := m\<rparr>)" by (simp add: manager_service_def)
  have tm: "trap_managers ?s = replicate 20 0" by (simp add: ex_mem_def ex_ssi_fields)
  have "\<exists>s' Q'. SSI_serve ex_rom 0x300 0x800 ?s = Inr ((), s') \<and>
     answered (managed (\<lambda>m t. t\<lparr>tlbtrap_manager_thread := m\<rparr>) 0x300 (ex_tcb 0x200 (- 1) 0x700) 0x200 ?s) ex_H ex_ssi_Q 0x300 0x700 0 s' Q' \<and>
     map_option tcb_links (tcbs s' 0x300) = Some (tcb_links ((ex_tcb 0x200 (- 1) 0x700)\<lparr>tlbtrap_manager_thread := 0x200\<rparr>)) \<and>
     0x200 \<in> set (trap_managers s') \<and> same_service (managed (\<lambda>m t. t\<lparr>tlbtrap_manager_thread := m\<rparr>) 0x300 (ex_tcb 0x200 (- 1) 0x700) 0x200 ?s) s'"
    by (rule manager_named[OF ex_rom_ok ex_mem_ok(1,2) t ms]) (simp_all add: tm, simp_all add: ex_tcb_def ex_mem_def ex_Q_simps)
  then show ?thesis by (auto simp: tcb_links_def)
qed

section \<open>Requests that end the requester\<close>

definition ends_requester :: "kstate \<Rightarrow> (list_head \<Rightarrow> U32 list) \<Rightarrow> U32 \<Rightarrow> U32 \<Rightarrow> U32 \<Rightarrow> bool" where
  "ends_requester s Q p service arg \<longleftrightarrow>
     service = TERMINATE \<or> service = WAITFORIO \<and> rest_index arg = - 1 \<or>
     (\<exists>field set_field t. manager_service service field set_field \<and> tcbs s p = Some t \<and>
        (field t \<noteq> NULL \<or> arg \<notin> set (Q Ready_queue) \<union> set (Q Wait_queue)))"

text \<open>
  C30. A live thread that asks to be terminated, names a device that does not exist, names a
  second manager of a kind, or names a manager that is not alive, is ended together with its
  whole subtree; nothing is answered, and the SSI goes on.
\<close>

theorem request_ends_subtree:
  assumes "thread_runs s H Q c" and "p \<in> set (Q Ready_queue) \<union> set (Q Wait_queue)"
    and "mem s req = Some service" and "mem s (req + 4) = Some arg" and "ends_requester s Q p service arg"
    and "tree_at Q tr" and "root tr = p" and "endable s H Q (post tr)" and "parent_ok s H Q p (post tr)" and "c \<notin> set (post tr)"
  shows "\<exists>s'. SSI_serve rom p req s = Inr ((), s') \<and> ended s H (orphaned s p Q) (post tr) s' \<and> current_thread s' = c"
proof -
  note d = thread_runsD[OF assms(1)]
  let ?R = "\<lambda>_ s'. ended s H (orphaned s p Q) (post tr) s' \<and> current_thread s' = c"
  have te: "wp (terminate p) ?R no_stop s"
    by (rule wp_terminate[OF d(1) assms(6-9)]) (use d(4) assms(10) in \<open>simp add: ended_def gone_def\<close>)
  have n: "service \<noteq> PSEUDOCLOCK_MSG" "service \<noteq> INTERRUPT_MSG"
    using assms(5) by (auto simp: ends_requester_def manager_service_def)
  have "wp (serve_request rom p req) ?R no_stop s"
    using assms(5) unfolding ends_requester_def
  proof (elim disjE exE conjE)
    fix field set_field t
    assume ms: "manager_service service field set_field" and t: "tcbs s p = Some t"
      and b: "field t \<noteq> NULL"
    show ?thesis using te b by (subst wp_manager_request[OF ms d(1) t assms(3,4)]) simp
  next
    fix field set_field t
    assume ms: "manager_service service field set_field" and t: "tcbs s p = Some t"
      and b: "arg \<notin> set (Q Ready_queue) \<union> set (Q Wait_queue)"
    show ?thesis using te b by (subst wp_manager_request[OF ms d(1) t assms(3,4)]) simp
  qed (use te assms(3,4) in \<open>simp_all add: serve_request_def wait_for_io_def\<close>)
  then have "wp (SSI_serve rom p req) ?R no_stop s"
    using wp_SSI_serve[OF d(1) assms(3) n] assms(2) by simp
  then show ?thesis by (auto simp: wp_total)
qed

theorem request_ends_subtree_witness:
  "\<exists>s'. SSI_serve ex_rom 0x200 0x800 (ex_mem [(0x800, 9), (0x804, 0x10000051)]) = Inr ((), s') \<and>
     thread_count s' = 1 \<and> current_thread s' = 0x100"
proof -
  let ?s = "ex_mem [(0x800, 9), (0x804, 0x10000051)]"
  have run: "thread_runs ?s ex_H ex_ssi_Q 0x100" using ex_mem_ok(1)[of "[(0x800, 9), (0x804, 0x10000051)]"]
    by (simp add: ex_mem_def ex_ssi_fields)
  have lv: "live ?s ex_ssi_Q = {0x100, 0x200, 0x300}" by (auto simp: live_def ex_Q_simps ex_mem_def ex_ssi_fields)
  have "\<exists>s'. SSI_serve ex_rom 0x200 0x800 ?s = Inr ((), s') \<and> ended ?s ex_H (orphaned ?s 0x200 ex_ssi_Q) [0x300, 0x200] s' \<and> current_thread s' = 0x100"
    using request_ends_subtree[OF run, of "0x200" "0x800" 9 "0x10000051" "Node 0x200 [Node 0x300 []]" ex_rom]
    by (simp add: ex_Q_simps ends_requester_def rest_index_def endable_def lv parent_ok_def ex_mem_tcbs ex_ssi_fields ex_fields ex_tcb_def)
      (simp add: ex_mem_def)
  then obtain s' where s': "SSI_serve ex_rom 0x200 0x800 ?s = Inr ((), s')" "ended ?s ex_H (orphaned ?s 0x200 ex_ssi_Q) [0x300, 0x200] s'"
    "current_thread s' = 0x100" by blast
  have "kinv s' ex_H (reap_list [0x300, 0x200] (orphaned ?s 0x200 ex_ssi_Q))" using s'(2) by (simp add: ended_def)
  from kinv_card[OF this] this s'(3) have "thread_count s' = 1"
    by (simp add: kinv_def orphaned_def ex_mem_tcbs ex_ssi_fields ex_fields ex_tcb_def ex_Q_simps)
  with s' show ?thesis by blast
qed

section \<open>The table of managers\<close>

text \<open>
  The table of managers can record a thread twice, because a free entry before the
  thread's own is taken for it; one deletion then leaves the other entry: the kernel still
  finds a manager that has been deleted.
\<close>

theorem deleted_manager_found:
  assumes "trap_managers s = NULL # NULL # ms" and "m1 \<noteq> NULL" and "m2 \<noteq> NULL" and "m1 \<noteq> m2"
  shows "kthen (add_manager m1) (kthen (add_manager m2) (kthen (delete_manager m1)
     (kthen (add_manager m2) (kthen (delete_manager m2) (thereIs_manager m2))))) s
   = Inr (m2, s\<lparr>trap_managers := NULL # m2 # ms\<rparr>)"
  using assms by (simp add: add_manager_def delete_manager_def thereIs_manager_def kthen_def kbind_def)

theorem deleted_manager_found_witness:
  "kthen (add_manager 0x200) (kthen (add_manager 0x300) (kthen (delete_manager 0x200)
     (kthen (add_manager 0x300) (kthen (delete_manager 0x300) (thereIs_manager 0x300))))) (ex_mem [])
   = Inr (0x300, (ex_mem [])\<lparr>trap_managers := NULL # 0x300 # replicate 18 0\<rparr>)"
proof (rule deleted_manager_found)
  show "trap_managers (ex_mem []) = NULL # NULL # replicate 18 0"
    by (simp add: ex_mem_def ex_ssi_fields) (simp add: replicate_Suc[symmetric] del: replicate_Suc)
qed simp_all

end
