(* ===== verification/Ssi_Request.thy ===== *)
theory Ssi_Request
  imports Ssi_Clock Ssi_Managers
begin

text \<open>
  A service request from end to end: the requester's \<open>SSIRequest\<close>, the switch to the SSI, its
  pass and the answer.
\<close>

unbundle bit_operations_syntax

section \<open>The requester\<close>

text \<open>
  The SSI can take the request: it waits for any message, with its variable \<open>req_struct\<close> at
  \<open>slot\<close>, or it is ready and a message is free.
\<close>

definition SSI_listens :: "kstate \<Rightarrow> (list_head \<Rightarrow> U32 list) \<Rightarrow> U32 \<Rightarrow> bool" where
  "SSI_listens s Q slot \<longleftrightarrow> SSI_tcb s \<in> set (Q Wait_queue) \<and> mem s slot \<noteq> None \<and> slot \<noteq> BUS_TIMESCALE \<and> slot \<noteq> BUS_INTERVALTIMER \<and>
     (case tcbs s (SSI_tcb s) of None \<Rightarrow> False | Some t \<Rightarrow> waiting_for t = ANYMESSAGE \<and> reply t = slot)"

definition SSI_busy :: "kstate \<Rightarrow> (list_head \<Rightarrow> U32 list) \<Rightarrow> bool" where
  "SSI_busy s Q \<longleftrightarrow> SSI_tcb s \<in> set (Q Ready_queue) \<and> Q Msgfree_sentinel \<noteq> []"

text \<open>A thread that can be resumed in kernel mode and manages no traps.\<close>

definition thread_sound :: "kstate \<Rightarrow> U32 \<Rightarrow> bool" where
  "thread_sound s p \<longleftrightarrow> p \<notin> set (trap_managers s) \<and>
     (case tcbs s p of None \<Rightarrow> False
      | Some t \<Rightarrow> length (gpr (t_state t)) = 29 \<and> status (t_state t) AND STATUS_KUp = 0)"

lemma thread_soundE:
  assumes "thread_sound s p"
  obtains t where "tcbs s p = Some t" "length (gpr (t_state t)) = 29" "status (t_state t) AND STATUS_KUp = 0"
    "p \<notin> set (trap_managers s)"
  using assms by (auto simp: thread_sound_def split: option.splits)

text \<open>The local variable \<open>request\<close> is in mapped memory, apart from the SSI's own variable.\<close>

definition words_ok :: "kstate \<Rightarrow> U32 list \<Rightarrow> bool" where
  "words_ok s as \<longleftrightarrow> (\<forall>a\<in>set as. mem s a \<noteq> None \<and> a \<noteq> BUS_TIMESCALE \<and> a \<noteq> BUS_INTERVALTIMER)"

definition request_in :: "kstate \<Rightarrow> U32 \<Rightarrow> U32 \<Rightarrow> U32 \<Rightarrow> U32 \<Rightarrow> bool" where
  "request_in s req service payload ra \<longleftrightarrow> mem s req = Some service \<and> mem s (req + 4) = Some payload \<and> mem s (req + 8) = Some ra"

definition requested :: "U32 \<Rightarrow> U32 \<Rightarrow> U32 \<Rightarrow> U32 \<Rightarrow> kstate \<Rightarrow> kstate" where
  "requested req service payload ra s = s\<lparr>mem := (mem s)(req \<mapsto> service, req + 4 \<mapsto> payload, req + 8 \<mapsto> ra)\<rparr>"

lemma request_apart: "(req :: U32) + 4 \<noteq> req" "req + 8 \<noteq> req" "req + 8 \<noteq> req + 4"
  by simp_all

lemma requested_frame:
  assumes "words_ok s [req, req + 4, req + 8]" and "thread_runs s H Q c"
  shows "thread_runs (requested req service payload ra s) H Q c" "ipc_of (requested req service payload ra s) Q = ipc_of s Q"
    "request_in (requested req service payload ra s) req service payload ra"
    "tcbs (requested req service payload ra s) = tcbs s" "SSI_tcb (requested req service payload ra s) = SSI_tcb s"
    "mem (requested req service payload ra s) a = None \<longleftrightarrow> mem s a = None"
proof -
  show "thread_runs (requested req service payload ra s) H Q c"
    using assms by (auto simp: thread_runs_def requested_def addr_ok_def bus_ok_def words_ok_def)
  show "ipc_of (requested req service payload ra s) Q = ipc_of s Q" by (rule ipc_of_cong) (simp_all add: requested_def)
  show "request_in (requested req service payload ra s) req service payload ra"
    by (simp add: request_in_def requested_def)
  show "mem (requested req service payload ra s) a = None \<longleftrightarrow> mem s a = None"
    using assms(1) by (auto simp: words_ok_def requested_def)
qed (simp_all add: requested_def)

lemma wp_write_request:
  assumes "words_ok s [req, req + 4, req + 8]"
  shows "wp (SSIRequest rom req service payload ra) P E s =
    wp (MsgSend rom SEND MAGIC_SSI req) (\<lambda>_. wp (MsgRecv rom RECV MAGIC_SSI ra) P E) E (requested req service payload ra s)"
proof -
  obtain u v w where "mem s req = Some u" "mem s (req + 4) = Some v" "mem s (req + 8) = Some w"
    using assms by (auto simp: words_ok_def)
  then show ?thesis by (simp add: SSIRequest_def requested_def)
qed

text \<open>
  The state after the request: the requester waits for the answer; its request is in memory;
  the SSI has been woken up with the address of the request, or finds it in its inbox.
\<close>

definition request_sent :: "kstate \<Rightarrow> list_head set \<Rightarrow> (list_head \<Rightarrow> U32 list) \<Rightarrow> U32 \<Rightarrow> U32 \<Rightarrow> U32 \<Rightarrow> kstate \<Rightarrow> (list_head \<Rightarrow> U32 list) \<Rightarrow> bool" where
  "request_sent s H Q c req ra s' Q' \<longleftrightarrow> kinv s' H Q' \<and> addr_ok s' \<and> bus_ok s' \<and> tree_kept Q Q' \<and> same_service s s' \<and>
     asks s' Q' c ra \<and> soft_block_count s' = soft_block_count s + 1 \<and> (\<forall>a. mem s' a = None \<longleftrightarrow> mem s a = None) \<and>
     (if SSI_tcb s \<in> set (Q Wait_queue)
      then mem s' (reply_of s (SSI_tcb s)) = Some req \<and>
        a_inbox (ipc_of s' Q') (SSI_tcb s) = a_inbox (ipc_of s Q) (SSI_tcb s) \<and> Q' Ready_queue = tl (Q Ready_queue @ [SSI_tcb s]) \<and>
        current_thread s' = hd (Q Ready_queue @ [SSI_tcb s])
      else a_inbox (ipc_of s' Q') (SSI_tcb s) = a_inbox (ipc_of s Q) (SSI_tcb s) @ [(c, req)] \<and>
        Q' Ready_queue = tl (Q Ready_queue) \<and> current_thread s' = hd (Q Ready_queue))"

text \<open>The specification of the send: the SSI is woken up or gets a message.\<close>

definition posted :: "ipc \<Rightarrow> U32 \<Rightarrow> U32 \<Rightarrow> U32 \<Rightarrow> ipc" where
  "posted A ssi c req = (if ssi \<in> set (a_wait A) then released ssi A
     else A\<lparr>a_free := a_free A - 1, a_inbox := (a_inbox A)(ssi := a_inbox A ssi @ [(c, req)])\<rparr>)"

lemma SSI_takes_request:
  assumes run: "thread_runs s H Q c" and l: "SSI_listens s Q slot \<or> SSI_busy s Q"
  shows "a_send c (SSI_tcb s) req (ipc_of s Q) = Some (MSGGOOD, posted (ipc_of s Q) (SSI_tcb s) c req)"
    "a_awaits (ipc_of s Q) c (SSI_tcb s) \<longleftrightarrow> SSI_tcb s \<in> set (Q Wait_queue)" "SSI_tcb s \<noteq> NULL"
proof -
  note d = thread_runsD[OF run]
  have lv: "SSI_tcb s \<in> live s Q" using l by (auto simp: SSI_listens_def SSI_busy_def live_def)
  show "SSI_tcb s \<noteq> NULL" by (rule kinv_live_not_NULL[OF d(1) lv])
  have al: "a_live (ipc_of s Q) (SSI_tcb s)" using lv a_live_ipc_of by blast
  show aw: "a_awaits (ipc_of s Q) c (SSI_tcb s) \<longleftrightarrow> SSI_tcb s \<in> set (Q Wait_queue)"
    using l kinv_disjoint(1)[OF d(1), of "SSI_tcb s"]
    by (auto simp: a_awaits_def satisfies_def ipc_of_fields SSI_listens_def SSI_busy_def split: option.splits)
  have tm: "c \<noteq> BUS_INTERVALTIMER" using d(2,4) kinv_tcb[OF d(1) kinv_current_live] d(5) by (auto simp: addr_ok_def)
  have "SSI_tcb s \<notin> set (Q Wait_queue) \<Longrightarrow> a_free (ipc_of s Q) \<noteq> 0"
    using l by (auto simp: SSI_listens_def SSI_busy_def ipc_of_fields)
  then show "a_send c (SSI_tcb s) req (ipc_of s Q) = Some (MSGGOOD, posted (ipc_of s Q) (SSI_tcb s) c req)"
    using al aw tm by (simp add: a_send_def posted_def released_def ipc_of_fields)
qed

text \<open>The caller of \<open>MsgRecv\<close> is suspended, and the head of the ready queue runs.\<close>

lemma blocked_dispatch:
  assumes b: "blocked s H Q want a s1 Q1" and f: "fst (a_recv want (ipc_of s Q)) = None" and c: "current_thread s = c" "c \<noteq> NULL"
    and r: "Q Ready_queue = p # ps" and sc: "scheduled s1 H Q1 r s'" and n: "current_thread s' \<noteq> c"
  shows "\<exists>st. r = LDST st" "current_thread s' = p" "kinv s' H (Q1(Ready_queue := ps))" "Q1 Wait_queue = Q Wait_queue @ [c]"
    "tcbs s' c = tcbs s1 c" "map_option waiting_for (tcbs s' c) = Some want" "reply_of s' c = a"
    "a_inbox (ipc_of s1 Q1) = a_inbox (ipc_of s Q)" "addr_ok s'" "bus_ok s'" "service_data s' = service_data s" "msgs s' = msgs s1"
    "b \<noteq> BUS_INTERVALTIMER \<Longrightarrow> mem s' b = mem s b"
    "map_option t_state (tcbs s' q) = map_option t_state (tcbs s1 q)" "Q1 Ready_queue = p # ps" "soft_block_count s' = soft_block_count s"
proof -
  let ?A = "ipc_of s Q"
  have i: "ipc_of s1 Q1 = ?A\<lparr>a_wait := a_wait ?A @ [c], a_cur := NULL, a_want := (a_want ?A)(c := want)\<rparr>"
    using b f c by (auto simp: blocked_def a_recv_def Let_def ipc_of_fields split: option.splits)
  have q: "Q1 Ready_queue = p # ps" "current_thread s1 = NULL"
    using arg_cong[OF i, of a_ready] arg_cong[OF i, of a_cur] r by (simp_all add: ipc_of_fields)
  show "Q1 Wait_queue = Q Wait_queue @ [c]" using arg_cong[OF i, of a_wait] by (simp add: ipc_of_fields)
  show "a_inbox (ipc_of s1 Q1) = a_inbox (ipc_of s Q)" by (simp add: i)
  show rl: "\<exists>st. r = LDST st" using sc q by (cases r) (auto simp: scheduled_def)
  show cp: "current_thread s' = p" "kinv s' H (Q1(Ready_queue := ps))" using sc q rl by (auto simp: scheduled_def)
  show tc: "tcbs s' c = tcbs s1 c" using sc n by (simp add: scheduled_def)
  have k1: "kinv s1 H Q1" using b by (simp add: blocked_def)
  have w: "a_want (ipc_of s1 Q1) c = want" by (simp add: i)
  have "c \<in> live s1 Q1" using arg_cong[OF i, of a_wait] by (simp add: ipc_of_fields live_def)
  then obtain t where t: "tcbs s1 c = Some t" using kinv_tcb[OF k1] by blast
  then show "map_option waiting_for (tcbs s' c) = Some want" using w tc by (simp add: ipc_of_fields)
  show "reply_of s' c = a" using b c tc by (simp add: blocked_def reply_of_def)
  show sv: "service_data s' = service_data s" "msgs s' = msgs s1" "bus_ok s'" using sc b by (auto simp: scheduled_def blocked_def)
  show "b \<noteq> BUS_INTERVALTIMER \<Longrightarrow> mem s' b = mem s b" using sc b by (simp add: scheduled_def blocked_def)
  have "tcbs s' x = None \<longleftrightarrow> tcbs s1 x = None" for x using sc service_data_fields(11)[of s' s1 x] by (simp add: scheduled_def)
  then show "addr_ok s'" using b sc service_data_fields(1)[of s' s1] by (simp add: addr_ok_def scheduled_def blocked_def)
  show "map_option t_state (tcbs s' q) = map_option t_state (tcbs s1 q)" using sc by (simp add: scheduled_def)
  show "Q1 Ready_queue = p # ps" by (rule q(1))
  show "soft_block_count s' = soft_block_count s" using sc b by (simp add: scheduled_def blocked_def)
qed

lemma posted_simps:
  "a_ready (posted A ssi c req) = (if ssi \<in> set (a_wait A) then a_ready A @ [ssi] else a_ready A)"
  "a_cur (posted A ssi c req) = a_cur A" "c \<noteq> ssi \<Longrightarrow> a_inbox (posted A ssi x req) c = a_inbox A c"
  "a_inbox (posted A ssi c req) ssi = (if ssi \<in> set (a_wait A) then a_inbox A ssi else a_inbox A ssi @ [(c, req)])"
  by (simp_all add: posted_def released_def)

text \<open>The first half: the request is on its way, the caller still runs.\<close>

definition underway :: "kstate \<Rightarrow> list_head set \<Rightarrow> (list_head \<Rightarrow> U32 list) \<Rightarrow> U32 \<Rightarrow> U32 \<Rightarrow> kstate \<Rightarrow> (list_head \<Rightarrow> U32 list) \<Rightarrow> bool" where
  "underway s H Q c req s1 Q1 \<longleftrightarrow> thread_runs s1 H Q1 c \<and> tree_kept Q Q1 \<and> ipc_of s1 Q1 = posted (ipc_of s Q) (SSI_tcb s) c req \<and>
     same_service s s1 \<and> soft_block_count s1 = soft_block_count s + 1 \<and>
     (\<forall>a. a \<noteq> BUS_INTERVALTIMER \<longrightarrow>
        mem s1 a = (if SSI_tcb s \<in> set (Q Wait_queue) \<and> a = reply_of s (SSI_tcb s) then Some req else mem s a)) \<and>
     (SSI_tcb s \<in> set (Q Wait_queue) \<longrightarrow>
        map_option t_state (tcbs s1 (SSI_tcb s)) = map_option (\<lambda>t. gpr_set reg_v0 c (t_state t)) (tcbs s (SSI_tcb s)))"

lemma wp_post_request:
  assumes rom: "rom_ok rom" and run: "thread_runs s H Q c" and cs: "c \<noteq> SSI_tcb s" and l: "SSI_listens s Q slot \<or> SSI_busy s Q"
    and P: "\<And>s1 Q1. underway s H Q c req s1 Q1 \<Longrightarrow> P () s1"
  shows "wp (MsgSend rom SEND MAGIC_SSI req) P E s"
proof (rule wp_MsgSend[OF rom run, where tgt = "SSI_tcb s" and x = c])
  note tk = SSI_takes_request(1)[OF run l, of req] SSI_takes_request(2,3)[OF run l]
  show "reply_ok s (SSI_tcb s)" if "a_awaits (ipc_of s Q) c (SSI_tcb s)"
    using that tk(2) l kinv_disjoint(1)[OF thread_runsD(1)[OF run], of "SSI_tcb s"]
    by (auto simp: SSI_listens_def SSI_busy_def reply_ok_def reply_of_def split: option.splits)
  show "E PANIC" if "a_send c (SSI_tcb s) req (ipc_of s Q) = None" using that tk(1) by simp
  show "SSI_tcb s = (if MAGIC_SSI = MAGIC_SSI then SSI_tcb s else MAGIC_SSI)" "SSI_tcb s \<noteq> NULL" "c = masked_sender s c"
    using tk(3) cs by (simp_all add: masked_sender_def)
  fix r A s1 Q1
  assume "a_send c (SSI_tcb s) req (ipc_of s Q) = Some (r, A)" "thread_runs s1 H Q1 c" "tree_kept Q Q1" "ipc_of s1 Q1 = A" "same_service s s1"
    "soft_block_count s1 = soft_block_count s + (if MAGIC_SSI = MAGIC_SSI then 1 else 0)"
    "\<And>a. a \<noteq> BUS_INTERVALTIMER \<Longrightarrow> mem s1 a = (if a_awaits (ipc_of s Q) c (SSI_tcb s) \<and> a = reply_of s (SSI_tcb s) then Some req else mem s a)"
    and tw: "\<And>q. q \<noteq> c \<Longrightarrow> tcbs s1 q = woken_up s c (SSI_tcb s) (a_awaits (ipc_of s Q) c (SSI_tcb s)) q"
  moreover have "SSI_tcb s \<in> set (Q Wait_queue) \<longrightarrow>
        map_option t_state (tcbs s1 (SSI_tcb s)) = map_option (\<lambda>t. gpr_set reg_v0 c (t_state t)) (tcbs s (SSI_tcb s))"
    using tw[of "SSI_tcb s"] cs tk(2) by (simp add: woken_up_def woken_def option.map_comp comp_def)
  ultimately show "P () s1" using tk by (intro P[of s1 Q1]) (simp add: underway_def)
qed

text \<open>
  The second half: with no older answer in its inbox the caller is suspended, and the head of
  the ready queue runs.
\<close>

lemma underway_facts:
  assumes u: "underway s H Q c req s1 Q1" and run: "thread_runs s H Q c" and cs: "c \<noteq> SSI_tcb s"
    and l: "SSI_listens s Q slot \<or> SSI_busy s Q" and ib: "\<forall>m\<in>set (a_inbox (ipc_of s Q) c). fst m \<noteq> MAGIC_SSI"
  shows "fst (a_recv MAGIC_SSI (ipc_of s1 Q1)) = None"
    "Q1 Ready_queue = (if SSI_tcb s \<in> set (Q Wait_queue) then Q Ready_queue @ [SSI_tcb s] else Q Ready_queue)"
    "Q1 Ready_queue \<noteq> []" "SSI_tcb s \<in> set (Q1 Ready_queue)"
proof -
  let ?A = "posted (ipc_of s Q) (SSI_tcb s) c req"
  have i: "ipc_of s1 Q1 = ?A" using u by (simp add: underway_def)
  have "find (satisfies MAGIC_SSI) (a_inbox (ipc_of s Q) c) = None" using ib by (auto simp: find_None_iff satisfies_def)
  moreover have "a_cur ?A = c" using thread_runsD(4)[OF run] by (simp add: posted_simps ipc_of_fields)
  ultimately show "fst (a_recv MAGIC_SSI (ipc_of s1 Q1)) = None" using cs by (simp add: i a_recv_def Let_def posted_simps(3))
  show q: "Q1 Ready_queue = (if SSI_tcb s \<in> set (Q Wait_queue) then Q Ready_queue @ [SSI_tcb s] else Q Ready_queue)"
    using arg_cong[OF i, of a_ready] by (simp add: posted_simps ipc_of_fields)
  show "SSI_tcb s \<in> set (Q1 Ready_queue)" "Q1 Ready_queue \<noteq> []"
    using l by (auto simp: q SSI_listens_def SSI_busy_def)
qed

lemma waiting_SSI_slot:
  assumes run: "thread_runs s H Q c" and l: "SSI_listens s Q slot \<or> SSI_busy s Q" and w: "SSI_tcb s \<in> set (Q Wait_queue)"
  shows "reply_of s (SSI_tcb s) \<noteq> BUS_INTERVALTIMER" "mem s (reply_of s (SSI_tcb s)) \<noteq> None"
  using l w kinv_disjoint(1)[OF thread_runsD(1)[OF run], of "SSI_tcb s"]
  by (auto simp: SSI_listens_def SSI_busy_def reply_of_def split: option.splits)

lemma request_sent_intro:
  assumes u: "underway s H Q c req s1 Q1" and run: "thread_runs s H Q c" and l: "SSI_listens s Q slot \<or> SSI_busy s Q"
    and q1: "Q1 Ready_queue = p # ps" and k: "kinv s' H Q'" "addr_ok s'" "bus_ok s'" and tree: "tree_kept Q Q'" and sv: "same_service s s'"
    and as: "asks s' Q' c ra" and sb: "soft_block_count s' = soft_block_count s1"
    and m: "\<And>b. b \<noteq> BUS_INTERVALTIMER \<Longrightarrow> mem s' b = mem s1 b" and r: "Q' Ready_queue = ps" "current_thread s' = p"
    and inb: "a_inbox (ipc_of s' Q') (SSI_tcb s) = a_inbox (posted (ipc_of s Q) (SSI_tcb s) c req) (SSI_tcb s)"
  shows "request_sent s H Q c req ra s' Q'"
proof -
  note w = waiting_SSI_slot[OF run l]
  have i: "ipc_of s1 Q1 = posted (ipc_of s Q) (SSI_tcb s) c req" using u by (simp add: underway_def)
  have "mem s' (reply_of s (SSI_tcb s)) = Some req" if "SSI_tcb s \<in> set (Q Wait_queue)"
    using m[of "reply_of s (SSI_tcb s)"] w(1) that u by (simp add: underway_def)
  moreover have "mem s' a = None \<longleftrightarrow> mem s a = None" for a
  proof (cases "a = BUS_INTERVALTIMER")
    case True
    then show ?thesis using k(3) thread_runsD(3)[OF run] by (auto simp: bus_ok_def)
  next
    case False
    with w(2) show ?thesis using m[OF False] u by (auto simp: underway_def)
  qed
  moreover have pq: "(if SSI_tcb s \<in> set (Q Wait_queue) then Q Ready_queue @ [SSI_tcb s] else Q Ready_queue) = p # ps"
    using q1 arg_cong[OF i, of a_ready] by (simp add: posted_simps(1) ipc_of_fields split: if_splits)
  have "p = hd (if SSI_tcb s \<in> set (Q Wait_queue) then Q Ready_queue @ [SSI_tcb s] else Q Ready_queue)"
    "ps = tl (if SSI_tcb s \<in> set (Q Wait_queue) then Q Ready_queue @ [SSI_tcb s] else Q Ready_queue)"
    unfolding pq by simp_all
  ultimately show ?thesis
    using k tree sv as sb r inb u
    by (cases "SSI_tcb s \<in> set (Q Wait_queue)") (simp_all add: request_sent_def posted_simps(4) ipc_of_fields(2) underway_def)
qed

lemma wp_await_answer:
  assumes rom: "rom_ok rom" and u: "underway s H Q c req s1 Q1" and run: "thread_runs s H Q c" and cs: "c \<noteq> SSI_tcb s"
    and l: "SSI_listens s Q slot \<or> SSI_busy s Q" and ib: "\<forall>m\<in>set (a_inbox (ipc_of s Q) c). fst m \<noteq> MAGIC_SSI" and wd: "words_ok s [ra]"
    and P: "\<And>s' Q' st. request_sent s H Q c req ra s' Q' \<Longrightarrow>
       (\<And>a. a \<noteq> BUS_INTERVALTIMER \<Longrightarrow> mem s' a = mem s1 a) \<Longrightarrow>
       cpu s' = load rom st \<Longrightarrow> map_option t_state (tcbs s' (current_thread s')) = Some st \<Longrightarrow>
       map_option t_state (tcbs s' (SSI_tcb s)) = map_option t_state (tcbs s1 (SSI_tcb s)) \<Longrightarrow> thread_sound s' c \<Longrightarrow> P None s'"
  shows "wp (MsgRecv rom RECV MAGIC_SSI ra) P E s1"
proof -
  let ?t1 = "trapped rom RECV MAGIC_SSI ra s1"
  have run1: "thread_runs s1 H Q1 c" and i1: "ipc_of s1 Q1 = posted (ipc_of s Q) (SSI_tcb s) c req" using u by (simp_all add: underway_def)
  note f = underway_facts[OF u run cs l ib]
  obtain p ps where q1: "Q1 Ready_queue = p # ps" using f(3) by (cases "Q1 Ready_queue") auto
  have c1: "current_thread ?t1 = c" "c \<noteq> NULL" and none: "fst (a_recv MAGIC_SSI (ipc_of ?t1 Q1)) = None"
    using thread_runsD(4,5)[OF run1] f(1) by simp_all
  show ?thesis
  proof (rule wp_MsgRecv[OF rom run1])
    fix s2 Q2 e assume "blocked ?t1 H Q1 MAGIC_SSI ra s2 Q2" and n: "nothing_runs s2 Q2 e"
    then have "ipc_of s2 Q2 = snd (a_recv MAGIC_SSI (ipc_of s1 Q1))" by (simp add: blocked_def)
    then have "a_ready (ipc_of s2 Q2) = a_ready (ipc_of s1 Q1)" by (auto simp: a_recv_def Let_def split: option.splits)
    then show "E e" using q1 n by (simp add: ipc_of_fields nothing_runs_def)
  next
    fix s2 Q2 r s3
    assume b: "blocked ?t1 H Q1 MAGIC_SSI ra s2 Q2" and sc: "scheduled s2 H Q2 r s3" and n: "current_thread s3 \<noteq> c"
    note D = blocked_dispatch[OF b none c1 q1 sc n]
    obtain st where st: "r = LDST st" using D(1) by blast
    let ?s' = "s3\<lparr>cpu := load rom st\<rparr>" and ?Q' = "Q2(Ready_queue := ps)"
    have m1: "mem s1 ra \<noteq> None \<and> ra \<noteq> BUS_TIMESCALE \<and> ra \<noteq> BUS_INTERVALTIMER" using u wd by (auto simp: underway_def words_ok_def)
    have as: "asks ?s' ?Q' c ra"
      using D(4,6,7) D(13)[of ra] m1 by (auto simp: asks_def reply_of_def split: option.splits)
    have "same_service s1 ?s'" using D(11) by (intro same_service_trapped) simp
    then have sv: "same_service s ?s'" using u by (auto simp: underway_def intro: same_service_trans)
    have lv: "SSI_tcb s \<in> live s2 Q2" "SSI_tcb s \<in> live ?s' ?Q'"
      using f(4) D(2,15) q1 SSI_takes_request(3)[OF run l] by (auto simp: live_def)
    have inb: "a_inbox (ipc_of ?s' ?Q') (SSI_tcb s) = a_inbox (posted (ipc_of s Q) (SSI_tcb s) c req) (SSI_tcb s)"
    proof -
      have "a_inbox (ipc_of s2 Q2) (SSI_tcb s) = a_inbox (posted (ipc_of s Q) (SSI_tcb s) c req) (SSI_tcb s)" using D(8) i1 by simp
      moreover have "msg_pair ?s' = msg_pair s2" using D(12) by (simp add: msg_pair_def fun_eq_iff)
      ultimately show ?thesis using lv by (simp add: ipc_of_fields)
    qed
    have tree: "tree_kept Q ?Q'" using u b by (auto simp: underway_def blocked_def elim: tree_kept_trans)
    have ok: "kinv ?s' H ?Q'" "addr_ok ?s'" "bus_ok ?s'" using D(3,9,10) by (simp_all add: addr_ok_def bus_ok_def)
    have rs: "request_sent s H Q c req ra ?s' ?Q'"
      by (rule request_sent_intro[OF u run l q1 ok tree sv as _ _ _ _ inb]) (use D(2,13,16) in simp_all)
    have "P None ?s'"
    proof (rule P[OF rs])
      show "mem ?s' x = mem s1 x" if "x \<noteq> BUS_INTERVALTIMER" for x using D(13)[OF that] by simp
      have "map_option t_state (tcbs s2 (current_thread s3)) = Some st" using sc unfolding scheduled_def st rom_call.case by blast
      then show "map_option t_state (tcbs ?s' (current_thread ?s')) = Some st" using D(14) by simp
      have "map_option t_state (tcbs s2 (SSI_tcb s)) = map_option t_state (tcbs ?t1 (SSI_tcb s))"
        using b cs unfolding blocked_def c1(1) by metis
      then show "map_option t_state (tcbs ?s' (SSI_tcb s)) = map_option t_state (tcbs s1 (SSI_tcb s))" using D(14) by simp
      let ?old = "trap rom (cpu s1) RECV MAGIC_SSI ra"
      have "map_option t_state (tcbs s2 c) = Some (gpr_set reg_v0 NULL (?old\<lparr>pc_epc := pc_epc ?old + WORD_SIZE\<rparr>))"
        using b unfolding blocked_def c1(1) by simp
      then show "thread_sound ?s' c"
        using rom_trap(1,6)[OF rom thread_runsD(7,6)[OF run1], of RECV MAGIC_SSI ra] D(5) thread_runsD(8)[OF run1]
          same_service_fields(4)[OF \<open>same_service s1 ?s'\<close>] by (auto simp: thread_sound_def gpr_set_def)
    qed simp
    then show "P None (case r of LDST st \<Rightarrow> s3\<lparr>cpu := load rom st\<rparr> | WAIT \<Rightarrow> s3)" by (simp add: st)
  qed (use f(1) in auto)
qed

lemma request_sent_requested:
  assumes "words_ok s [req, req + 4, req + 8]" and "thread_runs s H Q c"
  shows "request_sent (requested req service payload ra s) H Q c req ra s' Q' = request_sent s H Q c req ra s' Q'"
  using requested_frame[OF assms, of service payload ra]
  by (simp add: request_sent_def same_service_def service_data_def reply_of_def) (simp add: requested_def del: fun_upd_apply)

lemma wp_SSIRequest:
  assumes rom: "rom_ok rom" and run: "thread_runs s H Q c" and cs: "c \<noteq> SSI_tcb s"
    and wd: "words_ok s [req, req + 4, req + 8]" "words_ok s [ra]"
    and l: "SSI_listens s Q slot \<and> slot \<notin> {req, req + 4, req + 8} \<or> SSI_busy s Q"
    and ib: "\<forall>m\<in>set (a_inbox (ipc_of s Q) c). fst m \<noteq> MAGIC_SSI"
    and P: "\<And>s' Q' st. request_sent s H Q c req ra s' Q' \<Longrightarrow> request_in s' req service payload ra \<Longrightarrow>
       cpu s' = load rom st \<Longrightarrow> map_option t_state (tcbs s' (current_thread s')) = Some st \<Longrightarrow>
       (SSI_tcb s \<in> set (Q Wait_queue) \<Longrightarrow>
          map_option t_state (tcbs s' (SSI_tcb s)) = map_option (\<lambda>t. gpr_set reg_v0 c (t_state t)) (tcbs s (SSI_tcb s))) \<Longrightarrow>
       thread_sound s' c \<Longrightarrow> P None s'"
  shows "wp (SSIRequest rom req service payload ra) P E s"
  unfolding wp_write_request[OF wd(1)]
proof -
  let ?s0 = "requested req service payload ra s"
  note f0 = requested_frame[OF wd(1) run, of service payload ra]
  have l0: "SSI_listens ?s0 Q slot \<or> SSI_busy ?s0 Q" using l f0(6)[of slot] by (auto simp: SSI_listens_def SSI_busy_def f0(4,5))
  have wd0: "words_ok ?s0 [ra]" using wd(2) f0(6)[of ra] by (simp add: words_ok_def)
  have cs0: "c \<noteq> SSI_tcb ?s0" and ib0: "\<forall>m\<in>set (a_inbox (ipc_of ?s0 Q) c). fst m \<noteq> MAGIC_SSI" using cs ib by (simp_all add: f0(2,5))
  have sl: "reply_of s (SSI_tcb s) \<notin> {req, req + 4, req + 8}" if "SSI_tcb s \<in> set (Q Wait_queue)"
    using l that kinv_disjoint(1)[OF thread_runsD(1)[OF run], of "SSI_tcb s"]
    by (auto simp: SSI_listens_def SSI_busy_def reply_of_def split: option.splits)
  show "wp (MsgSend rom SEND MAGIC_SSI req) (\<lambda>_. wp (MsgRecv rom RECV MAGIC_SSI ra) P E) E ?s0"
  proof (rule wp_post_request[OF rom f0(1) cs0 l0])
    fix s1 Q1 assume u: "underway ?s0 H Q c req s1 Q1"
    show "wp (MsgRecv rom RECV MAGIC_SSI ra) P E s1"
    proof (rule wp_await_answer[OF rom u f0(1) cs0 l0 ib0 wd0])
      fix s' Q' st
      assume rs: "request_sent ?s0 H Q c req ra s' Q'" and me: "\<And>a. a \<noteq> BUS_INTERVALTIMER \<Longrightarrow> mem s' a = mem s1 a"
        and st: "cpu s' = load rom st" "map_option t_state (tcbs s' (current_thread s')) = Some st"
        "map_option t_state (tcbs s' (SSI_tcb ?s0)) = map_option t_state (tcbs s1 (SSI_tcb ?s0))" "thread_sound s' c"
      have "mem s1 a = mem ?s0 a" if "a \<in> {req, req + 4, req + 8}" for a
        using u that sl wd(1) by (auto simp: underway_def f0(4,5) reply_of_def words_ok_def)
      moreover have "mem s' a = mem s1 a" if "a \<in> {req, req + 4, req + 8}" for a using me[of a] that wd(1) by (auto simp: words_ok_def)
      ultimately have "request_in s' req service payload ra" using f0(3) by (simp add: request_in_def)
      then show "P None s'"
        using P[of s' Q' st] rs[unfolded request_sent_requested[OF wd(1) run]] st u by (simp add: underway_def f0(4,5))
    qed
  qed
qed

text \<open>The thread \<open>0x200\<close> runs, the SSI waits for any message, and all of memory is mapped.\<close>

definition ex_ask :: kstate where
  "ex_ask = (ex_state 0x200 [] [0x100, 0x300] (ex_area 0 0 0 0))\<lparr>mem := (\<lambda>a. Some 1)\<rparr>"

abbreviation "ex_ask_Q \<equiv> mk_Q (ex_contents [] [0x100, 0x300])"

lemma ex_ask_fields:
  "current_thread ex_ask = 0x200" "SSI_tcb ex_ask = 0x100" "tcbs ex_ask = tcbs (ex_state 0x200 [] [0x100, 0x300] (ex_area 0 0 0 0))"
  "mem ex_ask a = Some 1" "trap_managers ex_ask = replicate 20 0" "cpu ex_ask = ex_area 0 0 0 0"
  "msgs ex_ask = msgs (ex_state 0x200 [] [0x100, 0x300] (ex_area 0 0 0 0))"
  by (simp_all add: ex_ask_def ex_state_def)

lemma ex_ask_runs: "thread_runs ex_ask ex_H ex_ask_Q 0x200"
proof -
  have "kinv (ex_state 0x200 [] [0x100, 0x300] (ex_area 0 0 0 0)) ex_H ex_ask_Q"
    by (rule ex_kinv) (simp add: snapshot_defs insert_commute)
  then have "kinv ex_ask ex_H ex_ask_Q" by (simp add: ex_ask_def)
  then show ?thesis
    by (simp add: thread_runs_def ex_ask_fields ex_fields ex_tcb_def ex_area_def kernel_mode_def addr_ok_def bus_ok_def)
qed

lemma ex_ask_ok:
  "SSI_listens ex_ask ex_ask_Q 0x700" "\<forall>m\<in>set (a_inbox (ipc_of ex_ask ex_ask_Q) 0x200). fst m \<noteq> MAGIC_SSI"
  "words_ok ex_ask [0x800, 0x800 + 4, 0x800 + 8]" "words_ok ex_ask [0xA00]"
  by (simp_all add: SSI_listens_def ex_ask_fields ex_Q_simps ex_fields ex_tcb_def words_ok_def ipc_of_fields msg_pair_def)

text \<open>
  \<open>SSIRequest\<close>: when the SSI waits for any message, or is ready and a message is free, and
  no earlier answer lies in the requester's inbox, the request reaches the SSI: it is complete
  in the requester's memory, the SSI is woken up with its address or finds it last in its
  inbox, and the requester is suspended until the SSI answers at the given address. The
  processor goes to the next ready thread; the machine never stops here.
\<close>

theorem request_reaches_SSI:
  assumes "rom_ok rom" and "thread_runs s H Q c" and "c \<noteq> SSI_tcb s"
    and "words_ok s [req, req + 4, req + 8]" and "words_ok s [ra]"
    and "SSI_listens s Q slot \<and> slot \<notin> {req, req + 4, req + 8} \<or> SSI_busy s Q"
    and "\<forall>m\<in>set (a_inbox (ipc_of s Q) c). fst m \<noteq> MAGIC_SSI"
  shows "\<exists>s' Q'. SSIRequest rom req service payload ra s = Inr (None, s') \<and>
     request_sent s H Q c req ra s' Q' \<and> request_in s' req service payload ra"
proof -
  have "wp (SSIRequest rom req service payload ra)
    (\<lambda>r s'. r = None \<and> (\<exists>Q'. request_sent s H Q c req ra s' Q') \<and> request_in s' req service payload ra) no_stop s"
    by (rule wp_SSIRequest[OF assms]) blast
  then show ?thesis by (auto simp: wp_total)
qed

theorem request_reaches_SSI_witness:
  "\<exists>s' Q'. SSIRequest ex_rom 0x800 8 0 0xA00 ex_ask = Inr (None, s') \<and> request_sent ex_ask ex_H ex_ask_Q 0x200 0x800 0xA00 s' Q' \<and>
     mem s' 0x800 = Some 8"
  using request_reaches_SSI[OF ex_rom_ok ex_ask_runs _ ex_ask_ok(3,4) _ ex_ask_ok(2), of "0x700" 8 0] ex_ask_ok(1)
  by (auto simp: ex_ask_fields request_in_def)

section \<open>The SSI answers\<close>

text \<open>The SSI was the only other thread that could run: it has the processor now, with the request.\<close>

lemma SSI_takes_over:
  assumes rom: "rom_ok rom" and run: "thread_runs s H Q c" and l: "SSI_listens s Q slot" and q: "Q Ready_queue = []"
    and so: "thread_sound s (SSI_tcb s)"
    and rs: "request_sent s H Q c req ra s' Q'" and st: "cpu s' = load rom st" "map_option t_state (tcbs s' (current_thread s')) = Some st"
      "SSI_tcb s \<in> set (Q Wait_queue) \<Longrightarrow>
          map_option t_state (tcbs s' (SSI_tcb s)) = map_option (\<lambda>t. gpr_set reg_v0 c (t_state t)) (tcbs s (SSI_tcb s))"
  shows "thread_runs s' H Q' (SSI_tcb s')" "asks s' Q' c ra" "mem s' slot = Some req" "gpr_get (cpu s') reg_v0 = c"
proof -
  obtain t where t: "tcbs s (SSI_tcb s) = Some t" "length (gpr (t_state t)) = 29" "status (t_state t) AND STATUS_KUp = 0"
    "SSI_tcb s \<notin> set (trap_managers s)"
    using so by (rule thread_soundE)
  have w: "SSI_tcb s \<in> set (Q Wait_queue)" "reply_of s (SSI_tcb s) = slot"
    using l by (auto simp: SSI_listens_def reply_of_def split: option.splits)
  have sv: "same_service s s'" and cur: "current_thread s' = SSI_tcb s" using rs w(1) q by (simp_all add: request_sent_def)
  have e: "st = gpr_set reg_v0 c (t_state t)" using st(2) st(3)[OF w(1)] t(1) cur by simp
  have nz: "SSI_tcb s \<noteq> NULL" using kinv_live_not_NULL[OF thread_runsD(1)[OF run], of "SSI_tcb s"] w(1) by (simp add: live_def)
  have g: "length (gpr st) = 29" "status st = status (t_state t)" using t(2) by (simp_all add: e gpr_set_def)
  then have "kernel_mode (cpu s')" "length (gpr (cpu s')) = 29" using rom_load[OF rom, of st] t(3) st(1) by simp_all
  then show "thread_runs s' H Q' (SSI_tcb s')"
    using rs cur nz t(4) g(1) st(2) same_service_fields(1,4)[OF sv]
    by (auto simp: thread_runs_def request_sent_def split: option.splits)
  show "asks s' Q' c ra" "mem s' slot = Some req" using rs w by (simp_all add: request_sent_def)
  show "gpr_get (cpu s') reg_v0 = c" using t(2) rom_load(1)[OF rom, of st] by (simp add: st(1) e gpr_set_def gpr_get_def)
qed

end
