(* ===== verification/Ssi_Rest.thy ===== *)
theory Ssi_Rest
  imports Ssi_Request
begin

text \<open>
  The cycle of a service request on a machine where nothing else is ready. Between two requests
  the SSI rests: it waits for any message, with an empty inbox. A request wakes it up, its pass
  serves the request, and its next \<open>MsgRecv\<close> puts it to rest again and gives the processor to the
  thread it has answered, or lets the machine wait.
\<close>

unbundle bit_operations_syntax

section \<open>The SSI at rest\<close>

definition SSI_at_rest :: "kstate \<Rightarrow> list_head set \<Rightarrow> (list_head \<Rightarrow> U32 list) \<Rightarrow> U32 \<Rightarrow> bool" where
  "SSI_at_rest s H Q slot \<longleftrightarrow> kinv s H Q \<and> addr_ok s \<and> bus_ok s \<and> Q Ready_queue = [] \<and>
     Q (T_inbox (SSI_tcb s)) = [] \<and> SSI_listens s Q slot \<and> thread_sound s (SSI_tcb s)"

lemma SSI_at_restD:
  assumes "SSI_at_rest s H Q slot"
  shows "kinv s H Q" "addr_ok s" "bus_ok s" "Q Ready_queue = []" "Q (T_inbox (SSI_tcb s)) = []" "SSI_listens s Q slot"
    "thread_sound s (SSI_tcb s)" "SSI_tcb s \<in> set (Q Wait_queue)" "reply_of s (SSI_tcb s) = slot"
    "slot \<noteq> BUS_TIMESCALE" "slot \<noteq> BUS_INTERVALTIMER" "a_awaits (ipc_of s Q) x (SSI_tcb s)" "reply_ok s (SSI_tcb s)"
  using assms
  by (auto simp: SSI_at_rest_def SSI_listens_def reply_of_def reply_ok_def a_awaits_def satisfies_def ipc_of_fields
      split: option.splits)

text \<open>
  The \<open>MsgRecv\<close> of the SSI after a pass: with at most one ready thread, which then runs, the SSI
  is at rest.
\<close>

lemma SSI_rests:
  assumes rom: "rom_ok rom" and run: "thread_runs s H Q (SSI_tcb s)" and q: "length (Q Ready_queue) \<le> 1"
    and ib: "a_inbox (ipc_of s Q) (SSI_tcb s) = []" and sl: "mem s slot \<noteq> None" "slot \<noteq> BUS_TIMESCALE" "slot \<noteq> BUS_INTERVALTIMER"
    and b: "blocked (trapped rom RECV ANYMESSAGE slot s) H Q ANYMESSAGE slot s2 Q2" and sc: "scheduled s2 H Q2 r s3"
    and n: "current_thread s3 \<noteq> SSI_tcb s"
  shows "SSI_at_rest s3 H (Q2(Ready_queue := [])) slot" "Q2 Wait_queue = Q Wait_queue @ [SSI_tcb s]"
    "current_thread s3 = (case Q Ready_queue of [] \<Rightarrow> NULL | p # ps \<Rightarrow> p)" "r = WAIT \<longleftrightarrow> Q Ready_queue = []"
    "\<And>b. b \<noteq> BUS_INTERVALTIMER \<Longrightarrow> mem s3 b = mem s b" "same_service s s3" "soft_block_count s3 = soft_block_count s"
    "\<And>p. p \<noteq> SSI_tcb s \<Longrightarrow> map_option t_state (tcbs s3 p) = map_option t_state (tcbs s p)"
    "\<And>p. p \<noteq> SSI_tcb s \<Longrightarrow> p \<noteq> current_thread s3 \<Longrightarrow> tcbs s3 p = tcbs s p"
    "r = LDST st \<Longrightarrow> map_option t_state (tcbs s (current_thread s3)) = Some st"
proof -
  let ?ssi = "SSI_tcb s" and ?t = "trapped rom RECV ANYMESSAGE slot s" and ?A = "ipc_of s Q" and ?Q' = "Q2(Ready_queue := [])"
  note d = thread_runsD[OF run]
  have none: "fst (a_recv ANYMESSAGE ?A) = None" using ib d(4) by (simp add: a_recv_def Let_def ipc_of_fields)
  have i: "ipc_of s2 Q2 = ?A\<lparr>a_wait := a_wait ?A @ [?ssi], a_cur := NULL, a_want := (a_want ?A)(?ssi := ANYMESSAGE)\<rparr>"
    using b none d(4) by (auto simp: blocked_def a_recv_def Let_def ipc_of_fields split: option.splits)
  have q2: "Q2 Ready_queue = Q Ready_queue" and w2: "Q2 Wait_queue = Q Wait_queue @ [?ssi]" and c2: "current_thread s2 = NULL"
    using arg_cong[OF i, of a_ready] arg_cong[OF i, of a_wait] arg_cong[OF i, of a_cur] by (simp_all add: ipc_of_fields)
  show "Q2 Wait_queue = Q Wait_queue @ [?ssi]" by (rule w2)
  have B: "kinv s2 H Q2" "addr_ok s2" "reply_of s2 ?ssi = slot" "service_data s2 = service_data ?t" "mem s2 = mem s"
    "soft_block_count s2 = soft_block_count s" and own: "map_option t_state (tcbs s2 ?ssi) = Some (gpr_set reg_v0 NULL
       ((trap rom (cpu s) RECV ANYMESSAGE slot)\<lparr>pc_epc := pc_epc (trap rom (cpu s) RECV ANYMESSAGE slot) + WORD_SIZE\<rparr>))"
    and ot: "\<And>p. p \<noteq> ?ssi \<Longrightarrow> tcbs s2 p = tcbs s p"
    using b d(4) by (simp_all add: blocked_def)
  have tl: "tl (Q Ready_queue) = []" using q by (cases "Q Ready_queue") auto
  have S: "kinv s3 H ?Q'" "service_data s3 = service_data s2" "soft_block_count s3 = soft_block_count s2" "bus_ok s3"
    and me: "\<And>a. a \<noteq> BUS_INTERVALTIMER \<Longrightarrow> mem s3 a = mem s2 a" and tq: "\<And>p. p \<noteq> current_thread s3 \<Longrightarrow> tcbs s3 p = tcbs s2 p"
    and ts: "\<And>p. map_option t_state (tcbs s3 p) = map_option t_state (tcbs s2 p)"
    using sc c2 q2 tl by (simp_all add: scheduled_def)
  show "soft_block_count s3 = soft_block_count s" using S(3) B(6) by simp
  show "mem s3 b = mem s b" if "b \<noteq> BUS_INTERVALTIMER" for b using me[OF that] B(5) by simp
  show r: "r = WAIT \<longleftrightarrow> Q Ready_queue = []" using sc c2 q2 by (cases r) (auto simp: scheduled_def)
  show c3: "current_thread s3 = (case Q Ready_queue of [] \<Rightarrow> NULL | p # ps \<Rightarrow> p)"
    using sc c2 q2 r by (cases r; cases "Q Ready_queue") (auto simp: scheduled_def idle_state_def)
  show "map_option t_state (tcbs s3 p) = map_option t_state (tcbs s p)" if "p \<noteq> ?ssi" for p using ts ot[OF that] by simp
  show "tcbs s3 p = tcbs s p" if "p \<noteq> ?ssi" "p \<noteq> current_thread s3" for p using tq[OF that(2)] ot[OF that(1)] by simp
  show "map_option t_state (tcbs s (current_thread s3)) = Some st" if "r = LDST st"
    using sc ot[OF n] unfolding scheduled_def that rom_call.case by auto
  have sv: "service_data s3 = service_data ?t" using S(2) B(4) by simp
  show ss: "same_service s s3" by (rule same_service_trapped[OF sv])
  note f = same_service_fields[OF ss]
  have t3: "tcbs s3 ?ssi = tcbs s2 ?ssi" using tq n by metis
  obtain t where t: "tcbs s2 ?ssi = Some t" using own by auto
  have "waiting_for t = ANYMESSAGE" using arg_cong[OF i, of "\<lambda>A. a_want A ?ssi"] t by (simp add: ipc_of_fields)
  moreover have "reply t = slot" using B(3) t by (simp add: reply_of_def)
  moreover have "mem s3 slot \<noteq> None" using me[OF sl(3)] B(5) sl(1) by simp
  ultimately have ln: "SSI_listens s3 ?Q' slot" using w2 f(1) t t3 sl by (simp add: SSI_listens_def)
  have "length (gpr (trap rom (cpu s) RECV ANYMESSAGE slot)) = 29" "status (trap rom (cpu s) RECV ANYMESSAGE slot) AND STATUS_KUp = 0"
    using rom_trap[OF rom d(7,6)] by blast+
  then have "length (gpr (t_state t)) = 29" "status (t_state t) AND STATUS_KUp = 0" using own t by (simp_all add: gpr_set_def)
  then have "thread_sound s3 ?ssi" using t t3 f(1,4) d(8) by (simp add: thread_sound_def)
  moreover have "Q2 (T_inbox ?ssi) = []"
  proof -
    have "a_inbox (ipc_of s2 Q2) ?ssi = []" using i ib by simp
    moreover have "?ssi \<in> live s2 Q2" using w2 by (simp add: live_def)
    ultimately show ?thesis by (simp add: ipc_of_fields)
  qed
  moreover have "addr_ok s3" using d(2) f(1,10) by (simp add: addr_ok_def)
  ultimately show "SSI_at_rest s3 H ?Q' slot" using S(1,4) ln f(1) by (simp add: SSI_at_rest_def)
qed

lemma SSI_at_rest_cpu [simp]: "SSI_at_rest (s\<lparr>cpu := x\<rparr>) H Q slot = SSI_at_rest s H Q slot"
  by (simp add: SSI_at_rest_def SSI_listens_def thread_sound_def addr_ok_def bus_ok_def)

text \<open>The thread \<open>p\<close> runs again, with the state \<open>st\<close> that was saved for it, and the SSI is at rest.\<close>

definition thread_resumes :: "rom \<Rightarrow> kstate \<Rightarrow> list_head set \<Rightarrow> (list_head \<Rightarrow> U32 list) \<Rightarrow> U32 \<Rightarrow> U32 \<Rightarrow> state_t \<Rightarrow> bool" where
  "thread_resumes rom s H Q slot p st \<longleftrightarrow> SSI_at_rest s H Q slot \<and> thread_runs s H Q p \<and>
     map_option t_state (tcbs s p) = Some st \<and> cpu s = load rom st"

text \<open>The machine waits for an interrupt, and the SSI is at rest.\<close>

definition machine_waits :: "kstate \<Rightarrow> list_head set \<Rightarrow> (list_head \<Rightarrow> U32 list) \<Rightarrow> U32 \<Rightarrow> bool" where
  "machine_waits s H Q slot \<longleftrightarrow> SSI_at_rest s H Q slot \<and> current_thread s = NULL"

text \<open>The next \<open>MsgRecv\<close> of the SSI when one thread is ready.\<close>

lemma wp_SSI_yields:
  assumes rom: "rom_ok rom" and run: "thread_runs s H Q (SSI_tcb s)" and q: "Q Ready_queue = [p]"
    and ib: "a_inbox (ipc_of s Q) (SSI_tcb s) = []" and sl: "mem s slot \<noteq> None" "slot \<noteq> BUS_TIMESCALE" "slot \<noteq> BUS_INTERVALTIMER"
    and so: "thread_sound s p" and tp: "map_option t_state (tcbs s p) = Some st"
    and P: "\<And>s' Q'. thread_resumes rom s' H Q' slot p st \<Longrightarrow> (\<And>b. b \<noteq> BUS_INTERVALTIMER \<Longrightarrow> mem s' b = mem s b) \<Longrightarrow>
      same_service s s' \<Longrightarrow> P None s'"
  shows "wp (SSI_thread_body rom slot) P E s"
proof -
  let ?ssi = "SSI_tcb s" and ?t = "trapped rom RECV ANYMESSAGE slot s"
  note d = thread_runsD[OF run]
  have none: "fst (a_recv ANYMESSAGE (ipc_of ?t Q)) = None" using ib d(4) by (simp add: a_recv_def Let_def ipc_of_fields)
  have pn: "p \<noteq> ?ssi" "p \<noteq> NULL" using kinv_current(1)[OF d(1)] kinv_live_not_NULL[OF d(1), of p] d(4,5) q by (auto simp: live_def)
  have q1: "length (Q Ready_queue) \<le> 1" using q by simp
  have "wp (MsgRecv rom RECV ANYMESSAGE slot) (\<lambda>r s'. r = None \<and> P None s') E s"
  proof (rule wp_MsgRecv[OF rom run])
    fix s2 Q2 e assume "blocked ?t H Q ANYMESSAGE slot s2 Q2" and n: "nothing_runs s2 Q2 e"
    then have "a_ready (ipc_of s2 Q2) = a_ready (snd (a_recv ANYMESSAGE (ipc_of s Q)))" by (simp add: blocked_def)
    then have "a_ready (ipc_of s2 Q2) = [p]" using q by (auto simp: a_recv_def Let_def ipc_of_fields split: option.splits)
    then show "E e" using n by (simp add: ipc_of_fields nothing_runs_def)
  next
    fix s2 Q2 r s3
    assume b: "blocked ?t H Q ANYMESSAGE slot s2 Q2" and sc: "scheduled s2 H Q2 r s3" and n: "current_thread s3 \<noteq> ?ssi"
    note R = SSI_rests[OF rom run q1 ib sl b sc n]
    obtain st' where st': "r = LDST st'" using R(4) q by (cases r) auto
    have e: "st' = st" using R(10)[OF st'] R(3) q tp by simp
    have t3: "map_option t_state (tcbs s3 p) = Some st" using R(8)[OF pn(1)] tp by simp
    have "length (gpr st) = 29" "status st AND STATUS_KUp = 0" "p \<notin> set (trap_managers s)" using so tp by (auto simp: thread_sound_def split: option.splits)
    moreover from this have "kernel_mode (load rom st)" "length (gpr (load rom st)) = 29" using rom_load[OF rom, of st] by simp_all
    ultimately have "thread_resumes rom (s3\<lparr>cpu := load rom st\<rparr>) H (Q2(Ready_queue := [])) slot p st"
      using SSI_at_restD(1-3)[OF R(1)] R(1,3) q pn t3 same_service_fields(4)[OF R(6)]
      by (auto simp: thread_resumes_def thread_runs_def addr_ok_def bus_ok_def split: option.splits)
    moreover have "same_service s (s3\<lparr>cpu := load rom st\<rparr>)" using R(6) by (simp add: same_service_def service_data_def)
    ultimately have "P None (s3\<lparr>cpu := load rom st\<rparr>)" using R(5) by (intro P) simp_all
    then show "None = None \<and> P None (case r of LDST st \<Rightarrow> s3\<lparr>cpu := load rom st\<rparr> | WAIT \<Rightarrow> s3)" by (simp add: st' e)
  qed (use none in simp_all)
  then show ?thesis unfolding SSI_thread_body_def wp_kbind by (rule wp_mono) auto
qed

text \<open>
  The next \<open>MsgRecv\<close> of the SSI when no thread is ready and another one waits, after a request
  that is counted: the machine waits.
\<close>

lemma wp_SSI_idles:
  assumes rom: "rom_ok rom" and run: "thread_runs s H Q (SSI_tcb s)" and q: "Q Ready_queue = []" and w: "c \<in> set (Q Wait_queue)"
    and n0: "soft_block_count s \<noteq> 0"
    and ib: "a_inbox (ipc_of s Q) (SSI_tcb s) = []" and sl: "mem s slot \<noteq> None" "slot \<noteq> BUS_TIMESCALE" "slot \<noteq> BUS_INTERVALTIMER"
    and P: "\<And>s' Q'. machine_waits s' H Q' slot \<Longrightarrow> Q' Wait_queue = Q Wait_queue @ [SSI_tcb s] \<Longrightarrow>
      (\<And>p. p \<noteq> SSI_tcb s \<Longrightarrow> p \<noteq> NULL \<Longrightarrow> tcbs s' p = tcbs s p) \<Longrightarrow> (\<And>b. b \<noteq> BUS_INTERVALTIMER \<Longrightarrow> mem s' b = mem s b) \<Longrightarrow>
      same_service s s' \<Longrightarrow> P None s'"
  shows "wp (SSI_thread_body rom slot) P E s"
proof -
  let ?ssi = "SSI_tcb s" and ?t = "trapped rom RECV ANYMESSAGE slot s"
  note d = thread_runsD[OF run]
  have none: "fst (a_recv ANYMESSAGE (ipc_of ?t Q)) = None" using ib d(4) by (simp add: a_recv_def Let_def ipc_of_fields)
  have q1: "length (Q Ready_queue) \<le> 1" using q by simp
  have cn: "c \<noteq> ?ssi" using kinv_current(2)[OF d(1)] d(4,5) w by auto
  have "wp (MsgRecv rom RECV ANYMESSAGE slot) (\<lambda>r s'. r = None \<and> P None s') E s"
  proof (rule wp_MsgRecv[OF rom run])
    fix s2 Q2 e assume b: "blocked ?t H Q ANYMESSAGE slot s2 Q2" and n: "nothing_runs s2 Q2 e"
    have k2: "kinv s2 H Q2" and "a_wait (ipc_of s2 Q2) = Q Wait_queue @ [?ssi]" and sb: "soft_block_count s2 = soft_block_count s"
      using b none d(4) by (auto simp: blocked_def a_recv_def Let_def ipc_of_fields split: option.splits)
    then have "{c, ?ssi} \<subseteq> live s2 Q2" using w by (auto simp: ipc_of_fields live_def)
    then have "2 \<le> card (live s2 Q2)" using card_mono[OF kinv_live_finite, of "{c, ?ssi}" s2 Q2] cn by simp
    then have "\<not> thread_count s2 \<le> 1" using kinv_thread_count[OF k2] by (simp add: word_le_nat_alt)
    then show "E e" using n n0 sb by (simp add: nothing_runs_def)
  next
    fix s2 Q2 r s3
    assume b: "blocked ?t H Q ANYMESSAGE slot s2 Q2" and sc: "scheduled s2 H Q2 r s3" and n: "current_thread s3 \<noteq> ?ssi"
    note R = SSI_rests[OF rom run q1 ib sl b sc n]
    have r: "r = WAIT" "current_thread s3 = NULL" using R(3,4) q by simp_all
    then have "machine_waits s3 H (Q2(Ready_queue := [])) slot" using R(1) by (simp add: machine_waits_def)
    then have "P None s3" using R(2,5,6,9) r(2) by (intro P[of s3 "Q2(Ready_queue := [])"]) simp_all
    then show "None = None \<and> P None (case r of LDST st \<Rightarrow> s3\<lparr>cpu := load rom st\<rparr> | WAIT \<Rightarrow> s3)" by (simp add: r)
  qed (use none in simp_all)
  then show ?thesis unfolding SSI_thread_body_def wp_kbind by (rule wp_mono) auto
qed

section \<open>The request\<close>

text \<open>The requester waits, and the SSI has the processor, with the request in \<open>req_struct\<close> and the requester in \<open>v0\<close>.\<close>

definition request_taken :: "kstate \<Rightarrow> list_head set \<Rightarrow> (list_head \<Rightarrow> U32 list) \<Rightarrow> U32 \<Rightarrow> U32 \<Rightarrow> U32 \<Rightarrow> U32 \<Rightarrow> bool" where
  "request_taken s H Q slot c req ra \<longleftrightarrow> thread_runs s H Q (SSI_tcb s) \<and> gpr_get (cpu s) reg_v0 = c \<and> mem s slot = Some req \<and>
     asks s Q c ra \<and> thread_sound s c \<and> Q Ready_queue = [] \<and> a_inbox (ipc_of s Q) (SSI_tcb s) = []"

lemma wp_request_at_rest:
  assumes rom: "rom_ok rom" and rest: "SSI_at_rest s H Q slot" and run: "thread_runs s H Q c"
    and wd: "words_ok s [req, req + 4, req + 8]" "words_ok s [ra]" "slot \<notin> {req, req + 4, req + 8}"
    and ib: "\<forall>m\<in>set (a_inbox (ipc_of s Q) c). fst m \<noteq> MAGIC_SSI"
    and P: "\<And>s' Q'. request_taken s' H Q' slot c req ra \<Longrightarrow> request_in s' req service payload ra \<Longrightarrow> same_service s s' \<Longrightarrow>
      soft_block_count s' = soft_block_count s + 1 \<Longrightarrow> (\<And>a. mem s' a = None \<longleftrightarrow> mem s a = None) \<Longrightarrow> P None s'"
  shows "wp (SSIRequest rom req service payload ra) P E s"
proof -
  note R = SSI_at_restD[OF rest]
  have cs: "c \<noteq> SSI_tcb s" using kinv_current(2)[OF R(1)] thread_runsD(4,5)[OF run] R(8) by auto
  have l: "SSI_listens s Q slot \<and> slot \<notin> {req, req + 4, req + 8} \<or> SSI_busy s Q" using R(6) wd(3) by blast
  have ia: "a_inbox (ipc_of s Q) (SSI_tcb s) = []" using R(5) by (simp add: ipc_of_fields)
  show ?thesis
  proof (rule wp_SSIRequest[OF rom run cs wd(1,2) l ib])
    fix s' Q' st
    assume rs: "request_sent s H Q c req ra s' Q'" and ri: "request_in s' req service payload ra"
      and st: "cpu s' = load rom st" "map_option t_state (tcbs s' (current_thread s')) = Some st"
        "SSI_tcb s \<in> set (Q Wait_queue) \<Longrightarrow>
          map_option t_state (tcbs s' (SSI_tcb s)) = map_option (\<lambda>t. gpr_set reg_v0 c (t_state t)) (tcbs s (SSI_tcb s))"
      and so: "thread_sound s' c"
    note o = SSI_takes_over[OF rom run R(6,4,7) rs st]
    have "SSI_tcb s' = SSI_tcb s" using rs same_service_fields(1) by (auto simp: request_sent_def)
    then have "request_taken s' H Q' slot c req ra"
      using o so rs R(4,8) ia by (simp add: request_taken_def request_sent_def)
    then show "P None s'" using ri rs by (intro P) (simp_all add: request_sent_def)
  qed
qed

text \<open>The answer of the SSI to the thread it serves: the thread runs again.\<close>

lemma wp_answer_resumes:
  assumes rom: "rom_ok rom" and an: "answered s H Q p a v s1 Q1" and sv: "same_service s s1"
    and s1': "s1' = s1\<lparr>devTcb_array := D\<rparr> \<or> s1' = s1" and run: "thread_runs s H Q (SSI_tcb s)" and as: "asks s Q p a"
    and q: "Q Ready_queue = []" and ib: "a_inbox (ipc_of s Q) (SSI_tcb s) = []"
    and sl: "mem s slot \<noteq> None" "slot \<noteq> BUS_TIMESCALE" "slot \<noteq> BUS_INTERVALTIMER"
    and so: "thread_sound s p" and tp: "tcbs s p = Some tp"
    and P: "\<And>s' Q'. thread_resumes rom s' H Q' slot p (gpr_set reg_v0 MAGIC_SSI (t_state tp)) \<Longrightarrow> mem s' a = Some v \<Longrightarrow>
      same_service s1' s' \<Longrightarrow> P None s'"
  shows "wp (SSI_thread_body rom slot) P E s1'"
proof -
  note sf = same_service_fields[OF sv] and pn = asks_thread(4)[OF run as]
  have i1: "ipc_of s1' Q1 = released p (ipc_of s Q)" and run1: "thread_runs s1' H Q1 (SSI_tcb s1')" and ssi: "SSI_tcb s1' = SSI_tcb s"
    and me: "\<And>b. b \<noteq> BUS_INTERVALTIMER \<Longrightarrow> mem s1' b = ((mem s)(a \<mapsto> v)) b" and t1: "tcbs s1' p = Some (woken MAGIC_SSI tp)"
    and tm: "trap_managers s1' = trap_managers s"
    using an s1' sf(1,4) tp pn by (auto simp: answered_def woken_up_def)
  have "a_ready (ipc_of s1' Q1) = [p]" using i1 q by (simp add: released_def ipc_of_fields)
  then have q1: "Q1 Ready_queue = [p]" by (simp add: ipc_of_fields)
  have ib1: "a_inbox (ipc_of s1' Q1) (SSI_tcb s1') = []" using i1 ib ssi by (simp add: released_def)
  have ms: "mem s1' slot \<noteq> None" using me[OF sl(3)] sl(1) by simp
  have so1: "thread_sound s1' p" using so tp t1 tm by (simp add: thread_sound_def woken_def gpr_set_def)
  have st1: "map_option t_state (tcbs s1' p) = Some (gpr_set reg_v0 MAGIC_SSI (t_state tp))" using t1 by (simp add: woken_def)
  show ?thesis
  proof (rule wp_SSI_yields[OF rom run1 q1 ib1 ms sl(2,3) so1 st1])
    fix s' Q' assume tr: "thread_resumes rom s' H Q' slot p (gpr_set reg_v0 MAGIC_SSI (t_state tp))"
      and m': "\<And>b. b \<noteq> BUS_INTERVALTIMER \<Longrightarrow> mem s' b = mem s1' b" and sv': "same_service s1' s'"
    have "a \<noteq> BUS_INTERVALTIMER" using as by (simp add: asks_def)
    then show "P None s'" using P[OF tr _ sv'] m'[of a] me[of a] by simp
  qed
qed

section \<open>A service from end to end\<close>

text \<open>
  C17. \<open>GETCPUTIME\<close> from end to end. A thread asks for its processor time while the SSI is at rest:
  its \<open>SSIRequest\<close> suspends it and gives the processor to the SSI, with the requester in \<open>v0\<close> and
  the request in \<open>req_struct\<close>; the pass of the SSI and its next \<open>MsgRecv\<close> give the processor back
  to the requester, with its processor time stored where it asked for it and its registers as
  they were saved, but for the sender of the answer in \<open>v0\<close>. The SSI is at rest again.
\<close>

theorem cpu_time_end_to_end:
  assumes "rom_ok rom" and "SSI_at_rest s H Q slot" and "thread_runs s H Q c"
    and "words_ok s [req, req + 4, req + 8]" and "words_ok s [ra]" and "slot \<notin> {req, req + 4, req + 8}"
    and "\<forall>m\<in>set (a_inbox (ipc_of s Q) c). fst m \<noteq> MAGIC_SSI"
  shows "\<exists>s1 tc s2 Q2. SSIRequest rom req GETCPUTIME 0 ra s = Inr (None, s1) \<and> current_thread s1 = SSI_tcb s1 \<and>
     gpr_get (cpu s1) reg_v0 = c \<and> tcbs s1 c = Some tc \<and>
     kthen (SSI_after_recv rom slot c) (SSI_thread_body rom slot) s1 = Inr (None, s2) \<and>
     thread_resumes rom s2 H Q2 slot c (gpr_set reg_v0 MAGIC_SSI (t_state tc)) \<and> mem s2 ra = Some (cpu_time tc)"
proof -
  have "wp (SSIRequest rom req GETCPUTIME 0 ra) (\<lambda>r s1. r = None \<and> (\<exists>Q1. request_taken s1 H Q1 slot c req ra) \<and>
     request_in s1 req GETCPUTIME 0 ra) no_stop s"
    by (rule wp_request_at_rest[OF assms]) blast
  then obtain s1 Q1 where s1: "SSIRequest rom req GETCPUTIME 0 ra s = Inr (None, s1)" "request_taken s1 H Q1 slot c req ra"
    and rq: "mem s1 req = Some GETCPUTIME"
    by (auto simp: wp_total request_in_def)
  have T: "thread_runs s1 H Q1 (SSI_tcb s1)" "gpr_get (cpu s1) reg_v0 = c" "mem s1 slot = Some req" "asks s1 Q1 c ra"
    "thread_sound s1 c" "Q1 Ready_queue = []" "a_inbox (ipc_of s1 Q1) (SSI_tcb s1) = []"
    using s1(2) by (simp_all add: request_taken_def)
  obtain tc where tc: "tcbs s1 c = Some tc" using T(5) by (rule thread_soundE)
  let ?R = "\<lambda>r s2. r = None \<and> (\<exists>Q2. thread_resumes rom s2 H Q2 slot c (gpr_set reg_v0 MAGIC_SSI (t_state tc))) \<and> mem s2 ra = Some (cpu_time tc)"
  have "wp (MsgSend rom SEND c (cpu_time tc)) (\<lambda>_. wp (SSI_thread_body rom slot) ?R no_stop) no_stop s1"
  proof (rule wp_answer[OF assms(1) T(1,4)])
    fix s' Q' assume an: "answered s1 H Q1 c ra (cpu_time tc) s' Q'" and sv: "same_service s1 s'"
    have sl: "mem s1 slot \<noteq> None" using T(3) by simp
    show "wp (SSI_thread_body rom slot) ?R no_stop s'"
      by (rule wp_answer_resumes[OF assms(1) an sv disjI2[OF refl] T(1,4,6,7) sl SSI_at_restD(10,11)[OF assms(2)] T(5) tc]) blast
  qed
  then have "wp (SSI_serve rom c req) (\<lambda>_. wp (SSI_thread_body rom slot) ?R no_stop) no_stop s1"
    using rq tc by (subst SSI_waiting_request[OF T(1,4) rq]) (simp_all add: serve_request_def get_cpu_time_def)
  then have "wp (kthen (SSI_after_recv rom slot c) (SSI_thread_body rom slot)) ?R no_stop s1"
    using T(3) by (simp add: SSI_after_recv_def)
  then show ?thesis using s1(1) T(1,2) tc thread_runsD(4) by (auto simp: wp_total)
qed

lemma ex_ask_rest: "SSI_at_rest ex_ask ex_H ex_ask_Q 0x700"
  using thread_runsD(1-3)[OF ex_ask_runs] ex_ask_ok(1)
  by (simp add: SSI_at_rest_def ex_Q_simps thread_sound_def ex_ask_fields ex_fields ex_tcb_def)

theorem cpu_time_end_to_end_witness:
  "\<exists>s1 s2. SSIRequest ex_rom 0x800 GETCPUTIME 0 0xA00 ex_ask = Inr (None, s1) \<and> current_thread s1 = SSI_tcb s1 \<and>
     kthen (SSI_after_recv ex_rom 0x700 0x200) (SSI_thread_body ex_rom 0x700) s1 = Inr (None, s2) \<and>
     current_thread s2 = 0x200 \<and> mem s2 0xA00 = map_option cpu_time (tcbs s1 0x200)"
  using cpu_time_end_to_end[OF ex_rom_ok ex_ask_rest ex_ask_runs ex_ask_ok(3,4) _ ex_ask_ok(2)]
  by (auto simp: thread_resumes_def thread_runs_def)

end
