(* ===== verification/Io_Path.thy ===== *)
theory Io_Path
  imports Ssi_Rest Int_Props
begin

text \<open>
  Input and output from end to end: the interrupt of a device on an idle machine, the message of
  the interrupt handler, the switch to the SSI, its pass, and the switch to the thread that waits
  for the device.
\<close>

unbundle bit_operations_syntax

section \<open>The report of a device\<close>

text \<open>
  The device with the lowest number that is pending on \<open>line\<close> is reported in the name of the
  register \<open>x\<close> with the status \<open>st\<close>: a terminal as its transmitter or its receiver, any other
  device with the status it has after the acknowledgement.
\<close>

definition device_reports :: "device \<Rightarrow> kstate \<Rightarrow> nat \<Rightarrow> U32 \<Rightarrow> U32 \<Rightarrow> bool" where
  "device_reports dev s line x st \<longleftrightarrow> (case mem s (pending_bitmap_addr line) of None \<Rightarrow> False | Some bitmap \<Rightarrow>
     let base = device_baseaddr line (which_device bitmap) in
     mem s (base + 4) \<noteq> None \<and>
     (if line = 7 then mem s (base + 0xC) \<noteq> None \<and> st AND STATUSMASK = 5 \<and>
        (case (mem s (base + 8), mem s base) of
           (Some tr, Some rc) \<Rightarrow> (x, st) = (if tr AND STATUSMASK = DEV_TTRS_S_CHARTRSM then (base + 8, tr) else (base, rc))
         | _ \<Rightarrow> False)
      else x = base \<and> mem (acked dev (base + 4) s) base = Some st))"

text \<open>The SSI, which waited, is ready with the message of the device in \<open>req_struct\<close>.\<close>

definition device_told :: "layout \<Rightarrow> kstate \<Rightarrow> list_head set \<Rightarrow> (list_head \<Rightarrow> U32 list) \<Rightarrow> U32 \<Rightarrow> U32 \<Rightarrow> U32 \<Rightarrow>
    kstate \<Rightarrow> (list_head \<Rightarrow> U32 list) \<Rightarrow> bool" where
  "device_told lay s H Q slot x st s1 Q1 \<longleftrightarrow> kinv s1 H Q1 \<and> addr_ok s1 \<and> bus_ok s1 \<and>
     ipc_of s1 Q1 = released (SSI_tcb s) (ipc_of s Q) \<and> service_data s1 = service_data s \<and>
     current_thread s1 = current_thread s \<and> tcbs s1 = woken_up s x (SSI_tcb s) True \<and>
     mem s1 slot = Some (int_msg_addr lay (interrupt_i s)) \<and>
     mem s1 (int_msg_addr lay (interrupt_i s)) = Some INTERRUPT_MSG \<and> mem s1 (int_msg_addr lay (interrupt_i s) + 4) = Some st \<and>
     (\<forall>a. mem s1 a = None \<longleftrightarrow> mem s a = None)"

text \<open>
  The next entry of the interrupt messages is mapped, and it and the variable of the SSI lie apart
  from each other and from the device registers.
\<close>

definition message_room :: "layout \<Rightarrow> kstate \<Rightarrow> U32 \<Rightarrow> bool" where
  "message_room lay s slot \<longleftrightarrow> int_msg_ok lay s \<and> slot \<notin> dev_region \<and> slot \<notin> msg_words (int_msg_addr lay (interrupt_i s))"

definition SSI_expects :: "layout \<Rightarrow> kstate \<Rightarrow> (list_head \<Rightarrow> U32 list) \<Rightarrow> U32 \<Rightarrow> bool" where
  "SSI_expects lay s Q slot \<longleftrightarrow> SSI_listens s Q slot \<and> message_room lay s slot"

lemma SSI_listensD:
  assumes "SSI_listens s Q slot"
  shows "SSI_tcb s \<in> set (Q Wait_queue)" "reply_of s (SSI_tcb s) = slot" "a_awaits (ipc_of s Q) x (SSI_tcb s)"
    "reply_ok s (SSI_tcb s)" "slot \<noteq> BUS_INTERVALTIMER"
  using assms
  by (auto simp: SSI_listens_def reply_of_def reply_ok_def a_awaits_def satisfies_def ipc_of_fields split: option.splits)

lemma wp_tell_device:
  assumes k: "kinv s H Q" and ok: "addr_ok s" and b: "bus_ok s" and l: "SSI_expects lay s Q slot" and x: "tcbs s x = None"
    and P: "\<And>s1 Q1. device_told lay s H Q slot x st s1 Q1 \<Longrightarrow> P () s1"
  shows "wp (kthen (fill_int_msg lay INTERRUPT_MSG st) (notify_SSI lay x)) P E s"
proof (rule wp_report[OF k ok b _ refl])
  let ?m = "int_msg_addr lay (interrupt_i s)" and ?ssi = "SSI_tcb s"
  note w = SSI_listensD[OF l[unfolded SSI_expects_def, THEN conjunct1]]
  have i: "int_msg_ok lay s" and sl: "slot \<notin> msg_words ?m" using l by (simp_all add: SSI_expects_def message_room_def)
  show "int_msg_ok lay s" "reply_ok s ?ssi" by (fact i, fact w(4))
  show "x \<noteq> ?ssi" using x ok by (auto simp: addr_ok_def)
  have al: "a_live (ipc_of s Q) ?ssi" using w(1) a_live_ipc_of by (auto simp: live_def)
  have snd: "a_send x ?ssi ?m (ipc_of s Q) = Some (MSGGOOD, released ?ssi (ipc_of s Q))"
    using w(3)[of x] al by (simp add: a_send_def released_def)
  then show "E PANIC" if "\<nexists>A. a_send x ?ssi ?m (ipc_of s Q) = Some (MSGGOOD, A)" using that by blast
  fix A s' Q'
  assume A: "a_send x ?ssi ?m (ipc_of s Q) = Some (MSGGOOD, A)" and s': "kinv s' H Q'" "addr_ok s'" "bus_ok s'"
    "ipc_of s' Q' = A" "ipc_only s s'" "service_data s' = service_data s"
    "tcbs s' = woken_up s x ?ssi (a_awaits (ipc_of s Q) x ?ssi)"
    and me: "mem s' = (if a_awaits (ipc_of s Q) x ?ssi then (filled ?m INTERRUPT_MSG st (mem s))(reply_of s ?ssi \<mapsto> ?m)
                 else filled ?m INTERRUPT_MSG st (mem s))"
  have m': "mem s' = (filled ?m INTERRUPT_MSG st (mem s))(slot \<mapsto> ?m)" using me w(2,3) by simp
  have "mem s' a = None \<longleftrightarrow> mem s a = None" for a
    using i w(2,4) by (auto simp: m' int_msg_ok_def msg_words_def filled_def reply_ok_def)
  moreover have "mem s' ?m = Some INTERRUPT_MSG" "mem s' (?m + 4) = Some st"
    using sl by (auto simp: m' filled_words msg_words_def)
  ultimately have "device_told lay s H Q slot x st s' Q'"
    using s' A snd w(3)[of x] ipc_only_fields(1)[OF s'(5)] by (simp add: device_told_def m')
  then show "P () s'" by (rule P)
qed

lemma SSI_expects_acked:
  assumes "device_ok dev" and "a \<in> dev_region" and "mem s a \<noteq> None"
  shows "SSI_expects lay (acked dev a s) Q slot = SSI_expects lay s Q slot"
  using acked_mem(1,4)[OF assms] by (simp add: SSI_expects_def message_room_def SSI_listens_def) (simp add: acked_def)

lemma device_told_acked:
  assumes t: "device_told lay s H Q slot x st s1 Q1" and l: "SSI_expects lay s Q slot"
    and a: "device_ok dev" "a \<in> dev_region" "mem s1 a \<noteq> None"
  shows "device_told lay s H Q slot x st (acked dev a s1) Q1"
proof -
  have "int_msg_addr lay (interrupt_i s) \<notin> dev_region" "int_msg_addr lay (interrupt_i s) + 4 \<notin> dev_region" "slot \<notin> dev_region"
    using l by (auto simp: SSI_expects_def message_room_def int_msg_ok_def msg_words_def)
  with t acked_mem(1-3)[OF a] show ?thesis by (simp add: device_told_def) (simp add: acked_def)
qed

text \<open>The branch of the interrupt handler for one line.\<close>

lemma wp_serve_device:
  assumes k: "kinv s H Q" and ok: "addr_ok s" and b: "bus_ok s" and dev: "device_ok dev" and ln: "line \<in> {3, 4, 5, 6, 7}"
    and rp: "device_reports dev s line x st" and l: "SSI_expects lay s Q slot" and x: "tcbs s x = None"
    and P: "\<And>s1 Q1. device_told lay s H Q slot x st s1 Q1 \<Longrightarrow> P () s1"
  shows "wp (serve_line lay dev line) P E s"
proof -
  obtain bitmap where bm: "mem s (pending_bitmap_addr line) = Some bitmap"
    using rp by (auto simp: device_reports_def split: option.splits)
  define base where "base = device_baseaddr line (which_device bitmap)"
  note reg = device_baseaddr_cases[OF ln which_device_less, of bitmap, folded base_def]
  have c4: "mem s (base + 4) \<noteq> None" using rp bm by (simp add: device_reports_def Let_def base_def)
  show ?thesis
  proof (cases "line = 7")
    case False
    let ?s = "acked dev (base + 4) s"
    have xs: "x = base" "mem ?s base = Some st" using rp bm False by (simp_all add: device_reports_def Let_def base_def)
    note a = acked_mem[OF dev reg(2) c4]
    have "wp (kthen (fill_int_msg lay INTERRUPT_MSG st) (notify_SSI lay base)) P E ?s"
    proof (rule wp_tell_device[where H = H and Q = Q and slot = slot])
      fix s1 Q1 assume "device_told lay ?s H Q slot base st s1 Q1"
      then have "device_told lay s H Q slot x st s1 Q1"
        using a(1) xs(1) by (simp add: device_told_def woken_up_def) (simp add: acked_def)
      then show "P () s1" by (rule P)
    qed (use k ok b a(3) SSI_expects_acked[OF dev reg(2) c4] l x xs(1) in \<open>simp_all, simp add: acked_def\<close>)
    then show ?thesis
      using False ln bm xs(2)
      by (auto simp: serve_line_def dtp_interrupt_def Let_def base_def[symmetric] wp_ack[OF c4] simp del: DEV_C_ACK_def)
  next
    case True
    obtain tr rc where v: "mem s (base + 8) = Some tr" "mem s base = Some rc" and cC: "mem s (base + 0xC) \<noteq> None"
      and xs: "(x, st) = (if tr AND STATUSMASK = DEV_TTRS_S_CHARTRSM then (base + 8, tr) else (base, rc))" "st AND STATUSMASK = 5"
      using rp bm True by (auto simp: device_reports_def Let_def base_def split: option.splits)
    have c: "x + 4 \<in> dev_region" "mem s (x + 4) \<noteq> None" using xs(1) reg(2,4) c4 cC by (auto simp: add.commute[of 12] split: if_splits)
    have "wp (kthen (fill_int_msg lay INTERRUPT_MSG st) (notify_SSI lay x)) (\<lambda>_. wp (bus_write dev (x + 4) DEV_C_ACK) P E) E s"
    proof (rule wp_tell_device[OF k ok b l x])
      fix s1 Q1 assume t: "device_told lay s H Q slot x st s1 Q1"
      then have c1: "mem s1 (x + 4) \<noteq> None" using c(2) by (simp add: device_told_def)
      show "wp (bus_write dev (x + 4) DEV_C_ACK) P E s1"
        unfolding wp_ack[OF c1] by (rule P[OF device_told_acked[OF t l dev c(1) c1]])
    qed
    then show ?thesis
      using True bm v xs
      by (simp add: serve_line_def terminal_interrupt_def Let_def base_def[unfolded True, symmetric] add.assoc split: if_splits)
  qed
qed

section \<open>From the interrupt to the SSI\<close>

text \<open>The thread \<open>p\<close> waits for the device of index \<open>n\<close>, with \<open>a\<close> for the status.\<close>

definition io_waits :: "kstate \<Rightarrow> (list_head \<Rightarrow> U32 list) \<Rightarrow> nat \<Rightarrow> U32 \<Rightarrow> U32 \<Rightarrow> bool" where
  "io_waits s Q n p a \<longleftrightarrow> asks s Q p a \<and> thread_sound s p \<and> io_tables s n \<and> devTcb_array s ! n = p"

text \<open>The SSI has the processor and the message of the device \<open>x\<close> with the status \<open>st\<close>.\<close>

definition device_taken :: "kstate \<Rightarrow> list_head set \<Rightarrow> (list_head \<Rightarrow> U32 list) \<Rightarrow> U32 \<Rightarrow> U32 \<Rightarrow> U32 \<Rightarrow> bool" where
  "device_taken s H Q slot x st \<longleftrightarrow> thread_runs s H Q (SSI_tcb s) \<and> gpr_get (cpu s) reg_v0 = x \<and> tcbs s x = None \<and>
     Q Ready_queue = [] \<and> a_inbox (ipc_of s Q) (SSI_tcb s) = [] \<and>
     (case mem s slot of None \<Rightarrow> False | Some m \<Rightarrow> mem s m = Some INTERRUPT_MSG \<and> mem s (m + 4) = Some st)"

lemma asks_not_SSI:
  assumes "asks s Q p a" and "SSI_listens s Q slot"
  shows "p \<noteq> SSI_tcb s"
  using assms by (auto simp: asks_def SSI_listens_def split: option.splits)

text \<open>The idle machine gives the processor to the SSI.\<close>

lemma device_switch:
  assumes rom: "rom_ok rom" and mw: "machine_waits s H Q slot" and l: "SSI_expects lay s Q slot" and x: "tcbs s x = None"
    and w: "io_waits s Q n p a" and d: "device_told lay s H Q slot x st s1 Q1" and s2: "s2 = s1\<lparr>interrupt_i := i\<rparr>" and sc: "scheduled s2 H Q1 r s'"
  shows "\<exists>st1 Q'. r = LDST st1 \<and> device_taken (s'\<lparr>cpu := load rom st1\<rparr>) H Q' slot x st \<and> SSI_tcb s' = SSI_tcb s \<and>
    io_waits (s'\<lparr>cpu := load rom st1\<rparr>) Q' n p a \<and> tcbs s' p = tcbs s p"
proof -
  let ?ssi = "SSI_tcb s" and ?m = "int_msg_addr lay (interrupt_i s)"
  have idle: "current_thread s = NULL" "Q Ready_queue = []" "Q (T_inbox ?ssi) = []" and so: "thread_sound s ?ssi"
    using mw by (simp_all add: machine_waits_def SSI_at_rest_def)
  obtain t where t: "tcbs s ?ssi = Some t" "length (gpr (t_state t)) = 29" "status (t_state t) AND STATUS_KUp = 0"
    "?ssi \<notin> set (trap_managers s)"
    using so by (rule thread_soundE)
  have ln: "SSI_listens s Q slot" using l by (simp add: SSI_expects_def message_room_def)
  note lw = SSI_listensD[OF ln]
  have pn: "p \<noteq> ?ssi" using w asks_not_SSI[OF _ ln] by (auto simp: io_waits_def)
  have i1: "ipc_of s1 Q1 = released ?ssi (ipc_of s Q)" and sv1: "service_data s1 = service_data s"
    and tc: "tcbs s1 = woken_up s x ?ssi True" and k1: "kinv s1 H Q1" and c1: "current_thread s1 = NULL"
    using d idle by (simp_all add: device_told_def)
  note f1 = service_data_fields[OF sv1]
  have q1: "Q1 Ready_queue = [?ssi]" "Q1 Wait_queue = remove1 ?ssi (Q Wait_queue)"
    using arg_cong[OF i1, of a_ready] arg_cong[OF i1, of a_wait] idle by (simp_all add: ipc_of_fields released_def)
  have nz: "?ssi \<noteq> NULL" using kinv_live_not_NULL[OF k1, of ?ssi] q1 by (simp add: live_def)
  have "r \<noteq> WAIT" using sc q1 by (auto simp: scheduled_def)
  then obtain st1 where r: "r = LDST st1" by (cases r) auto
  let ?Q' = "Q1(Ready_queue := [])" and ?s' = "s'\<lparr>cpu := load rom st1\<rparr>"
  have S: "kinv s' H ?Q'" "service_data s' = service_data s2" "msgs s' = msgs s2" "bus_ok s'" "current_thread s' = ?ssi"
    "map_option t_state (tcbs s2 ?ssi) = Some st1" and me: "\<And>a. a \<noteq> BUS_INTERVALTIMER \<Longrightarrow> mem s' a = mem s1 a"
    and tq: "\<And>q. q \<noteq> ?ssi \<Longrightarrow> tcbs s' q = tcbs s1 q" and ts: "\<And>q. map_option t_state (tcbs s' q) = map_option t_state (tcbs s1 q)"
    using sc c1 q1 by (auto simp: scheduled_def s2 r)
  note f2 = service_data_fields[OF S(2)]
  have e: "st1 = gpr_set reg_v0 x (t_state t)" using S(6) t(1) by (simp add: s2 tc woken_up_def woken_def)
  have g: "length (gpr st1) = 29" "status st1 = status (t_state t)" using t(2) by (simp_all add: e gpr_set_def)
  then have km: "kernel_mode (load rom st1)" "length (gpr (load rom st1)) = 29" using rom_load[OF rom, of st1] t(3) by simp_all
  have sn: "tcbs s' q = None \<longleftrightarrow> tcbs s q = None" for q using f2(11)[of q] f1(11)[of q] by (simp add: s2)
  have ssi: "SSI_tcb s' = ?ssi" using f1(1) f2(1) by (simp add: s2)
  have "addr_ok s'" using d ssi f1(1) f1(11) sn by (simp add: device_told_def addr_ok_def)
  moreover have "length (gpr (t_state t')) = 29" if "tcbs s' ?ssi = Some t'" for t' using ts[of ?ssi] S(6) that g(1) by (auto simp: s2)
  moreover have "tcbs s' ?ssi \<noteq> None" using sn[of ?ssi] t(1) by simp
  ultimately have run: "thread_runs ?s' H ?Q' (SSI_tcb ?s')"
    using S km ssi nz t(4) f1(4) f2(4) by (auto simp: thread_runs_def s2 addr_ok_def bus_ok_def)
  have "a_inbox (ipc_of s1 Q1) ?ssi = []" using i1 idle(3) lw(1) by (simp add: released_def ipc_of_fields)
  then have ib: "Q1 (T_inbox ?ssi) = []" using q1 by (simp add: ipc_of_fields live_def)
  have wo: "?m \<noteq> BUS_INTERVALTIMER" "?m + 4 \<noteq> BUS_INTERVALTIMER" using l by (auto simp: SSI_expects_def message_room_def int_msg_ok_def msg_words_def)
  have "gpr_get (load rom st1) reg_v0 = x" using t(2) rom_load(1)[OF rom, of st1] by (simp add: e gpr_set_def gpr_get_def)
  then have tk: "device_taken ?s' H ?Q' slot x st"
    using run sn[of x] x d ib me[OF lw(5)] me[OF wo(1)] me[OF wo(2)] ssi
    by (simp add: device_taken_def ipc_of_fields device_told_def)
  have tp: "tcbs s1 p = tcbs s p" "tcbs s' p = tcbs s1 p" using pn tq by (simp_all add: tc woken_up_def)
  have "mem s' a \<noteq> None" using d w me[of a] by (simp add: device_told_def io_waits_def asks_def)
  then have "io_waits ?s' ?Q' n p a"
    using w tp f1(4-6) f2(4-6) q1(2) pn by (simp add: io_waits_def asks_def io_tables_def thread_sound_def s2)
  with r tk ssi tp show ?thesis by auto
qed

lemma wp_device_interrupt:
  assumes rom: "rom_ok rom" and dev: "device_ok dev" and mw: "machine_waits s H Q slot" and room: "message_room lay s slot"
    and pl: "pending_line s = Some line" and ln: "line \<in> {3, 4, 5, 6, 7}" and rp: "device_reports dev s line x st"
    and x: "tcbs s x = None" and w: "io_waits s Q n p a"
  shows "wp (int_handler lay dev) (\<lambda>r s'. \<exists>st1 Q'. r = LDST st1 \<and> device_taken (s'\<lparr>cpu := load rom st1\<rparr>) H Q' slot x st \<and>
     SSI_tcb s' = SSI_tcb s \<and> io_waits (s'\<lparr>cpu := load rom st1\<rparr>) Q' n p a \<and> tcbs s' p = tcbs s p) no_stop s"
proof -
  have k: "kinv s H Q" and ok: "addr_ok s" and b: "bus_ok s" and idle: "current_thread s = NULL" and l: "SSI_expects lay s Q slot"
    using mw room by (simp_all add: machine_waits_def SSI_at_rest_def SSI_expects_def)
  show ?thesis
  unfolding wp_int_handler[OF k b] pl option.case
proof (rule wp_serve_device[where H = H and Q = Q and slot = slot and x = x and st = st])
  have ie: "int_enter s = s" using idle by (simp add: int_enter_def)
  show "device_reports dev (int_enter s) line x st" "SSI_expects lay (int_enter s) Q slot" "tcbs (int_enter s) x = None"
    using rp l x by (simp_all add: ie)
  fix s1 Q1 assume "device_told lay (int_enter s) H Q slot x st s1 Q1"
  then have d: "device_told lay s H Q slot x st s1 Q1" by (simp add: ie)
  define s2 where "s2 = s1\<lparr>interrupt_i := (interrupt_i s1 + 1) mod 48\<rparr>"
  have "a_ready (ipc_of s1 Q1) = a_ready (ipc_of s Q) @ [SSI_tcb s]" using d by (simp add: device_told_def released_def)
  then have q1: "Q1 Ready_queue \<noteq> []" by (simp add: ipc_of_fields)
  have "wp scheduler (\<lambda>r s'. \<exists>st1 Q'. r = LDST st1 \<and> device_taken (s'\<lparr>cpu := load rom st1\<rparr>) H Q' slot x st \<and>
     SSI_tcb s' = SSI_tcb s \<and> io_waits (s'\<lparr>cpu := load rom st1\<rparr>) Q' n p a \<and> tcbs s' p = tcbs s p) no_stop s2"
  proof (rule wp_scheduler_after[where H = H and Q = Q1])
    have "kinv s1 H Q1" "bus_ok s1" using d by (simp_all add: device_told_def)
    then show "kinv s2 H Q1" "bus_ok s2" by (simp_all add: s2_def bus_ok_def)
  qed (use device_switch[OF rom mw l x w d s2_def] q1 in \<open>auto simp: nothing_runs_def\<close>)
  then show "wp scheduler (\<lambda>r s'. \<exists>st1 Q'. r = LDST st1 \<and> device_taken (s'\<lparr>cpu := load rom st1\<rparr>) H Q' slot x st \<and>
     SSI_tcb s' = SSI_tcb s \<and> io_waits (s'\<lparr>cpu := load rom st1\<rparr>) Q' n p a \<and> tcbs s' p = tcbs s p) no_stop (s1\<lparr>interrupt_i := (interrupt_i s1 + 1) mod 48\<rparr>)"
    by (simp only: s2_def)
qed (use k ok b dev ln in simp_all)
qed

section \<open>From the SSI to the thread\<close>

lemma wp_device_pass:
  assumes rom: "rom_ok rom" and tk: "device_taken s H Q slot x st" and w: "io_waits s Q n p a" and r: "rest_index x = int n"
    and sl: "slot \<noteq> BUS_TIMESCALE" "slot \<noteq> BUS_INTERVALTIMER" and tp: "tcbs s p = Some tp"
    and P: "\<And>s' Q'. thread_resumes rom s' H Q' slot p (gpr_set reg_v0 MAGIC_SSI (t_state tp)) \<Longrightarrow> mem s' a = Some (st AND STATUSMASK) \<Longrightarrow>
      devTcb_array s' = (devTcb_array s)[n := NULL] \<Longrightarrow> P None s'"
  shows "wp (kthen (SSI_after_recv rom slot x) (SSI_thread_body rom slot)) P E s"
proof -
  obtain m where m: "mem s slot = Some m" "mem s m = Some INTERRUPT_MSG" "mem s (m + 4) = Some st"
    and T: "thread_runs s H Q (SSI_tcb s)" "tcbs s x = None" "Q Ready_queue = []" "a_inbox (ipc_of s Q) (SSI_tcb s) = []"
    using tk by (auto simp: device_taken_def split: option.splits)
  have as: "asks s Q p a" and so: "thread_sound s p" and io: "io_tables s n" "devTcb_array s ! n = p" using w by (simp_all add: io_waits_def)
  have ms: "mem s slot \<noteq> None" using m(1) by simp
  have "wp (SSI_serve rom x m) (\<lambda>_. wp (SSI_thread_body rom slot) P E) E s"
  proof (rule wp_interrupt_awaited[OF rom T(1) as m(2,3) T(2) r io])
    fix s1 Q1 assume an: "answered s H Q p a (st AND STATUSMASK) s1 Q1" and sv: "same_service s s1"
    show "wp (SSI_thread_body rom slot) P E (s1\<lparr>devTcb_array := (devTcb_array s)[n := NULL]\<rparr>)"
    proof (rule wp_answer_resumes[OF rom an sv disjI1[OF refl] T(1) as T(3,4) ms sl so tp])
      fix s' Q' assume "thread_resumes rom s' H Q' slot p (gpr_set reg_v0 MAGIC_SSI (t_state tp))" "mem s' a = Some (st AND STATUSMASK)"
        and sv': "same_service (s1\<lparr>devTcb_array := (devTcb_array s)[n := NULL]\<rparr>) s'"
      then show "P None s'" using same_service_fields(6)[OF sv'] by (intro P) simp_all
    qed
  qed
  then show ?thesis using m(1) by (simp add: SSI_after_recv_def)
qed

text \<open>The interrupt of a device for which a thread waits, on a machine that waits.\<close>

lemma device_interrupt_resumes:
  assumes "rom_ok rom" and "device_ok dev" and "machine_waits s H Q slot" and "message_room lay s slot"
    and "pending_line s = Some line" and "line \<in> {3, 4, 5, 6, 7}" and "device_reports dev s line x st"
    and "tcbs s x = None" and "io_waits s Q n p a" and "rest_index x = int n" and "tcbs s p = Some tp"
  shows "\<exists>st1 s1 s2 Q2. int_handler lay dev s = Inr (LDST st1, s1) \<and> current_thread s1 = SSI_tcb s \<and>
     gpr_get (load rom st1) reg_v0 = x \<and>
     kthen (SSI_after_recv rom slot x) (SSI_thread_body rom slot) (s1\<lparr>cpu := load rom st1\<rparr>) = Inr (None, s2) \<and>
     thread_resumes rom s2 H Q2 slot p (gpr_set reg_v0 MAGIC_SSI (t_state tp)) \<and> mem s2 a = Some (st AND STATUSMASK) \<and>
     devTcb_array s2 ! n = NULL"
proof -
  from wp_device_interrupt[OF assms(1-9)]
  obtain st1 s1 Q1 where s1: "int_handler lay dev s = Inr (LDST st1, s1)" "SSI_tcb s1 = SSI_tcb s"
    "device_taken (s1\<lparr>cpu := load rom st1\<rparr>) H Q1 slot x st" "io_waits (s1\<lparr>cpu := load rom st1\<rparr>) Q1 n p a"
    "tcbs s1 p = tcbs s p"
    by (auto simp: wp_total)
  have rest: "SSI_at_rest s H Q slot" using assms(3) by (simp add: machine_waits_def)
  let ?s1 = "s1\<lparr>cpu := load rom st1\<rparr>" and ?st = "gpr_set reg_v0 MAGIC_SSI (t_state tp)"
  have tp: "tcbs ?s1 p = Some tp" using s1(5) assms(11) by simp
  have "wp (kthen (SSI_after_recv rom slot x) (SSI_thread_body rom slot)) (\<lambda>r s2. r = None \<and> (\<exists>Q2. thread_resumes rom s2 H Q2 slot p ?st) \<and>
     mem s2 a = Some (st AND STATUSMASK) \<and> devTcb_array s2 = (devTcb_array ?s1)[n := NULL]) no_stop ?s1"
    by (rule wp_device_pass[OF assms(1) s1(3,4) assms(10) SSI_at_restD(10,11)[OF rest] tp]) blast
  then obtain s2 Q2 where s2: "kthen (SSI_after_recv rom slot x) (SSI_thread_body rom slot) ?s1 = Inr (None, s2)"
    "thread_resumes rom s2 H Q2 slot p ?st" "mem s2 a = Some (st AND STATUSMASK)" "devTcb_array s2 = (devTcb_array ?s1)[n := NULL]"
    by (auto simp: wp_total)
  have "n < length (devTcb_array ?s1)" using s1(4) by (simp add: io_waits_def io_tables_def)
  then have "devTcb_array s2 ! n = NULL" unfolding s2(4) by (rule nth_list_update_eq)
  moreover have "current_thread s1 = SSI_tcb s" "gpr_get (load rom st1) reg_v0 = x"
    using s1(2,3) by (auto simp: device_taken_def thread_runs_def)
  ultimately show ?thesis using s1(1) s2 by blast
qed

section \<open>The request for a device\<close>

text \<open>The pass of the SSI over a \<open>WAITFORIO\<close> request for a device that has not interrupted.\<close>

lemma wp_wait_for_io:
  assumes rom: "rom_ok rom" and tk: "request_taken s H Q slot c req ra" and rq: "request_in s req WAITFORIO x ra"
    and r: "rest_index x = int n" and io: "io_tables s n" "devStatus_array s ! n = - 1" and n0: "soft_block_count s \<noteq> 0"
    and sl: "slot \<noteq> BUS_TIMESCALE" "slot \<noteq> BUS_INTERVALTIMER"
    and P: "\<And>s' Q'. machine_waits s' H Q' slot \<Longrightarrow> io_waits s' Q' n c ra \<Longrightarrow>
      same_service (s\<lparr>devTcb_array := (devTcb_array s)[n := c]\<rparr>) s' \<Longrightarrow> (\<And>a. mem s' a = None \<longleftrightarrow> mem s a = None) \<Longrightarrow> P None s'"
  shows "wp (kthen (SSI_after_recv rom slot c) (SSI_thread_body rom slot)) P E s"
proof -
  let ?s1 = "s\<lparr>devTcb_array := (devTcb_array s)[n := c]\<rparr>"
  have T: "thread_runs s H Q (SSI_tcb s)" "mem s slot = Some req" "asks s Q c ra" "thread_sound s c" "Q Ready_queue = []"
    "a_inbox (ipc_of s Q) (SSI_tcb s) = []" using tk by (simp_all add: request_taken_def)
  have run1: "thread_runs ?s1 H Q (SSI_tcb ?s1)" using T(1) by simp
  have c: "c \<in> set (Q Wait_queue)" "c \<noteq> SSI_tcb s" "c \<noteq> NULL" using T(3) asks_thread[OF T(1,3)] by (simp_all add: asks_def)
  have "wp (SSI_thread_body rom slot) P E ?s1"
  proof (rule wp_SSI_idles[OF rom run1 T(5) c(1)])
    fix s' Q' assume mw: "machine_waits s' H Q' slot" and w: "Q' Wait_queue = Q Wait_queue @ [SSI_tcb ?s1]"
      and tq: "\<And>p. p \<noteq> SSI_tcb ?s1 \<Longrightarrow> p \<noteq> NULL \<Longrightarrow> tcbs s' p = tcbs ?s1 p"
      and me: "\<And>b. b \<noteq> BUS_INTERVALTIMER \<Longrightarrow> mem s' b = mem ?s1 b" and sv: "same_service ?s1 s'"
    have tc: "tcbs s' c = tcbs s c" using tq[of c] c by simp
    have "n < length (devTcb_array s)" using io(1) by (simp add: io_tables_def)
    then have "io_waits s' Q' n c ra"
      using T(3,4) w tc me[of ra] same_service_fields(4-6)[OF sv] io(1)
      by (simp add: io_waits_def asks_def io_tables_def thread_sound_def)
    moreover have "mem s' a = None \<longleftrightarrow> mem s a = None" for a
    proof (cases "a = BUS_INTERVALTIMER")
      case True
      then show ?thesis using mw thread_runsD(3)[OF T(1)] by (auto simp: machine_waits_def SSI_at_rest_def bus_ok_def)
    qed (use me in simp)
    ultimately show "P None s'" by (rule P[OF mw _ sv])
  qed (use n0 T(2,6) sl in simp_all)
  then have "wp (SSI_serve rom c req) (\<lambda>_. wp (SSI_thread_body rom slot) P E) E s"
    using rq r io by (intro wp_io_first[OF T(1,3)]) (simp_all add: request_in_def)
  then show ?thesis using T(2) by (simp add: SSI_after_recv_def)
qed

text \<open>
  What happens while the machine waits: devices may write every word of memory that is mapped, but
  the clock's scale, and the interrupt fills the old area.
\<close>

definition devices_act :: "kstate \<Rightarrow> kstate \<Rightarrow> bool" where
  "devices_act s s' \<longleftrightarrow> s' = s\<lparr>mem := mem s', areas := areas s', cpu := cpu s', tod_reads := tod_reads s'\<rparr> \<and>
     (\<forall>a. mem s' a = None \<longleftrightarrow> mem s a = None) \<and> mem s' BUS_TIMESCALE = mem s BUS_TIMESCALE"

lemma devices_act_frame:
  assumes "devices_act s s'"
  shows "machine_waits s H Q slot \<Longrightarrow> machine_waits s' H Q slot" "io_waits s Q n p a \<Longrightarrow> io_waits s' Q n p a"
    "message_room lay s slot \<Longrightarrow> message_room lay s' slot" "tcbs s' = tcbs s"
proof -
  obtain M A C R where s': "s' = s\<lparr>mem := M, areas := A, cpu := C, tod_reads := R\<rparr>" and d: "\<And>a. M a = None \<longleftrightarrow> mem s a = None"
    and ts: "M BUS_TIMESCALE = mem s BUS_TIMESCALE"
    using assms unfolding devices_act_def by metis
  have b: "bus_ok s \<Longrightarrow> bus_ok s'" using d[of BUS_INTERVALTIMER] ts by (auto simp: s' bus_ok_def)
  show "machine_waits s H Q slot \<Longrightarrow> machine_waits s' H Q slot"
    using b by (simp add: machine_waits_def SSI_at_rest_def SSI_listens_def thread_sound_def addr_ok_def s' d)
  show "io_waits s Q n p a \<Longrightarrow> io_waits s' Q n p a"
    by (simp add: io_waits_def asks_def io_tables_def thread_sound_def s' d)
  show "message_room lay s slot \<Longrightarrow> message_room lay s' slot"
    by (simp add: message_room_def int_msg_ok_def s' d)
  show "tcbs s' = tcbs s" by (simp add: s')
qed

text \<open>The first half: the thread is recorded and the machine waits.\<close>

lemma io_request_waits:
  assumes "rom_ok rom" and "SSI_at_rest s H Q slot" and "thread_runs s H Q c"
    and "words_ok s [req, req + 4, req + 8]" and "words_ok s [ra]" and "slot \<notin> {req, req + 4, req + 8}"
    and "\<forall>m\<in>set (a_inbox (ipc_of s Q) c). fst m \<noteq> MAGIC_SSI" and "soft_block_count s \<noteq> - 1"
    and "rest_index x = int n" and "io_tables s n" and "devStatus_array s ! n = - 1"
  shows "\<exists>s1 s2 Q2. SSIRequest rom req WAITFORIO x ra s = Inr (None, s1) \<and>
     kthen (SSI_after_recv rom slot c) (SSI_thread_body rom slot) s1 = Inr (None, s2) \<and>
     machine_waits s2 H Q2 slot \<and> io_waits s2 Q2 n c ra \<and> (\<forall>a. mem s2 a = None \<longleftrightarrow> mem s a = None) \<and>
     interrupt_i s2 = interrupt_i s \<and> (\<forall>p. tcbs s2 p = None \<longleftrightarrow> tcbs s p = None)"
proof -
  have "wp (SSIRequest rom req WAITFORIO x ra) (\<lambda>r s1. r = None \<and> (\<exists>Q1. request_taken s1 H Q1 slot c req ra) \<and>
     request_in s1 req WAITFORIO x ra \<and> same_service s s1 \<and> soft_block_count s1 = soft_block_count s + 1 \<and>
     (\<forall>a. mem s1 a = None \<longleftrightarrow> mem s a = None)) no_stop s"
    by (rule wp_request_at_rest[OF assms(1-7)]) blast
  then obtain s1 Q1 where s1: "SSIRequest rom req WAITFORIO x ra s = Inr (None, s1)" "request_taken s1 H Q1 slot c req ra"
    "request_in s1 req WAITFORIO x ra" "same_service s s1" and sb: "soft_block_count s1 = soft_block_count s + 1"
    and d1: "\<And>a. mem s1 a = None \<longleftrightarrow> mem s a = None"
    by (auto simp: wp_total)
  note f1 = same_service_fields[OF s1(4)]
  have n0: "soft_block_count s1 \<noteq> 0" using sb assms(8) by (simp add: eq_neg_iff_add_eq_0)
  have io1: "io_tables s1 n" "devStatus_array s1 ! n = - 1" using assms(10,11) f1(5,6) by (simp_all add: io_tables_def)
  have "wp (kthen (SSI_after_recv rom slot c) (SSI_thread_body rom slot)) (\<lambda>r s2. r = None \<and>
     (\<exists>Q2. machine_waits s2 H Q2 slot \<and> io_waits s2 Q2 n c ra) \<and> same_service (s1\<lparr>devTcb_array := (devTcb_array s1)[n := c]\<rparr>) s2 \<and>
     (\<forall>a. mem s2 a = None \<longleftrightarrow> mem s1 a = None)) no_stop s1"
    by (rule wp_wait_for_io[OF assms(1) s1(2,3) assms(9) io1 n0 SSI_at_restD(10,11)[OF assms(2)]]) blast
  then obtain s2 Q2 where s2: "kthen (SSI_after_recv rom slot c) (SSI_thread_body rom slot) s1 = Inr (None, s2)"
    "machine_waits s2 H Q2 slot" "io_waits s2 Q2 n c ra" and sv2: "same_service (s1\<lparr>devTcb_array := (devTcb_array s1)[n := c]\<rparr>) s2"
    and d2: "\<And>a. mem s2 a = None \<longleftrightarrow> mem s1 a = None"
    by (auto simp: wp_total)
  note f2 = same_service_fields[OF sv2]
  show ?thesis using s1(1) s2 d1 d2 f1(8,10) f2(8,10) by (intro exI[of _ s1] exI[of _ s2] exI[of _ Q2]) simp
qed

text \<open>
  C16. \<open>WAITFORIO\<close> from end to end. A thread asks for a device that has not interrupted, while the
  SSI is at rest and nothing else is ready: the request suspends it, the SSI records it in
  \<open>devTcb_array\<close> and the machine waits. Whatever the devices then do to memory, when that device,
  be it a disk, a tape, a printer or a terminal, is the one that interrupts, the interrupt handler
  gives the processor to the SSI, and the SSI gives it back to the thread: with the status of the
  device, masked, where it asked for it, with its own registers but for the sender of the answer
  in \<open>v0\<close>, and with the entry of the device free and the SSI at rest again.
\<close>

theorem wait_for_io_end_to_end:
  assumes "rom_ok rom" and "device_ok dev" and "SSI_at_rest s H Q slot" and "thread_runs s H Q c"
    and "words_ok s [req, req + 4, req + 8]" and "words_ok s [ra]" and "slot \<notin> {req, req + 4, req + 8}"
    and "\<forall>m\<in>set (a_inbox (ipc_of s Q) c). fst m \<noteq> MAGIC_SSI" and "soft_block_count s \<noteq> - 1"
    and "rest_index x = int n" and "io_tables s n" and "devStatus_array s ! n = - 1" and "message_room lay s slot" and "tcbs s x = None"
  shows "\<exists>s1 s2 Q2 tc. SSIRequest rom req WAITFORIO x ra s = Inr (None, s1) \<and>
     kthen (SSI_after_recv rom slot c) (SSI_thread_body rom slot) s1 = Inr (None, s2) \<and>
     machine_waits s2 H Q2 slot \<and> io_waits s2 Q2 n c ra \<and> tcbs s2 c = Some tc \<and> (\<forall>a. mem s2 a = None \<longleftrightarrow> mem s a = None) \<and>
     (\<forall>s3 line st. devices_act s2 s3 \<and> pending_line s3 = Some line \<and> line \<in> {3, 4, 5, 6, 7} \<and> device_reports dev s3 line x st \<longrightarrow>
        (\<exists>st1 s4 s5 Q5. int_handler lay dev s3 = Inr (LDST st1, s4) \<and> current_thread s4 = SSI_tcb s3 \<and>
           kthen (SSI_after_recv rom slot x) (SSI_thread_body rom slot) (s4\<lparr>cpu := load rom st1\<rparr>) = Inr (None, s5) \<and>
           thread_resumes rom s5 H Q5 slot c (gpr_set reg_v0 MAGIC_SSI (t_state tc)) \<and> mem s5 ra = Some (st AND STATUSMASK) \<and>
           devTcb_array s5 ! n = NULL))"
proof -
  from io_request_waits[OF assms(1,3-12)] obtain s1 s2 Q2 where s1: "SSIRequest rom req WAITFORIO x ra s = Inr (None, s1)"
    "kthen (SSI_after_recv rom slot c) (SSI_thread_body rom slot) s1 = Inr (None, s2)" "machine_waits s2 H Q2 slot" "io_waits s2 Q2 n c ra"
    and d: "\<forall>a. mem s2 a = None \<longleftrightarrow> mem s a = None" and i: "interrupt_i s2 = interrupt_i s" and tn: "\<forall>p. tcbs s2 p = None \<longleftrightarrow> tcbs s p = None"
    by blast
  have "thread_sound s2 c" using s1(4) by (simp add: io_waits_def)
  then obtain tc where tc: "tcbs s2 c = Some tc" by (rule thread_soundE)
  have room: "message_room lay s2 slot" using assms(13) i d by (simp add: message_room_def int_msg_ok_def)
  have "\<exists>st1 s4 s5 Q5. int_handler lay dev s3 = Inr (LDST st1, s4) \<and> current_thread s4 = SSI_tcb s3 \<and>
           kthen (SSI_after_recv rom slot x) (SSI_thread_body rom slot) (s4\<lparr>cpu := load rom st1\<rparr>) = Inr (None, s5) \<and>
           thread_resumes rom s5 H Q5 slot c (gpr_set reg_v0 MAGIC_SSI (t_state tc)) \<and> mem s5 ra = Some (st AND STATUSMASK) \<and>
           devTcb_array s5 ! n = NULL"
    if a: "devices_act s2 s3" and l: "pending_line s3 = Some line" "line \<in> {3, 4, 5, 6, 7}" "device_reports dev s3 line x st" for s3 line st
  proof -
    note F = devices_act_frame[OF a]
    have t3: "tcbs s3 x = None" "tcbs s3 c = Some tc" using F(4) tn assms(14) tc by simp_all
    from device_interrupt_resumes[OF assms(1,2) F(1)[OF s1(3)] F(3)[OF room] l t3(1) F(2)[OF s1(4)] assms(10) t3(2)]
    show ?thesis by blast
  qed
  with s1 tc d show ?thesis by blast
qed

text \<open>The thread \<open>0x200\<close> waits for the transmitter of the first terminal, which then sends a character.\<close>

lemma ex_ask_io:
  "soft_block_count ex_ask \<noteq> - 1" "rest_index 0x10000258 = int 33" "io_tables ex_ask 33" "devStatus_array ex_ask ! 33 = - 1"
  "message_room ex_lay ex_ask 0x700" "tcbs ex_ask 0x10000258 = None"
proof -
  show "message_room ex_lay ex_ask 0x700"
    by (simp add: message_room_def int_msg_ok_def msg_words_def int_msg_addr_def ex_lay_def dev_region_def ex_ask_fields)
       (simp add: ex_ask_def ex_state_def)
  show "rest_index 0x10000258 = int 33" using device_slots(1)[of 0] by (simp add: device_baseaddr_def)
  show "soft_block_count ex_ask \<noteq> - 1" "io_tables ex_ask 33" "devStatus_array ex_ask ! 33 = - 1"
    by (simp_all add: ex_ask_def ex_state_def io_tables_def)
  show "tcbs ex_ask 0x10000258 = None" by (simp add: ex_ask_fields ex_fields)
qed

definition ex_irq_act :: "kstate \<Rightarrow> kstate" where
  "ex_irq_act s = s\<lparr>mem := (mem s)(0x1000004c \<mapsto> 1, 0x10000258 \<mapsto> 0x4105), areas := \<lambda>_. ex_area 0x8000 0 0 0\<rparr>"

lemma ex_irq_act_ok:
  assumes "\<And>a. mem s a \<noteq> None"
  shows "devices_act s (ex_irq_act s)" "pending_line (ex_irq_act s) = Some 7" "device_reports ex_dev (ex_irq_act s) 7 0x10000258 0x4105"
proof -
  show "devices_act s (ex_irq_act s)" using assms by (simp add: devices_act_def ex_irq_act_def)
  show "pending_line (ex_irq_act s) = Some 7"
    by (simp add: pending_line_def ex_irq_act_def ex_area_def CAUSE_IP_GET_def upt_rec)
  have "which_device 1 = 0" by (simp add: which_device_bits)
  moreover obtain v where "mem s 0x10000250 = Some v" using assms[of "0x10000250"] by blast
  ultimately show "device_reports ex_dev (ex_irq_act s) 7 0x10000258 0x4105"
    using assms by (simp add: device_reports_def Let_def ex_irq_act_def pending_bitmap_addr_def device_baseaddr_def)
qed

theorem wait_for_io_end_to_end_witness:
  "\<exists>s1 s2 st1 s4 s5. SSIRequest ex_rom 0x800 WAITFORIO 0x10000258 0xA00 ex_ask = Inr (None, s1) \<and>
     kthen (SSI_after_recv ex_rom 0x700 0x200) (SSI_thread_body ex_rom 0x700) s1 = Inr (None, s2) \<and> current_thread s2 = NULL \<and>
     int_handler ex_lay ex_dev (ex_irq_act s2) = Inr (LDST st1, s4) \<and>
     kthen (SSI_after_recv ex_rom 0x700 0x10000258) (SSI_thread_body ex_rom 0x700) (s4\<lparr>cpu := load ex_rom st1\<rparr>) = Inr (None, s5) \<and>
     current_thread s5 = 0x200 \<and> mem s5 0xA00 = Some 5"
proof -
  have sl: "(0x700 :: U32) \<notin> {0x800, 0x800 + 4, 0x800 + 8}" by simp
  from wait_for_io_end_to_end[OF ex_rom_ok ex_dev_ok ex_ask_rest ex_ask_runs ex_ask_ok(3,4) sl ex_ask_ok(2) ex_ask_io]
  obtain s1 s2 Q2 tc where s12: "SSIRequest ex_rom 0x800 WAITFORIO 0x10000258 0xA00 ex_ask = Inr (None, s1)"
    "kthen (SSI_after_recv ex_rom 0x700 0x200) (SSI_thread_body ex_rom 0x700) s1 = Inr (None, s2)" "machine_waits s2 ex_H Q2 0x700"
    and tc: "tcbs s2 0x200 = Some tc" and d: "\<forall>a. mem s2 a = None \<longleftrightarrow> mem ex_ask a = None"
    and all: "\<forall>s3 line st. devices_act s2 s3 \<and> pending_line s3 = Some line \<and> line \<in> {3, 4, 5, 6, 7} \<and> device_reports ex_dev s3 line 0x10000258 st \<longrightarrow>
        (\<exists>st1 s4 s5 Q5. int_handler ex_lay ex_dev s3 = Inr (LDST st1, s4) \<and> current_thread s4 = SSI_tcb s3 \<and>
           kthen (SSI_after_recv ex_rom 0x700 0x10000258) (SSI_thread_body ex_rom 0x700) (s4\<lparr>cpu := load ex_rom st1\<rparr>) = Inr (None, s5) \<and>
           thread_resumes ex_rom s5 ex_H Q5 0x700 0x200 (gpr_set reg_v0 MAGIC_SSI (t_state tc)) \<and> mem s5 0xA00 = Some (st AND STATUSMASK) \<and>
           devTcb_array s5 ! 33 = NULL)"
    by (elim exE conjE) (rule that, assumption+)
  have "\<And>a. mem s2 a \<noteq> None" using d by (simp add: ex_ask_fields)
  note act = ex_irq_act_ok[OF this]
  have "(7 :: nat) \<in> {3, 4, 5, 6, 7}" by simp
  with all act obtain st1 s4 s5 Q5 where "int_handler ex_lay ex_dev (ex_irq_act s2) = Inr (LDST st1, s4)"
    "kthen (SSI_after_recv ex_rom 0x700 0x10000258) (SSI_thread_body ex_rom 0x700) (s4\<lparr>cpu := load ex_rom st1\<rparr>) = Inr (None, s5)"
    "thread_resumes ex_rom s5 ex_H Q5 0x700 0x200 (gpr_set reg_v0 MAGIC_SSI (t_state tc))" "mem s5 0xA00 = Some (0x4105 AND STATUSMASK)"
    by blast
  with s12 show ?thesis
    by (auto simp: machine_waits_def thread_resumes_def thread_runs_def)
qed

end
