(* ===== verification/Thread_Tree.thy ===== *)
theory Thread_Tree
  imports Terminate
begin

text \<open>
  The thread tree as an invariant. The lists of children and the parent pointers of the live
  threads describe the same forest; every live thread is the root of a finite tree of live
  threads, which is what \<open>terminate\<close> needs to end it.
\<close>

section \<open>The forest of live threads\<close>

definition parent_of :: "kstate \<Rightarrow> U32 \<Rightarrow> U32" where
  "parent_of s p = (case tcbs s p of None \<Rightarrow> NULL | Some t \<Rightarrow> t_parent t)"

text \<open>
  \<open>children_ok\<close>: the child lists hold live threads, each in the list of its parent and in no
  other; \<open>depth\<close> grows from a thread to its children, so there are no cycles.
\<close>

definition children_ok :: "kstate \<Rightarrow> (list_head \<Rightarrow> U32 list) \<Rightarrow> bool" where
  "children_ok s Q \<longleftrightarrow> (\<forall>p\<in>live s Q. p \<noteq> NULL \<and> distinct (Q (T_child p)) \<and> set (Q (T_child p)) \<subseteq> live s Q \<and>
     (\<forall>c\<in>live s Q. c \<in> set (Q (T_child p)) \<longleftrightarrow> parent_of s c = p) \<and>
     (parent_of s p = NULL \<or> parent_of s p \<in> live s Q))"

definition forest :: "kstate \<Rightarrow> (list_head \<Rightarrow> U32 list) \<Rightarrow> bool" where
  "forest s Q \<longleftrightarrow> children_ok s Q \<and>
     (\<exists>depth :: U32 \<Rightarrow> nat. \<forall>p\<in>live s Q. \<forall>c\<in>set (Q (T_child p)). depth p < depth c)"

lemma forest_child:
  assumes "forest s Q" and "p \<in> live s Q"
  shows "distinct (Q (T_child p))" "c \<in> set (Q (T_child p)) \<Longrightarrow> c \<in> live s Q"
    "c \<in> set (Q (T_child p)) \<Longrightarrow> parent_of s c = p"
    "parent_of s p \<noteq> NULL \<Longrightarrow> parent_of s p \<in> live s Q \<and> p \<in> set (Q (T_child (parent_of s p)))"
  using assms by (auto simp: forest_def children_ok_def)

text \<open>A tree whose threads are those below \<open>p\<close>.\<close>

definition subtree :: "kstate \<Rightarrow> (list_head \<Rightarrow> U32 list) \<Rightarrow> (U32 \<Rightarrow> nat) \<Rightarrow> U32 \<Rightarrow> ttree \<Rightarrow> bool" where
  "subtree s Q depth p tr \<longleftrightarrow> tree_at Q tr \<and> root tr = p \<and> distinct (post tr) \<and> set (post tr) \<subseteq> live s Q \<and>
     (\<forall>x\<in>set (post tr). x \<noteq> p \<longrightarrow> depth p < depth x \<and> parent_of s x \<in> set (post tr))"

text \<open>Different children have disjoint trees.\<close>

lemma subtrees_disjoint:
  assumes f: "forest s Q" and d: "\<forall>p\<in>live s Q. \<forall>c\<in>set (Q (T_child p)). depth p < depth c" and p: "p \<in> live s Q"
    and c: "c \<in> set (Q (T_child p))" "c' \<in> set (Q (T_child p))" "c \<noteq> c'"
    and t: "subtree s Q depth c t" "subtree s Q depth c' t'"
  shows "set (post t) \<inter> set (post t') = {}"
proof -
  have "x \<notin> set (post t')" if "x \<in> set (post t)" for x
    using that
  proof (induction "depth x" arbitrary: x rule: less_induct)
    case less
    have lx: "x \<in> live s Q" using less.prems t(1) by (auto simp: subtree_def)
    have out: "p \<notin> set (post t)" "p \<notin> set (post t')"
      using t c(1,2) d p by (force simp: subtree_def)+
    show ?case
    proof
      assume x': "x \<in> set (post t')"
      have "x \<noteq> c" using x' t(2) c forest_child(3)[OF f p c(1)] out by (auto simp: subtree_def)
      moreover have "x \<noteq> c'" using less.prems t(1) c forest_child(3)[OF f p c(2)] out by (auto simp: subtree_def)
      ultimately have par: "parent_of s x \<in> set (post t)" "parent_of s x \<in> set (post t')"
        using less.prems x' t by (auto simp: subtree_def)
      then have lp: "parent_of s x \<in> live s Q" using t(1) by (auto simp: subtree_def)
      then have "x \<in> set (Q (T_child (parent_of s x)))" using f lx by (simp add: forest_def children_ok_def)
      with d lp have "depth (parent_of s x) < depth x" by blast
      with less.hyps[of "parent_of s x"] par show False by blast
    qed
  qed
  then show ?thesis by blast
qed

lemma subtree_exists:
  assumes f: "forest s Q" and d: "\<forall>p\<in>live s Q. \<forall>c\<in>set (Q (T_child p)). depth p < depth c" and p: "p \<in> live s Q"
  shows "\<exists>tr. subtree s Q depth p tr"
proof -
  obtain M where M: "\<forall>x\<in>live s Q. depth x \<le> M"
    using kinv_live_finite[of s Q] by (metis finite_nat_set_iff_bounded_le finite_imageI imageI)
  show ?thesis
    using p
  proof (induction "M - depth p" arbitrary: p rule: less_induct)
    case less
    let ?cs = "Q (T_child p)"
    note fc = forest_child[OF f less.prems]
    have "\<exists>tr. subtree s Q depth c tr" if "c \<in> set ?cs" for c
    proof (rule less.hyps[OF _ fc(2)[OF that]])
      have "depth p < depth c" "depth c \<le> M" using d M fc(2)[OF that] less.prems that by blast+
      then show "M - depth c < M - depth p" by simp
    qed
    then obtain T where T: "\<forall>c\<in>set ?cs. subtree s Q depth c (T c)" by metis
    define tr where "tr = Node p (map T ?cs)"
    have roots: "map root (map T ?cs) = ?cs" using T by (simp add: subtree_def map_idI)
    have "tree_at Q tr" using T roots by (auto simp: tr_def subtree_def)
    moreover have deep: "x \<in> live s Q \<and> depth p < depth x \<and> (\<exists>c\<in>set ?cs. x \<in> set (post (T c)))"
      if "x \<in> set (concat (map post (map T ?cs)))" for x
    proof -
      obtain c where c: "c \<in> set ?cs" "x \<in> set (post (T c))" using \<open>x \<in> _\<close> by auto
      then have "subtree s Q depth c (T c)" "depth p < depth c" using T d less.prems by blast+
      with c show ?thesis by (auto simp: subtree_def)
    qed
    moreover have "distinct (post tr)"
    proof -
      have "distinct (concat (map post (map T cs)))" if "set cs \<subseteq> set ?cs" "distinct cs" for cs
        using that
      proof (induction cs)
        case (Cons c cs)
        have "set (post (T c)) \<inter> set (post (T c')) = {}" if "c' \<in> set cs" for c'
          by (rule subtrees_disjoint[OF f d less.prems, of c c']) (use Cons.prems that T in auto)
        then have "set (post (T c)) \<inter> set (concat (map post (map T cs))) = {}" by auto
        with Cons T show ?case by (simp add: subtree_def)
      qed simp
      with fc(1) deep show ?thesis by (fastforce simp: tr_def)
    qed
    moreover have "parent_of s x \<in> set (post tr)" if "x \<in> set (post tr)" "x \<noteq> p" for x
    proof -
      have "x \<in> set (concat (map post (map T ?cs)))" using \<open>x \<in> _\<close> \<open>x \<noteq> p\<close> by (auto simp: tr_def)
      with deep[of x] obtain c where c: "c \<in> set ?cs" "x \<in> set (post (T c))" by blast
      show ?thesis
      proof (cases "x = c")
        case True
        with fc(3)[OF c(1)] show ?thesis by (simp add: tr_def)
      next
        case False
        then have "parent_of s x \<in> set (post (T c))" using T c by (simp add: subtree_def)
        with c(1) show ?thesis by (auto simp: tr_def)
      qed
    qed
    ultimately have "subtree s Q depth p tr" using less.prems by (auto simp: subtree_def tr_def)
    then show ?case by blast
  qed
qed

section \<open>The end of a subtree\<close>

lemma tree_closed: "tree_at Q t \<Longrightarrow> x \<in> set (post t) \<Longrightarrow> set (Q (T_child x)) \<subseteq> set (post t)"
proof (induction t)
  case (Node p ts)
  show ?case
  proof (cases "x = p")
    case True
    with Node.prems(1) show ?thesis using root_in_post by fastforce
  next
    case False
    then obtain t where "t \<in> set ts" "x \<in> set (post t)" using Node.prems(2) by auto
    with Node.IH[of t] Node.prems(1) show ?thesis by auto
  qed
qed

text \<open>Every live thread can be ended.\<close>

lemma subtree_endable:
  assumes f: "forest s Q" and d: "\<forall>p\<in>live s Q. \<forall>c\<in>set (Q (T_child p)). depth p < depth c"
    and t: "subtree s Q depth p tr" and h: "T_child ` live s Q \<subseteq> H" and v: "tcbs s p \<noteq> None"
  shows "tree_at Q tr" "root tr = p" "endable s H Q (post tr)" "parent_ok s H Q p (post tr)"
proof -
  show "tree_at Q tr" "root tr = p" "endable s H Q (post tr)" using t h by (auto simp: subtree_def endable_def)
  have p: "p \<in> live s Q" using t root_in_post[of tr] by (auto simp: subtree_def)
  obtain u where u: "tcbs s p = Some u" using v by blast
  then have e: "parent_of s p = t_parent u" by (simp add: parent_of_def)
  show "parent_ok s H Q p (post tr)"
  proof (cases "t_parent u = NULL")
    case False
    with forest_child(4)[OF f p] e have q: "t_parent u \<in> live s Q" "p \<in> set (Q (T_child (t_parent u)))" by simp_all
    then have "depth (t_parent u) < depth p" using d by blast
    then have "t_parent u \<notin> set (post tr)" using t by (force simp: subtree_def)
    with q u h show ?thesis by (auto simp: parent_ok_def)
  qed (simp add: parent_ok_def u)
qed

lemma live_after_end:
  assumes "ended s H (orphaned s p Q) zs s'"
  shows "live s' (reap_list zs (orphaned s p Q)) = live s Q - set zs"
  using assms by (auto simp: ended_def gone_def live_def orphaned_def split: option.splits if_splits)

text \<open>What remains is a forest.\<close>

lemma forest_terminate:
  assumes f: "forest s Q" and t: "subtree s Q depth p tr" and p: "p \<in> live s Q"
    and e: "ended s H (orphaned s p Q) (post tr) s'"
  shows "forest s' (reap_list (post tr) (orphaned s p Q))"
proof -
  define zs where "zs = set (post tr)"
  let ?Q = "reap_list (post tr) (orphaned s p Q)"
  have l: "live s' ?Q = live s Q - zs" using live_after_end[OF e] by (simp add: zs_def)
  have par: "parent_of s' x = parent_of s x" if "x \<notin> zs" for x
    using e that by (simp add: ended_def gone_def parent_of_def zs_def)
  have pz: "p \<in> zs" using t root_in_post[of tr] by (auto simp: subtree_def zs_def)
  have up: "parent_of s c \<in> zs" if "c \<in> zs" "c \<noteq> p" for c using t that by (simp add: subtree_def zs_def)
  have down: "set (Q (T_child x)) \<subseteq> zs" if "x \<in> zs" for x
    using tree_closed[of Q tr x] t that by (simp add: subtree_def zs_def)
  have ch: "set (?Q (T_child q)) = set (Q (T_child q)) - {p} \<and> distinct (?Q (T_child q))" if q: "q \<in> live s Q" "q \<notin> zs" for q
  proof -
    have "p \<in> set (Q (T_child q)) \<longleftrightarrow> parent_of s p = q" using f p q(1) by (simp add: forest_def children_ok_def)
    moreover have "q \<noteq> NULL" using f q(1) by (simp add: forest_def children_ok_def)
    ultimately show ?thesis
      using q(2) forest_child(1)[OF f q(1)]
      by (cases "tcbs s p") (auto simp: zs_def orphaned_def parent_of_def split: if_splits)
  qed
  have "children_ok s' ?Q"
    unfolding children_ok_def l
  proof (intro ballI conjI)
    fix q assume q: "q \<in> live s Q - zs"
    then have qq: "q \<in> live s Q" "q \<notin> zs" by simp_all
    note c = ch[OF qq] and fc = forest_child[OF f qq(1)]
    show "q \<noteq> NULL" using f qq(1) by (simp add: forest_def children_ok_def)
    show "distinct (?Q (T_child q))" using c by simp
    show "set (?Q (T_child q)) \<subseteq> live s Q - zs"
    proof
      fix x assume x: "x \<in> set (?Q (T_child q))"
      then have "x \<in> set (Q (T_child q))" "x \<noteq> p" using c by simp_all
      with fc(2,3)[of x] up[of x] qq(2) show "x \<in> live s Q - zs" by auto
    qed
    show "x \<in> set (?Q (T_child q)) \<longleftrightarrow> parent_of s' x = q" if "x \<in> live s Q - zs" for x
      using c that pz par[of x] f qq(1) by (auto simp: forest_def children_ok_def)
    show "parent_of s' q = NULL \<or> parent_of s' q \<in> live s Q - zs"
      using fc(4) down[of "parent_of s q"] par[OF qq(2)] qq(2) by auto
  qed
  moreover from f obtain dp where "\<forall>p\<in>live s Q. \<forall>c\<in>set (Q (T_child p)). (dp :: U32 \<Rightarrow> nat) p < dp c"
    by (auto simp: forest_def)
  then have "\<forall>q\<in>live s' ?Q. \<forall>c\<in>set (?Q (T_child q)). dp q < dp c" unfolding l using ch by auto
  ultimately show ?thesis unfolding forest_def by blast
qed

text \<open>Operations that keep the live threads, the child lists and the parents keep the forest.\<close>

lemma forest_cong:
  assumes "live s' Q' = live s Q" and "\<And>p. p \<in> live s Q \<Longrightarrow> Q' (T_child p) = Q (T_child p)"
    and "\<And>p. p \<in> live s Q \<Longrightarrow> parent_of s' p = parent_of s p"
  shows "forest s' Q' = forest s Q"
  using assms by (simp add: forest_def children_ok_def)

text \<open>A new thread below a live one, or without a parent.\<close>

lemma forest_insert:
  assumes f: "forest s Q" and par: "par = NULL \<or> par \<in> live s Q" and c: "c \<notin> live s Q" "c \<noteq> NULL"
    and l: "live s' Q' = insert c (live s Q)"
    and q: "\<And>p. p \<in> live s Q \<Longrightarrow> Q' (T_child p) = (if p = par then Q (T_child p) @ [c] else Q (T_child p))" "Q' (T_child c) = []"
    and pr: "\<And>p. p \<in> live s Q \<Longrightarrow> parent_of s' p = parent_of s p" "parent_of s' c = par"
  shows "forest s' Q'"
proof -
  from f obtain dp where dp: "\<forall>p\<in>live s Q. \<forall>c\<in>set (Q (T_child p)). (dp :: U32 \<Rightarrow> nat) p < dp c"
    by (auto simp: forest_def)
  have par_c: "par \<noteq> c" using par c by auto
  have nc: "c \<notin> set (Q (T_child p))" if "p \<in> live s Q" for p using forest_child(2)[OF f that] c(1) by blast
  have "children_ok s' Q'"
    unfolding children_ok_def l
  proof (intro ballI conjI)
    fix p assume p: "p \<in> insert c (live s Q)"
    show "p \<noteq> NULL" using p c(2) f by (auto simp: forest_def children_ok_def)
    show "distinct (Q' (T_child p))"
      using p q nc forest_child(1)[OF f] by auto
    show "set (Q' (T_child p)) \<subseteq> insert c (live s Q)"
      using p q c(1) forest_child(2)[OF f] by (cases "p = c") (auto split: if_splits)
    show "parent_of s' p = NULL \<or> parent_of s' p \<in> insert c (live s Q)"
      using p pr par par_c f c(1) by (cases "p = c") (auto simp: forest_def children_ok_def)
    fix x assume x: "x \<in> insert c (live s Q)"
    have "parent_of s x \<noteq> c" if "x \<in> live s Q"
      using forest_child(4)[OF f that] c(1,2) by auto
    then show "x \<in> set (Q' (T_child p)) \<longleftrightarrow> parent_of s' x = p"
      using p x q pr par par_c c nc f by (auto simp: forest_def children_ok_def split: if_splits)
  qed
  moreover have "\<forall>p\<in>live s' Q'. \<forall>x\<in>set (Q' (T_child p)). (dp(c := Suc (dp par))) p < (dp(c := Suc (dp par))) x"
    unfolding l using dp q c(1) forest_child(2)[OF f] by auto
  ultimately show ?thesis unfolding forest_def by blast
qed

end
