(* ===== verification/Kernel_Safe.thy ===== *)
theory Kernel_Safe
  imports Handlers Interrupts Thread_Tree
begin

text \<open>
  The invariant of the whole kernel, and that every routine of the nucleus keeps it: the queues
  and the thread tree are intact, the saved registers are of the right size, and whoever waits
  for something that is no thread can be given an answer. From a state with the invariant, a
  handler that is entered with admissible arguments ends in the ROM or in the kernel's own
  \<open>HALT\<close> or \<open>PANIC\<close>; it makes no bad access and does not loop.
\<close>

section \<open>The invariant\<close>

text \<open>The list heads in use are those of the global queues and of the live threads.\<close>

definition heads :: "kstate \<Rightarrow> (list_head \<Rightarrow> U32 list) \<Rightarrow> list_head set" where
  "heads s Q = base_heads s Q \<union> T_child ` live s Q"

definition typed_regs :: "kstate \<Rightarrow> bool" where
  "typed_regs s \<longleftrightarrow> (\<forall>p t. tcbs s p = Some t \<longrightarrow> length (gpr (t_state t)) = 29)"

text \<open>Trap managers are threads, and the SSI manages no traps.\<close>

definition managers_of :: "tcb_t \<Rightarrow> U32 set" where
  "managers_of t = {sysbp_manager_thread t, pgmtrap_manager_thread t, tlbtrap_manager_thread t}"

lemma managers_of_links: "snd (tcb_links t') = snd (tcb_links t) \<Longrightarrow> managers_of t' = managers_of t"
  by (simp add: managers_of_def tcb_links_def)

definition managers_ok :: "kstate \<Rightarrow> bool" where
  "managers_ok s \<longleftrightarrow> SSI_tcb s \<notin> set (trap_managers s) \<and>
     (\<forall>p t. tcbs s p = Some t \<longrightarrow> (\<forall>m\<in>managers_of t. m = NULL \<or> tcbs s m \<noteq> None))"

text \<open>
  A thread that waits for any message, for the SSI or for a device waits in \<open>recv\<close>, with an
  address for the answer. (A thread that waits for a thread may have been frozen by a trap.)
\<close>

definition replies_ok :: "kstate \<Rightarrow> (list_head \<Rightarrow> U32 list) \<Rightarrow> bool" where
  "replies_ok s Q \<longleftrightarrow> (\<forall>p\<in>set (Q Wait_queue). \<forall>t. tcbs s p = Some t \<longrightarrow> tcbs s (waiting_for t) = None \<longrightarrow> reply_ok s p)"

text \<open>The memory map: the entries of \<open>interrupt_msg_array\<close> and the device registers.\<close>

definition memory_map :: "layout \<Rightarrow> kstate \<Rightarrow> bool" where
  "memory_map lay s \<longleftrightarrow> interrupt_i s < 48 \<and>
     (\<forall>i<48. \<forall>a\<in>msg_words (int_msg_addr lay i).
        mem s a \<noteq> None \<and> a \<notin> dev_region \<and> a \<noteq> BUS_TIMESCALE \<and> a \<noteq> BUS_INTERVALTIMER) \<and>
     (\<forall>line\<in>{3, 4, 5, 6, 7}. mem s (pending_bitmap_addr line) \<noteq> None \<and>
        (\<forall>d<8. \<forall>k\<in>{0, 4, 8, 0xC}. mem s (device_baseaddr line d + k) \<noteq> None)) \<and>
     (\<forall>a\<in>dev_region. tcbs s a = None)"

lemma memory_map_index: "memory_map lay s \<Longrightarrow> interrupt_i s < 48"
  by (simp add: memory_map_def)

lemma memory_map_msg: "memory_map lay s \<Longrightarrow> int_msg_ok lay s"
  unfolding memory_map_def int_msg_ok_def by blast

lemma memory_map_pending: "memory_map lay s \<Longrightarrow> line \<in> {3, 4, 5, 6, 7} \<Longrightarrow> mem s (pending_bitmap_addr line) \<noteq> None"
  unfolding memory_map_def by blast

lemma memory_map_device:
  assumes "memory_map lay s" and "line \<in> {3, 4, 5, 6, 7}" and "d < 8"
  shows "mem s (device_baseaddr line d) \<noteq> None" "mem s (device_baseaddr line d + 4) \<noteq> None"
    "mem s (device_baseaddr line d + 8) \<noteq> None" "mem s (device_baseaddr line d + 0xC) \<noteq> None"
proof -
  have *: "mem s (device_baseaddr line d + k) \<noteq> None" if "k \<in> {0, 4, 8, 0xC}" for k
    using assms that unfolding memory_map_def by blast
  show "mem s (device_baseaddr line d) \<noteq> None" "mem s (device_baseaddr line d + 4) \<noteq> None"
    "mem s (device_baseaddr line d + 8) \<noteq> None" "mem s (device_baseaddr line d + 0xC) \<noteq> None"
    using *[of 0] *[of 4] *[of 8] *[of "0xC"] by simp_all
qed

lemma memory_map_regs: "memory_map lay s \<Longrightarrow> a \<in> dev_region \<Longrightarrow> tcbs s a = None"
  unfolding memory_map_def by blast

definition sane :: "layout \<Rightarrow> kstate \<Rightarrow> (list_head \<Rightarrow> U32 list) \<Rightarrow> bool" where
  "sane lay s Q \<longleftrightarrow> kinv s (heads s Q) Q \<and> forest s Q \<and> replies_ok s Q \<and> addr_ok s \<and> bus_ok s \<and>
     typed_regs s \<and> managers_ok s \<and> memory_map lay s"

definition kernel_ok :: "layout \<Rightarrow> kstate \<Rightarrow> bool" where
  "kernel_ok lay s \<longleftrightarrow> (\<exists>Q. sane lay s Q)"

lemma saneD:
  assumes "sane lay s Q"
  shows "kinv s (heads s Q) Q" "forest s Q" "replies_ok s Q" "addr_ok s" "bus_ok s" "typed_regs s" "managers_ok s"
    "memory_map lay s"
  using assms by (simp_all add: sane_def)

lemma kernel_okI: "sane lay s Q \<Longrightarrow> kernel_ok lay s"
  by (auto simp: kernel_ok_def)

lemma kinv_fewer_heads:
  assumes "kinv s H Q" and "H' \<subseteq> H" and "base_heads s Q \<subseteq> H'"
  shows "kinv s H' Q"
  using assms rep_mono[of s H Q H'] unfolding kinv_def unlinked_def by blast

text \<open>
  The operations of message passing and scheduling keep the invariant: they keep the live
  threads, the tree and the links between threads, and never unmap memory.
\<close>

lemma replies_sub:
  assumes "replies_ok s Q" and "set (Q' Wait_queue) \<subseteq> set (Q Wait_queue)"
    and "\<And>p. tcbs s' p = None \<longleftrightarrow> tcbs s p = None" and "\<And>a. mem s' a = None \<longleftrightarrow> mem s a = None"
    and "\<And>p. p \<in> set (Q' Wait_queue) \<Longrightarrow> map_option waiting_for (tcbs s' p) = map_option waiting_for (tcbs s p) \<and>
           map_option reply (tcbs s' p) = map_option reply (tcbs s p)"
  shows "replies_ok s' Q'"
  unfolding replies_ok_def
proof (intro ballI allI impI)
  fix p t' assume p: "p \<in> set (Q' Wait_queue)" and t': "tcbs s' p = Some t'" and w: "tcbs s' (waiting_for t') = None"
  obtain t where t: "tcbs s p = Some t" "waiting_for t = waiting_for t'" "reply t = reply t'"
    using assms(5)[OF p] t' by (cases "tcbs s p") auto
  have "tcbs s (waiting_for t) = None" using w t(2) assms(3) by simp
  then have "reply_ok s p" using assms(1,2) p t(1) by (auto simp: replies_ok_def)
  then show "reply_ok s' p" using t t' assms(4) by (simp add: reply_ok_def reply_of_def)
qed

lemma sane_step:
  assumes "sane lay s Q" and "kinv s' (heads s Q) Q'" and l: "live s' Q' = live s Q" and "tree_kept Q Q'" and "bus_ok s'"
    and "SSI_tcb s' = SSI_tcb s" and "trap_managers s' = trap_managers s" and "interrupt_i s' < 48"
    and links: "\<And>p. map_option tcb_links (tcbs s' p) = map_option tcb_links (tcbs s p)"
    and "typed_regs s'" and m: "\<And>a. mem s' a = None \<longleftrightarrow> mem s a = None" and "replies_ok s' Q'"
  shows "sane lay s' Q'"
proof -
  note d = saneD[OF assms(1)]
  have n: "tcbs s' p = None \<longleftrightarrow> tcbs s p = None" for p
    using links[of p] by (cases "tcbs s p"; cases "tcbs s' p") auto
  have "heads s' Q' = heads s Q" by (simp add: heads_def base_heads_def l)
  moreover have "forest s' Q'"
  proof -
    have "parent_of s' p = parent_of s p" for p
      using links[of p] by (cases "tcbs s p"; cases "tcbs s' p") (auto simp: parent_of_def tcb_links_def)
    with d(2) assms(4) l show ?thesis by (subst forest_cong[of _ _ s Q]) (simp_all add: tree_kept_def)
  qed
  moreover have "managers_ok s'"
    unfolding managers_ok_def
  proof (intro conjI allI impI ballI)
    show "SSI_tcb s' \<notin> set (trap_managers s')" using d(7) assms(6,7) by (simp add: managers_ok_def)
    fix p t' m assume t': "tcbs s' p = Some t'" and mm: "m \<in> managers_of t'"
    obtain t where "tcbs s p = Some t" "tcb_links t = tcb_links t'" using links[of p] t' by (cases "tcbs s p") auto
    with d(7) mm show "m = NULL \<or> tcbs s' m \<noteq> None"
      unfolding n managers_ok_def using managers_of_links[of t t'] by auto
  qed
  moreover have "memory_map lay s'" using d(8) assms(8) by (simp add: memory_map_def m n)
  moreover have "addr_ok s'" using d(4) assms(6) n by (simp add: addr_ok_def)
  ultimately show ?thesis using assms by (simp add: sane_def)
qed

lemma sane_live_heads: "p \<in> live s Q \<Longrightarrow> T_child p \<in> heads s Q"
  by (simp add: heads_def)

lemma sane_current:
  assumes "sane lay s Q" and "current_thread s \<noteq> NULL"
  obtains t where "tcbs s (current_thread s) = Some t"
  using kinv_tcb[OF saneD(1)[OF assms(1)] kinv_current_live] assms(2) by auto

lemma sane_no_thread:
  assumes "sane lay s Q"
  shows "tcbs s NULL = None" "tcbs s MAGIC_SSI = None" "SSI_tcb s \<noteq> NULL"
  using kinv_rep[OF saneD(1)[OF assms]] saneD(4)[OF assms] by (auto simp: rep_def pools_ok_def addr_ok_def)

section \<open>Entering a handler\<close>

lemma typed_gpr_set [simp]: "length (gpr (gpr_set i v st)) = length (gpr st)"
  by (simp add: gpr_set_def)

lemma typed_save_state [simp]: "length (gpr (save_state src dst)) = length (gpr dst)"
proof -
  have "length (gpr (fold (\<lambda>i d. gpr_set i (gpr_get src i) d) is d)) = length (gpr d)" for "is" and d :: state_t
    by (induction "is" arbitrary: d) simp_all
  then show ?thesis by (simp add: save_state_def)
qed

lemma sane_frame:
  assumes "sane lay s Q" and "lst s' = lst s" "msgs s' = msgs s" "current_thread s' = current_thread s"
    and "thread_count s' = thread_count s" "SSI_tcb s' = SSI_tcb s"
    and "trap_managers s' = trap_managers s" "interrupt_i s' < 48"
    and w: "\<And>p. map_option waiting_for (tcbs s' p) = map_option waiting_for (tcbs s p)"
    and "\<And>p. map_option reply (tcbs s' p) = map_option reply (tcbs s p)"
    and "\<And>p. map_option tcb_links (tcbs s' p) = map_option tcb_links (tcbs s p)"
    and "typed_regs s'" and "\<And>a. mem s' a = None \<longleftrightarrow> mem s a = None" and "bus_ok s'"
  shows "sane lay s' Q"
proof (rule sane_step[OF assms(1)])
  have n: "tcbs s' p = None \<longleftrightarrow> tcbs s p = None" for p
    using w[of p] by (cases "tcbs s p"; cases "tcbs s' p") auto
  show "kinv s' (heads s Q) Q" using saneD(1)[OF assms(1)] by (subst kinv_cong[of _ s]) (simp_all add: assms n)
  show "live s' Q = live s Q" by (simp add: live_def assms)
  show "replies_ok s' Q" by (rule replies_sub[OF saneD(3)[OF assms(1)]]) (simp_all add: assms n)
qed (use assms in simp_all)

lemma sane_enter:
  assumes "sane lay s Q"
  shows "sane lay (enter a s) Q"
proof (rule sane_frame[OF assms])
  show "map_option tcb_links (tcbs (enter a s) p) = map_option tcb_links (tcbs s p)" for p
    by (simp add: enter_def option.map_comp comp_def)
  show "typed_regs (enter a s)" using saneD(6)[OF assms] by (auto simp: typed_regs_def entered_def)
  show "interrupt_i (enter a s) < 48" using memory_map_index[OF saneD(8)[OF assms]] by (simp add: enter_def)
qed (use saneD(5)[OF assms] in \<open>simp_all add: option.map_comp comp_def\<close>)

lemma sane_sys_enter:
  assumes "sane lay s Q"
  shows "sane lay (sys_enter s) Q"
proof (rule sane_frame[OF assms])
  show "map_option tcb_links (tcbs (sys_enter s) p) = map_option tcb_links (tcbs s p)" for p
    by (simp add: sys_enter_def option.map_comp comp_def)
  show "typed_regs (sys_enter s)" using saneD(6)[OF assms] by (auto simp: typed_regs_def sys_enter_tcb entered_def advance_def)
  show "interrupt_i (sys_enter s) < 48" using memory_map_index[OF saneD(8)[OF assms]] by (simp add: sys_enter_def enter_def)
qed (use saneD(5)[OF assms] in \<open>simp_all add: option.map_comp comp_def\<close>)

lemma sane_result_in:
  assumes "sane lay s Q"
  shows "sane lay (result_in s p v) Q"
proof (rule sane_frame[OF assms])
  show "map_option tcb_links (tcbs (result_in s p v) q) = map_option tcb_links (tcbs s q)" for q
    by (simp add: result_in_def option.map_comp comp_def)
  show "typed_regs (result_in s p v)" using saneD(6)[OF assms] by (auto simp: typed_regs_def result_in_def split: if_splits)
  show "interrupt_i (result_in s p v) < 48" using memory_map_index[OF saneD(8)[OF assms]] by (simp add: result_in_def)
qed (use saneD(5)[OF assms] in \<open>simp_all add: result_in_def option.map_comp comp_def\<close>)

lemma sane_counted:
  assumes "sane lay s Q"
  shows "sane lay (counted s old) Q"
  by (rule sane_frame[OF assms])
    (use saneD(5)[OF assms] saneD(6)[OF assms, unfolded typed_regs_def] memory_map_index[OF saneD(8)[OF assms]]
      in \<open>simp_all add: counted_def typed_regs_def\<close>)

section \<open>Message passing\<close>

lemma a_send_live: "a_send x tgt v A = Some (r, A') \<Longrightarrow> a_live A' p = a_live A p"
  by (cases "p = tgt") (auto simp: a_send_def a_awaits_def a_live_def split: if_splits dest: in_set_remove1[THEN iffD1, rotated] set_remove1_subset[THEN subsetD])

lemma a_send_wait:
  assumes "a_send x tgt v A = Some (r, A')"
  shows "set (a_wait A') \<subseteq> set (a_wait A)" "distinct (a_wait A) \<Longrightarrow> a_awaits A x tgt \<Longrightarrow> tgt \<notin> set (a_wait A')"
  using assms set_remove1_subset[of tgt "a_wait A"] by (auto simp: a_send_def a_live_def a_awaits_def split: if_splits)

lemma a_recv_live: "a_cur A \<noteq> NULL \<Longrightarrow> a_live (snd (a_recv want A)) p = a_live A p"
  by (auto simp: a_recv_def Let_def a_live_def split: option.splits)

lemma a_recv_wait: "a_wait (snd (a_recv want A)) = a_wait A @ (if fst (a_recv want A) = None then [a_cur A] else [])"
  by (simp add: a_recv_def Let_def split: option.split)

lemma live_from_ipc: "(\<And>p. a_live (ipc_of s' Q') p = a_live (ipc_of s Q) p) \<Longrightarrow> live s' Q' = live s Q"
  using a_live_ipc_of by blast

text \<open>The answer address of a thread that a message may wake up.\<close>

definition wake_ok :: "kstate \<Rightarrow> (list_head \<Rightarrow> U32 list) \<Rightarrow> U32 \<Rightarrow> U32 \<Rightarrow> bool" where
  "wake_ok s Q x tgt \<longleftrightarrow> (a_awaits (ipc_of s Q) x tgt \<longrightarrow> reply_ok s tgt)"

text \<open>Messages that do not come from a thread are always safe.\<close>

lemma wake_ok_outside:
  assumes "sane lay s Q" and "tcbs s x = None"
  shows "wake_ok s Q x tgt"
  unfolding wake_ok_def
proof
  assume a: "a_awaits (ipc_of s Q) x tgt"
  then have w: "tgt \<in> set (Q Wait_queue)" by (simp add: a_awaits_def ipc_of_fields)
  then obtain t where t: "tcbs s tgt = Some t" using kinv_tcb[OF saneD(1)[OF assms(1)], of tgt] by (auto simp: live_def)
  have "waiting_for t = ANYMESSAGE \<or> waiting_for t = x" using a t by (auto simp: a_awaits_def satisfies_def ipc_of_fields)
  then have "tcbs s (waiting_for t) = None" using assms(2) sane_no_thread(1)[OF assms(1)] by auto
  with saneD(3)[OF assms(1)] w t show "reply_ok s tgt" by (auto simp: replies_ok_def)
qed

lemma sane_sent:
  assumes s: "sane lay s Q" and w: "wake_ok s Q x tgt"
    and "kinv s' (heads s Q) Q'" and "tree_kept Q Q'" and sd: "a_send x tgt v (ipc_of s Q) = Some (r, ipc_of s' Q')"
    and "bus_ok s'" and "SSI_tcb s' = SSI_tcb s" "trap_managers s' = trap_managers s" "interrupt_i s' = interrupt_i s"
    and links: "\<And>p. map_option tcb_links (tcbs s' p) = map_option tcb_links (tcbs s p)"
    and c: "c \<notin> set (Q Wait_queue)" and tc: "\<And>q. q \<noteq> c \<Longrightarrow> tcbs s' q = woken_up s x tgt (a_awaits (ipc_of s Q) x tgt) q"
    and ty: "\<And>t. tcbs s' c = Some t \<Longrightarrow> length (gpr (t_state t)) = 29"
    and m: "\<And>a. mem s' a = None \<longleftrightarrow> mem s a = None"
  shows "sane lay s' Q'" "live s' Q' = live s Q"
proof -
  note d = saneD[OF s]
  have n: "tcbs s' p = None \<longleftrightarrow> tcbs s p = None" for p
    using links[of p] by (cases "tcbs s p"; cases "tcbs s' p") auto
  show l: "live s' Q' = live s Q" by (rule live_from_ipc) (rule a_send_live[OF sd])
  have dw: "distinct (a_wait (ipc_of s Q))"
    using rep_distinct[OF kinv_rep[OF d(1)] kinv_heads(2)[OF d(1)]] by (simp add: ipc_of_fields)
  note wt = a_send_wait[OF sd, unfolded ipc_of_fields(2)]
  have "replies_ok s' Q'"
  proof (rule replies_sub[where Q = Q and Q' = Q', OF d(3) wt(1)], rule n, rule m)
    fix p assume p: "p \<in> set (Q' Wait_queue)"
    then have "p \<noteq> c" using wt(1) c by auto
    moreover have "p \<noteq> tgt" if "a_awaits (ipc_of s Q) x tgt" using wt(2) that dw p by (auto simp: ipc_of_fields)
    ultimately have "tcbs s' p = tcbs s p" using tc[of p] by (auto simp: woken_up_def)
    then show "map_option waiting_for (tcbs s' p) = map_option waiting_for (tcbs s p) \<and>
        map_option reply (tcbs s' p) = map_option reply (tcbs s p)" by simp
  qed
  moreover have "typed_regs s'"
    unfolding typed_regs_def
  proof (intro allI impI)
    fix p t assume t: "tcbs s' p = Some t"
    show "length (gpr (t_state t)) = 29"
    proof (cases "p = c")
      case False
      with t tc[of p] d(6) show ?thesis by (auto simp: typed_regs_def woken_up_def woken_def split: if_splits)
    qed (use t ty in simp)
  qed
  ultimately show "sane lay s' Q'"
    using assms memory_map_index[OF d(8)] l by (intro sane_step[OF s]) simp_all
qed

lemma sane_send:
  assumes s: "sane lay s Q" and nz: "tgt \<noteq> NULL" and x: "x = masked_sender s sender" and w: "wake_ok s Q x tgt"
    and P: "\<And>r s' Q'. sane lay s' Q' \<Longrightarrow> current_thread s' = current_thread s \<Longrightarrow> (\<And>p. tcbs s' p = None \<longleftrightarrow> tcbs s p = None) \<Longrightarrow>
       service_data s' = service_data s \<Longrightarrow> P r s'"
    and E: "E PANIC"
  shows "wp (send sender tgt v) P E s"
proof -
  note d = saneD[OF s]
  have mp: "a_awaits (ipc_of s Q) x tgt \<Longrightarrow> mem s (reply_of s tgt) \<noteq> None"
    using w by (simp add: wake_ok_def reply_ok_def)
  show ?thesis
  proof (rule wp_mono[OF wp_send_refines[OF d(1,4) nz x mp]])
    fix r s'
    assume "\<exists>Q'. kinv s' (heads s Q) Q' \<and> tree_kept Q Q' \<and> addr_ok s' \<and> a_send x tgt v (ipc_of s Q) = Some (r, ipc_of s' Q') \<and>
        SSI_tcb s' = SSI_tcb s \<and> service_data s' = service_data s \<and> ipc_only s s' \<and>
        tcbs s' = woken_up s x tgt (a_awaits (ipc_of s Q) x tgt) \<and> soft_block_count s' = soft_block_count s \<and>
        same_registers s s' (\<lambda>q. q = tgt \<and> a_awaits (ipc_of s Q) x tgt) x \<and>
        mem s' = (if a_awaits (ipc_of s Q) x tgt then (mem s)(reply_of s tgt \<mapsto> v) else mem s)"
    then obtain Q' where Q': "kinv s' (heads s Q) Q'" "tree_kept Q Q'" "a_send x tgt v (ipc_of s Q) = Some (r, ipc_of s' Q')"
      and sv: "service_data s' = service_data s" and io: "ipc_only s s'" and tc: "tcbs s' = woken_up s x tgt (a_awaits (ipc_of s Q) x tgt)"
      and me: "mem s' = (if a_awaits (ipc_of s Q) x tgt then (mem s)(reply_of s tgt \<mapsto> v) else mem s)" by blast
    note f = service_data_fields[OF sv]
    have dom: "mem s' a = None \<longleftrightarrow> mem s a = None" for a using me mp by auto
    have b: "bus_ok s'"
      using me w by (cases "a_awaits (ipc_of s Q) x tgt")
        (auto simp: wake_ok_def reply_ok_def intro: bus_ok_mem(1)[OF d(5)] bus_ok_mem(2)[OF d(5)])
    have "sane lay s' Q'"
    proof (rule sane_sent(1)[OF s w Q' b f(1,4,8,10)])
      show "NULL \<notin> set (Q Wait_queue)" using kinv_live_not_NULL[OF d(1), of NULL] by (auto simp: live_def)
      show "length (gpr (t_state t)) = 29" if "tcbs s' NULL = Some t" for t
        using that f(11)[of NULL] sane_no_thread(1)[OF s] by simp
    qed (use tc dom in simp_all)
    then show "P r s'" using ipc_only_fields(1)[OF io] f(11) sv by (intro P)
  qed (use E in auto)
qed

text \<open>A \<open>recv\<close> with a mapped address: a message is taken, or the thread is suspended.\<close>

lemma sane_recv:
  assumes s: "sane lay s Q" and c: "c = current_thread s" "c \<noteq> NULL" and a: "mem s a \<noteq> None" "a \<noteq> BUS_TIMESCALE"
    and P: "\<And>r s' Q'. sane lay s' Q' \<Longrightarrow> (\<And>p. tcbs s' p = None \<longleftrightarrow> tcbs s p = None) \<Longrightarrow> P r s'"
  shows "wp (recv c want a) P E s"
proof -
  note d = saneD[OF s]
  let ?A = "a_recv want (ipc_of s Q)"
  have mp: "fst ?A \<noteq> None \<Longrightarrow> mem s a \<noteq> None" using a by simp
  show ?thesis
  proof (rule wp_mono[OF wp_recv_refines[OF d(1,4) c mp]])
    fix r s'
    assume "\<exists>Q'. kinv s' (heads s Q) Q' \<and> tree_kept Q Q' \<and> addr_ok s' \<and> SSI_tcb s' = SSI_tcb s \<and> service_data s' = service_data s \<and>
       same_registers s s' (\<lambda>_. False) NULL \<and> (\<forall>q. q \<noteq> c \<longrightarrow> tcbs s' q = tcbs s q) \<and>
       (case ?A of (None, B) \<Rightarrow> r = NULL \<and> B = ipc_of s' Q' \<and> mem s' = mem s \<and> reply_of s' c = a \<and> soft_block_count s' = soft_block_count s
        | (Some (x, v), B) \<Rightarrow> r = x \<and> B = ipc_of s' Q' \<and> mem s' = (mem s)(a \<mapsto> v))"
    then obtain Q' where k': "kinv s' (heads s Q) Q'" "tree_kept Q Q'" and sv: "service_data s' = service_data s"
      and sr: "same_registers s s' (\<lambda>_. False) NULL" and ot: "\<forall>q. q \<noteq> c \<longrightarrow> tcbs s' q = tcbs s q"
      and cs: "case ?A of (None, B) \<Rightarrow> r = NULL \<and> B = ipc_of s' Q' \<and> mem s' = mem s \<and> reply_of s' c = a \<and> soft_block_count s' = soft_block_count s
        | (Some (x, v), B) \<Rightarrow> r = x \<and> B = ipc_of s' Q' \<and> mem s' = (mem s)(a \<mapsto> v)"
      by (elim exE conjE) (rule that, assumption+)
    note f = service_data_fields[OF sv]
    have B: "snd ?A = ipc_of s' Q'" using cs by (auto split: prod.splits option.splits)
    have l: "live s' Q' = live s Q"
      by (rule live_from_ipc) (use a_recv_live[of "ipc_of s Q" want] B c in \<open>simp add: ipc_of_fields\<close>)
    have dom: "mem s' b = None \<longleftrightarrow> mem s b = None" for b using cs a by (auto split: prod.splits option.splits if_splits)
    have b: "bus_ok s'"
      using cs a(2) by (auto split: prod.splits option.splits intro: bus_ok_mem(1)[OF d(5)] bus_ok_mem(2)[OF d(5)])
    have ty: "typed_regs s'"
      unfolding typed_regs_def
    proof (intro allI impI)
      fix p t assume t: "tcbs s' p = Some t"
      then obtain u where "tcbs s p = Some u" "t_state u = t_state t"
        using sr[unfolded same_registers_def, rule_format, of p] by (cases "tcbs s p") auto
      with d(6) show "length (gpr (t_state t)) = 29" by (metis typed_regs_def)
    qed
    have new: "p = c \<and> reply_of s' c = a \<or> p \<in> set (Q Wait_queue) \<and> p \<noteq> c" if "p \<in> set (Q' Wait_queue)" for p
    proof -
      have "Q' Wait_queue = Q Wait_queue @ (if fst ?A = None then [c] else [])"
        using a_recv_wait[of want "ipc_of s Q"] c by (simp add: B ipc_of_fields)
      moreover have "reply_of s' c = a" if "fst ?A = None" using that cs by (cases ?A) auto
      ultimately show ?thesis using that kinv_current(2)[OF d(1)] c by (auto split: if_splits)
    qed
    have "replies_ok s' Q'"
      unfolding replies_ok_def
    proof (intro ballI allI impI)
      fix p t assume p: "p \<in> set (Q' Wait_queue)" and t: "tcbs s' p = Some t" and w: "tcbs s' (waiting_for t) = None"
      from new[OF p] show "reply_ok s' p"
      proof
        assume "p = c \<and> reply_of s' c = a"
        then show ?thesis using a dom[of a] by (simp add: reply_ok_def)
      next
        assume q: "p \<in> set (Q Wait_queue) \<and> p \<noteq> c"
        then have "reply_ok s p" using d(3) t w ot f(11) by (auto simp: replies_ok_def)
        then show ?thesis using q ot dom by (simp add: reply_ok_def reply_of_def)
      qed
    qed
    then have "sane lay s' Q'"
      using memory_map_index[OF d(8)] by (intro sane_step[OF s k'(1) l k'(2) b f(1,4) _ f(10) ty dom]) (simp_all add: f(8))
    then show "P r s'" by (rule P) (rule f(11))
  qed auto
qed

text \<open>The running thread is put on the ready or the wait queue.\<close>

lemma sane_requeue:
  assumes s: "sane lay s Q" and c: "c = current_thread s" "c \<noteq> NULL" and h: "h = Ready_queue \<or> h = Wait_queue"
    and w: "\<And>t. h = Wait_queue \<Longrightarrow> tcbs s c = Some t \<Longrightarrow> tcbs s (waiting_for t) \<noteq> None"
    and P: "\<And>s' Q'. sane lay s' Q' \<Longrightarrow> P () s'"
  shows "wp (insertThread h c) (\<lambda>_. wp (kmodify (\<lambda>s. s\<lparr>current_thread := NULL\<rparr>)) P E) E s"
proof (rule wp_requeue[OF saneD(1)[OF s] c h])
  note d = saneD[OF s]
  fix L
  let ?s = "s\<lparr>current_thread := NULL, lst := L\<rparr>"
  define Q' where "Q' = Q(h := Q h @ [c])"
  assume "kinv ?s (heads s Q) (Q(h := Q h @ [c]))"
  then have k: "kinv ?s (heads s Q) Q'" by (simp only: Q'_def)
  have l: "live ?s Q' = live s Q" using c h by (auto simp: live_def Q'_def)
  have "replies_ok ?s Q'"
    using d(3) w h by (auto simp: replies_ok_def Q'_def reply_ok_def reply_of_def)
  moreover have "tree_kept Q Q'" using h by (auto simp: Q'_def)
  ultimately have "sane lay ?s Q'"
    using d(5,6) memory_map_index[OF d(8)] by (intro sane_step[OF s k l]) (simp_all add: typed_regs_def)
  then show "P () ?s" by (rule P)
qed

section \<open>Scheduling\<close>

lemma sane_scheduled:
  assumes s: "sane lay s Q" and sc: "scheduled s (heads s Q) Q r s'"
  shows "kernel_ok lay s'"
proof -
  note d = saneD[OF s]
  define Q' where "Q' = (if current_thread s = NULL then Q(Ready_queue := tl (Q Ready_queue)) else Q)"
  have k: "kinv s' (heads s Q) Q'" and sv: "service_data s' = service_data s" and b: "bus_ok s'"
    and me: "\<forall>a. a \<noteq> BUS_INTERVALTIMER \<longrightarrow> mem s' a = mem s a" and tc: "\<forall>q. q \<noteq> current_thread s' \<longrightarrow> tcbs s' q = tcbs s q"
    and st: "\<forall>q. map_option t_state (tcbs s' q) = map_option t_state (tcbs s q)"
    using sc by (simp_all add: scheduled_def Q'_def)
  have l: "live s' Q' = live s Q" using scheduled_live[OF sc d(1)] by (simp add: Q'_def)
  note f = service_data_fields[OF sv]
  have dom: "mem s' a = None \<longleftrightarrow> mem s a = None" for a
    using me b d(5) by (cases "a = BUS_INTERVALTIMER") (auto simp: bus_ok_def)
  have "typed_regs s'"
    unfolding typed_regs_def
  proof (intro allI impI)
    fix p t assume "tcbs s' p = Some t"
    with st[rule_format, of p] d(6) show "length (gpr (t_state t)) = 29" by (cases "tcbs s p") (auto simp: typed_regs_def)
  qed
  moreover have "replies_ok s' Q'"
  proof (rule replies_sub[where Q = Q and Q' = Q', OF d(3)], simp add: Q'_def, rule f(11), rule dom)
    fix p assume p: "p \<in> set (Q' Wait_queue)"
    then have "p \<noteq> NULL" using kinv_live_not_NULL[OF k, of p] by (auto simp: live_def)
    then have "p \<noteq> current_thread s'" using p kinv_current(2)[OF k] by auto
    then show "map_option waiting_for (tcbs s' p) = map_option waiting_for (tcbs s p) \<and>
        map_option reply (tcbs s' p) = map_option reply (tcbs s p)" using tc by simp
  qed
  moreover have "tree_kept Q Q'" by (simp add: Q'_def)
  ultimately have "sane lay s' Q'"
    using memory_map_index[OF d(8)] b by (intro sane_step[OF s k l]) (simp_all add: f dom)
  then show ?thesis by (rule kernel_okI)
qed

text \<open>The kernel's own ways to stop.\<close>

definition own_stop :: "stop \<Rightarrow> bool" where
  "own_stop e \<longleftrightarrow> e = HALT \<or> e = PANIC"

lemma own_stop_simps [simp]: "own_stop HALT" "own_stop PANIC" "\<not> own_stop Fault" "\<not> own_stop Diverge" "\<not> own_stop Preempted"
  by (simp_all add: own_stop_def)

lemma sane_scheduler:
  assumes "sane lay s Q"
  shows "wp scheduler (\<lambda>_. kernel_ok lay) own_stop s"
  by (rule wp_scheduler_after[OF saneD(1,5)[OF assms]])
    (use sane_scheduled[OF assms] in \<open>auto simp: nothing_runs_def own_stop_def\<close>)

section \<open>Termination of threads\<close>

lemma delete_scan_set: "set (delete_scan m xs) \<subseteq> insert NULL (set xs)"
  by (induction xs) auto

lemma delete_all_set: "set (fold delete_scan zs xs) \<subseteq> insert NULL (set xs)"
proof (induction zs arbitrary: xs)
  case (Cons z zs)
  from Cons[of "delete_scan z xs"] delete_scan_set[of z xs] show ?case by auto
qed auto

lemma sane_ended:
  assumes s: "sane lay s Q" and p: "p \<in> live s Q" and t: "subtree s Q depth p tr"
    and e: "ended s (heads s Q) (orphaned s p Q) (post tr) s'"
  shows "sane lay s' (reap_list (post tr) (orphaned s p Q))"
proof -
  note d = saneD[OF s]
  let ?Q = "reap_list (post tr) (orphaned s p Q)"
  have k: "kinv s' (heads s Q) ?Q" and g: "gone s (post tr) s'" using e by (simp_all add: ended_def)
  have l: "live s' ?Q = live s Q - set (post tr)" by (rule live_after_end[OF e])
  have n: "tcbs s' x = None \<longleftrightarrow> tcbs s x = None" for x using g by (simp add: gone_def)
  have tm: "trap_managers s' = fold delete_scan (post tr) (trap_managers s)" using g by (simp add: gone_def)
  have out: "tcbs s' x = tcbs s x" if "x \<notin> set (post tr)" for x using g that by (simp add: gone_def)
  have kept: "t_state u' = t_state u \<and> snd (tcb_links u') = snd (tcb_links u)" if "tcbs s x = Some u" "tcbs s' x = Some u'" for x u u'
    using g that unfolding gone_def by blast
  have sr: "same_rest s s'" using g by (simp add: gone_def)
  note f = same_rest_fields[OF sr]
  have ii: "interrupt_i s' = interrupt_i s" using sr by (cases s; cases s'; simp add: same_rest_def)
  have "base_heads s' ?Q \<subseteq> heads s' ?Q" "heads s' ?Q \<subseteq> heads s Q" by (auto simp: heads_def base_heads_def l)
  then have "kinv s' (heads s' ?Q) ?Q" using kinv_fewer_heads[OF k] by blast
  moreover have "forest s' ?Q" by (rule forest_terminate[OF d(2) t p e])
  moreover have "replies_ok s' ?Q"
  proof (rule replies_sub[where Q = Q and Q' = ?Q, OF d(3)])
    have w: "?Q Wait_queue = filter (\<lambda>x. x \<notin> set (post tr)) (Q Wait_queue)"
      by (simp add: orphaned_def split: option.split)
    show "set (?Q Wait_queue) \<subseteq> set (Q Wait_queue)" by (simp only: w) auto
    show "map_option waiting_for (tcbs s' x) = map_option waiting_for (tcbs s x) \<and> map_option reply (tcbs s' x) = map_option reply (tcbs s x)"
      if "x \<in> set (?Q Wait_queue)" for x
      using out[of x] that by (simp only: w) simp
  qed (simp_all add: n f)
  moreover have "addr_ok s'" using d(4) by (simp add: addr_ok_def f n)
  moreover have "typed_regs s'"
    unfolding typed_regs_def
  proof (intro allI impI)
    fix x u' assume u': "tcbs s' x = Some u'"
    then obtain u where "tcbs s x = Some u" using n[of x] by (cases "tcbs s x") auto
    with kept[OF this u'] d(6) show "length (gpr (t_state u')) = 29" by (auto simp: typed_regs_def)
  qed
  moreover have "managers_ok s'"
    unfolding managers_ok_def
  proof (intro conjI allI impI ballI)
    show "SSI_tcb s' \<notin> set (trap_managers s')"
      using d(7) sane_no_thread(3)[OF s] delete_all_set[of "post tr" "trap_managers s"] by (auto simp: f tm managers_ok_def)
    fix x u' m assume u': "tcbs s' x = Some u'" and m: "m \<in> managers_of u'"
    then obtain u where u: "tcbs s x = Some u" using n[of x] by (cases "tcbs s x") auto
    then have "m \<in> managers_of u" using m managers_of_links[of u' u] kept[OF u u'] by simp
    with d(7) u show "m = NULL \<or> tcbs s' m \<noteq> None" unfolding n managers_ok_def by blast
  qed
  moreover have "memory_map lay s'" using d(8) by (simp add: memory_map_def f n ii)
  ultimately show ?thesis using d(5) by (simp add: sane_def f)
qed

lemma sane_terminate:
  assumes s: "sane lay s Q" and p: "p \<in> live s Q"
    and P: "\<And>s' Q'. sane lay s' Q' \<Longrightarrow> current_thread s' \<in> {current_thread s, NULL} \<Longrightarrow>
       (current_thread s = p \<Longrightarrow> current_thread s' = NULL) \<Longrightarrow> P () s'"
  shows "wp (terminate p) P E s"
proof -
  note d = saneD[OF s]
  obtain depth where dp: "\<forall>p\<in>live s Q. \<forall>c\<in>set (Q (T_child p)). (depth :: U32 \<Rightarrow> nat) p < depth c"
    using d(2) by (auto simp: forest_def)
  obtain tr where t: "subtree s Q depth p tr" using subtree_exists[OF d(2) dp p] by blast
  have "tcbs s p \<noteq> None" using kinv_tcb[OF d(1) p] by simp
  note e = subtree_endable[OF d(2) dp t _ this, of "heads s Q"]
  show ?thesis
  proof (rule wp_terminate[OF d(1)])
    fix s' assume en: "ended s (heads s Q) (orphaned s p Q) (post tr) s'"
    then have "current_thread s' = (if current_thread s \<in> set (post tr) then NULL else current_thread s)"
      by (simp add: ended_def gone_def)
    moreover have "p \<in> set (post tr)" using root_in_post[of tr] t by (auto simp: subtree_def)
    ultimately show "P () s'" using sane_ended[OF s p t en] by (intro P) auto
  qed (use e in \<open>auto simp: heads_def\<close>)
qed

section \<open>Interrupts\<close>

lemma sane_acked:
  assumes s: "sane lay s Q" and dev: "device_ok dev" "a \<in> dev_region" "mem s a \<noteq> None"
  shows "sane lay (acked dev a s) Q"
proof (rule sane_frame[OF s])
  show "bus_ok (acked dev a s)" using saneD(5)[OF s] acked_mem(3)[OF dev] by simp
  show "mem (acked dev a s) b = None \<longleftrightarrow> mem s b = None" for b by (rule acked_mem(1)[OF dev])
  show "typed_regs (acked dev a s)" using saneD(6)[OF s] by (simp add: typed_regs_def acked_def)
  show "interrupt_i (acked dev a s) < 48" using memory_map_index[OF saneD(8)[OF s]] by simp
qed (simp_all add: acked_def)

text \<open>A message of the interrupt handler to the SSI.\<close>

lemma sane_tell:
  assumes s: "sane lay s Q" and x: "tcbs s x = None"
    and P: "\<And>s' Q'. sane lay s' Q' \<Longrightarrow> current_thread s' = current_thread s \<Longrightarrow> (\<And>b. mem s' b = None \<longleftrightarrow> mem s b = None) \<Longrightarrow>
        (\<And>p. tcbs s' p = None \<longleftrightarrow> tcbs s p = None) \<Longrightarrow> P () s'"
    and E: "E PANIC"
  shows "wp (kthen (fill_int_msg lay service arg) (notify_SSI lay x)) P E s"
proof -
  note d = saneD[OF s]
  let ?m = "int_msg_addr lay (interrupt_i s)" and ?ssi = "SSI_tcb s"
  have i: "int_msg_ok lay s" by (rule memory_map_msg[OF d(8)])
  have w: "wake_ok s Q x ?ssi" by (rule wake_ok_outside[OF s x])
  show ?thesis
  proof (rule wp_report[OF d(1,4,5) i refl])
    show "x \<noteq> ?ssi" using x d(4) by (auto simp: addr_ok_def)
    show "a_awaits (ipc_of s Q) x ?ssi \<Longrightarrow> reply_ok s ?ssi" using w by (simp add: wake_ok_def)
    fix A s' Q'
    assume sd: "a_send x ?ssi ?m (ipc_of s Q) = Some (MSGGOOD, A)" and k: "kinv s' (heads s Q) Q'" and tk: "tree_kept Q Q'"
      and b: "bus_ok s'" and A: "ipc_of s' Q' = A" and io: "ipc_only s s'" and sv: "service_data s' = service_data s"
      and tc: "tcbs s' = woken_up s x ?ssi (a_awaits (ipc_of s Q) x ?ssi)"
      and me: "mem s' = (if a_awaits (ipc_of s Q) x ?ssi then (filled ?m service arg (mem s))(reply_of s ?ssi \<mapsto> ?m)
                 else filled ?m service arg (mem s))"
    note f = service_data_fields[OF sv]
    have fd: "filled ?m service arg (mem s) b = None \<longleftrightarrow> mem s b = None" for b
      using i by (auto simp: int_msg_ok_def msg_words_def filled_def)
    have dom: "mem s' b = None \<longleftrightarrow> mem s b = None" for b
      using w fd[of b] unfolding me by (auto simp: wake_ok_def reply_ok_def)
    have "sane lay s' Q'"
    proof (rule sane_sent(1)[OF s w k tk sd[folded A] b f(1,4,8,10)])
      show "NULL \<notin> set (Q Wait_queue)" using kinv_live_not_NULL[OF d(1), of NULL] by (auto simp: live_def)
      show "length (gpr (t_state t)) = 29" if "tcbs s' NULL = Some t" for t
        using that f(11)[of NULL] sane_no_thread(1)[OF s] by simp
    qed (use tc dom in simp_all)
    then show "P () s'" using ipc_only_fields(1)[OF io] dom f(11) by (intro P)
  qed (rule E)
qed

lemma sane_dtp:
  assumes s: "sane lay s Q" and dev: "device_ok dev" and l: "line \<in> {3, 4, 5, 6}"
  shows "wp (dtp_interrupt lay dev line) (\<lambda>_. kernel_ok lay) own_stop s"
proof -
  note d = saneD[OF s]
  have l': "line \<in> {3, 4, 5, 6, 7}" using l by auto
  obtain bitmap where bm: "mem s (pending_bitmap_addr line) = Some bitmap"
    using memory_map_pending[OF d(8) l'] by auto
  define base where "base = device_baseaddr line (which_device bitmap)"
  note r = device_baseaddr_cases[OF l' which_device_less, of bitmap, folded base_def]
  note m = memory_map_device[OF d(8) l' which_device_less, of bitmap, folded base_def]
  let ?s = "acked dev (base + 4) s"
  have s1: "sane lay ?s Q" by (rule sane_acked[OF s dev r(2) m(2)])
  obtain st where st: "mem ?s base = Some st" using m(1) acked_mem(1)[OF dev r(2) m(2), of base] by auto
  have "wp (kthen (fill_int_msg lay INTERRUPT_MSG st) (notify_SSI lay base)) (\<lambda>_. kernel_ok lay) own_stop ?s"
    by (rule sane_tell[OF s1]) (use memory_map_regs[OF d(8) r(1)] in \<open>auto simp: acked_def intro: kernel_okI\<close>)
  then show ?thesis
    using bm st by (simp add: dtp_interrupt_def Let_def base_def[symmetric] wp_ack[OF m(2)] del: DEV_C_ACK_def)
qed

lemma sane_terminal:
  assumes s: "sane lay s Q" and dev: "device_ok dev"
  shows "wp (terminal_interrupt lay dev) (\<lambda>_. kernel_ok lay) own_stop s"
proof -
  note d = saneD[OF s]
  obtain bitmap where bm: "mem s (pending_bitmap_addr 7) = Some bitmap"
    using memory_map_pending[OF d(8), of 7] by auto
  define base where "base = device_baseaddr 7 (which_device bitmap)"
  note r = device_baseaddr_cases[OF _ which_device_less, of 7 bitmap, folded base_def, simplified]
  have "(7 :: nat) \<in> {3, 4, 5, 6, 7}" by simp
  note m = memory_map_device[OF d(8) this which_device_less, of bitmap, folded base_def]
  obtain tr rc where v: "mem s (base + 8) = Some tr" "mem s base = Some rc" using m by auto
  have tell: "wp (kthen (fill_int_msg lay INTERRUPT_MSG st) (kthen (notify_SSI lay x) (bus_write dev a DEV_C_ACK))) (\<lambda>_. kernel_ok lay) own_stop s"
    if x: "x \<in> dev_region" "a \<in> dev_region" "mem s a \<noteq> None" for st x a
  proof -
    have "wp (kthen (fill_int_msg lay INTERRUPT_MSG st) (notify_SSI lay x)) (\<lambda>_. wp (bus_write dev a DEV_C_ACK) (\<lambda>_. kernel_ok lay) own_stop) own_stop s"
    proof (rule sane_tell[OF s memory_map_regs[OF d(8) x(1)]])
      fix s' Q' assume s': "sane lay s' Q'" and dom: "\<And>b. mem s' b = None \<longleftrightarrow> mem s b = None"
      have "mem s' a \<noteq> None" using x(3) dom[of a] by simp
      then show "wp (bus_write dev a DEV_C_ACK) (\<lambda>_. kernel_ok lay) own_stop s'"
        unfolding wp_ack[OF \<open>mem s' a \<noteq> None\<close>] using sane_acked[OF s' dev x(2)] kernel_okI by blast
    qed simp
    then show ?thesis by (simp only: wp_kthen)
  qed
  show ?thesis
    using bm v tell[OF r(3,4) m(4)] tell[OF r(1,2) m(2)] kernel_okI[OF s]
    by (simp add: terminal_interrupt_def Let_def base_def[symmetric] add.assoc)
qed

lemma sane_clock:
  assumes "sane lay s Q"
  shows "sane lay (s\<lparr>pseudo_tick := t, tod_reads := n, start_pseudo_tick := u\<rparr>) Q"
    and "m \<noteq> None \<Longrightarrow> mem s BUS_INTERVALTIMER \<noteq> None \<Longrightarrow> sane lay (s\<lparr>mem := (mem s)(BUS_INTERVALTIMER := m)\<rparr>) Q"
    and "i < 48 \<Longrightarrow> sane lay (s\<lparr>interrupt_i := i\<rparr>) Q"
    and "sane lay (s\<lparr>areas := A\<rparr>) Q" and "sane lay (s\<lparr>cpu := st\<rparr>) Q"
  by (rule sane_frame[OF assms];
      use saneD(5)[OF assms] saneD(6)[OF assms] memory_map_index[OF saneD(8)[OF assms]] in \<open>auto simp: typed_regs_def bus_ok_def\<close>)+

lemma sane_timer_tail:
  assumes s: "sane lay s Q"
  shows "wp timer_tail (\<lambda>_. kernel_ok lay) own_stop s"
proof (cases "slice_over s")
  case True
  then have c: "current_thread s \<noteq> NULL" by (simp add: slice_over_def)
  have "wp (insertThread Ready_queue (current_thread s)) (\<lambda>_. wp (kmodify (\<lambda>s. s\<lparr>current_thread := NULL\<rparr>)) (\<lambda>_. kernel_ok lay) own_stop) own_stop s"
    by (rule sane_requeue[OF s refl c]) (auto intro: kernel_okI)
  with True show ?thesis by (auto simp: timer_tail_def slice_over_def split: option.splits)
next
  case False
  obtain sc where sc: "mem s BUS_TIMESCALE = Some sc" "mem s BUS_INTERVALTIMER \<noteq> None"
    using saneD(5)[OF s] by (auto simp: bus_ok_def split: option.splits)
  have k: "kernel_ok lay (s\<lparr>mem := (mem s)(BUS_INTERVALTIMER \<mapsto> v)\<rparr>)" for v
    by (rule kernel_okI[OF sane_clock(2)[OF s]]) (use sc in simp_all)
  show ?thesis
  proof (cases "current_thread s = NULL")
    case True
    with sc k show ?thesis by (auto simp: timer_tail_def)
  next
    case c: False
    then obtain t where "tcbs s (current_thread s) = Some t" by (rule sane_current[OF s])
    with sc k c False show ?thesis by (auto simp: timer_tail_def slice_over_def)
  qed
qed

lemma sane_timer:
  assumes s: "sane lay s Q"
  shows "wp (timer_interrupt lay) (\<lambda>_. kernel_ok lay) own_stop s"
proof -
  note d = saneD[OF s]
  have s1: "sane lay (ticked s) Q" unfolding ticked_def by (rule sane_clock(1)[OF s])
  have tail: "wp timer_tail (\<lambda>_. kernel_ok lay) own_stop (s'\<lparr>pseudo_tick := 0, tod_reads := n, start_pseudo_tick := u\<rparr>)"
    if "sane lay s' Q'" for s' Q' n u
    by (rule sane_timer_tail[OF sane_clock(1)[OF that]])
  let ?reset = "\<lambda>_::unit. wp (kthen (kmodify (\<lambda>s. s\<lparr>pseudo_tick := 0\<rparr>))
     (kthen (kbind GET_TODLOW (\<lambda>t. kmodify (\<lambda>s. s\<lparr>start_pseudo_tick := t\<rparr>))) timer_tail)) (\<lambda>_. kernel_ok lay) own_stop"
  have "wp (kthen (fill_int_msg lay PSEUDOCLOCK_MSG 0) (notify_SSI lay BUS_INTERVALTIMER)) ?reset own_stop (ticked s)"
  proof (rule sane_tell[OF s1])
    show "tcbs (ticked s) BUS_INTERVALTIMER = None" using d(4) by (simp add: addr_ok_def ticked_def)
    fix s' Q' assume s': "sane lay s' Q'"
    show "?reset () s'"
      using tail[OF s', of "now s' 0" "Suc (tod_reads s')"] saneD(5)[OF s']
      by (simp add: wp_GET_TODLOW now_def time_scale_def)
  qed simp
  then show ?thesis
    unfolding timer_interrupt_def using sane_timer_tail[OF s1] d(5) by (simp add: wp_update_pseudo_tick)
qed

text \<open>The interrupt handler, whatever is pending.\<close>

lemma sane_int_handler:
  assumes s: "sane lay s Q" and dev: "device_ok dev"
  shows "wp (int_handler lay dev) (\<lambda>_. kernel_ok lay) own_stop s"
proof -
  have s1: "sane lay (int_enter s) Q" using s sane_enter by (simp add: int_enter_def)
  have fin: "wp scheduler (\<lambda>_. kernel_ok lay) own_stop (s'\<lparr>interrupt_i := (interrupt_i s' + 1) mod 48\<rparr>)" if k: "kernel_ok lay s'" for s'
  proof -
    obtain Q' where "sane lay s' Q'" using k unfolding kernel_ok_def by blast
    then show ?thesis by (intro sane_scheduler sane_clock(3)) simp_all
  qed
  have "wp (case pending_line s of None \<Rightarrow> kreturn () | Some line \<Rightarrow> serve_line lay dev line) (\<lambda>_. kernel_ok lay) own_stop (int_enter s)"
  proof (cases "pending_line s")
    case None
    then show ?thesis using s1 kernel_okI by auto
  next
    case (Some line)
    then have "line \<in> set [2..<8]" unfolding pending_line_def find_Some_iff by (metis nth_mem)
    then consider "line = 2" | "line = 7" | "line \<in> {3, 4, 5, 6}" by fastforce
    then show ?thesis
      using Some sane_timer[OF s1] sane_terminal[OF s1 dev] sane_dtp[OF s1 dev, of line]
      by cases (auto simp: serve_line_def)
  qed
  then show ?thesis
    unfolding wp_int_handler[OF saneD(1,5)[OF s]] by (rule wp_mono) (use fin in auto)
qed

end
