(* ===== verification/Kernel_Entry.thy ===== *)
theory Kernel_Entry
  imports Kernel_Safe
begin

text \<open>
  The handlers of the nucleus keep the invariant. What a thread may do wrong is stated as a
  condition on its call, in terms of the code: \<open>on_queue\<close> is the kernel's own search.
\<close>

section \<open>Admissible calls\<close>

definition on_queue :: "list_head \<Rightarrow> U32 \<Rightarrow> kstate \<Rightarrow> bool" where
  "on_queue h p s = (case thereIsThread h p s of Inl e \<Rightarrow> False | Inr (r, s') \<Rightarrow> r \<noteq> NULL)"

definition waits_for :: "kstate \<Rightarrow> U32 \<Rightarrow> U32 \<Rightarrow> bool" where
  "waits_for s p x = (on_queue Wait_queue p s \<and> (case tcbs s p of None \<Rightarrow> False | Some t \<Rightarrow> waiting_for t = x))"

text \<open>
  A thread that waits for \<open>c\<close> has given the address of a word for its message. A thread that
  was frozen by a trap has not: its manager may only decide about it.
\<close>

definition may_wake :: "kstate \<Rightarrow> U32 \<Rightarrow> U32 \<Rightarrow> bool" where
  "may_wake s c tgt \<longleftrightarrow> (waits_for s tgt c \<longrightarrow> reply_ok s tgt)"

definition send_admissible :: "kstate \<Rightarrow> state_t \<Rightarrow> bool" where
  "send_admissible s old \<longleftrightarrow>
     (let c = current_thread s; tgt = send_target s old; v = gpr_get old reg_a2 in
      tgt \<noteq> NULL \<and> (c \<in> set (trap_managers s) \<longrightarrow> tcbs s tgt \<noteq> None) \<and>
      (if trap_decision s c tgt \<and> (v = TRAPTERMINATE \<or> v = TRAPCONTINUE) then on_queue Wait_queue tgt s
       else may_wake s c tgt))"

definition recv_admissible :: "kstate \<Rightarrow> state_t \<Rightarrow> bool" where
  "recv_admissible s old \<longleftrightarrow> mem s (gpr_get old reg_a2) \<noteq> None \<and> gpr_get old reg_a2 \<noteq> BUS_TIMESCALE"

definition trap_admissible :: "kstate \<Rightarrow> (tcb_t \<Rightarrow> U32) \<Rightarrow> bool" where
  "trap_admissible s field \<longleftrightarrow> (case tcbs s (current_thread s) of None \<Rightarrow> False
     | Some t \<Rightarrow> field t \<noteq> NULL \<longrightarrow> may_wake s (current_thread s) (field t))"

definition call_admissible :: "kstate \<Rightarrow> bool" where
  "call_admissible s \<longleftrightarrow>
     (let old = areas s SYSBK_OLDAREA in
      if kernel_syscall old \<and> gpr_get old reg_a0 = SEND then send_admissible s old
      else if kernel_syscall old \<and> gpr_get old reg_a0 = RECV then recv_admissible s old
      else trap_admissible s sysbp_manager_thread)"

lemma on_queue_iff:
  assumes "sane lay s Q"
  shows "on_queue Wait_queue p s \<longleftrightarrow> p \<in> set (Q Wait_queue)"
proof -
  note k = saneD(1)[OF assms]
  have "p \<noteq> NULL" if "p \<in> set (Q Wait_queue)" using kinv_live_not_NULL[OF k, of p] that by (simp add: live_def)
  then show ?thesis by (auto simp: on_queue_def thereIsThread_eq[OF kinv_rep[OF k] kinv_heads(2)[OF k]])
qed

lemma may_wake_ok:
  assumes s: "sane lay s Q" and m: "may_wake s c tgt"
  shows "wake_ok s Q (masked_sender s c) tgt"
proof (cases "c = SSI_tcb s")
  case True
  then show ?thesis
    using sane_no_thread(2)[OF s] by (intro wake_ok_outside[OF s]) (simp add: masked_sender_def)
next
  case False
  then have c: "masked_sender s c = c" by (simp add: masked_sender_def)
  show ?thesis
    unfolding wake_ok_def c
  proof
    assume a: "a_awaits (ipc_of s Q) c tgt"
    then have w: "tgt \<in> set (Q Wait_queue)" by (simp add: a_awaits_def ipc_of_fields)
    then obtain t where t: "tcbs s tgt = Some t" using kinv_tcb[OF saneD(1)[OF s], of tgt] by (auto simp: live_def)
    with a consider "waiting_for t = ANYMESSAGE" | "waiting_for t = c"
      by (auto simp: a_awaits_def satisfies_def ipc_of_fields)
    then show "reply_ok s tgt"
    proof cases
      case 1
      then show ?thesis using saneD(3)[OF s] w t sane_no_thread(1)[OF s] by (auto simp: replies_ok_def)
    next
      case 2
      then show ?thesis using m w t on_queue_iff[OF s] by (simp add: may_wake_def waits_for_def)
    qed
  qed
qed

text \<open>The TCB of the running thread may change in what nobody else looks at.\<close>

lemma sane_current_tcb:
  assumes s: "sane lay s Q" and c: "c = current_thread s" "c \<noteq> NULL" and t: "tcbs s c = Some t"
    and "t_state t' = t_state t" and "tcb_links t' = tcb_links t"
  shows "sane lay (s\<lparr>tcbs := (tcbs s)(c \<mapsto> t')\<rparr>) Q"
proof (rule sane_step[OF s])
  note d = saneD[OF s]
  have n: "((tcbs s)(c \<mapsto> t')) p = None \<longleftrightarrow> tcbs s p = None" for p using t by simp
  show "kinv (s\<lparr>tcbs := (tcbs s)(c \<mapsto> t')\<rparr>) (heads s Q) Q" using d(1) t by simp
  show "replies_ok (s\<lparr>tcbs := (tcbs s)(c \<mapsto> t')\<rparr>) Q"
  proof (rule replies_sub[where Q = Q and Q' = Q, OF d(3)])
    fix p assume "p \<in> set (Q Wait_queue)"
    then have "p \<noteq> c" using kinv_current(2)[OF d(1)] c by auto
    then show "map_option waiting_for (tcbs (s\<lparr>tcbs := (tcbs s)(c \<mapsto> t')\<rparr>) p) = map_option waiting_for (tcbs s p) \<and>
        map_option reply (tcbs (s\<lparr>tcbs := (tcbs s)(c \<mapsto> t')\<rparr>) p) = map_option reply (tcbs s p)" by simp
  qed (use n in simp_all)
  show "typed_regs (s\<lparr>tcbs := (tcbs s)(c \<mapsto> t')\<rparr>)" using d(6) t assms(5) by (auto simp: typed_regs_def)
qed (use saneD(5)[OF s] memory_map_index[OF saneD(8)[OF s]] assms(4,6) in \<open>simp_all add: live_def\<close>)

section \<open>Exceptions that are passed up\<close>

lemma sane_pass_up:
  assumes s: "sane lay s Q" and c: "current_thread s \<noteq> NULL" and a: "trap_admissible s field"
    and f: "\<And>t. field t \<in> managers_of t"
  shows "wp (pass_up field area) (\<lambda>_. kernel_ok lay) own_stop s"
proof -
  note d = saneD[OF s]
  let ?c = "current_thread s"
  obtain t where t: "tcbs s ?c = Some t" using c by (rule sane_current[OF s])
  show ?thesis
  proof (cases "field t = NULL")
    case True
    have "wp (terminate ?c) (\<lambda>_. wp (kthen (kmodify (\<lambda>s. s\<lparr>current_thread := NULL\<rparr>)) scheduler) (\<lambda>_. kernel_ok lay) own_stop) own_stop s"
    proof (rule sane_terminate[OF s kinv_current_live[OF c]])
      fix s' Q' assume s': "sane lay s' Q'" and "?c = ?c \<Longrightarrow> current_thread s' = NULL"
      then have "s'\<lparr>current_thread := NULL\<rparr> = s'" by simp
      with sane_scheduler[OF s'] show "wp (kthen (kmodify (\<lambda>s. s\<lparr>current_thread := NULL\<rparr>)) scheduler) (\<lambda>_. kernel_ok lay) own_stop s'"
        by simp
    qed
    with t True show ?thesis by (simp add: pass_up_def Let_def)
  next
    case False
    let ?m = "field t"
    have m: "tcbs s ?m \<noteq> None" using d(7) t f[of t] False unfolding managers_ok_def by blast
    have w: "wake_ok s Q (masked_sender s ?c) ?m" by (rule may_wake_ok[OF s]) (use a t False in \<open>simp add: trap_admissible_def\<close>)
    let ?rest = "kthen (upd_tcb ?c (\<lambda>t. t\<lparr>waiting_for := ?m\<rparr>))
       (kthen (insertThread Wait_queue ?c) (kthen (kmodify (\<lambda>s. s\<lparr>current_thread := NULL\<rparr>)) scheduler))"
    have "wp (send ?c ?m (cause (areas s area))) (\<lambda>_. wp ?rest (\<lambda>_. kernel_ok lay) own_stop) own_stop s"
    proof (rule sane_send[OF s False refl w])
      fix s1 Q1
      assume s1: "sane lay s1 Q1" and c1: "current_thread s1 = ?c" and n: "\<And>p. tcbs s1 p = None \<longleftrightarrow> tcbs s p = None"
      obtain t1 where t1: "tcbs s1 ?c = Some t1" using n[of ?c] t by auto
      let ?s2 = "s1\<lparr>tcbs := (tcbs s1)(?c \<mapsto> t1\<lparr>waiting_for := ?m\<rparr>)\<rparr>"
      have s2: "sane lay ?s2 Q1" by (rule sane_current_tcb[OF s1 c1[symmetric] c t1]) simp_all
      have "wp (insertThread Wait_queue ?c) (\<lambda>_. wp (kmodify (\<lambda>s. s\<lparr>current_thread := NULL\<rparr>)) (\<lambda>_. wp scheduler (\<lambda>_. kernel_ok lay) own_stop) own_stop) own_stop ?s2"
        by (rule sane_requeue[OF s2]) (use c1 c m n[of ?m] t1 sane_scheduler in \<open>auto split: if_splits\<close>)
      with t1 show "wp ?rest (\<lambda>_. kernel_ok lay) own_stop s1" by simp
    qed simp
    with t False show ?thesis by (simp add: pass_up_def Let_def)
  qed
qed

section \<open>System calls\<close>

lemma sane_sys_send:
  assumes s: "sane lay s Q" and c: "current_thread s \<noteq> NULL" and a: "send_admissible s old"
  shows "wp (sys_send old) (\<lambda>_. kernel_ok lay) own_stop s"
proof -
  note d = saneD[OF s]
  let ?c = "current_thread s" and ?t = "send_target s old" and ?v = "gpr_get old reg_a2" and ?s = "counted s old"
  have s1: "sane lay ?s Q" by (rule sane_counted[OF s])
  have nz: "?t \<noteq> NULL" and v: "?c \<in> set (trap_managers s) \<Longrightarrow> tcbs s ?t \<noteq> None"
    using a by (simp_all add: send_admissible_def Let_def)
  show ?thesis
  proof (cases "trap_decision s ?c ?t \<and> (?v = TRAPTERMINATE \<or> ?v = TRAPCONTINUE)")
    case dec: True
    then have w: "?t \<in> set (Q Wait_queue)"
      using a on_queue_iff[OF s] by (auto simp: send_admissible_def Let_def)
    show ?thesis
    proof (cases "?v = TRAPTERMINATE")
      case True
      have "wp (terminate ?t) (\<lambda>_. wp scheduler (\<lambda>_. kernel_ok lay) own_stop) own_stop ?s"
        by (rule sane_terminate[OF s1]) (use w sane_scheduler in \<open>auto simp: live_def\<close>)
      with True dec show ?thesis by (subst wp_trap_test[OF refl c refl v]) simp_all
    next
      case False
      with dec have cont: "?v = TRAPCONTINUE" by simp
      have td: "trap_decision s ?c ?t" using dec by simp
      show ?thesis
      proof (rule wp_trap_continue[OF d(1,5) refl c refl w cont td])
        let ?Q = "Q(Wait_queue := remove1 ?t (Q Wait_queue), Ready_queue := Q Ready_queue @ [?t])"
        fix s' r s''
        assume k: "kinv s' (heads s Q) ?Q" and e: "s' = ?s\<lparr>lst := lst s'\<rparr>" and sc: "scheduled s' (heads s Q) ?Q r s''"
        have f: "tcbs s' = tcbs s" "mem s' = mem s" "current_thread s' = ?c" "SSI_tcb s' = SSI_tcb s"
          "trap_managers s' = trap_managers s" "interrupt_i s' = interrupt_i s" "bus_ok s' = bus_ok s"
          by (subst e, simp add: counted_def)+
        have l: "live s' ?Q = live s Q" using w f(3) rep_distinct[OF kinv_rep[OF d(1)] kinv_heads(2)[OF d(1)]]
          by (auto simp: live_def)
        have "replies_ok s' ?Q"
          using d(3) notin_set_remove1 by (fastforce simp: replies_ok_def reply_ok_def reply_of_def f)
        then have s': "sane lay s' ?Q"
          using d(5,6) memory_map_index[OF d(8)] by (intro sane_step[OF s k l]) (simp_all add: f typed_regs_def)
        have "heads s' ?Q = heads s Q" by (simp add: heads_def base_heads_def l)
        then show "kernel_ok lay s''" using sane_scheduled[OF s', of r s''] sc by simp
      qed
    qed
  next
    case False
    have w: "wake_ok ?s Q (masked_sender ?s ?c) ?t"
      using a False may_wake_ok[OF s, of ?c ?t] by (auto simp: send_admissible_def Let_def wake_ok_def reply_ok_def)
    have "wp (send ?c ?t ?v) (\<lambda>r. wp (kthen (upd_tcb ?c (\<lambda>t. t\<lparr>t_state := gpr_set reg_v0 r (t_state t)\<rparr>)) scheduler) (\<lambda>_. kernel_ok lay) own_stop) own_stop ?s"
    proof (rule sane_send[OF s1 nz refl w])
      fix r s' Q' assume s': "sane lay s' Q'" and n: "\<And>p. tcbs s' p = None \<longleftrightarrow> tcbs ?s p = None"
      obtain t where "tcbs s ?c = Some t" using c by (rule sane_current[OF s])
      then have tc: "tcbs s' ?c \<noteq> None" using n[of ?c] by simp
      show "wp (kthen (upd_tcb ?c (\<lambda>t. t\<lparr>t_state := gpr_set reg_v0 r (t_state t)\<rparr>)) scheduler) (\<lambda>_. kernel_ok lay) own_stop s'"
        using sane_scheduler[OF sane_result_in[OF s']] by (simp only: wp_kthen wp_result_in[OF tc])
    qed simp
    with False show ?thesis by (subst wp_trap_test[OF refl c refl v]) auto
  qed
qed

lemma sane_sys_recv:
  assumes s: "sane lay s Q" and c: "current_thread s \<noteq> NULL" and a: "recv_admissible s old"
  shows "wp (sys_recv old) (\<lambda>_. kernel_ok lay) own_stop s"
proof -
  let ?c = "current_thread s" and ?w = "gpr_get old reg_a1" and ?a = "gpr_get old reg_a2"
  obtain t where t: "tcbs s ?c = Some t" using c by (rule sane_current[OF s])
  have "wp (recv ?c ?w ?a) (\<lambda>v. wp (kthen (upd_tcb ?c (\<lambda>t. t\<lparr>t_state := gpr_set reg_v0 v (t_state t)\<rparr>)) scheduler) (\<lambda>_. kernel_ok lay) own_stop) own_stop s"
  proof (rule sane_recv[OF s refl c])
    fix r s' Q' assume s': "sane lay s' Q'" and n: "\<And>p. tcbs s' p = None \<longleftrightarrow> tcbs s p = None"
    then have tc: "tcbs s' ?c \<noteq> None" using n[of ?c] t by simp
    show "wp (kthen (upd_tcb ?c (\<lambda>t. t\<lparr>t_state := gpr_set reg_v0 r (t_state t)\<rparr>)) scheduler) (\<lambda>_. kernel_ok lay) own_stop s'"
      using sane_scheduler[OF sane_result_in[OF s']] by (simp only: wp_kthen wp_result_in[OF tc])
  qed (use a in \<open>simp_all add: recv_admissible_def\<close>)
  then show ?thesis by (simp add: sys_recv_def)
qed

section \<open>The handlers as a whole\<close>

text \<open>Saving the registers and the times of the running thread does not make a call inadmissible.\<close>

lemma waits_for_frame:
  assumes "sane lay s Q" and "sane lay s' Q" and w: "\<And>p. map_option waiting_for (tcbs s' p) = map_option waiting_for (tcbs s p)"
  shows "waits_for s' p x = waits_for s p x"
  using w[of p] by (cases "tcbs s p"; cases "tcbs s' p") (auto simp: waits_for_def on_queue_iff[OF assms(1)] on_queue_iff[OF assms(2)])

lemma admissible_frame:
  assumes "sane lay s Q" and "sane lay s' Q"
    and "\<And>p. map_option waiting_for (tcbs s' p) = map_option waiting_for (tcbs s p)"
    and "\<And>p. map_option reply (tcbs s' p) = map_option reply (tcbs s p)"
    and "\<And>p. map_option tcb_links (tcbs s' p) = map_option tcb_links (tcbs s p)"
    and "mem s' = mem s" "trap_managers s' = trap_managers s" "SSI_tcb s' = SSI_tcb s" "current_thread s' = current_thread s"
  shows "may_wake s' c tgt = may_wake s c tgt" "send_admissible s' old = send_admissible s old"
    "recv_admissible s' old = recv_admissible s old"
proof -
  have q: "on_queue Wait_queue p s' = on_queue Wait_queue p s" for p by (simp add: on_queue_iff[OF assms(1)] on_queue_iff[OF assms(2)])
  have n: "tcbs s' p = None \<longleftrightarrow> tcbs s p = None" for p
    using assms(3)[of p] by (cases "tcbs s p"; cases "tcbs s' p") auto
  have "reply_of s' p = reply_of s p" for p
    using assms(4)[of p] by (cases "tcbs s p"; cases "tcbs s' p") (auto simp: reply_of_def)
  then show w: "may_wake s' c tgt = may_wake s c tgt" for c tgt
    by (simp add: may_wake_def waits_for_frame[OF assms(1-3)] reply_ok_def assms(6))
  have "trap_decision s' m p = trap_decision s m p" for m p
    using assms(3)[of p] by (cases "tcbs s p"; cases "tcbs s' p") (auto simp: trap_decision_def assms(7))
  then show "send_admissible s' old = send_admissible s old"
    by (simp add: send_admissible_def send_target_def w q n assms(7-9))
  show "recv_admissible s' old = recv_admissible s old" by (simp add: recv_admissible_def assms(6))
qed

lemma trap_admissible_frame:
  assumes m: "\<And>c tgt. may_wake s' c tgt = may_wake s c tgt"
    and f: "\<And>p. map_option field (tcbs s' p) = map_option field (tcbs s p)" and "current_thread s' = current_thread s"
  shows "trap_admissible s' field = trap_admissible s field"
  using f[of "current_thread s"] assms(3)
  by (cases "tcbs s (current_thread s)"; cases "tcbs s' (current_thread s)") (auto simp: trap_admissible_def m)

lemma enter_managers [simp]:
  "map_option sysbp_manager_thread (tcbs (sys_enter s) p) = map_option sysbp_manager_thread (tcbs s p)"
  "map_option pgmtrap_manager_thread (tcbs (enter a s) p) = map_option pgmtrap_manager_thread (tcbs s p)"
  "map_option tlbtrap_manager_thread (tcbs (enter a s) p) = map_option tlbtrap_manager_thread (tcbs s p)"
  "map_option tcb_links (tcbs (sys_enter s) p) = map_option tcb_links (tcbs s p)"
  "map_option tcb_links (tcbs (enter a s) p) = map_option tcb_links (tcbs s p)"
  by (simp_all add: sys_enter_tcb enter_def option.map_comp comp_def)

lemma sane_traps:
  assumes s: "sane lay s Q" and c: "current_thread s \<noteq> NULL" and u: "passes_up s handler field area s0"
    and s0: "sane lay s0 Q" "trap_admissible s0 field" and f: "\<And>t. field t \<in> managers_of t"
  shows "wp handler (\<lambda>_. kernel_ok lay) own_stop s"
proof -
  obtain t where t: "tcbs s (current_thread s) = Some t" using c by (rule sane_current[OF s])
  have "current_thread s0 \<noteq> NULL" using passes_up_frame(13)[OF u] c by simp
  then show ?thesis by (intro wp_passes_up[OF u saneD(5)[OF s] t] sane_pass_up[OF s0(1) _ s0(2) f])
qed

lemma sane_trap_handlers:
  assumes s: "sane lay s Q" and c: "current_thread s \<noteq> NULL"
  shows "trap_admissible s pgmtrap_manager_thread \<Longrightarrow> wp pgmtrap_handler (\<lambda>_. kernel_ok lay) own_stop s"
    and "trap_admissible s tlbtrap_manager_thread \<Longrightarrow> wp tlb_handler (\<lambda>_. kernel_ok lay) own_stop s"
proof -
  have m: "may_wake (enter a s) c' tgt = may_wake s c' tgt" for a c' tgt
    by (rule admissible_frame[OF s sane_enter[OF s]]) (simp_all add: enter_def option.map_comp comp_def)
  have tr: "trap_admissible (enter a s) pgmtrap_manager_thread = trap_admissible s pgmtrap_manager_thread"
    "trap_admissible (enter a s) tlbtrap_manager_thread = trap_admissible s tlbtrap_manager_thread" for a
    by (rule trap_admissible_frame[OF m]; simp add: enter_def option.map_comp comp_def)+
  show "wp pgmtrap_handler (\<lambda>_. kernel_ok lay) own_stop s" if a: "trap_admissible s pgmtrap_manager_thread"
    by (rule sane_traps[OF s c, of _ pgmtrap_manager_thread PGMTRAP_OLDAREA "enter PGMTRAP_OLDAREA s"])
      (use a in \<open>simp_all add: passes_up_def managers_of_def sane_enter[OF s] tr\<close>)
  show "wp tlb_handler (\<lambda>_. kernel_ok lay) own_stop s" if a: "trap_admissible s tlbtrap_manager_thread"
    by (rule sane_traps[OF s c, of _ tlbtrap_manager_thread TLB_OLDAREA "enter TLB_OLDAREA s"])
      (use a in \<open>simp_all add: passes_up_def managers_of_def sane_enter[OF s] tr\<close>)
qed

lemma sane_sysbp:
  assumes s: "sane lay s Q" and c: "current_thread s \<noteq> NULL" and a: "call_admissible s"
  shows "wp sysbp_handler (\<lambda>_. kernel_ok lay) own_stop s"
proof -
  obtain t where t: "tcbs s (current_thread s) = Some t" using c by (rule sane_current[OF s])
  let ?e = "sys_enter s" and ?old = "areas s SYSBK_OLDAREA"
  note e = sane_sys_enter[OF s]
  have ad: "may_wake ?e c' tgt = may_wake s c' tgt" "send_admissible ?e old = send_admissible s old"
    "recv_admissible ?e old = recv_admissible s old" for c' tgt old
    by (rule admissible_frame[OF s e]; simp)+
  have ce: "current_thread ?e \<noteq> NULL" using c by simp
  have tr: "trap_admissible ?e sysbp_manager_thread = trap_admissible s sysbp_manager_thread"
    by (rule trap_admissible_frame[OF ad(1)]) simp_all
  show ?thesis
    unfolding wp_sysbp[OF saneD(5)[OF s] t refl]
    using a ad(2,3) tr sane_sys_send[OF e ce, of ?old] sane_sys_recv[OF e ce, of ?old] sane_pass_up[OF e ce, of sysbp_manager_thread SYSBK_OLDAREA]
    by (simp add: call_admissible_def Let_def managers_of_def split del: if_split) (simp split: if_splits)
qed

text \<open>The ways into the kernel.\<close>

inductive kernel_entry :: "layout \<Rightarrow> device \<Rightarrow> kstate \<Rightarrow> rom_call kmon \<Rightarrow> bool" for lay dev s where
  Syscall: "current_thread s \<noteq> NULL \<Longrightarrow> call_admissible s \<Longrightarrow> kernel_entry lay dev s sysbp_handler"
| Program_trap: "current_thread s \<noteq> NULL \<Longrightarrow> trap_admissible s pgmtrap_manager_thread \<Longrightarrow> kernel_entry lay dev s pgmtrap_handler"
| TLB_trap: "current_thread s \<noteq> NULL \<Longrightarrow> trap_admissible s tlbtrap_manager_thread \<Longrightarrow> kernel_entry lay dev s tlb_handler"
| Interrupt: "kernel_entry lay dev s (int_handler lay dev)"

lemma wp_kernel_entry:
  assumes "kernel_entry lay dev s h" and "sane lay s Q" and "device_ok dev"
  shows "wp h (\<lambda>_. kernel_ok lay) own_stop s"
  using assms(1)
  by cases (use assms(2,3) sane_sysbp sane_trap_handlers sane_int_handler in blast)+

end
