(* ===== verification/Ssi_Safe.thy ===== *)
theory Ssi_Safe
  imports Kernel_Safe Ssi_Request
begin

text \<open>
  The SSI keeps the invariant of the kernel: whatever message it serves, a pass of its loop
  that comes to its end leaves the queues, the thread tree and the table of managers intact.
  The requests are data of user threads and may name any address; where they make the SSI
  fault or panic there is no state after the pass. No loop of a pass goes on forever.
\<close>

section \<open>The SSI as the running thread\<close>

definition ssi_runs :: "layout \<Rightarrow> kstate \<Rightarrow> (list_head \<Rightarrow> U32 list) \<Rightarrow> bool" where
  "ssi_runs lay s Q \<longleftrightarrow> sane lay s Q \<and> thread_runs s (heads s Q) Q (SSI_tcb s)"

text \<open>The reasons for which a pass may not come to its end: all but a loop without end.\<close>

definition no_loop :: "stop \<Rightarrow> bool" where
  "no_loop e \<longleftrightarrow> e \<noteq> Diverge"

lemma no_loop [simp]: "no_loop HALT" "no_loop PANIC" "no_loop Fault" "no_loop Preempted" "\<not> no_loop Diverge"
  by (simp_all add: no_loop_def)

lemma ssi_runsI:
  assumes s: "sane lay s Q" and "current_thread s = SSI_tcb s" and "kernel_mode (cpu s)" and "length (gpr (cpu s)) = 29"
  shows "ssi_runs lay s Q"
proof -
  have nz: "current_thread s \<noteq> NULL" using assms(2) sane_no_thread(3)[OF s] by simp
  obtain t where "tcbs s (current_thread s) = Some t" using nz by (rule sane_current[OF s])
  then show ?thesis
    using assms saneD[OF s] nz by (auto simp: ssi_runs_def thread_runs_def managers_ok_def typed_regs_def)
qed

lemma ssi_runsD:
  assumes "ssi_runs lay s Q"
  shows "sane lay s Q" "thread_runs s (heads s Q) Q (SSI_tcb s)" "current_thread s = SSI_tcb s" "SSI_tcb s \<noteq> NULL"
    "kernel_mode (cpu s)" "length (gpr (cpu s)) = 29"
  using assms thread_runsD[of s "heads s Q" Q "SSI_tcb s"] by (auto simp: ssi_runs_def)

text \<open>The tables of the SSI are outside the invariant.\<close>

lemma ssi_tables:
  assumes "ssi_runs lay s Q"
  shows "ssi_runs lay (s\<lparr>devStatus_array := xs\<rparr>) Q" "ssi_runs lay (s\<lparr>devTcb_array := ys\<rparr>) Q" "ssi_runs lay (s\<lparr>clockTcb_array := ys\<rparr>) Q"
proof -
  note d = ssi_runsD[OF assms]
  have s: "sane lay (s\<lparr>devStatus_array := xs\<rparr>) Q" "sane lay (s\<lparr>devTcb_array := ys\<rparr>) Q" "sane lay (s\<lparr>clockTcb_array := ys\<rparr>) Q"
    by (rule sane_frame[OF d(1)];
        use saneD(5)[OF d(1)] saneD(6)[OF d(1)] memory_map_index[OF saneD(8)[OF d(1)]] in \<open>auto simp: typed_regs_def bus_ok_def\<close>)+
  show "ssi_runs lay (s\<lparr>devStatus_array := xs\<rparr>) Q" "ssi_runs lay (s\<lparr>devTcb_array := ys\<rparr>) Q" "ssi_runs lay (s\<lparr>clockTcb_array := ys\<rparr>) Q"
    by (rule ssi_runsI, rule s; use d in simp)+
qed

lemma ssi_runs_ok: "ssi_runs lay s Q \<Longrightarrow> kernel_ok lay s"
  using kernel_okI ssi_runsD(1) by blast

text \<open>Whatever the SSI sends, to whomever, is safe; at worst no message is left.\<close>

lemma ssi_sends:
  assumes rom: "rom_ok rom" and s: "ssi_runs lay s Q" and nz: "dest \<noteq> NULL"
    and P: "\<And>s' Q'. ssi_runs lay s' Q' \<Longrightarrow> same_service s s' \<Longrightarrow> tree_kept Q Q' \<Longrightarrow> live s' Q' = live s Q \<Longrightarrow> P () s'"
    and E: "E PANIC"
  shows "wp (MsgSend rom SEND dest v) P E s"
proof -
  note d = ssi_runsD[OF s] and sd = saneD[OF ssi_runsD(1)[OF s]]
  let ?tgt = "if dest = MAGIC_SSI then SSI_tcb s else dest"
  have w: "wake_ok s Q MAGIC_SSI ?tgt" by (rule wake_ok_outside[OF d(1) sane_no_thread(2)[OF d(1)]])
  show ?thesis
  proof (rule wp_MsgSend[OF rom d(2) refl])
    show "?tgt \<noteq> NULL" using nz d(4) by simp
    show "MAGIC_SSI = masked_sender s (SSI_tcb s)" by (simp add: masked_sender_def)
    show "reply_ok s ?tgt" if "a_awaits (ipc_of s Q) MAGIC_SSI ?tgt" using w that by (simp add: wake_ok_def)
    fix r A s' Q'
    assume a: "a_send MAGIC_SSI ?tgt v (ipc_of s Q) = Some (r, A)" and run: "thread_runs s' (heads s Q) Q' (SSI_tcb s)"
      and tk: "tree_kept Q Q'" and i: "ipc_of s' Q' = A" and sv: "same_service s s'"
      and me: "\<And>a. a \<noteq> BUS_INTERVALTIMER \<Longrightarrow>
         mem s' a = (if a_awaits (ipc_of s Q) MAGIC_SSI ?tgt \<and> a = reply_of s ?tgt then Some v else mem s a)"
      and tw: "\<And>q. q \<noteq> SSI_tcb s \<Longrightarrow> tcbs s' q = woken_up s MAGIC_SSI ?tgt (a_awaits (ipc_of s Q) MAGIC_SSI ?tgt) q"
    note d' = thread_runsD[OF run] and f = same_service_fields[OF sv]
    have dom: "mem s' a = None \<longleftrightarrow> mem s a = None" for a
      using me[of a] w d'(3) sd(5) by (cases "a = BUS_INTERVALTIMER") (auto simp: wake_ok_def reply_ok_def bus_ok_def)
    have cw: "SSI_tcb s \<notin> set (Q Wait_queue)" using kinv_current(2)[OF sd(1)] d(3,4) by simp
    have ty: "length (gpr (t_state t)) = 29" if "tcbs s' (SSI_tcb s) = Some t" for t
      using run that by (simp add: thread_runs_def)
    note sn = sane_sent[OF d(1) w d'(1) tk a[folded i] d'(3) f(1,4,8,9) cw tw ty dom]
    have "heads s' Q' = heads s Q" by (simp add: heads_def base_heads_def sn(2))
    then have "ssi_runs lay s' Q'" using sn(1) run f(1) by (simp add: ssi_runs_def)
    then show "P () s'" using sv tk sn(2) by (rule P)
  qed (rule E)
qed

text \<open>A pass keeps the thread tree and the managers until it serves a request.\<close>

definition links_kept :: "kstate \<Rightarrow> kstate \<Rightarrow> bool" where
  "links_kept s s' \<longleftrightarrow> (\<forall>p. map_option tcb_links (tcbs s' p) = map_option tcb_links (tcbs s p))"

lemma links_keptD:
  assumes "links_kept s s'"
  shows "parent_of s' p = parent_of s p" "tcbs s' p = None \<longleftrightarrow> tcbs s p = None"
  using assms[unfolded links_kept_def, rule_format, of p]
  by (cases "tcbs s p"; cases "tcbs s' p"; auto simp: parent_of_def tcb_links_def)+

lemma links_kept_intros:
  "links_kept s s" "same_service s s' \<Longrightarrow> links_kept s s'" "links_kept s s1 \<Longrightarrow> links_kept s1 s2 \<Longrightarrow> links_kept s s2"
  "links_kept s s1 \<Longrightarrow> tcbs s2 = tcbs s1 \<Longrightarrow> links_kept s s2"
  by (simp_all add: links_kept_def same_service_fields(9))

section \<open>Messages of the kernel\<close>

lemma ssi_wake_clock:
  assumes rom: "rom_ok rom"
  shows "ssi_runs lay s Q \<Longrightarrow>
    (\<And>s' Q'. ssi_runs lay s' Q' \<Longrightarrow> links_kept s s' \<Longrightarrow> P () s') \<Longrightarrow>
    wp (wake_clock rom n i) P no_loop s"
proof (induction n arbitrary: i s Q)
  case 0
  then show ?case unfolding wake_clock.simps wp_kreturn using links_kept_intros(1) by blast
next
  case (Suc n)
  show ?case
  proof (cases "i < length (clockTcb_array s) \<and> clockTcb_array s ! i \<noteq> NULL")
    case True
    have "wp (MsgSend rom SEND (clockTcb_array s ! i) 42)
       (\<lambda>_. wp (kthen (kmodify (\<lambda>s. s\<lparr>clockTcb_array := (clockTcb_array s)[i := NULL]\<rparr>)) (wake_clock rom n (Suc i))) P no_loop) no_loop s"
    proof (rule ssi_sends[OF rom Suc.prems(1)])
      fix s1 Q1 assume s1: "ssi_runs lay s1 Q1" and sv: "same_service s s1"
      have "wp (wake_clock rom n (Suc i)) P no_loop (s1\<lparr>clockTcb_array := (clockTcb_array s1)[i := NULL]\<rparr>)"
        by (rule Suc.IH[OF ssi_tables(3)[OF s1]], rule Suc.prems(2))
          (assumption, use links_kept_intros(2)[OF sv] in \<open>simp add: links_kept_def\<close>)
      then show "wp (kthen (kmodify (\<lambda>s. s\<lparr>clockTcb_array := (clockTcb_array s)[i := NULL]\<rparr>)) (wake_clock rom n (Suc i))) P no_loop s1"
        by simp
    qed (use True in simp_all)
    with True show ?thesis
      unfolding wake_clock.simps wp_kbind wp_kget wp_array_get by (simp only: if_True simp_thms wp_kthen)
  next
    case False
    have "P () s" using Suc.prems links_kept_intros(1) by blast
    with False show ?thesis
      unfolding wake_clock.simps wp_kbind wp_kget wp_array_get by auto
  qed
qed

lemma wp_set_nth: "wp (set_nth xs i v) P no_loop s = (i < length xs \<longrightarrow> P (xs[i := v]) s)"
  by (simp add: set_nth_def)

lemma ssi_serve_interrupt:
  assumes rom: "rom_ok rom" and s: "ssi_runs lay s Q"
    and P: "\<And>s' Q'. ssi_runs lay s' Q' \<Longrightarrow> links_kept s s' \<Longrightarrow> P () s'"
  shows "wp (serve_interrupt rom p req) P no_loop s"
proof (cases "rest_index p < 0 \<or> \<not> nat (rest_index p) < length (devTcb_array s) \<or> mem s (req + 4) = None")
  case True
  then show ?thesis by (auto simp: serve_interrupt_def Let_def)
next
  case False
  let ?i = "nat (rest_index p)"
  obtain arg where arg: "mem s (req + 4) = Some arg" using False by auto
  show ?thesis
  proof (cases "devTcb_array s ! ?i = NULL")
    case True
    with False arg P[OF ssi_tables(1)[OF s]] show ?thesis
      by (simp add: serve_interrupt_def Let_def wp_set_nth links_kept_def)
  next
    case dest: False
    have "wp (MsgSend rom SEND (devTcb_array s ! ?i) (arg AND STATUSMASK))
      (\<lambda>_. wp (kmodify (\<lambda>s. s\<lparr>devTcb_array := (devTcb_array s)[?i := NULL]\<rparr>)) P no_loop) no_loop s"
    proof (rule ssi_sends[OF rom s dest])
      fix s1 Q1 assume s1: "ssi_runs lay s1 Q1" and sv: "same_service s s1"
      have "P () (s1\<lparr>devTcb_array := (devTcb_array s1)[?i := NULL]\<rparr>)"
        by (rule P[OF ssi_tables(2)[OF s1]]) (use links_kept_intros(2)[OF sv] in \<open>simp add: links_kept_def\<close>)
      then show "wp (kmodify (\<lambda>s. s\<lparr>devTcb_array := (devTcb_array s)[?i := NULL]\<rparr>)) P no_loop s1" by simp
    qed simp
    with False arg dest show ?thesis by (simp add: serve_interrupt_def Let_def)
  qed
qed

section \<open>Requests that change the table of managers\<close>

lemma manager_service_managers:
  assumes "manager_service service field set_field"
  shows "managers_of (set_field m t) \<subseteq> insert m (managers_of t)" "t_parent (set_field m t) = t_parent t"
  using assms by (auto simp: manager_service_def managers_of_def)

lemma sane_managed:
  assumes s: "sane lay s Q" and ms: "manager_service service field set_field" and t: "tcbs s p = Some t"
    and m: "tcbs s mgr \<noteq> None" "mgr \<noteq> SSI_tcb s"
  shows "sane lay (managed set_field p t mgr s) Q"
proof -
  let ?s = "managed set_field p t mgr s"
  note d = saneD[OF s] and f = manager_service_fields[OF ms] and g = manager_service_managers[OF ms]
  have tc: "tcbs ?s q = (if q = p then Some (set_field mgr t) else tcbs s q)" for q by (simp add: managed_def)
  have n: "tcbs ?s q = None \<longleftrightarrow> tcbs s q = None" for q using t by (simp add: tc)
  have same: "live ?s Q = live s Q" "SSI_tcb ?s = SSI_tcb s" "mem ?s = mem s" "interrupt_i ?s = interrupt_i s"
    "bus_ok ?s = bus_ok s" "trap_managers ?s = add_scan mgr (trap_managers s)"
    by (simp_all add: managed_def live_def bus_ok_def)
  have "heads ?s Q = heads s Q" by (simp add: heads_def base_heads_def same)
  moreover have "forest ?s Q"
    using d(2) t by (subst forest_cong[of _ _ s Q]) (auto simp: same parent_of_def tc g(2))
  moreover have "replies_ok ?s Q"
    by (rule replies_sub[where Q = Q and Q' = Q, OF d(3)]) (use t f in \<open>auto simp: n same(3) tc\<close>)
  moreover have "addr_ok ?s" using d(4) by (simp add: addr_ok_def same n)
  moreover have "typed_regs ?s" using d(6) t f(3) by (auto simp: typed_regs_def tc)
  moreover have "managers_ok ?s"
    unfolding managers_ok_def
  proof (intro conjI allI impI ballI)
    show "SSI_tcb ?s \<notin> set (trap_managers ?s)"
      using d(7) m(2) sane_no_thread(3)[OF s] by (auto simp: same managers_ok_def add_scan_others)
    fix q u x assume u: "tcbs ?s q = Some u" and x: "x \<in> managers_of u"
    show "x = NULL \<or> tcbs ?s x \<noteq> None"
    proof (cases "q = p")
      case True
      then have "x \<in> insert mgr (managers_of t)" using u x g(1) tc by auto
      then show ?thesis unfolding n using d(7) t m(1) by (auto simp: managers_ok_def)
    next
      case False
      then show ?thesis unfolding n using d(7) u x tc by (auto simp: managers_ok_def)
    qed
  qed
  moreover have "memory_map lay ?s" using d(8) by (simp add: memory_map_def same n)
  ultimately show ?thesis using d(1,5) t by (simp add: sane_def same)
qed

section \<open>Requests that create a thread\<close>

lemma free_clean_heads:
  assumes "sane lay s Q"
  shows "free_clean (heads s Q) Q"
  unfolding free_clean_def
proof
  note d = saneD[OF assms]
  fix q assume q: "q \<in> set (Q Tcbfree_sentinel)"
  then have nl: "q \<notin> live s Q"
    using kinv_disjoint(2,3)[OF d(1), of q] kinv_current(3)[OF d(1)] by (auto simp: live_def split: if_splits)
  moreover have "unlinked (heads s Q) Q By_t_sib q"
    using forest_child(2)[OF d(2)] nl by (auto simp: unlinked_def heads_def base_heads_def)
  ultimately show "T_child q \<notin> heads s Q \<and> T_inbox q \<notin> heads s Q \<and> unlinked (heads s Q) Q By_t_sib q"
    by (auto simp: heads_def base_heads_def)
qed

lemma sane_born:
  assumes s: "sane lay s Q" and q: "Q Tcbfree_sentinel = c # cs" and par: "par = NULL \<or> par \<in> live s Q"
    and tc: "t_parent tc = par" "length (gpr (t_state tc)) = 29" "\<forall>m\<in>managers_of tc. m = NULL \<or> tcbs s m \<noteq> None"
    and s': "s' = (born c tc s)\<lparr>lst := L\<rparr>" and k: "kinv s' (born_H c (heads s Q)) (born_Q par c Q)"
  shows "sane lay s' (born_Q par c Q)"
proof -
  note d = saneD[OF s]
  have ct: "tcbs s c \<noteq> None" using rep_tcb[OF kinv_rep[OF d(1)] kinv_heads(3)[OF d(1)], of c] q by simp
  have c: "c \<notin> live s Q" "c \<noteq> NULL" "c \<notin> set (Q Wait_queue)"
    using q kinv_disjoint(2,3)[OF d(1), of c] kinv_current(3)[OF d(1)] ct sane_no_thread(1)[OF s]
    by (auto simp: live_def split: if_splits)
  have t: "tcbs s' x = (if x = c then Some tc else tcbs s x)" for x by (simp add: s' born_def)
  have n: "tcbs s' x = None \<longleftrightarrow> tcbs s x = None" for x using ct by (simp add: t)
  have f: "SSI_tcb s' = SSI_tcb s" "mem s' = mem s" "interrupt_i s' = interrupt_i s" "bus_ok s' = bus_ok s"
    "trap_managers s' = trap_managers s" "current_thread s' = current_thread s"
    by (simp_all add: s' born_def bus_ok_def)
  have l: "live s' (born_Q par c Q) = insert c (live s Q)" by (auto simp: live_def born_Q_def f)
  have "heads s' (born_Q par c Q) = born_H c (heads s Q)" by (auto simp: heads_def base_heads_def l born_H_def)
  moreover have "forest s' (born_Q par c Q)"
  proof (rule forest_insert[OF d(2) par c(1,2) l])
    show "born_Q par c Q (T_child p) = (if p = par then Q (T_child p) @ [c] else Q (T_child p))" if "p \<in> live s Q" for p
      using that c(1) by (auto simp: born_Q_def)
    show "born_Q par c Q (T_child c) = []" using par c(1,2) by (auto simp: born_Q_def)
    show "parent_of s' p = parent_of s p" if "p \<in> live s Q" for p using that c(1) by (auto simp: parent_of_def t)
    show "parent_of s' c = par" by (simp add: parent_of_def t tc)
  qed
  moreover have "replies_ok s' (born_Q par c Q)"
  proof (rule replies_sub[where Q = Q, OF d(3)])
    fix p assume "p \<in> set (born_Q par c Q Wait_queue)"
    then have "p \<noteq> c" using c(3) by (auto simp: born_Q_def)
    then show "map_option waiting_for (tcbs s' p) = map_option waiting_for (tcbs s p) \<and> map_option reply (tcbs s' p) = map_option reply (tcbs s p)"
      by (simp add: t)
  qed (simp_all add: n f born_Q_def)
  moreover have "addr_ok s'" using d(4) by (simp add: addr_ok_def f n)
  moreover have "typed_regs s'" using d(6) tc(2) by (auto simp: typed_regs_def t split: if_splits)
  moreover have "managers_ok s'"
    unfolding managers_ok_def n f using d(7) tc(3) by (auto simp: managers_ok_def t)
  moreover have "memory_map lay s'" using d(8) by (simp add: memory_map_def f n)
  ultimately show ?thesis using k d(5) by (simp add: sane_def f)
qed

text \<open>Reading the processor state of the new thread.\<close>

lemma read_words_Fault: "read_words a n s = Inl e \<Longrightarrow> e = Fault"
proof (induction n arbitrary: a)
  case (Suc n)
  show ?case
  proof (cases "mem s a")
    case (Some w)
    then have "read_words (a + 4) n s = Inl e"
      using Suc.prems by (cases "read_words (a + 4) n s") (auto simp: mem_read_def kbind_def)
    then show ?thesis by (rule Suc.IH)
  qed (use Suc.prems in \<open>simp add: mem_read_def kbind_def\<close>)
qed simp

lemma read_state_cases:
  fixes s :: kstate
  obtains st where "length (gpr st) = 29" "\<And>R s'. mem s' = mem s \<Longrightarrow> R st s' \<Longrightarrow> wp (read_state a) R no_loop s'"
proof (cases "read_state a s")
  case (Inr r)
  obtain st s1 where r: "r = (st, s1)" by (cases r)
  obtain ws where "read_words a 35 s = Inr (ws, s1)"
    using Inr r by (cases "read_words a 35 s") (auto simp: read_state_def kbind_def)
  with read_words_mem have "s1 = s" by blast
  with Inr r have st: "read_state a s = Inr (st, s)" by simp
  from that[of st] read_state_mem[OF st] show ?thesis by simp
next
  case (Inl e)
  have "wp (read_state a) R no_loop s'" if "mem s' = mem s" for R s'
  proof (cases "read_words a 35 s'")
    case (Inr r)
    obtain ws s1 where "read_words a 35 s' = Inr (ws, s1)" using Inr by (cases r) simp
    then have "read_words a 35 s = Inr (ws, s)" using read_words_mem that by metis
    with \<open>read_state a s = Inl e\<close> show ?thesis by (simp add: read_state_def kbind_def)
  qed (auto simp: read_state_def wp_def kbind_def dest: read_words_Fault)
  then show ?thesis by (intro that[of zero_state]) (simp_all add: zero_state_def)
qed

text \<open>Without a free TCB the SSI answers and then follows the null pointer.\<close>

lemma no_TCB_at_NULL:
  assumes "tcbs s NULL = None"
  shows "wp (insertChild q NULL) R no_loop s" "wp (insertSibling q NULL) R no_loop s"
  using assms by (simp_all add: insertChild_def insertSibling_def list_add_tail_def list_add_between_def)

lemma ssi_creates:
  assumes rom: "rom_ok rom" and s: "ssi_runs lay s Q" and p: "p \<noteq> NULL" and par: "par = NULL \<or> par \<in> live s Q"
    and pl: "\<And>c cs. Q Tcbfree_sentinel = c # cs \<Longrightarrow> c \<notin> live s Q \<Longrightarrow> places ins par c s (heads s Q) Q"
    and none: "\<And>R s1. tcbs s1 NULL = None \<Longrightarrow> wp (ins NULL) R no_loop s1"
    and fin: "\<And>c t3 s3 st P E. c \<notin> live s Q \<Longrightarrow> tcbs s3 = (tcbs s)(c \<mapsto> t3) \<Longrightarrow> wp (fin c st) P E s3 =
      wp (kthen (insertThread Ready_queue c) (MsgSend rom SEND p c)) P E
           (s3\<lparr>tcbs := (tcbs s)(c \<mapsto> f (t3\<lparr>t_state := save_state st (t_state t3)\<rparr>))\<rparr>)"
    and f: "\<And>t. t_parent (f t) = t_parent t" "\<And>t. t_state (f t) = t_state t"
      "\<And>st. \<forall>m\<in>managers_of (f (new_tcb par st)). m = NULL \<or> tcbs s m \<noteq> None"
  shows "wp (kbind allocTcb (\<lambda>n. kthen (if n = NULL then MsgSend rom SEND p CREATENOGOOD else kreturn ()) (kthen (ins n)
     (kthen (kmodify (\<lambda>s. s\<lparr>thread_count := thread_count s + 1\<rparr>)) (kbind (read_state arg) (fin n)))))) (\<lambda>_. kernel_ok lay) no_loop s"
proof (cases "Q Tcbfree_sentinel")
  note r = ssi_runsD[OF s] and d = saneD[OF ssi_runsD(1)[OF s]]
  case Nil
  have al: "wp allocTcb R no_loop s = R NULL s" for R
    using rep_empty_iff[OF kinv_rep[OF d(1)] kinv_heads(3)[OF d(1)]] Nil by (simp add: allocTcb_def)
  have "wp (MsgSend rom SEND p CREATENOGOOD) (\<lambda>_. wp (ins NULL) R no_loop) no_loop s" for R
    by (rule ssi_sends[OF rom s p]) (rule none, erule sane_no_thread(1)[OF ssi_runsD(1)], simp)
  then show ?thesis by (simp only: wp_kbind al wp_kthen refl if_True)
next
  note r = ssi_runsD[OF s] and d = saneD[OF ssi_runsD(1)[OF s]]
  case (Cons c cs)
  have c: "c \<notin> live s Q"
    using Cons kinv_disjoint(2,3)[OF d(1), of c] kinv_current(3)[OF d(1)] by (auto simp: live_def split: if_splits)
  obtain t where t: "tcbs s c = Some t" "length (gpr (t_state t)) = 29"
    using rep_tcb[OF kinv_rep[OF d(1)] kinv_heads(3)[OF d(1)], of c] Cons d(6) by (auto simp: typed_regs_def)
  obtain st where st: "length (gpr st) = 29" "\<And>R s'. mem s' = mem s \<Longrightarrow> R st s' \<Longrightarrow> wp (read_state arg) R no_loop s'"
    by (rule read_state_cases) blast
  show ?thesis
  proof (rule wp_creation[where f = f and K = "MsgSend rom SEND p c" and ins = ins and fin = fin,
        OF d(1) pl[OF Cons c] st Cons free_clean_heads[OF r(1)] t fin[OF c]])
    fix L
    let ?s = "(born c (f (new_tcb par st)) s)\<lparr>lst := L\<rparr>"
    assume k: "kinv ?s (born_H c (heads s Q)) (born_Q par c Q)"
    have "sane lay ?s (born_Q par c Q)"
      by (rule sane_born[OF r(1) Cons par _ _ f(3) refl k]) (use f st(1) in \<open>simp_all add: new_tcb_def\<close>)
    then have "ssi_runs lay ?s (born_Q par c Q)" using r by (intro ssi_runsI) (simp_all add: born_def)
    then show "wp (MsgSend rom SEND p c) (\<lambda>_. kernel_ok lay) no_loop ?s"
      by (rule ssi_sends[OF rom _ p]) (simp_all add: ssi_runs_ok)
  qed
qed

lemma ssi_create_son:
  assumes rom: "rom_ok rom" and s: "ssi_runs lay s Q" and p: "p \<in> live s Q"
  shows "wp (create_son rom p arg) (\<lambda>_. kernel_ok lay) no_loop s"
proof -
  note d = saneD[OF ssi_runsD(1)[OF s]]
  obtain rt where rt: "tcbs s p = Some rt" using kinv_tcb[OF d(1) p] by blast
  show ?thesis
    unfolding create_son_def
  proof (rule ssi_creates[OF rom s kinv_live_not_NULL[OF d(1) p], where f = "inherits rt" and par = p])
    show "p = NULL \<or> p \<in> live s Q" using p by simp
    show "places (insertChild p) p c s (heads s Q) Q" if "Q Tcbfree_sentinel = c # cs" for c cs
      by (rule places_child[OF d(1) that(1) free_clean_heads[OF ssi_runsD(1)[OF s]]]) (use p in \<open>simp_all add: heads_def\<close>)
    have "managers_of (inherits rt t) = managers_of rt" for t by (simp add: managers_of_def inherits_def)
    then show "\<forall>m\<in>managers_of (inherits rt (new_tcb p st)). m = NULL \<or> tcbs s m \<noteq> None" for st
      using d(7) rt by (auto simp: managers_ok_def)
  qed (use no_TCB_at_NULL(1) rt p in \<open>auto simp: inherits_def\<close>)
qed

text \<open>
  A thread that is nobody's child is linked to its brothers in a ring without a head, and nothing
  takes a brother out of it when he ends. A further brother may be put before the thread as long as
  the TCB that the ring names there has not become somebody's child in the meantime.
\<close>

definition sibling_ok :: "kstate \<Rightarrow> U32 \<Rightarrow> bool" where
  "sibling_ok s p \<longleftrightarrow> (case lprev (lst s) (T_sib p) of T_sib b \<Rightarrow> tcbs s b \<noteq> None \<and> parent_of s b = NULL | _ \<Rightarrow> False)"

lemma orphan_unlinked:
  assumes f: "forest s Q" and "parent_of s x = NULL"
  shows "unlinked (heads s Q) Q By_t_sib x"
  unfolding unlinked_def
proof (intro ballI impI)
  fix g assume "g \<in> heads s Q" "linker_of g = By_t_sib"
  then obtain q where q: "g = T_child q" "q \<in> live s Q" by (auto simp: heads_def base_heads_def)
  have "q \<noteq> NULL" using f q(2) by (simp add: forest_def children_ok_def)
  then show "x \<notin> set (Q g)" using forest_child(3)[OF f q(2), of x] assms(2) q(1) by auto
qed

lemma ssi_create_brother:
  assumes rom: "rom_ok rom" and s: "ssi_runs lay s Q" and p: "p \<in> live s Q" and ok: "parent_of s p = NULL \<Longrightarrow> sibling_ok s p"
  shows "wp (create_brother rom p arg) (\<lambda>_. kernel_ok lay) no_loop s"
proof -
  note d = saneD[OF ssi_runsD(1)[OF s]]
  obtain rt where rt: "tcbs s p = Some rt" using kinv_tcb[OF d(1) p] by blast
  let ?par = "parent_of s p"
  let ?ins = "\<lambda>n. kbind (get_tcb p) (\<lambda>t. if t_parent t = NULL then insertSibling p n else insertChild (t_parent t) n)"
  let ?fin = "\<lambda>n st. kthen (upd_tcb n (\<lambda>t. t\<lparr>t_state := save_state st (t_state t)\<rparr>))
     (kthen (insertThread Ready_queue n) (MsgSend rom SEND p n))"
  have "wp (kbind allocTcb (\<lambda>n. kthen (if n = NULL then MsgSend rom SEND p CREATENOGOOD else kreturn ()) (kthen (?ins n)
     (kthen (kmodify (\<lambda>s. s\<lparr>thread_count := thread_count s + 1\<rparr>)) (kbind (read_state arg) (?fin n)))))) (\<lambda>_. kernel_ok lay) no_loop s"
  proof (rule ssi_creates[OF rom s kinv_live_not_NULL[OF d(1) p], where f = "\<lambda>t. t" and par = ?par])
    show "?par = NULL \<or> ?par \<in> live s Q" using forest_child(4)[OF d(2) p] by blast
    show "\<forall>m\<in>managers_of (new_tcb ?par st). m = NULL \<or> tcbs s m \<noteq> None" for st
      by (simp add: managers_of_def new_tcb_def)
    show "places ?ins ?par c s (heads s Q) Q" if q: "Q Tcbfree_sentinel = c # cs" and c: "c \<notin> live s Q" for c cs
    proof -
      have pc: "p \<noteq> c" using p c by blast
      have ins: "wp (?ins c) R E s1 = wp (if ?par = NULL then insertSibling p c else insertChild ?par c) R E s1"
        if "\<And>x. x \<noteq> c \<Longrightarrow> tcbs s1 x = tcbs s x" for R E s1
        using that[OF pc] rt by (simp add: parent_of_def)
      have "brother_place s (heads s Q) Q p ?par"
      proof (cases "?par = NULL")
        case True
        with ok obtain b where b: "lprev (lst s) (T_sib p) = T_sib b" "tcbs s b \<noteq> None" "parent_of s b = NULL"
          by (auto simp: sibling_ok_def split: list_head.splits)
        then have "unlinked (heads s Q) Q By_t_sib x \<and> tcbs s x \<noteq> None" if "x \<in> {p, b}" for x
          using that True rt orphan_unlinked[OF d(2), of x] by auto
        then show ?thesis unfolding brother_place_def using True b(1) by auto
      next
        case False
        then show ?thesis using forest_child(4)[OF d(2) p] by (simp add: brother_place_def heads_def)
      qed
      from places_brother[where ins = ?ins, OF d(1) q free_clean_heads[OF ssi_runsD(1)[OF s]] pc this ins] show ?thesis .
    qed
    show "wp (?ins NULL) R no_loop s1" if "tcbs s1 NULL = None" for R s1
      using no_TCB_at_NULL[OF that] by (auto split: option.splits)
  qed simp_all
  then show ?thesis by (simp add: create_brother_def)
qed

section \<open>Requests\<close>

lemma ssi_ends:
  assumes s: "ssi_runs lay s Q" and p: "p \<in> live s Q"
  shows "wp (terminate p) (\<lambda>_. kernel_ok lay) no_loop s"
  by (rule sane_terminate[OF ssi_runsD(1)[OF s] p]) (rule kernel_okI)

lemma ssi_answers:
  assumes "rom_ok rom" and "ssi_runs lay s Q" and "p \<noteq> NULL"
  shows "wp (MsgSend rom SEND p v) (\<lambda>_. kernel_ok lay) no_loop s"
  by (rule ssi_sends[OF assms]) (simp_all add: ssi_runs_ok)

lemma ssi_manager_request:
  assumes rom: "rom_ok rom" and s: "ssi_runs lay s Q" and p: "p \<in> live s Q" "p \<noteq> SSI_tcb s"
    and ms: "manager_service service field set_field" and m: "mem s req = Some service" "mem s (req + 4) = Some mgr"
  shows "wp (serve_request rom p req) (\<lambda>_. kernel_ok lay) no_loop s"
proof -
  note r = ssi_runsD[OF s] and d = saneD[OF ssi_runsD(1)[OF s]]
  obtain t where t: "tcbs s p = Some t" using kinv_tcb[OF d(1) p(1)] by blast
  show ?thesis
  proof (cases "field t \<noteq> NULL \<or> mgr \<notin> set (Q Ready_queue) \<union> set (Q Wait_queue)")
    case True
    then show ?thesis unfolding wp_manager_request[OF ms d(1) t m] using ssi_ends[OF s p(1)] by simp
  next
    case False
    then have lv: "mgr \<in> live s Q" by (simp add: live_def)
    have ne: "mgr \<noteq> SSI_tcb s" using False kinv_current(1,2)[OF d(1)] r(3,4) by auto
    have "ssi_runs lay (managed set_field p t mgr s) Q"
      using sane_managed[OF r(1) ms t _ ne] kinv_tcb[OF d(1) lv] r by (intro ssi_runsI) (simp_all add: managed_def)
    then have "wp (MsgSend rom SEND p 0) (\<lambda>_. kernel_ok lay) no_loop (managed set_field p t mgr s)"
      by (rule ssi_answers[OF rom _ kinv_live_not_NULL[OF d(1) p(1)]])
    then show ?thesis
      unfolding wp_manager_request[OF ms d(1) t m] using False t by (simp add: add_manager_def managed_def)
  qed
qed

lemma ssi_wait_for_io:
  assumes rom: "rom_ok rom" and s: "ssi_runs lay s Q" and p: "p \<in> live s Q"
  shows "wp (wait_for_io rom p arg) (\<lambda>_. kernel_ok lay) no_loop s"
proof -
  note d = saneD[OF ssi_runsD(1)[OF s]]
  let ?i = "nat (rest_index arg)"
  have "wp (MsgSend rom SEND p v) (\<lambda>_. wp (kmodify (\<lambda>s. s\<lparr>devStatus_array := (devStatus_array s)[?i := - 1]\<rparr>))
      (\<lambda>_. kernel_ok lay) no_loop) no_loop s" for v
    by (rule ssi_sends[OF rom s kinv_live_not_NULL[OF d(1) p]]) (simp_all add: ssi_runs_ok[OF ssi_tables(1)])
  then show ?thesis
    using ssi_ends[OF s p] ssi_runs_ok[OF ssi_tables(2)[OF s]] by (simp add: wait_for_io_def Let_def wp_set_nth)
qed

lemma ssi_serve_request:
  assumes rom: "rom_ok rom" and s: "ssi_runs lay s Q" and p: "p \<in> set (Q Ready_queue) \<union> set (Q Wait_queue)"
    and ok: "parent_of s p = NULL \<Longrightarrow> mem s req = Some CREATEBROTHER \<Longrightarrow> sibling_ok s p"
  shows "wp (serve_request rom p req) (\<lambda>_. kernel_ok lay) no_loop s"
proof -
  note r = ssi_runsD[OF s] and d = saneD[OF ssi_runsD(1)[OF s]]
  have lv: "p \<in> live s Q" and ne: "p \<noteq> SSI_tcb s"
    using p kinv_current(1,2)[OF d(1)] r(3,4) by (auto simp: live_def)
  obtain t where t: "tcbs s p = Some t" using kinv_tcb[OF d(1) lv] by blast
  note nz = kinv_live_not_NULL[OF d(1) lv]
  show ?thesis
  proof (cases "mem s req")
    case (Some service)
    have mg: ?thesis if "mem s (req + 4) = Some arg" "service \<in> {SPECPRGMGR, SPECTLBMGR, SPECSYSMGR}" for arg
      using that ssi_manager_request[OF rom s lv ne _ Some that(1)] by (auto simp: manager_service_def)
    have br: "service = CREATEBROTHER \<Longrightarrow> wp (create_brother rom p arg) (\<lambda>_. kernel_ok lay) no_loop s" for arg
      using ok Some ssi_create_brother[OF rom s lv] by blast
    show ?thesis
    proof (cases "mem s (req + 4)")
      case None
      then show ?thesis
        using Some t ssi_runs_ok[OF ssi_tables(3)[OF s]] ssi_ends[OF s lv] ssi_answers[OF rom s nz]
        by (simp add: serve_request_def get_cpu_time_def)
    next
      case arg: (Some arg)
      show ?thesis
      proof (cases "service \<in> {SPECPRGMGR, SPECTLBMGR, SPECSYSMGR}")
        case False
        then show ?thesis
          using Some arg t br ssi_create_son[OF rom s lv] ssi_wait_for_io[OF rom s lv] ssi_runs_ok[OF ssi_tables(3)[OF s]]
            ssi_ends[OF s lv] ssi_answers[OF rom s nz]
          by (simp add: serve_request_def get_cpu_time_def)
      qed (rule mg[OF arg])
    qed
  qed (simp add: serve_request_def)
qed

section \<open>A pass of the SSI\<close>

text \<open>
  What a parentless thread may not send to the SSI: the request for a brother when its ring of
  brothers is stale, and the two messages of the kernel.
\<close>

definition ssi_admissible :: "kstate \<Rightarrow> U32 \<Rightarrow> U32 \<Rightarrow> bool" where
  "ssi_admissible s p req \<longleftrightarrow> tcbs s p \<noteq> None \<and> parent_of s p = NULL \<longrightarrow>
     mem s req \<notin> {Some PSEUDOCLOCK_MSG, Some INTERRUPT_MSG} \<and> (mem s req = Some CREATEBROTHER \<longrightarrow> sibling_ok s p)"

lemma ssi_serve:
  assumes rom: "rom_ok rom" and s: "ssi_runs lay s Q" and ok: "ssi_admissible s p req"
  shows "wp (SSI_serve rom p req) (\<lambda>_. kernel_ok lay) no_loop s"
proof (cases "mem s req")
  case (Some service)
  let ?first = "if service = PSEUDOCLOCK_MSG then wake_clock rom (MAXTHREADS - 1) 0
        else if service = INTERRUPT_MSG then serve_interrupt rom p req else kreturn ()"
  let ?second = "kbind (thereIsThread Ready_queue p) (\<lambda>r. kbind (thereIsThread Wait_queue p) (\<lambda>w.
      if r \<noteq> NULL \<or> w \<noteq> NULL then serve_request rom p req else kreturn ()))"
  have second: "wp ?second (\<lambda>_. kernel_ok lay) no_loop s'"
    if s': "ssi_runs lay s' Q'" and lk: "links_kept s s'"
      and ok': "p \<in> set (Q' Ready_queue) \<union> set (Q' Wait_queue) \<Longrightarrow> parent_of s p = NULL \<Longrightarrow>
        mem s' req = Some CREATEBROTHER \<Longrightarrow> sibling_ok s' p" for s' Q'
  proof -
    note d = saneD[OF ssi_runsD(1)[OF s']]
    note r = kinv_rep[OF d(1)] and h = kinv_heads[OF d(1)]
    have "wp (serve_request rom p req) (\<lambda>_. kernel_ok lay) no_loop s'" if "p \<in> set (Q' Ready_queue) \<union> set (Q' Wait_queue)"
      by (rule ssi_serve_request[OF rom s' that]) (use ok'[OF that] links_keptD(1)[OF lk] in simp)
    then show ?thesis
      using ssi_runs_ok[OF s'] by (auto simp: wp_thereIsThread[OF r h(1)] wp_thereIsThread[OF r h(2)])
  qed
  show ?thesis
  proof (cases "service = PSEUDOCLOCK_MSG \<or> service = INTERRUPT_MSG")
    case False
    have "tcbs s p \<noteq> None" if "p \<in> set (Q Ready_queue) \<union> set (Q Wait_queue)"
      using kinv_tcb[OF saneD(1)[OF ssi_runsD(1)[OF s]], of p] that by (auto simp: live_def)
    then have "wp ?second (\<lambda>_. kernel_ok lay) no_loop s"
      using ok by (intro second[OF s links_kept_intros(1)]) (auto simp: ssi_admissible_def)
    with False Some show ?thesis by (simp add: SSI_serve_def)
  next
    case True
    have later: "wp ?second (\<lambda>_. kernel_ok lay) no_loop s'" if s': "ssi_runs lay s' Q'" and lk: "links_kept s s'" for s' Q'
    proof (rule second[OF s' lk])
      assume "p \<in> set (Q' Ready_queue) \<union> set (Q' Wait_queue)" and pn: "parent_of s p = NULL"
      then have "tcbs s p \<noteq> None"
        using kinv_tcb[OF saneD(1)[OF ssi_runsD(1)[OF s']], of p] links_keptD(2)[OF lk, of p] by (auto simp: live_def)
      with ok pn True Some show "sibling_ok s' p" by (auto simp: ssi_admissible_def)
    qed
    have "wp ?first (\<lambda>_. wp ?second (\<lambda>_. kernel_ok lay) no_loop) no_loop s"
      using True ssi_wake_clock[where P = "\<lambda>_. wp ?second (\<lambda>_. kernel_ok lay) no_loop", OF rom s later]
        ssi_serve_interrupt[where P = "\<lambda>_. wp ?second (\<lambda>_. kernel_ok lay) no_loop", OF rom s later] by auto
    with Some show ?thesis by (simp add: SSI_serve_def)
  qed
qed (simp add: SSI_serve_def)

end
