(* ===== verification/Kernel_Steps.thy ===== *)
theory Kernel_Steps
  imports Kernel_Entry Ssi_Safe Boot_Props
begin

text \<open>
  The running system: after the boot the machine alternates between user code, the handlers of
  the nucleus and the passes of the SSI. Every state it can reach satisfies the invariant of
  the kernel, and every handler entered with admissible arguments comes to an end.
\<close>

section \<open>Invariants of step systems\<close>

inductive reachable :: "('s \<Rightarrow> bool) \<Rightarrow> ('s \<Rightarrow> 's \<Rightarrow> bool) \<Rightarrow> 's \<Rightarrow> bool" for init step where
  Start: "init s \<Longrightarrow> reachable init step s"
| Step: "reachable init step s \<Longrightarrow> step s s' \<Longrightarrow> reachable init step s'"

locale invariant_system =
  fixes init :: "'s \<Rightarrow> bool" and step :: "'s \<Rightarrow> 's \<Rightarrow> bool" and inv :: "'s \<Rightarrow> bool"
  assumes init_inv: "init s \<Longrightarrow> inv s"
    and step_inv: "inv s \<Longrightarrow> step s s' \<Longrightarrow> inv s'"
begin

lemma reachable_inv: "reachable init step s \<Longrightarrow> inv s"
  by (induction rule: reachable.induct) (auto intro: init_inv step_inv)

end

text \<open>
  A system whose steps include runs of fallible routines: from a state with the invariant a
  routine ends well or stops in one of the permitted ways.
\<close>

locale guarded_system = invariant_system +
  fixes entry :: "'s \<Rightarrow> ('s \<Rightarrow> 'e + 'r \<times> 's) \<Rightarrow> bool" and stops :: "'e \<Rightarrow> bool"
  assumes entry_step: "entry s h \<Longrightarrow> h s = Inr (r, s') \<Longrightarrow> step s s'"
    and entry_stops: "inv s \<Longrightarrow> entry s h \<Longrightarrow> h s = Inl e \<Longrightarrow> stops e"
begin

lemma entry_total:
  assumes "reachable init step s" and "entry s h"
  shows "case h s of Inl e \<Rightarrow> stops e | Inr (r, s') \<Rightarrow> reachable init step s'"
proof (cases "h s")
  case (Inl e)
  then show ?thesis using entry_stops[OF reachable_inv[OF assms(1)] assms(2)] by simp
next
  case (Inr x)
  then show ?thesis
    using entry_step[OF assms(2)] reachable.Step[OF assms(1)] by (cases x) simp
qed

end

section \<open>The kernel after the boot\<close>

text \<open>
  The machine at power-on: the arrays of TCBs and messages are where the linker has put them,
  all static data are zero, the bus registers are mapped.
\<close>

definition powered_on :: "layout \<Rightarrow> kstate \<Rightarrow> bool" where
  "powered_on lay s \<longleftrightarrow> pools_ok s \<and> tcb_layout lay s \<and> msg_layout lay s \<and>
     dom (tcbs s) = set (thread_array lay) \<and> dom (msgs s) = set (msg_array lay) \<and>
     typed_regs s \<and> (\<forall>p t. tcbs s p = Some t \<longrightarrow> managers_of t = {NULL}) \<and> set (trap_managers s) \<subseteq> {NULL} \<and>
     MAGIC_SSI \<notin> set (thread_array lay) \<and> BUS_INTERVALTIMER \<notin> set (thread_array lay) \<and> bus_ok s \<and>
     mem s BUS_RAMBASEADDR \<noteq> None \<and> mem s BUS_INSTALLEDRAM \<noteq> None \<and> memory_map lay s"

lemma boot_sane:
  assumes "powered_on lay s"
  shows "\<exists>r s'. main lay s = Inr (r, s') \<and> kernel_ok lay s' \<and> current_thread s' = SSI_tcb s' \<and>
    (\<forall>a. mem s' a = None \<longleftrightarrow> mem s a = None)"
proof -
  have a: "pools_ok s" "tcb_layout lay s" "msg_layout lay s" "dom (tcbs s) = set (thread_array lay)" "dom (msgs s) = set (msg_array lay)"
    "\<forall>t\<in>ran (tcbs s). length (gpr (t_state t)) = 29" "MAGIC_SSI \<notin> set (thread_array lay)" "BUS_INTERVALTIMER \<notin> set (thread_array lay)" "bus_ok s"
    using assms by (auto simp: powered_on_def typed_regs_def ran_def)
  have b: "typed_regs s" "\<And>p t. tcbs s p = Some t \<Longrightarrow> managers_of t = {NULL}" "set (trap_managers s) \<subseteq> {NULL}" "memory_map lay s"
    using assms by (auto simp: powered_on_def)
  obtain base ram where m: "mem s BUS_RAMBASEADDR = Some base" "mem s BUS_INSTALLEDRAM = Some ram"
    using assms by (auto simp: powered_on_def)
  obtain p0 p1 ps r s' where q: "thread_array lay = p0 # p1 # ps" and r: "main lay s = Inr (r, s')"
    and k: "kinv s' (first_heads p0 p1) (boot_lists lay [p1] ps)" and ad: "addr_ok s'" "bus_ok s'"
    and c: "current_thread s' = p0" "SSI_tcb s' = p0" "TEST_tcb s' = p1"
    and t: "tcbs s' p0 = Some (first_thread (base + ram - FRAME_SIZE) (SSI_thread_addr lay))"
      "tcbs s' p1 = Some (first_thread (base + ram - 2 * FRAME_SIZE) (test_addr lay))"
    and f: "trap_managers s' = trap_managers s" "interrupt_i s' = interrupt_i s" "\<And>p. p \<noteq> p0 \<Longrightarrow> p \<noteq> p1 \<Longrightarrow> tcbs s' p = tcbs s p"
      "\<And>a. a \<noteq> BUS_INTERVALTIMER \<Longrightarrow> mem s' a = mem s a"
    using boot_result[OF a m] by blast
  let ?Q = "boot_lists lay [p1] ps"
  have tc: "\<exists>t'. tcbs s p = Some t'" if "p = p0 \<or> p = p1" for p using a(4) q that by auto
  have n: "tcbs s' p = None \<longleftrightarrow> tcbs s p = None" for p using t f(3)[of p] tc[of p] by (cases "p = p0 \<or> p = p1") fastforce+
  have nz: "p0 \<noteq> NULL" using tc[of p0] a(1) by (auto simp: pools_ok_def)
  have lv: "live s' ?Q = {p0, p1}" using c nz by (auto simp: live_def boot_lists_def)
  have dom: "mem s' x = None \<longleftrightarrow> mem s x = None" for x
    using f(4)[of x] ad(2) a(9) by (cases "x = BUS_INTERVALTIMER") (auto simp: bus_ok_def)
  have hd: "heads s' ?Q = first_heads p0 p1" by (auto simp: heads_def base_heads_def lv first_heads_def boot_heads_def)
  have np: "p \<in> {p0, p1} \<Longrightarrow> p \<noteq> NULL" for p using tc[of p] a(1) by (auto simp: pools_ok_def)
  have fo: "forest s' ?Q"
    using np t by (auto simp: forest_def children_ok_def lv boot_lists_def parent_of_def first_thread_def)
  have gp: "length (gpr (t_state (first_thread sp e))) = 29" "managers_of (first_thread sp e) = {NULL}" for sp e
    by (simp_all add: first_thread_def boot_state_def zero_state_def Let_def managers_of_def)
  have ty: "typed_regs s'"
    unfolding typed_regs_def
  proof (intro allI impI)
    fix p u assume "tcbs s' p = Some u"
    then show "length (gpr (t_state u)) = 29"
      using t gp(1) f(3)[of p] b(1) by (cases "p = p0 \<or> p = p1") (auto simp: typed_regs_def)
  qed
  have mg: "managers_ok s'"
    unfolding managers_ok_def
  proof (intro conjI allI impI ballI)
    show "SSI_tcb s' \<notin> set (trap_managers s')" using b(3) nz c f(1) by auto
    fix p u x assume "tcbs s' p = Some u" and "x \<in> managers_of u"
    then show "x = NULL \<or> tcbs s' x \<noteq> None"
      using t gp(2) f(3)[of p] b(2)[of p u] by (cases "p = p0 \<or> p = p1") auto
  qed
  have "memory_map lay s'" using b(4) by (simp add: memory_map_def dom n f(2))
  moreover have "replies_ok s' ?Q" by (simp add: replies_ok_def boot_lists_def)
  ultimately have "sane lay s' ?Q" using k fo ad ty mg by (simp add: sane_def hd)
  then show ?thesis using r c dom kernel_okI by auto
qed

section \<open>The steps\<close>

text \<open>
  \<open>Machine\<close>: user code and devices run; they may write every word that is mapped but the
  clock's scale and read the clock, and the trap fills the old areas. \<open>Registers\<close>: a trap manager
  changes the saved registers of a thread. \<open>Kernel\<close>: a handler is entered and gives
  the processor back. \<open>Service\<close>: the SSI has received a message and serves it, in a pass of its
  loop. A pass is one step: the model has no interrupts within it.
\<close>

inductive ssi_pass :: "rom \<Rightarrow> kstate \<Rightarrow> unit kmon \<Rightarrow> bool" for rom where
  Pass: "current_thread s = SSI_tcb s \<Longrightarrow> kernel_mode (cpu s) \<Longrightarrow> length (gpr (cpu s)) = 29 \<Longrightarrow>
     mem s slot = Some req \<Longrightarrow> ssi_admissible s p req \<Longrightarrow> ssi_pass rom s (SSI_after_recv rom slot p)"

inductive kstep :: "rom \<Rightarrow> layout \<Rightarrow> device \<Rightarrow> kstate \<Rightarrow> kstate \<Rightarrow> bool" for rom lay dev where
  Machine: "\<forall>a. M a = None \<longleftrightarrow> mem s a = None \<Longrightarrow> M BUS_TIMESCALE = mem s BUS_TIMESCALE \<Longrightarrow>
     kstep rom lay dev s (s\<lparr>mem := M, areas := A, cpu := st, tod_reads := n\<rparr>)"
| Registers: "tcbs s p = Some t \<Longrightarrow> length (gpr st) = 29 \<Longrightarrow> kstep rom lay dev s (s\<lparr>tcbs := (tcbs s)(p \<mapsto> t\<lparr>t_state := st\<rparr>)\<rparr>)"
| Kernel: "kernel_entry lay dev s h \<Longrightarrow> h s = Inr (r, s') \<Longrightarrow> kstep rom lay dev s s'"
| Service: "ssi_pass rom s h \<Longrightarrow> h s = Inr (u, s') \<Longrightarrow> kstep rom lay dev s s'"

inductive_cases kstepE: "kstep rom lay dev s s'"

inductive_simps kernel_entry_iff: "kernel_entry lay dev s h"

definition boots :: "rom \<Rightarrow> layout \<Rightarrow> device \<Rightarrow> kstate \<Rightarrow> bool" where
  "boots rom lay dev s \<longleftrightarrow> rom_ok rom \<and> device_ok dev \<and> (\<exists>s0 r. powered_on lay s0 \<and> main lay s0 = Inr (r, s))"

definition machine_ok :: "rom \<Rightarrow> layout \<Rightarrow> device \<Rightarrow> kstate \<Rightarrow> bool" where
  "machine_ok rom lay dev s \<longleftrightarrow> rom_ok rom \<and> device_ok dev \<and> kernel_ok lay s"

lemma kernel_okE:
  assumes "kernel_ok lay s"
  obtains Q where "sane lay s Q"
  using assms unfolding kernel_ok_def by blast

lemma sane_machine:
  assumes s: "sane lay s Q" and "\<forall>a. M a = None \<longleftrightarrow> mem s a = None" and "M BUS_TIMESCALE = mem s BUS_TIMESCALE"
  shows "sane lay (s\<lparr>mem := M, areas := A, cpu := st, tod_reads := n\<rparr>) Q"
proof (rule sane_frame[OF s])
  have "M BUS_INTERVALTIMER \<noteq> None" using assms(2) saneD(5)[OF s] by (auto simp: bus_ok_def)
  then show "bus_ok (s\<lparr>mem := M, areas := A, cpu := st, tod_reads := n\<rparr>)" using saneD(5)[OF s] assms(3) by (auto simp: bus_ok_def)
  show "typed_regs (s\<lparr>mem := M, areas := A, cpu := st, tod_reads := n\<rparr>)" using saneD(6)[OF s] by (simp add: typed_regs_def)
qed (use assms(2) memory_map_index[OF saneD(8)[OF s]] in simp_all)

lemma sane_registers:
  assumes s: "sane lay s Q" and t: "tcbs s p = Some t" and "length (gpr st) = 29"
  shows "sane lay (s\<lparr>tcbs := (tcbs s)(p \<mapsto> t\<lparr>t_state := st\<rparr>)\<rparr>) Q"
proof (rule sane_frame[OF s])
  show "typed_regs (s\<lparr>tcbs := (tcbs s)(p \<mapsto> t\<lparr>t_state := st\<rparr>)\<rparr>)" using saneD(6)[OF s] assms(3) by (simp add: typed_regs_def)
qed (use t saneD(5)[OF s] memory_map_index[OF saneD(8)[OF s]] in \<open>simp_all add: tcb_links_def\<close>)

lemma wp_ssi_pass:
  assumes "ssi_pass rom s h" and s: "sane lay s Q" and rom: "rom_ok rom"
  shows "wp h (\<lambda>_. kernel_ok lay) no_loop s"
  using assms(1)
proof cases
  case (Pass slot req p)
  then show ?thesis using ssi_serve[OF rom ssi_runsI[OF s Pass(2-4)] Pass(6)] by (simp add: SSI_after_recv_def)
qed

lemma machine_ok_step:
  assumes "machine_ok rom lay dev s" and "kstep rom lay dev s s'"
  shows "machine_ok rom lay dev s'"
proof -
  have rd: "rom_ok rom" "device_ok dev" using assms(1) by (simp_all add: machine_ok_def)
  obtain Q where s: "sane lay s Q" using assms(1) kernel_okE[of lay s] unfolding machine_ok_def by blast
  from assms(2) have "kernel_ok lay s'"
  proof cases
    case (Machine M A st n)
    then show ?thesis using sane_machine[OF s, of M A st n] kernel_okI by blast
  next
    case (Registers p t st)
    then show ?thesis using sane_registers[OF s, of p t st] kernel_okI by blast
  next
    case (Kernel h r)
    then show ?thesis using wp_kernel_entry[OF _ s rd(2), of h] by (auto simp: wp_def)
  next
    case (Service h u)
    then show ?thesis using wp_ssi_pass[OF _ s rd(1), of h] by (auto simp: wp_def)
  qed
  with rd show ?thesis by (simp add: machine_ok_def)
qed

lemma boots_machine_ok: "boots rom lay dev s \<Longrightarrow> machine_ok rom lay dev s"
  using boot_sane by (force simp: boots_def machine_ok_def)

interpretation kernel: guarded_system "boots rom lay dev" "kstep rom lay dev" "machine_ok rom lay dev" "kernel_entry lay dev" own_stop
  for rom lay dev
proof
  show "machine_ok rom lay dev s" if "boots rom lay dev s" for s by (rule boots_machine_ok[OF that])
  show "machine_ok rom lay dev s'" if "machine_ok rom lay dev s" "kstep rom lay dev s s'" for s s' by (rule machine_ok_step[OF that])
  show "kstep rom lay dev s s'" if "kernel_entry lay dev s h" "h s = Inr (r, s')" for s h r s' by (rule kstep.Kernel[OF that])
  show "own_stop e" if m: "machine_ok rom lay dev s" and en: "kernel_entry lay dev s h" and h: "h s = Inl e" for s h e
  proof -
    obtain Q where "sane lay s Q" using m kernel_okE[of lay s] unfolding machine_ok_def by blast
    with wp_kernel_entry[OF en] m h show ?thesis by (auto simp: machine_ok_def wp_def)
  qed
qed

text \<open>The passes of the SSI as the guarded runs.\<close>

interpretation service: guarded_system "boots rom lay dev" "kstep rom lay dev" "machine_ok rom lay dev" "ssi_pass rom" no_loop
  for rom lay dev
proof
  show "kstep rom lay dev s s'" if "ssi_pass rom s h" "h s = Inr (u, s')" for s h u s' by (rule kstep.Service[OF that])
  show "no_loop e" if m: "machine_ok rom lay dev s" and en: "ssi_pass rom s h" and h: "h s = Inl e" for s h e
  proof -
    obtain Q where "sane lay s Q" using m kernel_okE[of lay s] unfolding machine_ok_def by blast
    with wp_ssi_pass[OF en] m h show ?thesis by (auto simp: machine_ok_def wp_def)
  qed
qed

section \<open>Histories of the machine\<close>

text \<open>
  The machine without the conditions of \<open>kstep\<close>: whatever its threads ask for, each handler and
  each pass of the SSI that comes back is a move. A history is a sequence of moves, with the
  states in which they are made. As in \<open>kstep\<close> a pass of the SSI is one move, made by the SSI as
  the running thread in kernel mode.
\<close>

datatype move = By_user | By_manager | By_call | By_program_trap | By_TLB_trap | By_device | By_SSI U32 U32

inductive moves :: "rom \<Rightarrow> layout \<Rightarrow> device \<Rightarrow> kstate \<Rightarrow> move \<Rightarrow> kstate \<Rightarrow> bool" for rom lay dev s where
  User: "\<forall>a. M a = None \<longleftrightarrow> mem s a = None \<Longrightarrow> M BUS_TIMESCALE = mem s BUS_TIMESCALE \<Longrightarrow>
     moves rom lay dev s By_user (s\<lparr>mem := M, areas := A, cpu := st, tod_reads := n\<rparr>)"
| Manager: "tcbs s p = Some t \<Longrightarrow> length (gpr st) = 29 \<Longrightarrow> moves rom lay dev s By_manager (s\<lparr>tcbs := (tcbs s)(p \<mapsto> t\<lparr>t_state := st\<rparr>)\<rparr>)"
| Call: "current_thread s \<noteq> NULL \<Longrightarrow> sysbp_handler s = Inr (r, s') \<Longrightarrow> moves rom lay dev s By_call s'"
| Program_trap: "current_thread s \<noteq> NULL \<Longrightarrow> pgmtrap_handler s = Inr (r, s') \<Longrightarrow> moves rom lay dev s By_program_trap s'"
| TLB_trap: "current_thread s \<noteq> NULL \<Longrightarrow> tlb_handler s = Inr (r, s') \<Longrightarrow> moves rom lay dev s By_TLB_trap s'"
| Device: "int_handler lay dev s = Inr (r, s') \<Longrightarrow> moves rom lay dev s By_device s'"
| SSI: "current_thread s = SSI_tcb s \<Longrightarrow> kernel_mode (cpu s) \<Longrightarrow> length (gpr (cpu s)) = 29 \<Longrightarrow> mem s slot \<noteq> None \<Longrightarrow>
     SSI_after_recv rom slot p s = Inr (u, s') \<Longrightarrow> moves rom lay dev s (By_SSI slot p) s'"

text \<open>What a thread has to observe when it makes a move.\<close>

fun permitted :: "kstate \<Rightarrow> move \<Rightarrow> bool" where
  "permitted s By_call = call_admissible s"
| "permitted s By_program_trap = trap_admissible s pgmtrap_manager_thread"
| "permitted s By_TLB_trap = trap_admissible s tlbtrap_manager_thread"
| "permitted s (By_SSI slot p) = (case mem s slot of None \<Rightarrow> True | Some req \<Rightarrow> ssi_admissible s p req)"
| "permitted s _ = True"

inductive history :: "rom \<Rightarrow> layout \<Rightarrow> device \<Rightarrow> kstate \<Rightarrow> (kstate \<times> move) list \<Rightarrow> kstate \<Rightarrow> bool" for rom lay dev s0 where
  Begin: "history rom lay dev s0 [] s0"
| Next: "history rom lay dev s0 tr s \<Longrightarrow> moves rom lay dev s mv s' \<Longrightarrow> history rom lay dev s0 (tr @ [(s, mv)]) s'"

lemma permitted_kstep: "moves rom lay dev s mv s' \<Longrightarrow> permitted s mv \<Longrightarrow> kstep rom lay dev s s'"
proof (induction rule: moves.induct)
  case (SSI slot p u s')
  then obtain req where "mem s slot = Some req" "ssi_admissible s p req" by auto
  then have "ssi_pass rom s (SSI_after_recv rom slot p)" using SSI by (auto intro: ssi_pass.Pass)
  then show ?case using SSI(5) by (rule kstep.Service)
qed (auto intro: kstep.intros kernel_entry.intros simp del: NULL_def)

lemma kstep_moves: "kstep rom lay dev s s' \<Longrightarrow> \<exists>mv. moves rom lay dev s mv s' \<and> permitted s mv"
proof (induction rule: kstep.induct)
  case (Machine M s A st n)
  then show ?case by (intro exI[of _ By_user]) (simp add: moves.User)
next
  case (Registers s p t st)
  then show ?case by (intro exI[of _ By_manager]) (simp add: moves.Manager)
next
  case (Kernel s h r s')
  from Kernel(1) show ?case
  proof cases
    case Syscall
    then show ?thesis using Kernel(2) by (intro exI[of _ By_call]) (auto intro: moves.Call)
  next
    case Program_trap
    then show ?thesis using Kernel(2) by (intro exI[of _ By_program_trap]) (auto intro: moves.Program_trap)
  next
    case TLB_trap
    then show ?thesis using Kernel(2) by (intro exI[of _ By_TLB_trap]) (auto intro: moves.TLB_trap)
  next
    case Interrupt
    then show ?thesis using Kernel(2) by (intro exI[of _ By_device]) (auto intro: moves.Device)
  qed
next
  case (Service s h u s')
  from Service(1) show ?case
  proof cases
    case (Pass slot req p)
    then show ?thesis using Service(2) by (intro exI[of _ "By_SSI slot p"]) (simp add: moves.SSI)
  qed
qed

text \<open>The reachable states are the last states of the permitted histories.\<close>

lemma reachable_history:
  "reachable (boots rom lay dev) (kstep rom lay dev) s \<longleftrightarrow>
   (\<exists>s0 tr. boots rom lay dev s0 \<and> history rom lay dev s0 tr s \<and> (\<forall>(t, mv)\<in>set tr. permitted t mv))"
  (is "_ \<longleftrightarrow> (\<exists>s0 tr. ?H s0 tr s)")
proof
  show "reachable (boots rom lay dev) (kstep rom lay dev) s \<Longrightarrow> \<exists>s0 tr. ?H s0 tr s"
  proof (induction rule: reachable.induct)
    case (Start s)
    then show ?case by (auto intro!: exI[of _ s] exI[of _ "[]"] history.Begin)
  next
    case (Step s s')
    then obtain s0 tr mv where "?H s0 tr s" "moves rom lay dev s mv s'" "permitted s mv" using kstep_moves by blast
    then show ?case by (intro exI[of _ s0] exI[of _ "tr @ [(s, mv)]"]) (auto intro: history.Next)
  qed
  have "reachable (boots rom lay dev) (kstep rom lay dev) s"
    if "history rom lay dev s0 tr s" "boots rom lay dev s0" "\<forall>(t, mv)\<in>set tr. permitted t mv" for s0 tr
    using that by (induction rule: history.induct) (auto intro: reachable.intros permitted_kstep)
  then show "\<exists>s0 tr. ?H s0 tr s \<Longrightarrow> reachable (boots rom lay dev) (kstep rom lay dev) s" by blast
qed

end
