(* ===== verification/Kernel_Props.thy ===== *)
theory Kernel_Props
  imports Kernel_Steps
begin

text \<open>
  What holds of every state the system can reach from power-on, and of every entry into the
  kernel in such a state.
\<close>

section \<open>A machine that boots\<close>

definition ex_full_power :: kstate where
  "ex_full_power = ex_reset\<lparr>mem := (\<lambda>a. Some (if a = 0x10000000 then 0x20000000 else if a = 0x10000004 then 0x100000 else 1))\<rparr>"

lemma ex_msg_words:
  assumes "i < 48" and "a \<in> msg_words (int_msg_addr ex_lay i)"
  shows "a < 0x10000000"
proof -
  have i: "of_nat i < (48 :: U32)" using assms(1) by (simp add: word_less_nat_alt unat_of_nat take_bit_nat_eq_self)
  define w where "w = (of_nat i :: U32)"
  have "int_msg_addr ex_lay i = 0x4000 + 12 * w" by (simp add: int_msg_addr_def ex_lay_def w_def)
  moreover have "0x4000 + 12 * w + k < 0x10000000" if "k \<in> {0, 4, 8}" for k
  proof -
    have "uint w < 48" using i by (simp add: w_def word_less_def)
    with that show ?thesis by (auto simp: word_less_def uint_word_ariths)
  qed
  from this[of 0] this[of 4] this[of 8] calculation show ?thesis
    using assms(2) by (auto simp: msg_words_def)
qed

lemma ex_full_power_on: "powered_on ex_lay ex_full_power"
proof -
  have f: "tcbs ex_full_power = tcbs ex_reset" "msgs ex_full_power = msgs ex_reset" by (simp_all add: ex_full_power_def)
  have "lvalid ex_full_power = lvalid ex_reset" by (rule lvalid_cong) (simp_all add: f)
  then have "pools_ok ex_full_power" using pools_ok_cong ex_reset_ok(1) by metis
  moreover have "tcb_layout ex_lay ex_full_power" "msg_layout ex_lay ex_full_power"
    using ex_reset_ok by (simp_all add: tcb_layout_def msg_layout_def f)
  moreover have "dom (tcbs ex_full_power) = set (thread_array ex_lay)" "dom (msgs ex_full_power) = set (msg_array ex_lay)"
    by (auto simp: f ex_reset_def dom_def split: if_splits)
  moreover have "typed_regs ex_full_power" "\<forall>p t. tcbs ex_full_power p = Some t \<longrightarrow> managers_of t = {NULL}"
    by (auto simp: typed_regs_def f ex_reset_def ex_tcb_def managers_of_def split: if_splits)
  moreover have "set (trap_managers ex_full_power) \<subseteq> {NULL}" by (auto simp: ex_full_power_def ex_reset_def ex_state_def)
  moreover have "MAGIC_SSI \<notin> set (thread_array ex_lay)" "BUS_INTERVALTIMER \<notin> set (thread_array ex_lay)"
    by (simp_all add: ex_lay_def upt_rec)
  moreover have "bus_ok ex_full_power" by (simp add: bus_ok_def ex_full_power_def)
  moreover have "memory_map ex_lay ex_full_power"
    unfolding memory_map_def
  proof (intro conjI ballI allI impI)
    show "interrupt_i ex_full_power < 48" by (simp add: ex_full_power_def ex_reset_def ex_state_def)
    fix i a assume a: "i < (48 :: nat)" "a \<in> msg_words (int_msg_addr ex_lay i)"
    have "a < 0x10000000" by (rule ex_msg_words[OF a])
    then show "a \<notin> dev_region" "a \<noteq> BUS_TIMESCALE" "a \<noteq> BUS_INTERVALTIMER"
      by (auto simp: dev_region_def word_less_def word_le_def)
  next
    fix a assume a: "a \<in> dev_region"
    have "\<forall>p\<in>set (thread_array ex_lay). p < 0x10000050" by (simp add: ex_lay_def upt_rec)
    with a have "a \<notin> set (thread_array ex_lay)" by (auto simp: dev_region_def)
    then show "tcbs ex_full_power a = None" by (simp add: f ex_reset_def)
  qed (simp_all add: ex_full_power_def)
  moreover have "mem ex_full_power BUS_RAMBASEADDR \<noteq> None" "mem ex_full_power BUS_INSTALLEDRAM \<noteq> None"
    by (simp_all add: ex_full_power_def)
  ultimately show ?thesis by (simp add: powered_on_def)
qed

text \<open>The state after the boot, with any contents of the old areas.\<close>

abbreviation "ex_system \<equiv> reachable (boots ex_rom ex_lay ex_dev) (kstep ex_rom ex_lay ex_dev)"

lemma ex_booted:
  "\<exists>s. ex_system s \<and> current_thread s = SSI_tcb s \<and> SSI_tcb s \<noteq> NULL \<and> areas s = (\<lambda>_. A) \<and> (\<forall>a. mem s a \<noteq> None)"
proof -
  obtain r s where r: "main ex_lay ex_full_power = Inr (r, s)" and k: "kernel_ok ex_lay s" and c: "current_thread s = SSI_tcb s"
    and m: "\<forall>a. mem s a = None \<longleftrightarrow> mem ex_full_power a = None"
    using boot_sane[OF ex_full_power_on] by blast
  have "boots ex_rom ex_lay ex_dev s" using r ex_full_power_on ex_rom_ok ex_dev_ok by (auto simp: boots_def)
  then have "ex_system s" by (rule reachable.Start)
  moreover have "kstep ex_rom ex_lay ex_dev s (s\<lparr>mem := mem s, areas := \<lambda>_. A, cpu := cpu s, tod_reads := 0\<rparr>)"
    by (rule kstep.Machine) simp_all
  ultimately have "ex_system (s\<lparr>mem := mem s, areas := \<lambda>_. A, cpu := cpu s, tod_reads := 0\<rparr>)" by (rule reachable.Step)
  moreover have "SSI_tcb s \<noteq> NULL" using k sane_no_thread(3) by (auto simp: kernel_ok_def)
  moreover have "mem s a \<noteq> None" for a using m by (simp add: ex_full_power_def)
  ultimately show ?thesis using c by (intro exI[of _ "s\<lparr>mem := mem s, areas := \<lambda>_. A, cpu := cpu s, tod_reads := 0\<rparr>"]) simp
qed

section \<open>The invariant of the system\<close>

lemma system_ok: "reachable (boots rom lay dev) (kstep rom lay dev) s \<Longrightarrow> kernel_ok lay s"
  using kernel.reachable_inv by (simp add: machine_ok_def)

text \<open>
  C1. Take any history of the machine from power-on: user code, system calls, traps, interrupts
  and passes of the SSI, each of which runs to its end, in any order and with any arguments. If
  its last state does not satisfy the invariant of the kernel, then some thread has made a move
  that is not permitted, in a state that did satisfy it. The invariant: the queues and inboxes
  are disjoint and complete, the parent pointers and the lists of children are the same forest,
  and all who wait for something that is no thread can be answered. Permitted is every move but
  these: a \<open>SEND\<close> to \<open>NULL\<close>, to a thread that waits for the sender with no address for the answer
  (as a frozen thread does), or by a trap manager to what is no thread or, with a decision, to one
  that does not wait; a \<open>RECV\<close> into memory that is not there or into the clock's scale; a trap
  whose manager waits for the trapping thread with no address; and, from a thread without a
  parent, one of the kernel's two messages to the SSI, or the request for a brother when the ring
  of brothers names there what is no thread or has a parent.
\<close>

theorem history_kernel_ok:
  assumes "boots rom lay dev s0" and "history rom lay dev s0 tr s"
  shows "kernel_ok lay s \<or> (\<exists>(t, mv)\<in>set tr. \<not> permitted t mv \<and> kernel_ok lay t)"
  using assms(2)
proof (induction rule: history.induct)
  case Begin
  show ?case using boots_machine_ok[OF assms(1)] by (simp add: machine_ok_def)
next
  case (Next tr s mv s')
  show ?case
  proof (cases "kernel_ok lay s \<and> permitted s mv")
    case True
    then have "machine_ok rom lay dev s" using assms(1) by (simp add: machine_ok_def boots_def)
    from machine_ok_step[OF this permitted_kstep[OF Next(2)]] True show ?thesis by (simp add: machine_ok_def)
  next
    case False
    with Next.IH show ?thesis by auto
  qed
qed

lemma ex_history:
  assumes "ex_system s"
  obtains s0 tr where "boots ex_rom ex_lay ex_dev s0" "history ex_rom ex_lay ex_dev s0 tr s" "\<forall>(t, mv)\<in>set tr. permitted t mv"
  using assms unfolding reachable_history by blast

theorem history_kernel_ok_witness:
  "\<exists>s0 tr s. boots ex_rom ex_lay ex_dev s0 \<and> history ex_rom ex_lay ex_dev s0 tr s \<and> current_thread s = SSI_tcb s \<and> kernel_ok ex_lay s"
proof -
  obtain s where s: "ex_system s" "current_thread s = SSI_tcb s" using ex_booted by blast
  obtain s0 tr where h: "boots ex_rom ex_lay ex_dev s0" "history ex_rom ex_lay ex_dev s0 tr s" "\<forall>(t, mv)\<in>set tr. permitted t mv"
    by (rule ex_history[OF s(1)])
  with history_kernel_ok[OF h(1,2)] have "kernel_ok ex_lay s" by blast
  with h s show ?thesis by blast
qed

text \<open>
  C2. In a reachable state every entry into the kernel with admissible arguments comes to its
  end: the handler returns to the ROM in a state that is reachable again, or the kernel halts
  or panics. No handler makes a bad memory access and none loops.
\<close>

theorem kernel_entry_terminates:
  assumes "reachable (boots rom lay dev) (kstep rom lay dev) s" and "kernel_entry lay dev s h"
  shows "case h s of Inl e \<Rightarrow> e = HALT \<or> e = PANIC
    | Inr (r, s') \<Rightarrow> reachable (boots rom lay dev) (kstep rom lay dev) s'"
  using kernel.entry_total[OF assms] by (cases "h s") (auto simp: own_stop_def)

lemma ex_recv_entry:
  assumes "current_thread s = SSI_tcb s" and "SSI_tcb s \<noteq> NULL" and "areas s = (\<lambda>_. ex_area 0x20 RECV 0 0x700)" and "\<forall>a. mem s a \<noteq> None"
  shows "kernel_entry lay dev s sysbp_handler"
  by (rule kernel_entry.Syscall)
    (use assms in \<open>simp_all add: call_admissible_def recv_admissible_def Let_def kernel_syscall_def CAUSE_EXCCODE_GET_def gpr_get_def ex_area_def\<close>)

theorem kernel_entry_terminates_witness:
  "\<exists>s. ex_system s \<and> areas s SYSBK_OLDAREA = ex_area 0x20 RECV 0 0x700 \<and>
     (case sysbp_handler s of Inl e \<Rightarrow> e = HALT \<or> e = PANIC | Inr (r, s') \<Rightarrow> ex_system s')"
proof -
  obtain s where s: "ex_system s" "current_thread s = SSI_tcb s" "SSI_tcb s \<noteq> NULL" "areas s = (\<lambda>_. ex_area 0x20 RECV 0 0x700)"
    "\<forall>a. mem s a \<noteq> None"
    using ex_booted by blast
  with kernel_entry_terminates[OF s(1) ex_recv_entry[OF s(2-5)]] show ?thesis by auto
qed

text \<open>
  C3. In a reachable state in which the SSI runs, every pass of its loop over an admissible
  message comes to its end: it returns in a reachable state, loses the processor, stops the
  machine, or faults where a request names memory that is not there. Whatever the message says,
  none of its loops goes on forever.
\<close>

theorem ssi_pass_terminates:
  assumes "reachable (boots rom lay dev) (kstep rom lay dev) s" and "ssi_pass rom s h"
  shows "case h s of Inl e \<Rightarrow> e \<noteq> Diverge | Inr (u, s') \<Rightarrow> reachable (boots rom lay dev) (kstep rom lay dev) s'"
  using service.entry_total[OF assms] by (cases "h s") (auto simp: no_loop_def)

theorem ssi_pass_terminates_witness:
  "\<exists>s slot p. ex_system s \<and> current_thread s = SSI_tcb s \<and>
     (case SSI_after_recv ex_rom slot p s of Inl e \<Rightarrow> e \<noteq> Diverge | Inr (u, s') \<Rightarrow> ex_system s')"
proof -
  obtain s where s: "ex_system s" "current_thread s = SSI_tcb s" "SSI_tcb s \<noteq> NULL" and m: "\<forall>a. mem s a \<noteq> None"
    using ex_booted by blast
  let ?s = "s\<lparr>cpu := ex_area 0 0 0 0\<rparr>"
  have "ex_system (s\<lparr>mem := mem s, areas := areas s, cpu := ex_area 0 0 0 0, tod_reads := tod_reads s\<rparr>)"
    by (rule reachable.Step[OF s(1)], rule kstep.Machine) simp_all
  then have e: "ex_system ?s" by simp
  obtain Q where "sane ex_lay ?s Q" using system_ok[OF e] kernel_okE by blast
  then have "tcbs ?s NULL = None" by (rule sane_no_thread(1))
  then have a: "ssi_admissible ?s NULL req" for req by (simp add: ssi_admissible_def)
  obtain req where r: "mem s 0x700 = Some req" using m by blast
  have "ssi_pass ex_rom ?s (SSI_after_recv ex_rom 0x700 NULL)"
    by (rule ssi_pass.Pass[where req = req]) (use s r a in \<open>simp_all add: ex_area_def kernel_mode_def\<close>)
  from ssi_pass_terminates[OF e this] e s(2) show ?thesis by (intro exI[of _ ?s]) auto
qed

text \<open>The kernel's own view of which threads are in use.\<close>

definition in_use :: "kstate \<Rightarrow> U32 \<Rightarrow> bool" where
  "in_use s p \<longleftrightarrow> p \<noteq> NULL \<and> (on_queue Ready_queue p s \<or> on_queue Wait_queue p s \<or> current_thread s = p)"

lemma on_queue_ready:
  assumes "sane lay s Q"
  shows "on_queue Ready_queue p s \<longleftrightarrow> p \<in> set (Q Ready_queue)"
proof -
  note k = saneD(1)[OF assms]
  have "p \<noteq> NULL" if "p \<in> set (Q Ready_queue)" using kinv_live_not_NULL[OF k, of p] that by (simp add: live_def)
  then show ?thesis by (auto simp: on_queue_def thereIsThread_eq[OF kinv_rep[OF k] kinv_heads(1)[OF k]])
qed

lemma in_use_live: "sane lay s Q \<Longrightarrow> in_use s p \<longleftrightarrow> p \<in> live s Q"
  using kinv_live_not_NULL[OF saneD(1), of lay s Q p] by (auto simp: in_use_def on_queue_ready on_queue_iff live_def)

text \<open>
  C8. The pointers and registers of every thread control block are well typed in every state that
  permitted moves reach: 29 saved general registers; the three manager fields are null or point to a
  thread control block; the parent of a thread that is queued or runs is null or a thread that
  is queued or runs, and no thread is its own parent.
\<close>

theorem reachable_typed:
  assumes "reachable (boots rom lay dev) (kstep rom lay dev) s" and "tcbs s p = Some t"
  shows "length (gpr (t_state t)) = 29 \<and>
     (\<forall>m\<in>{sysbp_manager_thread t, pgmtrap_manager_thread t, tlbtrap_manager_thread t}. m = NULL \<or> tcbs s m \<noteq> None) \<and>
     (in_use s p \<longrightarrow> t_parent t \<noteq> p \<and> (t_parent t = NULL \<or> in_use s (t_parent t)))"
proof -
  obtain Q where s: "sane lay s Q" using system_ok[OF assms(1)] by (auto simp: kernel_ok_def)
  note d = saneD[OF s]
  have "length (gpr (t_state t)) = 29" using d(6) assms(2) by (simp add: typed_regs_def)
  moreover have "\<forall>m\<in>managers_of t. m = NULL \<or> tcbs s m \<noteq> None" using d(7) assms(2) by (simp add: managers_ok_def)
  moreover have "t_parent t \<noteq> p \<and> (t_parent t = NULL \<or> in_use s (t_parent t))" if "in_use s p"
  proof -
    have p: "p \<in> live s Q" using that in_use_live[OF s] by simp
    have pa: "parent_of s p = t_parent t" using assms(2) by (simp add: parent_of_def)
    obtain dp where "\<forall>p\<in>live s Q. \<forall>c\<in>set (Q (T_child p)). (dp :: U32 \<Rightarrow> nat) p < dp c" using d(2) by (auto simp: forest_def)
    then show ?thesis
      using forest_child(4)[OF d(2) p] pa p kinv_live_not_NULL[OF d(1) p] in_use_live[OF s] by fastforce
  qed
  ultimately show ?thesis by (simp add: managers_of_def)
qed

theorem reachable_typed_witness:
  "\<exists>s t. ex_system s \<and> tcbs s (current_thread s) = Some t \<and> length (gpr (t_state t)) = 29"
proof -
  obtain s where s: "ex_system s" "current_thread s = SSI_tcb s" "SSI_tcb s \<noteq> NULL" using ex_booted by blast
  obtain Q where "sane ex_lay s Q" using system_ok[OF s(1)] by (auto simp: kernel_ok_def)
  then obtain t where "tcbs s (current_thread s) = Some t" using sane_current s(2,3) by metis
  with reachable_typed[OF s(1) this] s(1) show ?thesis by blast
qed

end
