(* ===== verification/Walks.thy ===== *)
theory Walks
  imports Kernel_Props
begin

text \<open>
  The loops over a list of \<^verbatim>\<open>include/listx.h\<close>, forwards and backwards, and what they show of a
  state of the system: on a well-formed list the backward loop runs its body on the same entries
  as the forward loop, in the opposite order; the loops over the inboxes and the free list meet
  every message exactly once, and the loops over the lists of children meet every thread exactly
  at its parent.
\<close>

section \<open>The loops\<close>

text \<open>
  \<open>step\<close> is the read that moves the cursor: \<open>pos->next\<close> in one direction, \<open>pos->prev\<close> in the
  other. A loop that has not ended after \<open>LOOP_BOUND\<close> links never ends on the lists of the kernel.
\<close>

fun link_loop ::
  "nat \<Rightarrow> (list_head \<Rightarrow> list_head kmon) \<Rightarrow> list_head \<Rightarrow> (list_head \<Rightarrow> unit kmon) \<Rightarrow> list_head \<Rightarrow> unit kmon" where
  "link_loop 0 step head body pos = kstop Diverge"
| "link_loop (Suc n) step head body pos =
     (if pos = head then kreturn ()
      else kthen (body pos) (kbind (step pos) (\<lambda>nxt. link_loop n step head body nxt)))"

definition list_for_each :: "list_head \<Rightarrow> (list_head \<Rightarrow> unit kmon) \<Rightarrow> unit kmon" where
  "list_for_each head body =
     kbind (read_next head) (\<lambda>pos. link_loop LOOP_BOUND read_next head body pos)"

definition list_for_each_prev :: "list_head \<Rightarrow> (list_head \<Rightarrow> unit kmon) \<Rightarrow> unit kmon" where
  "list_for_each_prev head body =
     kbind (read_prev head) (\<lambda>pos. link_loop LOOP_BOUND read_prev head body pos)"

text \<open>
  The loops that stop at the links of the entries and take the entry of each: with a body that
  leaves the loop as soon as \<open>test\<close> holds of the current entry (\<open>list_for_each_entry_reverse\<close>;
  \<open>for_each_entry\<close> is the forward one), and with a body that notes the entry.
\<close>

fun entry_loop ::
  "nat \<Rightarrow> (list_head \<Rightarrow> list_head kmon) \<Rightarrow> linker \<Rightarrow> list_head \<Rightarrow> (U32 \<Rightarrow> bool kmon) \<Rightarrow> list_head \<Rightarrow> U32 option kmon" where
  "entry_loop 0 step k head test pos = kstop Diverge"
| "entry_loop (Suc n) step k head test pos =
     (if pos = head then kreturn None
      else kbind (container_of k pos) (\<lambda>p.
           kbind (test p) (\<lambda>b.
           if b then kreturn (Some p)
           else kbind (step pos) (\<lambda>nxt. entry_loop n step k head test nxt))))"

definition list_for_each_entry_reverse ::
  "linker \<Rightarrow> list_head \<Rightarrow> (U32 \<Rightarrow> bool kmon) \<Rightarrow> U32 option kmon" where
  "list_for_each_entry_reverse k head test =
     kbind (read_prev head) (\<lambda>pos. entry_loop LOOP_BOUND read_prev k head test pos)"

fun entries_from :: "nat \<Rightarrow> linker \<Rightarrow> list_head \<Rightarrow> list_head \<Rightarrow> U32 list kmon" where
  "entries_from 0 k head pos = kstop Diverge"
| "entries_from (Suc n) k head pos =
     (if pos = head then kreturn []
      else kbind (container_of k pos) (\<lambda>p.
           kbind (read_next pos) (\<lambda>nxt.
           kbind (entries_from n k head nxt) (\<lambda>ps. kreturn (p # ps)))))"

definition list_for_each_entry :: "linker \<Rightarrow> list_head \<Rightarrow> U32 list kmon" where
  "list_for_each_entry k head =
     kbind (read_next head) (\<lambda>pos. entries_from LOOP_BOUND k head pos)"

section \<open>A direction to walk in\<close>

lemma linked_step:
  "linked L a xs b \<Longrightarrow> i \<le> length xs \<Longrightarrow>
   lnext L ((a # xs) ! i) = (xs @ [b]) ! i \<and> lprev L ((xs @ [b]) ! i) = (a # xs) ! i"
proof (induction xs arbitrary: a i)
  case (Cons x xs)
  then show ?case by (cases i) auto
qed simp

text \<open>
  The contract of the read that moves the cursor: on a well-formed ring it goes from the sentinel
  along the members, in the order \<open>turn\<close> gives them, and back to the sentinel.
\<close>

definition ring_at :: "list_head \<Rightarrow> list_head list \<Rightarrow> kstate \<Rightarrow> bool" where
  "ring_at h xs s \<longleftrightarrow> ring (lst s) h xs \<and> (\<forall>x\<in>set (h # xs). lvalid s x)"

text \<open>The body of a loop may change anything but the links and the objects they are in.\<close>

definition keeps_links :: "(list_head \<Rightarrow> unit kmon) \<Rightarrow> bool" where
  "keeps_links body \<longleftrightarrow>
     (\<forall>x s r s'. body x s = Inr (r, s') \<longrightarrow> lst s' = lst s \<and> lvalid s' = lvalid s)"

locale cursor =
  fixes step :: "list_head \<Rightarrow> list_head kmon" and turn :: "list_head list \<Rightarrow> list_head list"
  assumes step_ring: "ring_at h xs s \<Longrightarrow> i \<le> length xs \<Longrightarrow>
      step ((h # turn xs) ! i) s = Inr ((turn xs @ [h]) ! i, s)"
    and turn_set: "set (turn xs) = set xs"
    and turn_length: "length (turn xs) = length xs"
begin

lemma loop_rest:
  assumes "keeps_links body" and "ring_at h xs s" and "i \<le> length xs" and "length xs - i < n"
  shows "link_loop n step h body ((turn xs @ [h]) ! i) s = kfor (drop i (turn xs)) body s"
  using assms(2-)
proof (induction n arbitrary: i s)
  case (Suc n)
  show ?case
  proof (cases "i = length xs")
    case True
    then show ?thesis using turn_length[of xs] by (simp add: nth_append)
  next
    case False
    then have i: "i < length (turn xs)" using Suc.prems(2) by (simp add: turn_length)
    define x where "x = turn xs ! i"
    have x: "(turn xs @ [h]) ! i = x" "drop i (turn xs) = x # drop (Suc i) (turn xs)" "x \<noteq> h"
      using i Suc.prems(1) turn_set[of xs] nth_mem[OF i]
      by (auto simp: x_def nth_append Cons_nth_drop_Suc ring_at_def ring_def)
    show ?thesis
    proof (cases "body x s")
      case (Inl e)
      then show ?thesis using x by (simp add: kbind_def kthen_def)
    next
      case (Inr rs)
      then obtain s1 where b: "body x s = Inr ((), s1)" by (cases rs) auto
      then have r1: "ring_at h xs s1"
        using assms(1) Suc.prems(1) unfolding keeps_links_def ring_at_def by metis
      have "step x s1 = Inr ((turn xs @ [h]) ! Suc i, s1)"
        using step_ring[OF r1, of "Suc i"] i by (simp add: x_def turn_length)
      moreover have "link_loop n step h body ((turn xs @ [h]) ! Suc i) s1 = kfor (drop (Suc i) (turn xs)) body s1"
        using i Suc.prems(3) by (intro Suc.IH[OF r1]) (auto simp: turn_length)
      ultimately show ?thesis using b x by (simp add: kthen_Inr)
    qed
  qed
qed simp

lemma loop_ring:
  assumes "keeps_links body" and "ring_at h xs s" and "length xs < n"
  shows "kbind (step h) (\<lambda>pos. link_loop n step h body pos) s = kfor (turn xs) body s"
  using step_ring[OF assms(2), of 0] loop_rest[OF assms(1,2), of 0] assms(3) by simp

lemma entry_loop_rest:
  assumes "ring_at h xs s" and "turn xs = map (link_of k) ys"
    and "\<And>p. p \<in> set ys \<Longrightarrow> test p s = Inr (f p, s)" and "i \<le> length xs" and "length xs - i < n"
  shows "entry_loop n step k h test ((turn xs @ [h]) ! i) s = Inr (find f (drop i ys), s)"
  using assms(4-)
proof (induction n arbitrary: i)
  case (Suc n)
  have l: "length ys = length xs" using assms(2) turn_length[of xs] by simp
  show ?case
  proof (cases "i = length xs")
    case True
    then show ?thesis using l by (simp add: nth_append turn_length)
  next
    case False
    then have i: "i < length ys" using Suc.prems(1) l by simp
    define y where "y = ys ! i"
    have y: "(turn xs @ [h]) ! i = link_of k y" "drop i ys = y # drop (Suc i) ys" "y \<in> set ys" "turn xs ! i = link_of k y"
      using i by (auto simp: y_def nth_append Cons_nth_drop_Suc assms(2))
    have "link_of k y \<noteq> h" using assms(1) y(3) turn_set[of xs] by (auto simp: ring_at_def ring_def assms(2))
    moreover have "step (link_of k y) s = Inr ((turn xs @ [h]) ! Suc i, s)"
      using step_ring[OF assms(1), of "Suc i"] i l y(4) by simp
    moreover have "entry_loop n step k h test ((turn xs @ [h]) ! Suc i) s = Inr (find f (drop (Suc i) ys), s)"
      using i l Suc.prems(2) by (intro Suc.IH) auto
    ultimately show ?thesis using y assms(3)[OF y(3)] by simp
  qed
qed simp

lemma entry_loop_ring:
  assumes "ring_at h xs s" and "turn xs = map (link_of k) ys"
    and "\<And>p. p \<in> set ys \<Longrightarrow> test p s = Inr (f p, s)" and "length xs < n"
  shows "kbind (step h) (\<lambda>pos. entry_loop n step k h test pos) s = Inr (find f ys, s)"
  using step_ring[OF assms(1), of 0] entry_loop_rest[where test = test and f = f and i = 0, OF assms(1-3)] assms(4) by simp

end

lemma ring_at_step:
  assumes "ring_at h xs s" and "i \<le> length xs"
  shows "read_next ((h # xs) ! i) s = Inr ((xs @ [h]) ! i, s)"
    and "read_prev ((xs @ [h]) ! i) s = Inr ((h # xs) ! i, s)"
proof -
  have "(h # xs) ! i \<in> set (h # xs)" "(xs @ [h]) ! i \<in> set (xs @ [h])" using assms(2) by (auto intro!: nth_mem simp del: set_simps set_append)
  then have "lvalid s ((h # xs) ! i)" "lvalid s ((xs @ [h]) ! i)" using assms(1) by (auto simp: ring_at_def)
  then show "read_next ((h # xs) ! i) s = Inr ((xs @ [h]) ! i, s)" "read_prev ((xs @ [h]) ! i) s = Inr ((h # xs) ! i, s)"
    using linked_step[of "lst s" h xs h i] assms by (simp_all add: ring_at_def ring_def read_next_def read_prev_def)
qed

interpretation forwards: cursor read_next "\<lambda>xs. xs"
  by unfold_locales (simp_all add: ring_at_step)

interpretation backwards: cursor read_prev rev
proof unfold_locales
  fix h xs s and i :: nat
  assume r: "ring_at h xs s" and i: "i \<le> length xs"
  have "(h # rev xs) ! i = rev (xs @ [h]) ! i" "(rev xs @ [h]) ! i = rev (h # xs) ! i" by simp_all
  then have "(h # rev xs) ! i = (xs @ [h]) ! (length xs - i)" "(rev xs @ [h]) ! i = (h # xs) ! (length xs - i)"
    using i by (simp_all only: rev_nth length_append list.size) simp_all
  with ring_at_step(2)[OF r, of "length xs - i"]
  show "read_prev ((h # rev xs) ! i) s = Inr ((rev xs @ [h]) ! i, s)" by simp
qed simp_all

section \<open>The loops on the lists of the kernel\<close>

lemma rep_ring_at:
  assumes "rep s H Q" and "h \<in> H"
  shows "ring_at h (map (link_of (linker_of h)) (Q h)) s"
  using rings_ring[OF rep_rings[OF assms(1)] assms(2)] rep_lvalid_head[OF assms] rep_lvalid_member[OF assms]
  by (auto simp: ring_at_def)

lemma entries_from_linked:
  assumes "linked (lst s) a (map (link_of k) ys) h" and "h \<notin> link_of k ` set ys"
    and "\<And>p. p \<in> set ys \<Longrightarrow> lvalid s (link_of k p)" and "length ys < n"
  shows "entries_from n k h (lnext (lst s) a) s = Inr (ys, s)"
  using assms
proof (induction ys arbitrary: a n)
  case Nil
  then obtain m where "n = Suc m" by (cases n) auto
  with Nil show ?case by simp
next
  case (Cons y ys)
  then obtain m where n: "n = Suc m" by (cases n) auto
  have "read_next (link_of k y) s = Inr (lnext (lst s) (link_of k y), s)"
    using Cons.prems(3) by (simp add: read_next_def)
  moreover have "entries_from m k h (lnext (lst s) (link_of k y)) s = Inr (ys, s)"
    using Cons.prems n by (intro Cons.IH) auto
  ultimately show ?case using Cons.prems n by auto
qed

lemma rep_entries:
  assumes "rep s H Q" and "h \<in> H"
  shows "list_for_each_entry (linker_of h) h s = Inr (Q h, s)"
proof -
  have "ring_at h (map (link_of (linker_of h)) (Q h)) s" by (rule rep_ring_at[OF assms])
  moreover from this have "entries_from LOOP_BOUND (linker_of h) h (lnext (lst s) h) s = Inr (Q h, s)"
    by (intro entries_from_linked) (auto simp: ring_at_def ring_def rep_length[OF assms])
  ultimately show ?thesis by (simp add: list_for_each_entry_def read_next_def ring_at_def)
qed

text \<open>
  C40. On every list of the kernel \<open>list_for_each\<close> runs its body once on each link, in the order
  of the list, and \<open>list_for_each_prev\<close> runs it on the same links in the opposite order, whatever
  the body does to anything but the links; \<open>list_for_each_entry_reverse\<close> finds the last entry
  that passes its test, where the forward loop finds the first.
\<close>

theorem loops_both_ways:
  assumes "rep s H Q" and "h \<in> H" and "keeps_links body"
    and "\<And>p. p \<in> set (Q h) \<Longrightarrow> test p s = Inr (f p, s)"
  shows "list_for_each h body s = kfor (map (link_of (linker_of h)) (Q h)) body s \<and>
     list_for_each_prev h body s = kfor (rev (map (link_of (linker_of h)) (Q h))) body s \<and>
     list_for_each_entry_reverse (linker_of h) h test s = Inr (find f (rev (Q h)), s)"
proof (intro conjI)
  note r = rep_ring_at[OF assms(1,2)]
  have n: "length (map (link_of (linker_of h)) (Q h)) < LOOP_BOUND" using rep_length[OF assms(1,2)] by simp
  show "list_for_each h body s = kfor (map (link_of (linker_of h)) (Q h)) body s"
    unfolding list_for_each_def by (rule forwards.loop_ring[OF assms(3) r n])
  show "list_for_each_prev h body s = kfor (rev (map (link_of (linker_of h)) (Q h))) body s"
    unfolding list_for_each_prev_def by (rule backwards.loop_ring[OF assms(3) r n])
  show "list_for_each_entry_reverse (linker_of h) h test s = Inr (find f (rev (Q h)), s)"
    unfolding list_for_each_entry_reverse_def
    by (rule backwards.entry_loop_ring[OF r _ _ n]) (simp_all add: assms(4) rev_map)
qed

text \<open>A body that shows the order of its calls.\<close>

definition ex_body :: "list_head \<Rightarrow> unit kmon" where
  "ex_body x = kmodify (\<lambda>s. s\<lparr>interrupt_i := 2 * interrupt_i s + (if x = T_next 0x200 then 1 else 0)\<rparr>)"

theorem loops_both_ways_witness:
  "(\<exists>s'. list_for_each Ready_queue ex_body ex_idle = Inr ((), s') \<and> interrupt_i s' = 2) \<and>
   (\<exists>s'. list_for_each_prev Ready_queue ex_body ex_idle = Inr ((), s') \<and> interrupt_i s' = 1) \<and>
   list_for_each_entry_reverse By_t_next Ready_queue (\<lambda>p. kreturn True) ex_idle = Inr (Some 0x300, ex_idle)"
proof -
  have k: "keeps_links ex_body" by (auto simp: keeps_links_def ex_body_def kmodify_def intro!: lvalid_cong)
  have "interrupt_i ex_idle = 0" by (simp add: ex_state_def)
  with loops_both_ways[where h = Ready_queue and test = "\<lambda>p. kreturn True" and f = "\<lambda>_. True", OF kinv_rep[OF ex_ready] _ k] show ?thesis
    by (simp add: ex_Q_simps link_of_def linker_of_def ex_body_def kmodify_def kreturn_def kthen_def kbind_def)
qed

text \<open>
  C9. In every state that permitted moves reach the loops over the ready queue, the wait queue and the free list of
  TCBs come to their end; what they meet, together with the running thread, is every TCB once.
  The first two are the threads that the kernel's own searches find, and \<open>thread_count\<close> is the
  number of the TCBs that are not on the free list, at most \<open>MAXTHREADS\<close>.
\<close>

theorem threads_accounted:
  assumes "reachable (boots rom lay dev) (kstep rom lay dev) s"
  shows "\<exists>ready wait free. let run = (if current_thread s = NULL then [] else [current_thread s]) in
     list_for_each_entry By_t_next Ready_queue s = Inr (ready, s) \<and>
     list_for_each_entry By_t_next Wait_queue s = Inr (wait, s) \<and>
     list_for_each_entry By_t_next Tcbfree_sentinel s = Inr (free, s) \<and>
     distinct (ready @ wait @ run @ free) \<and> dom (tcbs s) = set (ready @ wait @ run @ free) \<and>
     (\<forall>p. on_queue Ready_queue p s \<longleftrightarrow> p \<in> set ready) \<and> (\<forall>p. on_queue Wait_queue p s \<longleftrightarrow> p \<in> set wait) \<and>
     unat (thread_count s) = length (ready @ wait @ run) \<and> unat (thread_count s) \<le> MAXTHREADS"
proof -
  obtain Q where s: "sane lay s Q" using system_ok[OF assms] by (auto simp: kernel_ok_def)
  note k = saneD(1)[OF s]
  note r = kinv_rep[OF k] and h = kinv_heads[OF k]
  let ?run = "if current_thread s = NULL then [] else [current_thread s]"
  have "distinct (Q Ready_queue @ Q Wait_queue @ ?run @ Q Tcbfree_sentinel)"
    using rep_distinct[OF r h(1)] rep_distinct[OF r h(2)] rep_distinct[OF r h(3)] kinv_disjoint[OF k] kinv_current[OF k]
    by auto
  moreover have "dom (tcbs s) = set (Q Ready_queue @ Q Wait_queue @ ?run @ Q Tcbfree_sentinel)"
    using k by (auto simp: kinv_def accounted_def live_def dom_def)
  moreover have "unat (thread_count s) = length (Q Ready_queue @ Q Wait_queue @ ?run)"
    using kinv_thread_count[OF k] kinv_card[OF k] by simp
  moreover have "unat (thread_count s) \<le> MAXTHREADS" using kinv_thread_count[OF k] kinv_card_le[OF k] by simp
  ultimately show ?thesis
    unfolding Let_def using rep_entries[OF r h(1)] rep_entries[OF r h(2)] rep_entries[OF r h(3)] on_queue_ready[OF s] on_queue_iff[OF s]
    by (intro exI[of _ "Q Ready_queue"] exI[of _ "Q Wait_queue"] exI[of _ "Q Tcbfree_sentinel"]) simp
qed

theorem threads_accounted_witness:
  "\<exists>s ready wait free. ex_system s \<and> list_for_each_entry By_t_next Tcbfree_sentinel s = Inr (free, s) \<and>
     dom (tcbs s) = set (ready @ wait @ [current_thread s] @ free) \<and> unat (thread_count s) = Suc (length (ready @ wait))"
proof -
  obtain s where s: "ex_system s" "current_thread s = SSI_tcb s" "SSI_tcb s \<noteq> NULL" using ex_booted by blast
  have run: "(if current_thread s = NULL then [] else [current_thread s]) = [current_thread s]" using s by simp
  from threads_accounted[OF s(1)] obtain ready wait free where "list_for_each_entry By_t_next Tcbfree_sentinel s = Inr (free, s)"
    "dom (tcbs s) = set (ready @ wait @ [current_thread s] @ free)" "unat (thread_count s) = length (ready @ wait @ [current_thread s])"
    unfolding run Let_def by blast
  with s(1) show ?thesis by (intro exI[of _ s] exI[of _ ready] exI[of _ wait] exI[of _ free]) simp
qed

text \<open>
  C10. In every state that permitted moves reach the loops over the free list and over the inbox of each thread in
  use come to their end, and each message object is met by exactly one of them, once.
\<close>

theorem messages_accounted:
  assumes "reachable (boots rom lay dev) (kstep rom lay dev) s"
  shows "\<exists>free inbox. list_for_each_entry By_m_next Msgfree_sentinel s = Inr (free, s) \<and> distinct free \<and>
     (\<forall>p. in_use s p \<longrightarrow> list_for_each_entry By_m_next (T_inbox p) s = Inr (inbox p, s) \<and> distinct (inbox p) \<and>
        set (inbox p) \<inter> set free = {} \<and> (\<forall>q. in_use s q \<and> q \<noteq> p \<longrightarrow> set (inbox p) \<inter> set (inbox q) = {})) \<and>
     dom (msgs s) = set free \<union> (\<Union>p\<in>{p. in_use s p}. set (inbox p))"
proof -
  obtain Q where s: "sane lay s Q" using system_ok[OF assms] by (auto simp: kernel_ok_def)
  note k = saneD(1)[OF s]
  note r = kinv_rep[OF k] and h = kinv_heads(4)[OF k] and u = in_use_live[OF s]
  have "list_for_each_entry By_m_next Msgfree_sentinel s = Inr (Q Msgfree_sentinel, s)" "distinct (Q Msgfree_sentinel)"
    using rep_entries[OF r h] rep_distinct[OF r h] by simp_all
  moreover have "dom (msgs s) = set (Q Msgfree_sentinel) \<union> (\<Union>p\<in>{p. in_use s p}. set (Q (T_inbox p)))"
    using k u by (auto simp: kinv_def accounted_def dom_def)
  moreover have "list_for_each_entry By_m_next (T_inbox p) s = Inr (Q (T_inbox p), s)" "distinct (Q (T_inbox p))"
    "set (Q (T_inbox p)) \<inter> set (Q Msgfree_sentinel) = {}" if "in_use s p" for p
  proof -
    have i: "T_inbox p \<in> heads s Q" using that u kinv_inbox[OF k] by simp
    show "list_for_each_entry By_m_next (T_inbox p) s = Inr (Q (T_inbox p), s)" "distinct (Q (T_inbox p))"
      using rep_entries[OF r i] rep_distinct[OF r i] by simp_all
    show "set (Q (T_inbox p)) \<inter> set (Q Msgfree_sentinel) = {}" using rep_sep[OF r i h] by auto
  qed
  moreover have "set (Q (T_inbox p)) \<inter> set (Q (T_inbox q)) = {}" if "in_use s p" "in_use s q" "q \<noteq> p" for p q
    using rep_sep[OF r kinv_inbox[OF k, of p] kinv_inbox[OF k, of q]] that u by auto
  ultimately show ?thesis by (intro exI[of _ "Q Msgfree_sentinel"] exI[of _ "\<lambda>p. Q (T_inbox p)"]) blast
qed

theorem messages_accounted_witness:
  "\<exists>s free inbox. ex_system s \<and> list_for_each_entry By_m_next Msgfree_sentinel s = Inr (free, s) \<and>
     list_for_each_entry By_m_next (T_inbox (SSI_tcb s)) s = Inr (inbox, s) \<and> set inbox \<inter> set free = {}"
proof -
  obtain s where s: "ex_system s" "current_thread s = SSI_tcb s" "SSI_tcb s \<noteq> NULL" using ex_booted by blast
  then have u: "in_use s (SSI_tcb s)" by (simp add: in_use_def)
  from messages_accounted[OF s(1)] obtain free inbox where fi: "list_for_each_entry By_m_next Msgfree_sentinel s = Inr (free, s)"
    "\<forall>p. in_use s p \<longrightarrow> list_for_each_entry By_m_next (T_inbox p) s = Inr (inbox p, s) \<and> distinct (inbox p) \<and>
        set (inbox p) \<inter> set free = {} \<and> (\<forall>q. in_use s q \<and> q \<noteq> p \<longrightarrow> set (inbox p) \<inter> set (inbox q) = {})"
    by (elim exE conjE) (rule that, assumption+)
  have "list_for_each_entry By_m_next (T_inbox (SSI_tcb s)) s = Inr (inbox (SSI_tcb s), s)" "set (inbox (SSI_tcb s)) \<inter> set free = {}"
    using fi(2)[THEN spec, THEN mp, OF u] by simp_all
  with s(1) fi(1) show ?thesis by (intro exI[of _ s] exI[of _ free] exI[of _ "inbox (SSI_tcb s)"]) simp
qed

text \<open>
  C11. In the last state of any history of permitted moves (C1 says which are not; a thread
  without a parent that asks for a brother while its ring of brothers is stale is one, and the
  lists of children are what it destroys) the loop over the children of a thread in use meets,
  each once, exactly the threads in use whose parent field names it.
\<close>

theorem children_accounted:
  assumes "boots rom lay dev s0" and "history rom lay dev s0 tr s" and "\<forall>(t, mv)\<in>set tr. permitted t mv" and "in_use s p"
  shows "\<exists>cs. list_for_each_entry By_t_sib (T_child p) s = Inr (cs, s) \<and> distinct cs \<and>
     set cs = {c. in_use s c \<and> parent_of s c = p}"
proof -
  have re: "reachable (boots rom lay dev) (kstep rom lay dev) s" unfolding reachable_history using assms(1-3) by blast
  obtain Q where s: "sane lay s Q" using system_ok[OF re] by (auto simp: kernel_ok_def)
  note k = saneD(1)[OF s] and f = saneD(2)[OF s] and u = in_use_live[OF s]
  have p: "p \<in> live s Q" "T_child p \<in> heads s Q" "p \<noteq> NULL"
    using assms(4) u kinv_live_not_NULL[OF k, of p] by (auto simp: heads_def)
  have "set (Q (T_child p)) = {c. in_use s c \<and> parent_of s c = p}"
    using forest_child(2,3)[OF f p(1)] forest_child(4)[OF f] p(3) u by auto
  then show ?thesis
    using rep_entries[OF kinv_rep[OF k] p(2)] rep_distinct[OF kinv_rep[OF k] p(2)] by auto
qed

theorem children_accounted_witness:
  "\<exists>s cs. ex_system s \<and> list_for_each_entry By_t_sib (T_child (SSI_tcb s)) s = Inr (cs, s) \<and>
     set cs = {c. in_use s c \<and> parent_of s c = SSI_tcb s}"
proof -
  obtain s where s: "ex_system s" "current_thread s = SSI_tcb s" "SSI_tcb s \<noteq> NULL" using ex_booted by blast
  then have u: "in_use s (SSI_tcb s)" by (simp add: in_use_def)
  obtain s0 tr where "boots ex_rom ex_lay ex_dev s0" "history ex_rom ex_lay ex_dev s0 tr s" "\<forall>(t, mv)\<in>set tr. permitted t mv"
    by (rule ex_history[OF s(1)])
  from children_accounted[OF this u] s(1) show ?thesis by (intro exI[of _ s]) auto
qed

end
