(* ===== verification/Sender_Order.thy ===== *)
theory Sender_Order
  imports Walks
begin

text \<open>
  The order of messages. Threads send, receive and are scheduled in any order; what one receives
  from another, whether it waits for the message, is ready or runs, is what the other has sent
  it, in that order. First the specification of message passing keeps the order, then a run of
  the routines of the kernel does.
\<close>

section \<open>Order in the specification\<close>

text \<open>The payloads from \<open>n\<close> that are pending in the mailbox of \<open>p\<close>.\<close>

definition a_pending :: "ipc \<Rightarrow> U32 \<Rightarrow> U32 \<Rightarrow> U32 list" where
  "a_pending A n p = map snd (filter (\<lambda>m. fst m = n) (a_inbox A p))"

text \<open>A thread that waits has nothing in its mailbox that it waits for.\<close>

definition quiet :: "ipc \<Rightarrow> U32 \<Rightarrow> bool" where
  "quiet A p \<longleftrightarrow> (p \<in> set (a_wait A) \<longrightarrow> (\<forall>m\<in>set (a_inbox A p). \<not> satisfies (a_want A p) m))"

lemma quiet_awaits: "quiet A p \<Longrightarrow> a_awaits A n p \<Longrightarrow> a_pending A n p = []"
  by (auto simp: quiet_def a_awaits_def a_pending_def satisfies_def filter_empty_conv)

lemma a_send_same_wait: "a_send y q v A = Some (r, B) \<Longrightarrow> \<not> a_awaits A y q \<Longrightarrow> a_wait B = a_wait A"
  by (auto simp: a_send_def split: if_split_asm)

lemma a_send_order:
  assumes s: "a_send y q v A = Some (r, B)" and q: "quiet A p" and l: "a_live A p" and d: "distinct (a_wait A)"
    and n: "n \<noteq> BUS_INTERVALTIMER"
  shows "quiet B p" and "a_pending A n p @ (if q = p \<and> y = n then [v] else []) =
    (if a_awaits A y q \<and> q = p \<and> y = n then [v] else []) @ a_pending B n p"
proof -
  consider (dead) "\<not> a_live A q" "B = A"
    | (awaits) "a_awaits A y q" "B = A\<lparr>a_wait := remove1 q (a_wait A), a_ready := a_ready A @ [q], a_want := (a_want A)(q := - 1)\<rparr>"
    | (posted) "\<not> a_awaits A y q" "B = A\<lparr>a_free := a_free A - 1, a_inbox := (a_inbox A)(q := (if y = BUS_INTERVALTIMER
         then (y, v) # a_inbox A q else a_inbox A q @ [(y, v)]))\<rparr>"
  proof (cases "a_live A q \<and> \<not> a_awaits A y q")
    case True
    have "B = A\<lparr>a_free := a_free A - 1, a_inbox := (a_inbox A)(q := (if y = BUS_INTERVALTIMER
         then (y, v) # a_inbox A q else a_inbox A q @ [(y, v)]))\<rparr>"
      using s True unfolding a_send_def by (cases "a_free A = 0") simp_all
    with True posted show thesis by blast
  next
    case False
    show thesis
    proof (cases "a_live A q")
      case True
      have "B = A\<lparr>a_wait := remove1 q (a_wait A), a_ready := a_ready A @ [q], a_want := (a_want A)(q := - 1)\<rparr>"
        using s True False unfolding a_send_def by simp
      with True False awaits show thesis by blast
    next
      case False
      have "B = A" using s False unfolding a_send_def by simp
      with False dead show thesis by blast
    qed
  qed
  note cases = this
  from cases show "quiet B p"
  proof cases
    case awaits
    then show ?thesis using q d set_remove1_subset[of q "a_wait A"] by (auto simp: quiet_def)
  next
    case posted
    then show ?thesis using q by (auto simp: quiet_def a_awaits_def satisfies_def)
  qed (use q in simp)
  from cases show "a_pending A n p @ (if q = p \<and> y = n then [v] else []) =
    (if a_awaits A y q \<and> q = p \<and> y = n then [v] else []) @ a_pending B n p"
  proof cases
    case dead
    then show ?thesis using l by (auto simp: a_awaits_def a_live_def)
  next
    case awaits
    then have "a_pending B n p = a_pending A n p" by (simp add: a_pending_def)
    with awaits(1) quiet_awaits[OF q] show ?thesis by auto
  next
    case posted
    then show ?thesis using n by (auto simp: a_pending_def)
  qed
qed

lemma find_pending:
  assumes "find (satisfies want) xs = Some m"
  shows "filter (\<lambda>m. fst m = n) xs = (if fst m = n then [m] else []) @ filter (\<lambda>m. fst m = n) (drop_first (satisfies want) xs)"
proof -
  have "satisfies want m" using assms by (auto simp: find_Some_iff)
  with assms show ?thesis by (induction xs) (auto simp: satisfies_def split: if_splits)
qed

lemma a_recv_order:
  assumes q: "quiet A p" and c: "a_cur A \<notin> set (a_wait A)" and r: "a_recv want A = (x, B)"
  shows "quiet B p" and "a_pending A n p = (case x of None \<Rightarrow> [] | Some m \<Rightarrow> if a_cur A = p \<and> fst m = n then [snd m] else []) @ a_pending B n p"
proof -
  have f: "x = find (satisfies want) (a_inbox A (a_cur A))" using r by (simp add: a_recv_def Let_def split: option.splits)
  show "quiet B p"
  proof (cases x)
    case None
    then have n: "find (satisfies want) (a_inbox A (a_cur A)) = None" using f by simp
    have m: "\<not> satisfies want m" if "m \<in> set (a_inbox A (a_cur A))" for m using that n[unfolded find_None_iff] by blast
    have "B = A\<lparr>a_wait := a_wait A @ [a_cur A], a_cur := NULL, a_want := (a_want A)(a_cur A := want)\<rparr>"
      using r n by (simp add: a_recv_def Let_def)
    with m q c show ?thesis by (cases "p = a_cur A") (simp_all add: quiet_def)
  next
    case (Some m)
    then have "B = A\<lparr>a_free := a_free A + 1, a_inbox := (a_inbox A)(a_cur A := drop_first (satisfies want) (a_inbox A (a_cur A)))\<rparr>"
      using r f by (simp add: a_recv_def Let_def split: option.split_asm)
    with q c show ?thesis by (cases "p = a_cur A") (simp_all add: quiet_def)
  qed
  show "a_pending A n p = (case x of None \<Rightarrow> [] | Some m \<Rightarrow> if a_cur A = p \<and> fst m = n then [snd m] else []) @ a_pending B n p"
  proof (cases x)
    case None
    then show ?thesis using r by (auto simp: a_recv_def Let_def a_pending_def split: option.split_asm)
  next
    case (Some m)
    then have "B = A\<lparr>a_free := a_free A + 1, a_inbox := (a_inbox A)(a_cur A := drop_first (satisfies want) (a_inbox A (a_cur A)))\<rparr>"
      using r f by (simp add: a_recv_def Let_def split: option.split_asm)
    moreover have "find (satisfies want) (a_inbox A (a_cur A)) = Some m" using f Some by simp
    note find_pending[OF this, of n]
    ultimately show ?thesis using Some by (cases "a_cur A = p") (simp_all add: a_pending_def)
  qed
qed


section \<open>Runs of the kernel's routines\<close>

text \<open>
  An operation is a \<open>send\<close>, a \<open>recv\<close> of the running thread or a call of the scheduler. Its
  deliveries are read off the state: a thread that was waiting and no longer is has got the
  sender in its register \<open>v0\<close> and the payload at the address it gave; a \<open>recv\<close> that does not block
  returns the sender and leaves the payload at the address.
\<close>

datatype ipc_op = Sends U32 U32 U32 | Receives U32 U32 | Schedules

type_synonym delivery = "U32 \<times> U32 \<times> U32 option"

definition result_of :: "kstate \<Rightarrow> U32 \<Rightarrow> U32" where
  "result_of s p = (case tcbs s p of None \<Rightarrow> NULL | Some t \<Rightarrow> gpr_get (t_state t) reg_v0)"

fun perform :: "ipc_op \<Rightarrow> delivery list kmon" where
  "perform (Sends x p v) =
     kbind (kget (\<lambda>s. (on_queue Wait_queue p s, reply_of s p))) (\<lambda>(waited, a).
     kthen (send x p v) (kget (\<lambda>s. if waited \<and> \<not> on_queue Wait_queue p s then [(p, result_of s p, mem s a)] else [])))"
| "perform (Receives want a) =
     kbind (kget current_thread) (\<lambda>p.
     if p = NULL then kreturn []
     else kbind (recv p want a) (\<lambda>x. kget (\<lambda>s. if current_thread s = NULL then [] else [(p, x, mem s a)])))"
| "perform Schedules = kthen scheduler (kreturn [])"

fun perform_all :: "ipc_op list \<Rightarrow> delivery list kmon" where
  "perform_all [] = kreturn []"
| "perform_all (x # xs) = kbind (perform x) (\<lambda>d. kbind (perform_all xs) (\<lambda>ds. kreturn (d @ ds)))"

text \<open>What \<open>n\<close> sends to \<open>p\<close>, and what \<open>p\<close> gets from \<open>n\<close>.\<close>

definition sent :: "kstate \<Rightarrow> U32 \<Rightarrow> U32 \<Rightarrow> ipc_op list \<Rightarrow> U32 list" where
  "sent s n p xs = concat (map (\<lambda>x. case x of Sends y q v \<Rightarrow> if q = p \<and> masked_sender s y = n then [v] else [] | _ \<Rightarrow> []) xs)"

definition received :: "U32 \<Rightarrow> U32 \<Rightarrow> delivery list \<Rightarrow> U32 option list" where
  "received n p ds = map (snd \<circ> snd) (filter (\<lambda>d. fst d = p \<and> fst (snd d) = n) ds)"

text \<open>The payloads from \<open>n\<close> that the loop over the inbox of \<open>p\<close> meets.\<close>

definition pending :: "kstate \<Rightarrow> U32 \<Rightarrow> U32 \<Rightarrow> U32 list" where
  "pending s n p = (case list_for_each_entry By_m_next (T_inbox p) s of Inl _ \<Rightarrow> []
     | Inr (ms, _) \<Rightarrow> map snd (filter (\<lambda>m. fst m = n) (map (msg_pair s) ms)))"

text \<open>An operation names no \<open>NULL\<close> receiver, and memory that is there and not the clock's scale.\<close>

fun op_ok :: "kstate \<Rightarrow> ipc_op \<Rightarrow> bool" where
  "op_ok s (Sends x p v) = (p \<noteq> NULL)"
| "op_ok s (Receives want a) = (mem s a \<noteq> None \<and> a \<noteq> BUS_TIMESCALE)"
| "op_ok s Schedules = True"

definition fifo_inv :: "kstate \<Rightarrow> list_head set \<Rightarrow> U32 \<Rightarrow> kstate \<Rightarrow> (list_head \<Rightarrow> U32 list) \<Rightarrow> bool" where
  "fifo_inv s0 H p s Q \<longleftrightarrow> kinv s H Q \<and> addr_ok s \<and> bus_ok s \<and> typed_regs s \<and> (\<forall>q\<in>set (Q Wait_queue). reply_ok s q) \<and>
     quiet (ipc_of s Q) p \<and> p \<in> live s Q \<and> SSI_tcb s = SSI_tcb s0 \<and> (\<forall>a. mem s a = None \<longleftrightarrow> mem s0 a = None)"

lemma kinv_on_queue: "kinv s H Q \<Longrightarrow> on_queue Wait_queue p s \<longleftrightarrow> p \<in> set (Q Wait_queue)"
  using kinv_live_not_NULL[of s H Q p]
  by (auto simp: on_queue_def live_def thereIsThread_eq[OF kinv_rep kinv_heads(2)])

lemma same_registers_typed:
  assumes "typed_regs s" and "same_registers s s' W x"
  shows "typed_regs s'"
  unfolding typed_regs_def
proof (intro allI impI)
  fix p t' assume t': "tcbs s' p = Some t'"
  have m: "map_option t_state (tcbs s' p) = map_option (\<lambda>t. if W p then gpr_set reg_v0 x (t_state t) else t_state t) (tcbs s p)"
    using assms(2) by (simp add: same_registers_def)
  then obtain t where "tcbs s p = Some t" "t_state t' = (if W p then gpr_set reg_v0 x (t_state t) else t_state t)"
    using t' by (cases "tcbs s p") auto
  with assms(1) show "length (gpr (t_state t')) = 29" by (simp add: typed_regs_def)
qed

lemma wp_kget_fun: "wp (kget f) R E = (\<lambda>s. R (f s) s)"
  by (rule ext) simp

abbreviation "kernel_stop \<equiv> (\<lambda>e. e = HALT \<or> e = PANIC)"

lemma perform_sends:
  assumes i: "fifo_inv s0 H p s Q" and q: "q \<noteq> NULL" and n: "n \<noteq> BUS_INTERVALTIMER"
  shows "wp (perform (Sends y q v)) (\<lambda>d s'. \<exists>Q'. fifo_inv s0 H p s' Q' \<and>
     map Some (a_pending (ipc_of s Q) n p @ sent s0 n p [Sends y q v]) = received n p d @ map Some (a_pending (ipc_of s' Q') n p)) kernel_stop s"
proof -
  have k: "kinv s H Q" and ok: "addr_ok s" and b: "bus_ok s" and ty: "typed_regs s" and rp: "\<forall>q\<in>set (Q Wait_queue). reply_ok s q"
    and qt: "quiet (ipc_of s Q) p" and l: "p \<in> live s Q" and ss: "SSI_tcb s = SSI_tcb s0" and dm: "\<forall>a. mem s a = None \<longleftrightarrow> mem s0 a = None"
    using i by (simp_all add: fifo_inv_def)
  let ?y = "masked_sender s y" and ?A = "ipc_of s Q"
  have y0: "masked_sender s0 y = ?y" by (simp add: masked_sender_def ss)
  have dw: "distinct (a_wait ?A)" using rep_distinct[OF kinv_rep[OF k] kinv_heads(2)[OF k]] by (simp add: ipc_of_fields)
  have aw: "a_awaits ?A ?y q \<Longrightarrow> reply_ok s q" using rp by (simp add: a_awaits_def ipc_of_fields)
  have "wp (send y q v) (\<lambda>r s'. wp (kget (\<lambda>s'. if on_queue Wait_queue q s \<and> \<not> on_queue Wait_queue q s'
       then [(q, result_of s' q, mem s' (reply_of s q))] else [])) (\<lambda>d s'. \<exists>Q'. fifo_inv s0 H p s' Q' \<and>
     map Some (a_pending ?A n p @ sent s0 n p [Sends y q v]) = received n p d @ map Some (a_pending (ipc_of s' Q') n p)) kernel_stop s') kernel_stop s"
  proof (rule wp_mono[OF wp_send_refines[OF k ok q refl]])
    show "a_awaits ?A ?y q \<Longrightarrow> mem s (reply_of s q) \<noteq> None" using aw by (simp add: reply_ok_def)
    fix r s'
    assume "\<exists>Q'. kinv s' H Q' \<and> tree_kept Q Q' \<and> addr_ok s' \<and> a_send ?y q v ?A = Some (r, ipc_of s' Q') \<and> SSI_tcb s' = SSI_tcb s \<and>
      service_data s' = service_data s \<and> ipc_only s s' \<and> tcbs s' = woken_up s ?y q (a_awaits ?A ?y q) \<and> soft_block_count s' = soft_block_count s \<and>
      same_registers s s' (\<lambda>z. z = q \<and> a_awaits ?A ?y q) ?y \<and>
      mem s' = (if a_awaits ?A ?y q then (mem s)(reply_of s q \<mapsto> v) else mem s)"
    then obtain Q' where k': "kinv s' H Q'" and ok': "addr_ok s'" and sd: "a_send ?y q v ?A = Some (r, ipc_of s' Q')"
      and ss': "SSI_tcb s' = SSI_tcb s" and tc: "tcbs s' = woken_up s ?y q (a_awaits ?A ?y q)"
      and sr: "same_registers s s' (\<lambda>z. z = q \<and> a_awaits ?A ?y q) ?y"
      and me: "mem s' = (if a_awaits ?A ?y q then (mem s)(reply_of s q \<mapsto> v) else mem s)" by blast
    have lv: "a_live ?A p" using l by (simp add: a_live_ipc_of)
    note ord = a_send_order[OF sd qt lv dw n]
    have w: "set (Q' Wait_queue) \<subseteq> set (Q Wait_queue)" "a_awaits ?A ?y q \<Longrightarrow> q \<notin> set (Q' Wait_queue)"
      using a_send_wait[OF sd] dw by (simp_all add: ipc_of_fields)
    have w': "q \<in> set (Q Wait_queue) \<and> q \<notin> set (Q' Wait_queue) \<longleftrightarrow> a_awaits ?A ?y q"
    proof (cases "a_awaits ?A ?y q")
      case True
      then show ?thesis using w(2) by (simp add: a_awaits_def ipc_of_fields)
    next
      case False
      then have "a_wait (ipc_of s' Q') = a_wait ?A" by (rule a_send_same_wait[OF sd])
      with False show ?thesis by (simp add: ipc_of_fields)
    qed
    have d': "mem s' a = None \<longleftrightarrow> mem s0 a = None" for a using dm aw by (auto simp: me reply_ok_def)
    have rp': "reply_ok s' z" if z: "z \<in> set (Q' Wait_queue)" for z
    proof -
      have "tcbs s' z = tcbs s z" using w(2) z by (auto simp: tc woken_up_def)
      then have "reply_of s' z = reply_of s z" by (simp add: reply_of_def)
      moreover have "reply_ok s z" using rp w(1) z by blast
      ultimately show ?thesis using d' dm by (simp add: reply_ok_def)
    qed
    have b': "bus_ok s'"
    proof (cases "a_awaits ?A ?y q")
      case True
      then show ?thesis using me aw by (intro bus_ok_mem(1)[OF b]) (auto simp: reply_ok_def)
    next
      case False
      then show ?thesis using me by (intro bus_ok_mem(2)[OF b]) simp
    qed
    have "p \<in> live s' Q'" using a_send_live[OF sd, of p] l by (simp add: a_live_ipc_of)
    then have inv: "fifo_inv s0 H p s' Q'"
      using k' ok' b' same_registers_typed[OF ty sr] rp' ord(1) ss ss' d' by (simp add: fifo_inv_def)
    have res: "result_of s' q = ?y \<and> mem s' (reply_of s q) = Some v" if a: "a_awaits ?A ?y q"
    proof -
      obtain t where t: "tcbs s q = Some t"
        using a kinv_tcb[OF k, of q] by (auto simp: a_awaits_def ipc_of_fields live_def)
      moreover have "length (gpr (t_state t)) = 29" using ty t by (simp add: typed_regs_def)
      ultimately show ?thesis using a by (simp add: result_of_def tc woken_up_def woken_def me gpr_get_def gpr_set_def)
    qed
    have d: "(if on_queue Wait_queue q s \<and> \<not> on_queue Wait_queue q s' then [(q, result_of s' q, mem s' (reply_of s q))] else [])
      = (if a_awaits ?A ?y q then [(q, ?y, Some v)] else [])"
      using res w' by (simp add: kinv_on_queue[OF k] kinv_on_queue[OF k'])
    have eq: "map Some (a_pending ?A n p @ sent s0 n p [Sends y q v]) =
      received n p (if a_awaits ?A ?y q then [(q, ?y, Some v)] else []) @ map Some (a_pending (ipc_of s' Q') n p)"
      using arg_cong[OF ord(2), of "map Some"] by (simp add: sent_def received_def y0 split: if_splits)
    show "wp (kget (\<lambda>s'. if on_queue Wait_queue q s \<and> \<not> on_queue Wait_queue q s'
       then [(q, result_of s' q, mem s' (reply_of s q))] else [])) (\<lambda>d s'. \<exists>Q'. fifo_inv s0 H p s' Q' \<and>
     map Some (a_pending ?A n p @ sent s0 n p [Sends y q v]) = received n p d @ map Some (a_pending (ipc_of s' Q') n p)) kernel_stop s'"
      unfolding wp_kget d using inv eq by blast
  qed simp_all
  then show ?thesis by (simp add: wp_kget_fun)
qed


lemma perform_receives:
  assumes i: "fifo_inv s0 H p s Q" and a: "mem s0 a \<noteq> None" "a \<noteq> BUS_TIMESCALE"
  shows "wp (perform (Receives want a)) (\<lambda>d s'. \<exists>Q'. fifo_inv s0 H p s' Q' \<and>
     map Some (a_pending (ipc_of s Q) n p) = received n p d @ map Some (a_pending (ipc_of s' Q') n p)) kernel_stop s"
proof (cases "current_thread s = NULL")
  case True
  with i show ?thesis by (auto simp: received_def)
next
  case c: False
  have k: "kinv s H Q" and ok: "addr_ok s" and b: "bus_ok s" and ty: "typed_regs s" and rp: "\<forall>q\<in>set (Q Wait_queue). reply_ok s q"
    and qt: "quiet (ipc_of s Q) p" and l: "p \<in> live s Q" and ss: "SSI_tcb s = SSI_tcb s0" and dm: "\<forall>a. mem s a = None \<longleftrightarrow> mem s0 a = None"
    using i by (simp_all add: fifo_inv_def)
  let ?c = "current_thread s" and ?A = "ipc_of s Q"
  have ma: "mem s a \<noteq> None" using a(1) dm by simp
  have cw: "a_cur ?A \<notin> set (a_wait ?A)" using kinv_current(2)[OF k c] by (simp add: ipc_of_fields)
  obtain x B where r: "a_recv want ?A = (x, B)" by (cases "a_recv want ?A")
  note ord = a_recv_order[OF qt cw r]
  have "wp (recv ?c want a) (\<lambda>y s'. wp (kget (\<lambda>s. if current_thread s = NULL then [] else [(?c, y, mem s a)])) (\<lambda>d s'. \<exists>Q'.
      fifo_inv s0 H p s' Q' \<and> map Some (a_pending ?A n p) = received n p d @ map Some (a_pending (ipc_of s' Q') n p)) kernel_stop s') kernel_stop s"
  proof (rule wp_mono[OF wp_recv_refines[OF k ok refl c, of want a]])
    fix y s'
    assume "\<exists>Q'. kinv s' H Q' \<and> tree_kept Q Q' \<and> addr_ok s' \<and> SSI_tcb s' = SSI_tcb s \<and> service_data s' = service_data s \<and>
      same_registers s s' (\<lambda>_. False) NULL \<and> (\<forall>q. q \<noteq> ?c \<longrightarrow> tcbs s' q = tcbs s q) \<and>
      (case a_recv want ?A of
         (None, B) \<Rightarrow> y = NULL \<and> B = ipc_of s' Q' \<and> mem s' = mem s \<and> reply_of s' ?c = a \<and> soft_block_count s' = soft_block_count s
       | (Some (x, v), B) \<Rightarrow> y = x \<and> B = ipc_of s' Q' \<and> mem s' = (mem s)(a \<mapsto> v))"
    then obtain Q' where k': "kinv s' H Q'" and ok': "addr_ok s'" and ss': "SSI_tcb s' = SSI_tcb s"
      and sr: "same_registers s s' (\<lambda>_. False) NULL" and tc: "\<forall>q. q \<noteq> ?c \<longrightarrow> tcbs s' q = tcbs s q"
      and cs: "case a_recv want ?A of (None, B) \<Rightarrow> y = NULL \<and> B = ipc_of s' Q' \<and> mem s' = mem s \<and> reply_of s' ?c = a \<and>
          soft_block_count s' = soft_block_count s
        | (Some (x, v), B) \<Rightarrow> y = x \<and> B = ipc_of s' Q' \<and> mem s' = (mem s)(a \<mapsto> v)"
      by (elim exE conjE) (rule that, assumption+)
    have B: "B = ipc_of s' Q'" and out: "case x of None \<Rightarrow> mem s' = mem s \<and> reply_of s' ?c = a | Some (z, v) \<Rightarrow> y = z \<and> mem s' = (mem s)(a \<mapsto> v)"
      using cs unfolding r by (cases x; simp split: prod.split_asm)+
    have w: "Q' Wait_queue = Q Wait_queue @ (if x = None then [?c] else [])" "current_thread s' = (if x = None then NULL else ?c)"
      using arg_cong[OF B, of a_wait] arg_cong[OF B, of a_cur] a_recv_wait[of want ?A] r
      by (auto simp: ipc_of_fields a_recv_def Let_def split: option.splits)
    have d': "mem s' z = None \<longleftrightarrow> mem s0 z = None" for z
      using dm ma out by (cases "z = a") (auto split: option.splits)
    have b': "bus_ok s'"
      using out bus_ok_mem(1)[OF b _ a(2), of s'] bus_ok_mem(2)[OF b, of s'] by (auto split: option.splits)
    have rp': "reply_ok s' z" if z: "z \<in> set (Q' Wait_queue)" for z
    proof (cases "z = ?c")
      case True
      then have "x = None" using z w(1) kinv_current(2)[OF k c] by (auto split: if_splits)
      then show ?thesis using out True ma a(2) by (simp add: reply_ok_def)
    next
      case False
      then have "reply_of s' z = reply_of s z" using tc by (simp add: reply_of_def)
      moreover have "reply_ok s z" using rp z False w(1) by (auto split: if_splits)
      ultimately show ?thesis using d' dm by (simp add: reply_ok_def)
    qed
    have "p \<in> live s' Q'"
      using a_recv_live[of ?A want p] l c r B by (simp add: a_live_ipc_of ipc_of_fields)
    then have "fifo_inv s0 H p s' Q'"
      using k' ok' b' same_registers_typed[OF ty sr] rp' ord(1) ss ss' d' B by (simp add: fifo_inv_def)
    moreover have "a_cur ?A = ?c" by (simp add: ipc_of_fields)
    ultimately show "wp (kget (\<lambda>s. if current_thread s = NULL then [] else [(?c, y, mem s a)])) (\<lambda>d s'. \<exists>Q'.
      fifo_inv s0 H p s' Q' \<and> map Some (a_pending ?A n p) = received n p d @ map Some (a_pending (ipc_of s' Q') n p)) kernel_stop s'"
      using ord(2)[of n] out w(2) c B
      by (auto simp: received_def split: option.splits intro!: exI[of _ Q'])
  qed (use ma in simp_all)
  with c show ?thesis by (simp add: wp_kget_fun)
qed

lemma perform_schedules:
  assumes i: "fifo_inv s0 H p s Q"
  shows "wp (perform Schedules) (\<lambda>d s'. \<exists>Q'. fifo_inv s0 H p s' Q' \<and>
     map Some (a_pending (ipc_of s Q) n p) = received n p d @ map Some (a_pending (ipc_of s' Q') n p)) kernel_stop s"
proof -
  have k: "kinv s H Q" and ok: "addr_ok s" and b: "bus_ok s" and ty: "typed_regs s" and rp: "\<forall>q\<in>set (Q Wait_queue). reply_ok s q"
    and qt: "quiet (ipc_of s Q) p" and l: "p \<in> live s Q" and ss: "SSI_tcb s = SSI_tcb s0" and dm: "\<forall>a. mem s a = None \<longleftrightarrow> mem s0 a = None"
    using i by (simp_all add: fifo_inv_def)
  define Q' where "Q' = (if current_thread s = NULL then Q(Ready_queue := tl (Q Ready_queue)) else Q)"
  have "wp scheduler (\<lambda>_ s'. fifo_inv s0 H p s' Q' \<and> a_pending (ipc_of s' Q') n p = a_pending (ipc_of s Q) n p) kernel_stop s"
  proof (rule wp_scheduler_after[OF k b])
    fix r s' assume sc: "scheduled s H Q r s'"
    have k': "kinv s' H Q'" and lv: "live s' Q' = live s Q" using sc scheduled_live[OF sc k] by (simp_all add: scheduled_def Q'_def)
    have f: "service_data s' = service_data s" "msgs s' = msgs s" "bus_ok s'" "\<And>a. a \<noteq> BUS_INTERVALTIMER \<Longrightarrow> mem s' a = mem s a"
      "\<And>q. q \<noteq> current_thread s' \<Longrightarrow> tcbs s' q = tcbs s q" "\<And>q. map_option t_state (tcbs s' q) = map_option t_state (tcbs s q)"
      using sc by (simp_all add: scheduled_def)
    have sv: "SSI_tcb s' = SSI_tcb s" by (rule service_data_fields(1)[OF f(1)])
    have n': "tcbs s' q = None \<longleftrightarrow> tcbs s q = None" for q using f(6)[of q] by (cases "tcbs s q"; cases "tcbs s' q") auto
    have q: "Q' Wait_queue = Q Wait_queue" "Q' (T_inbox z) = Q (T_inbox z)" for z by (simp_all add: Q'_def)
    have "msg_pair s' = msg_pair s" using f(2) by (simp add: msg_pair_def fun_eq_iff)
    then have ib: "a_inbox (ipc_of s' Q') z = a_inbox (ipc_of s Q) z" for z by (simp add: ipc_of_fields lv q)
    have wt: "tcbs s' z = tcbs s z" if "z \<in> set (Q Wait_queue)" for z
    proof (cases "current_thread s' = NULL")
      case True
      have "z \<noteq> NULL" using kinv_live_not_NULL[OF k, of z] that by (simp add: live_def)
      then show ?thesis using f(5) True by simp
    next
      case False
      then show ?thesis using f(5)[of z] kinv_current(2)[OF k' False] that q(1) by auto
    qed
    have d': "mem s' a = None \<longleftrightarrow> mem s0 a = None" for a
      using f(4)[of a] dm b f(3) by (cases "a = BUS_INTERVALTIMER") (auto simp: bus_ok_def)
    have "typed_regs s'"
      unfolding typed_regs_def
    proof (intro allI impI)
      fix z t' assume "tcbs s' z = Some t'"
      with f(6)[of z] obtain t where "tcbs s z = Some t" "t_state t' = t_state t" by (cases "tcbs s z") auto
      with ty show "length (gpr (t_state t')) = 29" by (simp add: typed_regs_def)
    qed
    moreover have "\<forall>z\<in>set (Q' Wait_queue). reply_ok s' z"
      using rp wt d' dm by (simp add: q reply_ok_def reply_of_def)
    moreover have "a_want (ipc_of s' Q') p = a_want (ipc_of s Q) p" if "p \<in> set (Q Wait_queue)"
      using wt[OF that] by (simp add: ipc_of_fields)
    then have "quiet (ipc_of s' Q') p" using qt by (simp add: quiet_def ib) (simp add: ipc_of_fields(2) q)
    ultimately have "fifo_inv s0 H p s' Q'"
      using k' ok n' f(3) l lv sv ss d' by (simp add: fifo_inv_def addr_ok_def)
    then show "fifo_inv s0 H p s' Q' \<and> a_pending (ipc_of s' Q') n p = a_pending (ipc_of s Q) n p" by (simp add: a_pending_def ib)
  qed (simp add: nothing_runs_def)
  then show ?thesis by (auto simp: wp_def received_def split: sum.splits intro!: exI[of _ Q'])
qed


lemma sent_Cons: "sent s n p (x # xs) = sent s n p [x] @ sent s n p xs"
  by (simp add: sent_def)

lemma perform_order:
  assumes "fifo_inv s0 H p s Q" and "op_ok s0 x" and "n \<noteq> BUS_INTERVALTIMER"
  shows "wp (perform x) (\<lambda>d s'. \<exists>Q'. fifo_inv s0 H p s' Q' \<and>
     map Some (a_pending (ipc_of s Q) n p @ sent s0 n p [x]) = received n p d @ map Some (a_pending (ipc_of s' Q') n p)) kernel_stop s"
proof (cases x)
  case (Sends y q v)
  then have "q \<noteq> NULL" using assms(2) by simp
  from perform_sends[OF assms(1) this assms(3), of y v] show ?thesis unfolding Sends .
next
  case (Receives want a)
  with perform_receives[OF assms(1), of a want n] assms(2) show ?thesis by (simp add: sent_def del: perform.simps)
next
  case Schedules
  with perform_schedules[OF assms(1), of n] show ?thesis by (simp add: sent_def del: perform.simps)
qed

lemma perform_all_order:
  assumes "n \<noteq> BUS_INTERVALTIMER"
  shows "fifo_inv s0 H p s Q \<Longrightarrow> list_all (op_ok s0) xs \<Longrightarrow> wp (perform_all xs) (\<lambda>ds s'. \<exists>Q'. fifo_inv s0 H p s' Q' \<and>
     map Some (a_pending (ipc_of s Q) n p @ sent s0 n p xs) = received n p ds @ map Some (a_pending (ipc_of s' Q') n p)) kernel_stop s"
proof (induction xs arbitrary: s Q)
  case Nil
  then show ?case unfolding perform_all.simps wp_kreturn by (auto simp: sent_def received_def)
next
  case (Cons x xs)
  have "wp (perform x) (\<lambda>d. wp (kbind (perform_all xs) (\<lambda>ds. kreturn (d @ ds))) (\<lambda>ds s'. \<exists>Q'. fifo_inv s0 H p s' Q' \<and>
     map Some (a_pending (ipc_of s Q) n p @ sent s0 n p (x # xs)) = received n p ds @ map Some (a_pending (ipc_of s' Q') n p)) kernel_stop) kernel_stop s"
  proof (rule wp_mono[OF perform_order[OF Cons.prems(1) _ assms]])
    fix d s1
    assume "\<exists>Q'. fifo_inv s0 H p s1 Q' \<and>
      map Some (a_pending (ipc_of s Q) n p @ sent s0 n p [x]) = received n p d @ map Some (a_pending (ipc_of s1 Q') n p)"
    then obtain Q1 where i: "fifo_inv s0 H p s1 Q1"
      and e: "map Some (a_pending (ipc_of s Q) n p @ sent s0 n p [x]) = received n p d @ map Some (a_pending (ipc_of s1 Q1) n p)" by blast
    have "wp (perform_all xs) (\<lambda>ds. wp (kreturn (d @ ds)) (\<lambda>ds s'. \<exists>Q'. fifo_inv s0 H p s' Q' \<and>
       map Some (a_pending (ipc_of s Q) n p @ sent s0 n p (x # xs)) = received n p ds @ map Some (a_pending (ipc_of s' Q') n p)) kernel_stop) kernel_stop s1"
    proof (rule wp_mono[OF Cons.IH[OF i]])
      fix ds s2
      assume "\<exists>Q'. fifo_inv s0 H p s2 Q' \<and>
        map Some (a_pending (ipc_of s1 Q1) n p @ sent s0 n p xs) = received n p ds @ map Some (a_pending (ipc_of s2 Q') n p)"
      then obtain Q2 where i2: "fifo_inv s0 H p s2 Q2"
        and e2: "map Some (a_pending (ipc_of s1 Q1) n p @ sent s0 n p xs) = received n p ds @ map Some (a_pending (ipc_of s2 Q2) n p)" by blast
      have "map Some (a_pending (ipc_of s Q) n p @ sent s0 n p (x # xs)) =
        map Some (a_pending (ipc_of s Q) n p @ sent s0 n p [x]) @ map Some (sent s0 n p xs)" by (subst sent_Cons) simp
      also have "\<dots> = received n p (d @ ds) @ map Some (a_pending (ipc_of s2 Q2) n p)"
        using e2 unfolding e by (simp add: received_def)
      finally show "wp (kreturn (d @ ds)) (\<lambda>ds s'. \<exists>Q'. fifo_inv s0 H p s' Q' \<and>
         map Some (a_pending (ipc_of s Q) n p @ sent s0 n p (x # xs)) = received n p ds @ map Some (a_pending (ipc_of s' Q') n p)) kernel_stop s2"
        unfolding wp_kreturn using i2 by blast
    qed (use Cons.prems(2) in simp_all)
    then show "wp (kbind (perform_all xs) (\<lambda>ds. kreturn (d @ ds))) (\<lambda>ds s'. \<exists>Q'. fifo_inv s0 H p s' Q' \<and>
       map Some (a_pending (ipc_of s Q) n p @ sent s0 n p (x # xs)) = received n p ds @ map Some (a_pending (ipc_of s' Q') n p)) kernel_stop s1"
      unfolding wp_kbind .
  qed (use Cons.prems(2) in simp_all)
  then show ?case unfolding perform_all.simps wp_kbind .
qed

lemma pending_ipc:
  assumes "kinv s H Q" and "p \<in> live s Q"
  shows "pending s n p = a_pending (ipc_of s Q) n p"
  using rep_entries[OF kinv_rep[OF assms(1)] kinv_inbox[OF assms]] assms(2)
  by (simp add: pending_def a_pending_def ipc_of_fields)

text \<open>
  C34. Let threads send, receive and be scheduled in any order. What \<open>p\<close> had pending from \<open>n\<close>,
  followed by what \<open>n\<close> has sent to \<open>p\<close>, is what \<open>p\<close> has received from \<open>n\<close>, followed by what it then
  has pending: nothing is lost, doubled or overtaken, whether \<open>p\<close> was ready, waiting or running when
  a message came, and whatever else was sent and received in between. This is for every sender but
  the interval timer, whose messages are urgent; and at the start each thread that waits has
  an address for its message (none is frozen), and \<open>p\<close> does not wait for what it has got. The run
  stops early only by the kernel's own \<open>HALT\<close> or \<open>PANIC\<close>.
\<close>

theorem sender_order_kept:
  assumes "kinv s H Q" and "addr_ok s" and "bus_ok s" and "typed_regs s" and "in_use s p" and "n \<noteq> BUS_INTERVALTIMER"
    and "list_all (op_ok s) xs" and "\<forall>q. on_queue Wait_queue q s \<longrightarrow> reply_ok s q"
    and "\<forall>w. waits_for s p w \<longrightarrow> pending s w p = [] \<and> (w = ANYMESSAGE \<longrightarrow> (\<forall>m. pending s m p = []))"
  shows "case perform_all xs s of Inl e \<Rightarrow> e = HALT \<or> e = PANIC
    | Inr (ds, s') \<Rightarrow> map Some (pending s n p @ sent s n p xs) = received n p ds @ map Some (pending s' n p)"
proof -
  note k = assms(1)
  have "on_queue Ready_queue p s \<longleftrightarrow> p \<in> set (Q Ready_queue)"
    using kinv_live_not_NULL[OF k, of p] by (auto simp: on_queue_def live_def thereIsThread_eq[OF kinv_rep[OF k] kinv_heads(1)[OF k]])
  then have l: "p \<in> live s Q" using assms(5) kinv_on_queue[OF k] by (auto simp: in_use_def live_def)
  have "quiet (ipc_of s Q) p"
    unfolding quiet_def
  proof (intro impI ballI)
    fix m assume w: "p \<in> set (a_wait (ipc_of s Q))" and m: "m \<in> set (a_inbox (ipc_of s Q) p)"
    obtain t where t: "tcbs s p = Some t" using kinv_tcb[OF k l] by blast
    have "waits_for s p (a_want (ipc_of s Q) p)" using w t by (simp add: waits_for_def kinv_on_queue[OF k] ipc_of_fields)
    then show "\<not> satisfies (a_want (ipc_of s Q) p) m"
      using assms(9) m by (fastforce simp: satisfies_def pending_ipc[OF k l] a_pending_def filter_empty_conv)
  qed
  then have "fifo_inv s H p s Q" using assms(1-4,8) l kinv_on_queue[OF k] by (simp add: fifo_inv_def)
  from perform_all_order[OF assms(6) this assms(7)] show ?thesis
    by (auto simp: wp_def fifo_inv_def pending_ipc[OF k l] pending_ipc split: sum.splits)
qed

text \<open>The receiver \<open>0x100\<close> waits when the first message comes and is ready when the second does.\<close>

abbreviation "ex_ops \<equiv> [Sends 0x200 0x100 5, Sends 0x200 0x100 8]"

lemma ex_ipc_run:
  "case perform_all ex_ops (ex_run (ex_area 0 0 0 0)) of Inl e \<Rightarrow> False | Inr (ds, s') \<Rightarrow> pending s' 0x200 0x100 = [8]"
  by code_simp

theorem sender_order_kept_witness:
  "\<exists>ds s'. perform_all ex_ops (ex_run (ex_area 0 0 0 0)) = Inr (ds, s') \<and> received 0x200 0x100 ds = [Some 5]"
proof -
  let ?s = "ex_run (ex_area 0 0 0 0)"
  obtain ds s' where r: "perform_all ex_ops ?s = Inr (ds, s')" "pending s' 0x200 0x100 = [8]"
    using ex_ipc_run by (auto split: sum.splits)
  note k = ex_running[of "ex_area 0 0 0 0"]
  have l: "0x100 \<in> live ?s ex_run_Q" by (simp add: live_def ex_Q_simps)
  have b: "bus_ok ?s" by (simp add: bus_ok_def ex_fields)
  have ty: "typed_regs ?s" by (auto simp: typed_regs_def ex_fields ex_tcb_def split: if_splits)
  have q: "on_queue Wait_queue p ?s \<longleftrightarrow> p = 0x100" for p by (simp add: kinv_on_queue[OF k] ex_Q_simps)
  have u: "in_use ?s 0x100" by (simp add: in_use_def q)
  have ib: "a_inbox (ipc_of ?s ex_run_Q) 0x100 = []" by (simp add: ipc_of_fields ex_Q_simps)
  have "pending ?s 0x200 0x100 = []" by (simp add: pending_ipc[OF k l] a_pending_def ib)
  moreover have "sent ?s 0x200 0x100 ex_ops = [5, 8]" by (simp add: sent_def masked_sender_def ex_fields)
  moreover have "\<forall>p. on_queue Wait_queue p ?s \<longrightarrow> reply_ok ?s p" by (simp add: q reply_ok_def reply_of_def ex_fields ex_tcb_def)
  moreover have "\<forall>w. waits_for ?s 0x100 w \<longrightarrow> pending ?s w 0x100 = [] \<and> (w = ANYMESSAGE \<longrightarrow> (\<forall>m. pending ?s m 0x100 = []))"
    by (simp add: pending_ipc[OF k l] a_pending_def ib)
  moreover have "list_all (op_ok ?s) ex_ops" by (simp add: ex_fields)
  ultimately show ?thesis
    using sender_order_kept[OF k ex_addr_ok b ty u, of "0x200" ex_ops] r by auto
qed

end
