(* ===== verification/Siblings.thy ===== *)
theory Siblings
  imports Snapshot
begin

text \<open>
  The rings of brothers of threads that are nobody's children. Unlike the lists of children they
  have no head, and \<open>outChild\<close>, which \<open>terminate\<close> calls, does not take a thread out of one: the
  links of the other brothers go on pointing to the TCB. This theory shows what becomes of the
  lists of children when the TCB is used again.
\<close>

section \<open>Rings and closed sets of links\<close>

lemma linked_leaves:
  assumes "linked L a xs b" and "b \<notin> S" and "\<And>y. y \<in> S \<Longrightarrow> lnext L y \<in> S"
  shows "set xs \<inter> S = {}"
  using assms(1)
proof (induction xs arbitrary: a)
  case (Cons x xs)
  then have rest: "set xs \<inter> S = {}" and l: "linked L x xs b" by auto
  have "lnext L x \<notin> S" using l rest assms(2) by (cases xs) auto
  with assms(3) have "x \<notin> S" by blast
  with rest show ?case by simp
qed simp

lemma linked_stays:
  assumes "linked L a xs b" and "a \<in> M" and "\<And>y. y \<in> M \<Longrightarrow> lnext L' y \<in> M"
    and "\<And>y. y \<in> set (a # xs) \<Longrightarrow> lnext L' y = lnext L y"
  shows "b \<in> M"
  using assms(1,2,4)
proof (induction xs arbitrary: a)
  case Nil
  with assms(3)[of a] show ?case by simp
next
  case (Cons x xs)
  have "x \<in> M" using Cons.prems assms(3)[of a] by simp
  then show ?case using Cons.IH[of x] Cons.prems by simp
qed

lemma linked_next: "linked L a xs b \<Longrightarrow> y \<in> set (a # xs) \<Longrightarrow> lnext L y \<in> set (xs @ [b])"
  by (induction xs arbitrary: a) auto

text \<open>Changing a ring behind one of its members so that the walk never returns leaves no ring.\<close>

lemma ring_cut:
  assumes r: "ring L h (ys @ m # zs)" and S: "m \<in> S" "h \<notin> S" "\<And>y. y \<in> S \<Longrightarrow> lnext L' y \<in> S"
    and same: "\<And>y. y \<in> set (h # ys) \<Longrightarrow> lnext L' y = lnext L y"
  shows "\<not> ring L' h xs"
proof
  assume r': "ring L' h xs"
  then have l: "linked L' h xs h" by (simp add: ring_def)
  have nx: "lnext L' y \<in> set (h # xs)" if "y \<in> set (h # xs)" for y
    using linked_next[OF l that] by auto
  have "linked L h ys m" using r by (simp add: ring_def)
  then have "m \<in> set (h # xs)" by (rule linked_stays[where M = "set (h # xs)" and L' = L', OF _ _ nx same]) auto
  moreover have "set xs \<inter> S = {}" by (rule linked_leaves[OF l S(2,3)])
  ultimately show False using S(1,2) by auto
qed

section \<open>A TCB that is used again\<close>

definition lost_children :: "U32 \<Rightarrow> kstate \<Rightarrow> bool" where
  "lost_children x s \<longleftrightarrow> \<not> (\<exists>H Q. T_child x \<in> H \<and> rep s H Q)"

text \<open>A thread put between the last child of \<open>x\<close> and a thread whose links both name that child.\<close>

lemma lost_between:
  assumes r: "rep s H Q" and x: "T_child x \<in> H" and q: "Q (T_child x) = qs @ [q]" and c: "c \<notin> set qs" "c \<noteq> q" "p \<noteq> q" "p \<noteq> c"
    and p: "lnext (lst s) (T_sib p) = T_sib q"
  shows "lost_children x (s\<lparr>lst := add_between (T_sib c) (T_sib q) (T_sib p) (lst s)\<rparr>)"
  unfolding lost_children_def
proof (intro notI, elim exE conjE)
  let ?L = "add_between (T_sib c) (T_sib q) (T_sib p) (lst s)"
  fix H' Q' assume "T_child x \<in> H'" "rep (s\<lparr>lst := ?L\<rparr>) H' Q'"
  then have r': "ring ?L (T_child x) (members (T_child x) Q')" by (simp add: rep_def rings_def)
  have d: "distinct (qs @ [q])" using rep_distinct[OF r x] q by simp
  have "ring (lst s) (T_child x) (map (link_of By_t_sib) qs @ T_sib q # [])"
    using rings_ring[OF rep_rings[OF r] x] q by simp
  moreover have "lnext ?L y = lnext (lst s) y" if "y \<in> set (T_child x # map (link_of By_t_sib) qs)" for y
    using that c d by (auto simp: add_between_def)
  moreover have "\<And>y. y \<in> T_sib ` {p, q, c} \<Longrightarrow> lnext ?L y \<in> T_sib ` {p, q, c}"
    using p c by (auto simp: add_between_def)
  ultimately show False
    using ring_cut[of "lst s" "T_child x" "map (link_of By_t_sib) qs" "T_sib q" "[]" "T_sib ` {p, q, c}" ?L "members (T_child x) Q'"] r' by auto
qed

text \<open>
  C38. A stale ring of brothers breaks the lists of children. A thread \<open>p\<close> that is nobody's child
  creates the brother \<open>q\<close>; \<open>q\<close> ends, which does not touch the ring; its TCB is used again for a
  child of \<open>x\<close>; then \<open>p\<close> creates the brother \<open>c\<close>. Each of these operations comes to its end, but
  afterwards the walk along the children of \<open>x\<close> goes from \<open>q\<close> to \<open>c\<close>, to \<open>p\<close> and back to \<open>q\<close>: no
  assignment of children to \<open>x\<close> describes the links any more (\<open>lost_children\<close>).
\<close>

theorem brother_reuse_breaks_lists:
  assumes "rep s H Q" and "T_child x \<in> H" and "distinct [p, q, c]"
    and "\<And>y. y \<in> {p, q, c} \<Longrightarrow> unlinked H Q By_t_sib y \<and> tcbs s y \<noteq> None"
    and "tcbs s q = Some t" and "t_parent t = NULL"
    and "lnext (lst s) (T_sib p) = T_sib p" and "lprev (lst s) (T_sib p) = T_sib p"
  shows "\<exists>s1 s'. kthen (insertSibling p q) (outChild q) s = Inr (NULL, s1) \<and>
     kthen (insertChild x q) (insertSibling p c) s1 = Inr ((), s') \<and>
     lnext (lst s') (T_sib q) = T_sib c \<and> lnext (lst s') (T_sib c) = T_sib p \<and> lnext (lst s') (T_sib p) = T_sib q \<and>
     lost_children x s'"
proof -
  have un: "unlinked H Q By_t_sib y" if "y \<in> {p, q, c}" for y using assms(4) that by blast
  have v: "tcbs s p \<noteq> None" "tcbs s q \<noteq> None" "tcbs s c \<noteq> None" using assms(4) by simp_all
  define s1 where "s1 = s\<lparr>lst := add_between (T_sib q) (T_sib p) (T_sib p) (lst s)\<rparr>"
  have r1: "rep s1 H Q" unfolding s1_def by (rule rep_add_sibling[OF assms(1)]) (use un in blast)
  have p1: "lnext (lst s1) (T_sib p) = T_sib q" "lprev (lst s1) (T_sib p) = T_sib q"
    using assms(3) by (simp_all add: s1_def add_between_def)
  have e1: "wp (kthen (insertSibling p q) (outChild q)) (\<lambda>r s'. r = NULL \<and> s' = s1) no_stop s"
    using wp_insertSibling_links[OF assms(8), of q] v assms(5,6) by (simp add: outChild_def s1_def)
  let ?res = "\<lambda>s'. lnext (lst s') (T_sib q) = T_sib c \<and> lnext (lst s') (T_sib c) = T_sib p \<and> lnext (lst s') (T_sib p) = T_sib q \<and>
     lost_children x s'"
  have "wp (insertChild x q) (\<lambda>_. wp (insertSibling p c) (\<lambda>_. ?res) no_stop) no_stop s1"
  proof (rule wp_insertChild[OF r1 assms(2) un[of q]])
    show "tcbs s1 q = Some t" by (simp add: s1_def assms(5))
    fix L let ?s2 = "s1\<lparr>tcbs := (tcbs s1)(q \<mapsto> t\<lparr>t_parent := x\<rparr>), lst := L\<rparr>"
    assume r2: "rep ?s2 H (Q(T_child x := Q (T_child x) @ [q]))"
      and so: "same_outside (set (T_sib q # T_child x # members (T_child x) Q)) (lst s1) L"
    have nm: "p \<notin> set (Q (T_child x))" "c \<notin> set (Q (T_child x))" using un assms(2) by (simp_all add: unlinked_def)
    then have "T_sib p \<notin> set (T_sib q # T_child x # members (T_child x) Q)"
      using in_members[of By_t_sib p "T_child x" Q] assms(3) by auto
    then have p2: "lnext L (T_sib p) = T_sib q" "lprev L (T_sib p) = T_sib q" using so p1 by (simp_all add: same_outside_def)
    have "lost_children x (?s2\<lparr>lst := add_between (T_sib c) (T_sib q) (T_sib p) (lst ?s2)\<rparr>)"
      by (rule lost_between[OF r2 assms(2), where qs = "Q (T_child x)"]) (use nm p2 assms(3) in auto)
    then have "?res (?s2\<lparr>lst := add_between (T_sib c) (T_sib q) (T_sib p) (lst ?s2)\<rparr>)"
      using assms(3) p2 by (auto simp: add_between_def)
    then show "wp (insertSibling p c) (\<lambda>_. ?res) no_stop ?s2"
      using p2 v by (subst wp_insertSibling_links[where q = q]) (simp_all add: s1_def)
  qed simp
  then have "wp (kthen (insertChild x q) (insertSibling p c)) (\<lambda>_. ?res) no_stop s1" by simp
  with e1 show ?thesis by (auto simp: wp_total)
qed

theorem brother_reuse_breaks_lists_witness:
  "\<exists>s1 s'. kthen (insertSibling 0x100 0x400) (outChild 0x400) (ex_state 0x200 [0x300] [0x100] undefined) = Inr (NULL, s1) \<and>
     kthen (insertChild 0x300 0x400) (insertSibling 0x100 0x200) s1 = Inr ((), s') \<and> lost_children 0x300 s'"
proof -
  let ?s = "ex_state 0x200 [0x300] [0x100] undefined"
  have u: "unlinked ex_H (mk_Q (ex_contents [0x300] [0x100])) By_t_sib y \<and> tcbs ?s y \<noteq> None" if "y \<in> {0x100, 0x400, 0x200}" for y
    using that by (auto simp: unlinked_def ex_Q_simps ex_fields)
  have l: "lnext (lst ?s) (T_sib 0x100) = T_sib 0x100" "lprev (lst ?s) (T_sib 0x100) = T_sib 0x100"
    by (simp_all add: ex_state_def mk_links_def ex_contents_def ring_pairs_def ring_of_def)
  have t: "tcbs ?s 0x400 = Some (ex_tcb 0 0 0)" by (simp add: ex_fields)
  have p: "t_parent (ex_tcb 0 0 0) = NULL" by (simp add: ex_tcb_def)
  have "\<exists>s1 s'. kthen (insertSibling 0x100 0x400) (outChild 0x400) ?s = Inr (NULL, s1) \<and>
     kthen (insertChild 0x300 0x400) (insertSibling 0x100 0x200) s1 = Inr ((), s') \<and>
     lnext (lst s') (T_sib 0x400) = T_sib 0x200 \<and> lnext (lst s') (T_sib 0x200) = T_sib 0x100 \<and> lnext (lst s') (T_sib 0x100) = T_sib 0x400 \<and>
     lost_children 0x300 s'"
    by (rule brother_reuse_breaks_lists[OF kinv_rep[OF ex_running] _ _ u t p l]) simp_all
  then show ?thesis by blast
qed

end
