(* ===== verification/Cp0_Fields.thy ===== *)
theory Cp0_Fields
  imports Kernel_State
begin

text \<open>
  The macros of \<^verbatim>\<open>const.h\<close> for the fields of the coprocessor registers that the kernel does not use
  itself: what it offers to code that manages address spaces. Setting a field and reading it back
  gives the value, and leaves the other fields alone, as long as the value fits the field; a value
  that does not fit runs into the field above.
\<close>

unbundle bit_operations_syntax

definition ENTRYHI_SEGNO_GET :: "U32 \<Rightarrow> U32" where "ENTRYHI_SEGNO_GET entryHI = drop_bit 30 (entryHI AND 0xc0000000)"
definition ENTRYHI_VPN_GET :: "U32 \<Rightarrow> U32" where "ENTRYHI_VPN_GET entryHI = drop_bit 12 (entryHI AND 0x3ffff000)"
definition ENTRYHI_ASID_GET :: "U32 \<Rightarrow> U32" where "ENTRYHI_ASID_GET entryHI = drop_bit 6 (entryHI AND 0x00000fc0)"
definition ENTRYHI_SEGNO_SET :: "U32 \<Rightarrow> U32 \<Rightarrow> U32" where "ENTRYHI_SEGNO_SET entryHI seg_no = (entryHI AND 0x3fffffff) OR push_bit 30 seg_no"
definition ENTRYHI_VPN_SET :: "U32 \<Rightarrow> U32 \<Rightarrow> U32" where "ENTRYHI_VPN_SET entryHI vpn = (entryHI AND 0xc0000fff) OR push_bit 12 vpn"
definition ENTRYHI_ASID_SET :: "U32 \<Rightarrow> U32 \<Rightarrow> U32" where "ENTRYHI_ASID_SET entryHI asid = (entryHI AND 0xfffff03f) OR push_bit 6 asid"
definition ENTRYLO_PFN_GET :: "U32 \<Rightarrow> U32" where "ENTRYLO_PFN_GET entryLO = drop_bit 12 (entryLO AND 0xfffff000)"
definition ENTRYLO_PFN_SET :: "U32 \<Rightarrow> U32 \<Rightarrow> U32" where "ENTRYLO_PFN_SET entryLO pfn = (entryLO AND 0x00000fff) OR push_bit 12 pfn"
definition CAUSE_EXCCODE_SET :: "U32 \<Rightarrow> U32 \<Rightarrow> U32" where "CAUSE_EXCCODE_SET c exc_code = (c AND 0xffffff83) OR push_bit 2 exc_code"

text \<open>All of them are fields: \<open>w\<close> bits from bit \<open>k\<close> on.\<close>

definition field_get :: "nat \<Rightarrow> nat \<Rightarrow> U32 \<Rightarrow> U32" where
  "field_get k w x = take_bit w (drop_bit k x)"

definition field_set :: "nat \<Rightarrow> nat \<Rightarrow> U32 \<Rightarrow> U32 \<Rightarrow> U32" where
  "field_set k w x v = (x AND NOT (push_bit k (mask w))) OR push_bit k v"

lemma field_get_set:
  assumes "take_bit w v = v" and "k + w \<le> 32"
  shows "field_get k w (field_set k w x v) = v"
    "k' + w' \<le> k \<or> k + w \<le> k' \<Longrightarrow> k' + w' \<le> 32 \<Longrightarrow> field_get k' w' (field_set k w x v) = field_get k' w' x"
proof -
  have b: "bit v i \<Longrightarrow> i < w" for i using assms(1) by (metis bit_take_bit_iff)
  show "field_get k w (field_set k w x v) = v"
    by (rule bit_word_eqI) (use assms(2) in \<open>auto simp: field_get_def field_set_def bit_simps dest: b\<close>)
  show "field_get k' w' (field_set k w x v) = field_get k' w' x" if "k' + w' \<le> k \<or> k + w \<le> k'" "k' + w' \<le> 32"
    by (rule bit_word_eqI) (use that in \<open>auto simp: field_get_def field_set_def bit_simps dest: b\<close>)
qed

lemma field_forms:
  "drop_bit k (x AND push_bit k (mask w)) = field_get k w x"
  "m = NOT (push_bit k (mask w)) \<Longrightarrow> (x AND m) OR push_bit k v = field_set k w x v"
proof -
  show "drop_bit k (x AND push_bit k (mask w)) = field_get k w x"
    by (rule bit_word_eqI) (auto simp: field_get_def bit_simps dest: bit_imp_le_length)
qed (simp add: field_set_def)

lemma field_masks:
  "(0xc0000000 :: U32) = push_bit 30 (mask 2)" "(0x3ffff000 :: U32) = push_bit 12 (mask 18)"
  "(0x00000fc0 :: U32) = push_bit 6 (mask 6)" "(0xfffff000 :: U32) = push_bit 12 (mask 20)" "(0x0000007c :: U32) = push_bit 2 (mask 5)"
  by (simp_all add: mask_eq_exp_minus_1)

lemma macro_gets:
  "ENTRYHI_SEGNO_GET x = field_get 30 2 x" "ENTRYHI_VPN_GET x = field_get 12 18 x" "ENTRYHI_ASID_GET x = field_get 6 6 x"
  "ENTRYLO_PFN_GET x = field_get 12 20 x" "CAUSE_EXCCODE_GET x = field_get 2 5 x"
  unfolding ENTRYHI_SEGNO_GET_def ENTRYHI_VPN_GET_def ENTRYHI_ASID_GET_def ENTRYLO_PFN_GET_def CAUSE_EXCCODE_GET_def
    field_masks field_forms by (rule refl)+

lemma macro_sets:
  "ENTRYHI_SEGNO_SET x v = field_set 30 2 x v" "ENTRYHI_VPN_SET x v = field_set 12 18 x v" "ENTRYHI_ASID_SET x v = field_set 6 6 x v"
  "ENTRYLO_PFN_SET x v = field_set 12 20 x v" "CAUSE_EXCCODE_SET x v = field_set 2 5 x v"
  unfolding ENTRYHI_SEGNO_SET_def ENTRYHI_VPN_SET_def ENTRYHI_ASID_SET_def ENTRYLO_PFN_SET_def CAUSE_EXCCODE_SET_def
  by (rule field_forms(2), simp add: mask_eq_exp_minus_1)+

text \<open>
  The fields of \<open>EntryHi\<close>, \<open>EntryLo\<close> and \<open>Cause\<close> hold what has been put in, and putting a value that
  fits into one field of \<open>EntryHi\<close> does not change the other two.
\<close>

lemmas macro_fields = macro_gets macro_sets

theorem cp0_fields_hold:
  assumes "take_bit 2 seg = seg" and "take_bit 18 vpn = vpn" and "take_bit 6 asid = asid"
    and "take_bit 20 pfn = pfn" and "take_bit 5 code = code"
  shows "ENTRYHI_SEGNO_GET (ENTRYHI_SEGNO_SET (ENTRYHI_VPN_SET (ENTRYHI_ASID_SET x asid) vpn) seg) = seg \<and>
     ENTRYHI_VPN_GET (ENTRYHI_SEGNO_SET (ENTRYHI_VPN_SET (ENTRYHI_ASID_SET x asid) vpn) seg) = vpn \<and>
     ENTRYHI_ASID_GET (ENTRYHI_SEGNO_SET (ENTRYHI_VPN_SET (ENTRYHI_ASID_SET x asid) vpn) seg) = asid \<and>
     ENTRYLO_PFN_GET (ENTRYLO_PFN_SET x pfn) = pfn \<and> CAUSE_EXCCODE_GET (CAUSE_EXCCODE_SET x code) = code"
  unfolding macro_fields using assms by (simp add: field_get_set)

theorem cp0_fields_hold_witness:
  "ENTRYHI_VPN_GET (ENTRYHI_SEGNO_SET (ENTRYHI_VPN_SET (ENTRYHI_ASID_SET 0xFFFFFFFF 63) 0x2A0) 1) = 0x2A0"
  using cp0_fields_hold[of 1 "0x2A0" 63 0 0 "0xFFFFFFFF"] by simp

text \<open>A value that does not fit its field changes the field above.\<close>

lemma asid_overflow: "ENTRYHI_VPN_GET (ENTRYHI_ASID_SET 0 64) = 1"
  by (simp add: ENTRYHI_VPN_GET_def ENTRYHI_ASID_SET_def)

end
