(* ===== verification/Thread_Code.thy ===== *)
theory Thread_Code
  imports Ssi
begin

text \<open>
  The code of threads that run on the kernel. Such a thread is followed between its system
  calls only; where it is suspended, its code goes on when the kernel gives the processor back.
  So the code is a tree of what the machine does next: \<open>thread\<close>. Endless loops are endless
  trees, which is why the type is coinductive; the action \<open>Skip\<close> has no effect, it is the jump
  back of a loop.

  Two semantics: \<open>runs\<close> follows code to its end in a world that answers its system calls, and
  \<open>execute\<close> follows it for a number of actions on the model of the kernel.
\<close>

unbundle bit_operations_syntax

section \<open>Code\<close>

text \<open>Every action gives a word to the code that follows it.\<close>

datatype action =
    Syscall U32 U32 U32                      \<comment> \<open>\<open>SYSCALL(a0, a1, a2, 0)\<close>\<close>
  | Load U32
  | Store U32 U32
  | Clock                                    \<comment> \<open>\<open>STCK\<close>\<close>
  | Stst U32                                 \<comment> \<open>\<open>STST\<close>: the registers to memory\<close>
  | Get_reg U32 "state_t \<Rightarrow> U32"             \<comment> \<open>a field of \<open>thread->t_state\<close>\<close>
  | Set_reg U32 "state_t \<Rightarrow> state_t"
  | Skip

codatatype 'a thread = Return 'a | Act action "U32 \<Rightarrow> 'a thread" | Panic

primcorec tbind :: "'a thread \<Rightarrow> ('a \<Rightarrow> 'b thread) \<Rightarrow> 'b thread" where
  "tbind t f = (case t of Return x \<Rightarrow> f x | Act a k \<Rightarrow> Act a (\<lambda>v. tbind (k v) f) | Panic \<Rightarrow> Panic)"

text \<open>
  A loop: the body says whether to go round again, with new values of the local variables, or
  to leave with a result. \<open>titer b t\<close> is in the middle of a round, at \<open>t\<close>.
\<close>

primcorec titer :: "('s \<Rightarrow> ('s + 'a) thread) \<Rightarrow> ('s + 'a) thread \<Rightarrow> 'a thread" where
  "titer b t = (case t of
      Return r \<Rightarrow> (case r of Inl s \<Rightarrow> Act Skip (\<lambda>_. titer b (b s)) | Inr x \<Rightarrow> Return x)
    | Act a k \<Rightarrow> Act a (\<lambda>v. titer b (k v))
    | Panic \<Rightarrow> Panic)"

definition tthen :: "'a thread \<Rightarrow> 'b thread \<Rightarrow> 'b thread" where
  "tthen t u = tbind t (\<lambda>_. u)"

fun tseq :: "unit thread list \<Rightarrow> unit thread" where
  "tseq [] = Return ()"
| "tseq (t # ts) = (if ts = [] then t else tthen t (tseq ts))"

definition tload :: "U32 \<Rightarrow> U32 thread" where
  "tload a = Act (Load a) Return"

definition tstore :: "U32 \<Rightarrow> U32 \<Rightarrow> unit thread" where
  "tstore a v = Act (Store a v) (\<lambda>_. Return ())"

text \<open>\<open>for (;;)\<close> and \<open>while\<close>.\<close>

definition forever :: "unit thread \<Rightarrow> unit thread" where
  "forever body = titer (\<lambda>_. tthen body (Return (Inl ()))) (tthen body (Return (Inl ())))"

definition while_loop :: "('s \<Rightarrow> bool thread) \<Rightarrow> ('s \<Rightarrow> 's thread) \<Rightarrow> 's \<Rightarrow> 's thread" where
  "while_loop cond body s =
     (let round = (\<lambda>s. tbind (cond s) (\<lambda>c. if c then tbind (body s) (\<lambda>s'. Return (Inl s')) else Return (Inr s)))
      in titer round (round s))"

text \<open>Byte access: the kernel is compiled by \<^verbatim>\<open>mipsel-linux-gcc\<close>, so the machine is little endian.\<close>

definition byte_of :: "U32 \<Rightarrow> U32 \<Rightarrow> 8 word" where
  "byte_of a w = ucast (drop_bit (8 * unat (a AND 3)) w)"

definition load_char :: "U32 \<Rightarrow> 8 word thread" where
  "load_char a = Act (Load (a AND NOT 3)) (\<lambda>w. Return (byte_of a w))"

text \<open>A \<open>state_t\<close> as the words of memory that \<open>STST\<close> fills.\<close>

definition state_words :: "state_t \<Rightarrow> U32 list" where
  "state_words st = [entry_hi st, cause st, status st, pc_epc st] @ gpr st @ [hi st, lo st]"

fun put_words :: "U32 \<Rightarrow> U32 list \<Rightarrow> (U32 \<Rightarrow> U32 option) \<Rightarrow> U32 \<Rightarrow> U32 option" where
  "put_words a [] m = m"
| "put_words a (w # ws) m = put_words (a + 4) ws (m(a \<mapsto> w))"

definition mapped_words :: "(U32 \<Rightarrow> U32 option) \<Rightarrow> U32 \<Rightarrow> nat \<Rightarrow> bool" where
  "mapped_words m a n \<longleftrightarrow> (\<forall>i<n. m (a + 4 * of_nat i) \<noteq> None)"

section \<open>Code in a world that answers\<close>

text \<open>
  A world has a memory, the saved states of other threads, the registers, the clock values to
  come, and for every system call to come the result and the words that the kernel stores before
  the thread goes on. What the thread does to the outside is its sequence of events.
\<close>

record world =
  w_mem :: "U32 \<Rightarrow> U32 option"
  w_saved :: "U32 \<Rightarrow> state_t option"
  w_regs :: state_t
  w_clock :: "U32 list"
  w_answers :: "(U32 \<times> (U32 \<times> U32) list) list"

datatype event = Called U32 U32 U32 | Stored U32 U32

fun answered_mem :: "(U32 \<times> U32) list \<Rightarrow> (U32 \<Rightarrow> U32 option) \<Rightarrow> U32 \<Rightarrow> U32 option" where
  "answered_mem [] m = m"
| "answered_mem ((a, v) # ws) m = answered_mem ws (m(a \<mapsto> v))"

fun world_act :: "action \<Rightarrow> world \<Rightarrow> (U32 \<times> event list \<times> world) option" where
  "world_act (Syscall a b c) w = (case w_answers w of [] \<Rightarrow> None
     | (v, ws) # as \<Rightarrow> Some (v, [Called a b c], w\<lparr>w_mem := answered_mem ws (w_mem w), w_answers := as\<rparr>))"
| "world_act (Load a) w = (case w_mem w a of None \<Rightarrow> None | Some v \<Rightarrow> Some (v, [], w))"
| "world_act (Store a v) w = (if w_mem w a = None then None else Some (v, [Stored a v], w\<lparr>w_mem := (w_mem w)(a \<mapsto> v)\<rparr>))"
| "world_act Clock w = (case w_clock w of [] \<Rightarrow> None | v # vs \<Rightarrow> Some (v, [], w\<lparr>w_clock := vs\<rparr>))"
| "world_act (Stst a) w = (if mapped_words (w_mem w) a 35
     then Some (a, [], w\<lparr>w_mem := put_words a (state_words (w_regs w)) (w_mem w)\<rparr>) else None)"
| "world_act (Get_reg p f) w = (case w_saved w p of None \<Rightarrow> None | Some st \<Rightarrow> Some (f st, [], w))"
| "world_act (Set_reg p g) w = (case w_saved w p of None \<Rightarrow> None
     | Some st \<Rightarrow> Some (0, [], w\<lparr>w_saved := (w_saved w)(p \<mapsto> g st)\<rparr>))"
| "world_act Skip w = Some (0, [], w)"

inductive runs :: "'a thread \<Rightarrow> world \<Rightarrow> event list \<Rightarrow> 'a \<Rightarrow> world \<Rightarrow> bool" where
  Return: "runs (Return x) w [] x w"
| Act: "world_act a w = Some (v, e, w1) \<Longrightarrow> runs (k v) w1 es x w' \<Longrightarrow> runs (Act a k) w (e @ es) x w'"

section \<open>Code on the kernel\<close>

text \<open>
  What an action may lead to: a word for the code that follows, the loss of the processor in a
  system call, or a trap: an access to an address that is not mapped, for which the machine
  enters a handler.
\<close>

datatype effect = Value U32 | Gone | Trap U32

fun store_words :: "U32 \<Rightarrow> U32 list \<Rightarrow> unit kmon" where
  "store_words a [] = kreturn ()"
| "store_words a (w # ws) = kthen (mem_write a w) (store_words (a + 4) ws)"

fun kernel_act :: "rom \<Rightarrow> action \<Rightarrow> effect kmon" where
  "kernel_act rom (Syscall a b c) = kbind (SYSCALL rom a b c) (\<lambda>r. kreturn (case r of None \<Rightarrow> Gone | Some v \<Rightarrow> Value v))"
| "kernel_act rom (Load a) = kbind (kget mem) (\<lambda>m. kreturn (case m a of None \<Rightarrow> Trap a | Some v \<Rightarrow> Value v))"
| "kernel_act rom (Store a v) = kbind (kget mem) (\<lambda>m.
     if m a = None then kreturn (Trap a) else kthen (mem_write a v) (kreturn (Value v)))"
| "kernel_act rom Clock = kbind GET_TODLOW (\<lambda>v. kreturn (Value v))"
| "kernel_act rom (Stst a) = kbind (kget cpu) (\<lambda>st. kthen (store_words a (state_words st)) (kreturn (Value a)))"
| "kernel_act rom (Get_reg p f) = kbind (get_tcb p) (\<lambda>t. kreturn (Value (f (t_state t))))"
| "kernel_act rom (Set_reg p g) = kthen (upd_tcb p (\<lambda>t. t\<lparr>t_state := g (t_state t)\<rparr>)) (kreturn (Value 0))"
| "kernel_act rom Skip = kreturn (Value 0)"

text \<open>
  \<open>Suspended k\<close>: the code goes on with \<open>k\<close> of the \<open>v0\<close> it finds when it has the processor
  again. \<open>Running\<close>: the actions to be followed are used up.
\<close>

datatype 'a outcome = Finished 'a | Suspended "U32 \<Rightarrow> 'a thread" | Trapped U32 | Running "'a thread"

fun execute :: "rom \<Rightarrow> nat \<Rightarrow> 'a thread \<Rightarrow> 'a outcome kmon" where
  "execute rom 0 t = kreturn (Running t)"
| "execute rom (Suc n) t = (case t of
      Return x \<Rightarrow> kreturn (Finished x)
    | Act a k \<Rightarrow> kbind (kernel_act rom a) (\<lambda>r. case r of
          Value v \<Rightarrow> execute rom n (k v) | Gone \<Rightarrow> kreturn (Suspended k) | Trap b \<Rightarrow> kreturn (Trapped b))
    | Panic \<Rightarrow> kstop PANIC)"

section \<open>Lemmas\<close>

lemma tbind_simps [simp]:
  "tbind (Return x) f = f x" "tbind (Act a k) f = Act a (\<lambda>v. tbind (k v) f)" "tbind Panic f = Panic"
  by (subst tbind.code, simp)+

lemma titer_simps [simp]:
  "titer b (Return (Inl s)) = Act Skip (\<lambda>_. titer b (b s))" "titer b (Return (Inr x)) = Return x"
  "titer b (Act a k) = Act a (\<lambda>v. titer b (k v))" "titer b Panic = Panic"
  by (subst titer.code, simp)+

lemma tthen_simps [simp]:
  "tthen (Return x) u = u" "tthen (Act a k) u = Act a (\<lambda>v. tthen (k v) u)" "tthen Panic u = Panic"
  by (simp_all add: tthen_def)

lemma tseq_simps: "tseq [] = Return ()" "tseq [t] = t" "tseq (t # u # ts) = tthen t (tseq (u # ts))"
  by simp_all

lemma runs_bind:
  "runs t w es x w1 \<Longrightarrow> runs (f x) w1 es' y w' \<Longrightarrow> runs (tbind t f) w (es @ es') y w'"
  by (induction rule: runs.induct) (auto intro: runs.Act)

lemma runs_then: "runs t w es x w1 \<Longrightarrow> runs u w1 es' y w' \<Longrightarrow> runs (tthen t u) w (es @ es') y w'"
  unfolding tthen_def by (rule runs_bind)

lemma runs_Skip: "runs (k 0) w es x w' \<Longrightarrow> runs (Act Skip k) w es x w'"
  using runs.Act[of Skip w 0 "[]" w k es x w'] by simp

lemma runs_titer_again:
  "runs t w es r w1 \<Longrightarrow> r = Inl s \<Longrightarrow> runs (titer b (b s)) w1 es' y w' \<Longrightarrow> runs (titer b t) w (es @ es') y w'"
  by (induction rule: runs.induct) (auto intro: runs.Act runs_Skip)

lemma runs_titer_leave: "runs t w es r w1 \<Longrightarrow> r = Inr y \<Longrightarrow> runs (titer b t) w es y w1"
  by (induction rule: runs.induct) (auto intro: runs.intros)

lemma runs_while_stop:
  assumes "runs (cond s) w es False w'"
  shows "runs (while_loop cond body s) w es s w'"
proof -
  have "runs (tbind (cond s) (\<lambda>c. if c then tbind (body s) (\<lambda>s'. Return (Inl s')) else Return (Inr s))) w (es @ []) (Inr s) w'"
    by (rule runs_bind[OF assms]) (simp add: runs.Return)
  from runs_titer_leave[OF this refl] show ?thesis by (simp add: while_loop_def Let_def)
qed

lemma runs_while_again:
  assumes "runs (cond s) w e1 True w1" and "runs (body s) w1 e2 s' w2" and "runs (while_loop cond body s') w2 e3 x w'"
  shows "runs (while_loop cond body s) w (e1 @ e2 @ e3) x w'"
proof -
  have "runs (tbind (body s) (\<lambda>s'. Return (Inl s' :: 'a + 'a))) w1 (e2 @ []) (Inl s') w2"
    by (rule runs_bind[OF assms(2)]) (rule runs.Return)
  then have "runs (tbind (cond s) (\<lambda>c. if c then tbind (body s) (\<lambda>s'. Return (Inl s')) else Return (Inr s))) w (e1 @ e2) (Inl s') w2"
    by (intro runs_bind[OF assms(1)]) simp
  from runs_titer_again[OF this refl] assms(3) show ?thesis by (simp add: while_loop_def Let_def)
qed

text \<open>The behaviour of code in a world is determined.\<close>

inductive_cases runs_ReturnE: "runs (Return x) w es y w'"
inductive_cases runs_ActE: "runs (Act a k) w es y w'"

lemma runs_determined:
  "runs t w es x w1 \<Longrightarrow> runs t w es' y w2 \<Longrightarrow> es' = es \<and> y = x \<and> w2 = w1"
proof (induction arbitrary: es' rule: runs.induct)
  case (Act a w v e w1 k es x w')
  from Act.prems show ?case by (rule runs_ActE) (use Act in auto)
qed (auto elim: runs_ReturnE)

end
