(* ===== verification/P2test.thy ===== *)
theory P2test
  imports Thread_Code
begin

text \<open>
  \<^verbatim>\<open>phase2/src/p2test.0.2.c\<close>: the test program, the kernel's first client. Every function is a
  piece of code in the sense of \<^verbatim>\<open>Thread_Code\<close>. Local variables are values, but for those whose
  address the program takes: these are at the addresses of \<open>frame\<close>, which the compiler decides.
  Global variables, string literals and functions are at the addresses of \<open>image\<close>, which the
  linker decides.
\<close>

unbundle bit_operations_syntax

section \<open>Constants\<close>

definition MINLOOPTIME :: U32 where [simp]: "MINLOOPTIME = 30000"
definition LOOPNUM :: int where [simp]: "LOOPNUM = 10000"
definition CLOCKLOOP :: int where [simp]: "CLOCKLOOP = 10"
definition MINCLOCKLOOP :: U32 where [simp]: "MINCLOCKLOOP = 3000"
definition CLOCKINTERVAL :: U32 where [simp]: "CLOCKINTERVAL = 100000"
definition SYSCAUSE :: U32 where [simp]: "SYSCAUSE = push_bit 2 0x8"
definition ADDRCAUSE :: U32 where [simp]: "ADDRCAUSE = push_bit 2 0x6"
definition UPLEVELSYS :: U32 where [simp]: "UPLEVELSYS = 3"
definition LOCATIONADDR :: U32 where [simp]: "LOCATIONADDR = 0x40000000"
definition BADADDR :: U32 where [simp]: "BADADDR = 0xFFFFFFFF"
definition P8LOOP :: U32 where [simp]: "P8LOOP = 4"
definition NOLEAVES :: int where [simp]: "NOLEAVES = 4"
definition SYNCCODE :: U32 where [simp]: "SYNCCODE = 0x10101010"
definition USERPON :: U32 where [simp]: "USERPON = 0x00000008"
definition IEPON :: U32 where [simp]: "IEPON = 0x00000004"
definition IMALLON :: U32 where [simp]: "IMALLON = 0x0000FF00"
definition QPAGE :: U32 where [simp]: "QPAGE = 1024"

definition CAUSEMASK :: U32 where [simp]: "CAUSEMASK = 0x000000FF"
definition TERMINAL0ADDR :: U32 where [simp]: "TERMINAL0ADDR = 0x10000250"
definition DEV_PER_INT :: U32 where [simp]: "DEV_PER_INT = 8"
definition DEV_REG_LEN :: U32 where [simp]: "DEV_REG_LEN = 4"
definition DEV_REG_SIZE :: U32 where [simp]: "DEV_REG_SIZE = DEV_REG_LEN * WORD_SIZE"
definition TRANSTATUS :: U32 where [simp]: "TRANSTATUS = 2"
definition TRANCOMMAND :: U32 where [simp]: "TRANCOMMAND = 3"
definition READY :: U32 where [simp]: "READY = 1"
definition ACK :: U32 where [simp]: "ACK = 1"
definition PRINTCHAR :: U32 where [simp]: "PRINTCHAR = 2"
definition CHAROFFSET :: nat where [simp]: "CHAROFFSET = 8"
definition TRANSMITTED :: U32 where [simp]: "TRANSMITTED = 5"
definition EOS :: "8 word" where [simp]: "EOS = 0"

section \<open>The program image\<close>

datatype state_var = Printstate | P2state | P3state | P4state | P5state | P5trap_s | P6state | P7state | P8rootstate
  | Child1state | Child2state | Gchild1state | Gchild2state | Gchild3state | Gchild4state | P9state | P9trap_s

datatype global = P1p2synch | P8inc | P4inc | P5Stack | FeedBack
  | Printid | P2id | P3id | P4id | P5id | P6id | P7id | P8id | P9id

datatype code = F_printthread | F_p2 | F_p3 | F_p4 | F_p5 | F_p5trapm | F_p5a | F_p6 | F_p7 | F_p8root
  | F_child1 | F_child2 | F_p8leaf | F_p9 | F_p9trapm

record image =
  state_at :: "state_var \<Rightarrow> U32"
  global_at :: "global \<Rightarrow> U32"
  entry :: "code \<Rightarrow> U32"
  lit :: "string \<Rightarrow> U32"

text \<open>
  The stack of a thread: its \<open>reply\<close> (in \<open>printthread\<close>: \<open>payload\<close>) and \<open>tmp\<close>, \<open>stat\<close> of \<open>termprint\<close>,
  \<open>reply\<close> of \<open>print\<close>, \<open>request\<close> of \<open>SSIRequest\<close>, and what an uninitialised pointer variable of
  \<open>termprint\<close> happens to hold.
\<close>

record frame =
  reply_at :: U32
  tmp_at :: U32
  stat_at :: U32
  print_reply_at :: U32
  request_at :: U32
  junk :: U32

text \<open>The fields of a \<open>state_t\<close> in memory that the program names.\<close>

definition status_of :: "U32 \<Rightarrow> U32" where "status_of a = a + 8"
definition pc_of :: "U32 \<Rightarrow> U32" where "pc_of a = a + 12"
definition gpr_of :: "nat \<Rightarrow> U32 \<Rightarrow> U32" where "gpr_of i a = a + 16 + 4 * of_nat i"

section \<open>Calls\<close>

definition send_call :: "U32 \<Rightarrow> U32 \<Rightarrow> U32 \<Rightarrow> U32 thread" where
  "send_call code dest payload = Act (Syscall code dest payload) Return"

definition recv_call :: "U32 \<Rightarrow> U32 \<Rightarrow> U32 \<Rightarrow> U32 thread" where
  "recv_call code source reply_addr = Act (Syscall code source reply_addr) Return"

definition run_send :: "U32 \<Rightarrow> U32 \<Rightarrow> unit thread" where
  "run_send dest payload = tthen (send_call SEND dest payload) (Return ())"

definition run_recv :: "U32 \<Rightarrow> U32 \<Rightarrow> unit thread" where
  "run_recv source reply_addr = tthen (recv_call RECV source reply_addr) (Return ())"

text \<open>\<open>SSIRequest\<close> of \<^verbatim>\<open>ssi.c\<close>, as the code of the thread that calls it.\<close>

definition ssi_request :: "frame \<Rightarrow> U32 \<Rightarrow> U32 \<Rightarrow> U32 \<Rightarrow> unit thread" where
  "ssi_request fr service payload reply_addr =
     (let request = request_at fr in
      tseq [tstore request service,
            tstore (request + 4) payload,
            tstore (request + 8) reply_addr,
            run_send MAGIC_SSI request,
            run_recv MAGIC_SSI reply_addr])"

definition up_level_call :: "unit thread" where
  "up_level_call = Act (Syscall UPLEVELSYS 0 0) (\<lambda>_. Return ())"

definition get_global :: "image \<Rightarrow> global \<Rightarrow> U32 thread" where
  "get_global im g = tload (global_at im g)"

definition set_global :: "image \<Rightarrow> global \<Rightarrow> U32 \<Rightarrow> unit thread" where
  "set_global im g v = tstore (global_at im g) v"

section \<open>Printing\<close>

definition putChar :: "U32 \<Rightarrow> 8 word \<Rightarrow> unit thread" where
  "putChar command ch = tstore command (push_bit CHAROFFSET (scast ch) OR PRINTCHAR)"

text \<open>The local variables of the loop are \<open>str\<close> and \<open>error\<close>.\<close>

definition print_loop :: "frame \<Rightarrow> U32 \<Rightarrow> U32 \<Rightarrow> U32 \<times> bool \<Rightarrow> (U32 \<times> bool) thread" where
  "print_loop fr statusp commandp =
     while_loop
       (\<lambda>(str, error). tbind (load_char str) (\<lambda>ch. Return (ch \<noteq> EOS \<and> \<not> error)))
       (\<lambda>(str, error).
          tbind (load_char str) (\<lambda>ch.
          tthen (putChar commandp ch)
          (tthen (ssi_request fr WAITFORIO statusp (stat_at fr))
          (tbind (tload (stat_at fr)) (\<lambda>stat.
           if stat \<noteq> TRANSMITTED then Return (str, True)
           else tthen (tstore commandp ACK) (Return (str + 1, error)))))))"

definition termprint :: "frame \<Rightarrow> U32 \<Rightarrow> U32 \<Rightarrow> bool thread" where
  "termprint fr inpstr term =
     (if term < DEV_PER_INT then
        let statusp = TERMINAL0ADDR + term * DEV_REG_SIZE + TRANSTATUS * DEV_REG_LEN;
            commandp = TERMINAL0ADDR + term * DEV_REG_SIZE + TRANCOMMAND * DEV_REG_LEN
        in tbind (tload statusp) (\<lambda>v.
           tthen (tstore (stat_at fr) (v AND STATUSMASK))
           (tbind (tload (stat_at fr)) (\<lambda>stat.
            tbind (if stat = READY \<or> stat = TRANSMITTED then print_loop fr statusp commandp (inpstr, False)
                   else Return (inpstr, True)) (\<lambda>(str, error).
            tthen (tstore commandp ACK) (Return (\<not> error))))))
      else tthen (tstore (junk fr) ACK) (Return False))"

definition printthread :: "frame \<Rightarrow> image \<Rightarrow> unit thread" where
  "printthread fr im = forever (
     tbind (recv_call RECV ANYMESSAGE (reply_at fr)) (\<lambda>sender.
     tbind (tload (reply_at fr)) (\<lambda>payload.
     tthen (termprint fr payload 0)
     (tbind (send_call SEND sender 0) (\<lambda>r.
      if r = MSGNOGOOD then
        tthen (termprint fr (lit im ''print thread cannot give back an answer\<newline>'') 0) Panic
      else Return ())))))"

definition print :: "frame \<Rightarrow> image \<Rightarrow> U32 \<Rightarrow> unit thread" where
  "print fr im message =
     tseq [tbind (get_global im Printid) (\<lambda>printid. run_send printid message),
           tbind (get_global im Printid) (\<lambda>printid. run_recv printid (print_reply_at fr))]"

text \<open>\<open>print\<close> of a string literal.\<close>

definition say :: "frame \<Rightarrow> image \<Rightarrow> string \<Rightarrow> unit thread" where
  "say fr im s = print fr im (lit im s)"

end
