(* ===== verification/P2test_Threads.thy ===== *)
theory P2test_Threads
  imports P2test
begin

text \<open>
  The threads of \<^verbatim>\<open>phase2/src/p2test.0.2.c\<close>: \<open>test\<close> is the root process p1; it starts the others
  one after the other, each of which tests one part of the kernel, and reports on the terminal
  with \<open>print\<close>. A thread function that returns does so to no caller; its code ends there.
\<close>

unbundle bit_operations_syntax

section \<open>p2: synchronisation and processor time\<close>

text \<open>\<open>for (i = 1; i < LOOPNUM; i++);\<close>\<close>

definition delay :: "int thread" where
  "delay = while_loop (\<lambda>i. Return (i < LOOPNUM)) (\<lambda>i. Return (i + 1)) 1"

definition p2_verdict :: "frame \<Rightarrow> image \<Rightarrow> U32 \<Rightarrow> U32 \<Rightarrow> U32 \<Rightarrow> U32 \<Rightarrow> unit thread" where
  "p2_verdict fr im now1 now2 cpu_t1 cpu_t2 =
     tbind (if now2 - now1 \<ge> cpu_t2 - cpu_t1
            then tbind (tload BUS_TIMESCALE) (\<lambda>scale. Return (cpu_t2 - cpu_t1 \<ge> MINLOOPTIME div scale))
            else Return False) (\<lambda>ok.
     if ok then say fr im ''p2 is OK\<newline>''
     else tseq
       [if now2 - now1 < cpu_t2 - cpu_t1 then say fr im ''error: more cpu time than real time\<newline>'' else Return (),
        tbind (tload BUS_TIMESCALE) (\<lambda>scale.
          if cpu_t2 - cpu_t1 < MINLOOPTIME div scale then say fr im ''error: not enough cpu time went by\<newline>'' else Return ()),
        say fr im ''error: p2 blew it!\<newline>''])"

definition p2 :: "frame \<Rightarrow> image \<Rightarrow> unit thread" where
  "p2 fr im =
     tbind (recv_call RECV ANYMESSAGE (reply_at fr)) (\<lambda>parent.
     tbind (tload (reply_at fr)) (\<lambda>reply.
     if reply \<noteq> SYNCCODE then tthen (say fr im ''error: p2 received a bad message\<newline>'') Panic
     else
       tthen (say fr im ''p2 received right message from p1\<newline>'')
       (tbind (Act Clock Return) (\<lambda>now1.
       tthen (ssi_request fr GETCPUTIME 0 (reply_at fr))
       (tbind (tload (reply_at fr)) (\<lambda>cpu_t1.
       tthen delay
       (tthen (ssi_request fr GETCPUTIME 0 (reply_at fr))
       (tbind (tload (reply_at fr)) (\<lambda>cpu_t2.
       tbind (Act Clock Return) (\<lambda>now2.
       tseq [p2_verdict fr im now1 now2 cpu_t1 cpu_t2,
             set_global im P1p2synch 1,
             run_send parent 0,
             ssi_request fr TERMINATE 0 (reply_at fr),
             say fr im ''error: p2 didn't terminate\<newline>'',
             Panic]))))))))))"

section \<open>p3: the clock\<close>

text \<open>The local variables of the loop are \<open>time1\<close> and \<open>time2\<close>.\<close>

definition p3_half_tick :: "frame \<Rightarrow> (U32 \<times> U32) thread" where
  "p3_half_tick fr =
     while_loop
       (\<lambda>(time1, time2). Return (time2 - time1 < drop_bit 1 CLOCKINTERVAL))
       (\<lambda>_. tbind (Act Clock Return) (\<lambda>time1.
            tthen (ssi_request fr WAITFORCLOCK 0 (reply_at fr))
            (tbind (Act Clock Return) (\<lambda>time2. Return (time1, time2)))))
       (0, 0)"

definition p3 :: "frame \<Rightarrow> image \<Rightarrow> unit thread" where
  "p3 fr im =
     tbind (recv_call RECV ANYMESSAGE (reply_at fr)) (\<lambda>parent.
     tthen (p3_half_tick fr)
     (tthen (say fr im ''p3: WAITFORCLOCK looks OK: now a longer test\<newline>'')
     (tthen (ssi_request fr GETCPUTIME 0 (reply_at fr))
     (tbind (tload (reply_at fr)) (\<lambda>cpu_t1.
     tthen (while_loop (\<lambda>i. Return (i < CLOCKLOOP)) (\<lambda>i. tthen (ssi_request fr WAITFORCLOCK 0 (reply_at fr)) (Return (i + 1))) 0)
     (tthen (ssi_request fr GETCPUTIME 0 (reply_at fr))
     (tbind (tload (reply_at fr)) (\<lambda>cpu_t2.
     tbind (tload BUS_TIMESCALE) (\<lambda>scale.
     tseq [if cpu_t2 - cpu_t1 < MINCLOCKLOOP div scale then say fr im ''error: p3: CPU time incorrectly maintained\<newline>''
           else say fr im ''p3: CPU time correctly maintained\<newline>'',
           run_send parent 0,
           ssi_request fr TERMINATE 0 (reply_at fr),
           say fr im ''error: p3 didn't terminate\<newline>'',
           Panic])))))))))"

section \<open>p4: termination\<close>

definition p4_announce :: "frame \<Rightarrow> image \<Rightarrow> unit thread" where
  "p4_announce fr im =
     tbind (get_global im P4inc) (\<lambda>p4inc.
     if p4inc = 1 then
       tthen (say fr im ''p4: first incarnation starts\<newline>'')
       (tbind (get_global im P4inc) (\<lambda>v. set_global im P4inc (v + 1)))
     else if p4inc = 2 then say fr im ''p4: second incarnation starts\<newline>''
     else Return ())"

definition p4 :: "frame \<Rightarrow> image \<Rightarrow> unit thread" where
  "p4 fr im =
     tbind (recv_call RECV ANYMESSAGE (reply_at fr)) (\<lambda>parent.
     tthen (p4_announce fr im)
     (tthen (run_send parent 0)
     (tthen (run_recv parent (reply_at fr))
     (let sp = gpr_of reg_sp (state_at im P4state) in
      tthen (tbind (tload sp) (\<lambda>v. tstore sp (v - QPAGE)))
     (tthen (ssi_request fr CREATESON (state_at im P4state) (reply_at fr))
     (tbind (tload (reply_at fr)) (\<lambda>son.
      if son = CREATENOGOOD then tthen (say fr im ''error: p4 cannot create the second p4\<newline>'') Panic
      else tseq [run_send son 0,
                 run_recv son (reply_at fr),
                 say fr im ''p4 is OK\<newline>'',
                 run_send parent 0,
                 ssi_request fr TERMINATE 0 (reply_at fr),
                 say fr im ''error: p4 didn't terminate\<newline>'',
                 Panic])))))))"

section \<open>p5: trap managers\<close>

text \<open>What the trap manager does to the state of the thread that has trapped.\<close>

definition skip_call :: "state_t \<Rightarrow> state_t" where
  "skip_call st = st\<lparr>pc_epc := pc_epc st + 4\<rparr>"

definition restart_at :: "U32 \<Rightarrow> U32 \<Rightarrow> state_t \<Rightarrow> state_t" where
  "restart_at pc sp st = gpr_set reg_sp sp (gpr_set reg_t9 pc (st\<lparr>pc_epc := pc\<rparr>))"

definition p5_handle_trap :: "frame \<Rightarrow> image \<Rightarrow> U32 \<Rightarrow> U32 \<Rightarrow> unit thread" where
  "p5_handle_trap fr im trapped payload =
     (if payload AND CAUSEMASK = SYSCAUSE then
        tbind (Act (Get_reg trapped (\<lambda>st. gpr_get st reg_a0)) Return) (\<lambda>a0.
        if a0 = UPLEVELSYS then
          tthen (say fr im ''p5 trap mgr: got up-level SYSCALL passup\<newline>'')
          (Act (Set_reg trapped skip_call) (\<lambda>_. Return ()))
        else
          tthen (say fr im ''p5 trap mgr: Kernel mode required for MsgRecv(): retrying\<newline>'')
          (Act (Set_reg trapped (\<lambda>st. st\<lparr>status := status st AND NOT USERPON\<rparr>)) (\<lambda>_.
           tbind (get_global im P5Stack) (\<lambda>p5Stack.
           Act (Set_reg trapped (restart_at (entry im F_p5a) (p5Stack - 2 * QPAGE))) (\<lambda>_. Return ())))))
      else if payload AND CAUSEMASK = ADDRCAUSE then
        tthen (say fr im ''p5 trap mgr: TLB trap; restarting as p5a, User mode\<newline>'')
        (tbind (get_global im P5Stack) (\<lambda>p5Stack.
         Act (Set_reg trapped (\<lambda>st. restart_at (entry im F_p5a) (p5Stack - QPAGE) (st\<lparr>status := status st OR USERPON OR IEPON\<rparr>)))
           (\<lambda>_. Return ())))
      else tthen (say fr im ''error: unexpected trap in p5\<newline>'') Panic)"

definition p5trapm :: "frame \<Rightarrow> image \<Rightarrow> unit thread" where
  "p5trapm fr im =
     tthen (say fr im ''p5 trap mgr started\<newline>'')
     (forever (
       tbind (recv_call RECV ANYMESSAGE (reply_at fr)) (\<lambda>trapped.
       tbind (tload (reply_at fr)) (\<lambda>reply.
       tthen (p5_handle_trap fr im trapped reply)
       (run_send trapped TRAPCONTINUE)))))"

definition set_managers :: "frame \<Rightarrow> U32 \<Rightarrow> unit thread" where
  "set_managers fr manager =
     tseq [ssi_request fr SPECPRGMGR manager (reply_at fr),
           ssi_request fr SPECTLBMGR manager (reply_at fr),
           ssi_request fr SPECSYSMGR manager (reply_at fr)]"

definition p5 :: "frame \<Rightarrow> image \<Rightarrow> unit thread" where
  "p5 fr im =
     tseq [run_recv ANYMESSAGE (reply_at fr),
           say fr im ''p5 starts\<newline>'',
           ssi_request fr CREATESON (state_at im P5trap_s) (reply_at fr),
           tbind (tload (reply_at fr)) (set_managers fr),
           up_level_call,
           say fr im ''p5 returns after up-level syscall\<newline>'',
           Act (Load LOCATIONADDR) (\<lambda>location. Return ())]"

definition p5a :: "frame \<Rightarrow> image \<Rightarrow> unit thread" where
  "p5a fr im =
     tbind (recv_call RECV ANYMESSAGE (reply_at fr)) (\<lambda>thread.
     tseq [run_send thread 0,
           say fr im ''p5a handshake with p1 OK\<newline>'',
           ssi_request fr SPECPRGMGR NULL (reply_at fr),
           say fr im ''error: p5 didn't terminate\<newline>'',
           Panic])"

section \<open>p6, p7: traps without a manager\<close>

definition p6 :: "frame \<Rightarrow> image \<Rightarrow> unit thread" where
  "p6 fr im =
     tseq [run_recv ANYMESSAGE (reply_at fr),
           say fr im ''p6 starts\<newline>'',
           up_level_call,
           say fr im ''error: p6 alive after a passup with no trap vector\<newline>'',
           Panic]"

definition p7 :: "frame \<Rightarrow> image \<Rightarrow> unit thread" where
  "p7 fr im =
     tbind (recv_call RECV ANYMESSAGE (reply_at fr)) (\<lambda>thread.
     tseq [say fr im ''p7 starts\<newline>'',
           tstore BADADDR 0,
           say fr im ''error: p7 alive after program trap with no trap vector\<newline>'',
           Panic])"

section \<open>p8: a subtree of threads\<close>

definition p8root :: "frame \<Rightarrow> image \<Rightarrow> unit thread" where
  "p8root fr im =
     tthen (say fr im ''p8root starts\<newline>'')
     (tbind (recv_call RECV ANYMESSAGE (reply_at fr)) (\<lambda>parent.
     tthen (ssi_request fr CREATESON (state_at im Child1state) (tmp_at fr))
     (tthen (tbind (tload (tmp_at fr)) (\<lambda>tmp. run_send tmp 0))
     (tthen (ssi_request fr CREATESON (state_at im Child2state) (tmp_at fr))
     (tthen (tbind (tload (tmp_at fr)) (\<lambda>tmp. run_send tmp 0))
     (tthen (while_loop (\<lambda>grandchild. Return (grandchild < NOLEAVES))
        (\<lambda>grandchild.
           tbind (recv_call RECV ANYMESSAGE (reply_at fr)) (\<lambda>leaf.
           tthen (set_global im FeedBack leaf) (Return (grandchild + 1)))) 0)
     (tthen (run_send parent 0)
     (ssi_request fr TERMINATE 0 (reply_at fr)))))))))"

text \<open>\<open>child1\<close> and \<open>child2\<close> differ in their texts and in the states of their sons.\<close>

definition child :: "frame \<Rightarrow> image \<Rightarrow> string \<Rightarrow> state_var \<Rightarrow> state_var \<Rightarrow> string \<Rightarrow> unit thread" where
  "child fr im hello son1 son2 disturbed =
     tthen (say fr im hello)
     (tbind (recv_call RECV ANYMESSAGE (reply_at fr)) (\<lambda>parent.
     tseq [ssi_request fr CREATESON (state_at im son1) (reply_at fr),
           tbind (tload (reply_at fr)) (\<lambda>reply. run_send reply parent),
           ssi_request fr CREATESON (state_at im son2) (reply_at fr),
           tbind (tload (reply_at fr)) (\<lambda>reply. run_send reply parent),
           run_recv ANYMESSAGE (reply_at fr),
           say fr im disturbed,
           Panic]))"

definition child1 :: "frame \<Rightarrow> image \<Rightarrow> unit thread" where
  "child1 fr im = child fr im ''child1 starts\<newline>'' Gchild1state Gchild2state ''error: child1 received message from someone\<newline>''"

definition child2 :: "frame \<Rightarrow> image \<Rightarrow> unit thread" where
  "child2 fr im = child fr im ''child2 starts\<newline>'' Gchild3state Gchild4state ''error: child2 received message from someone\<newline>''"

definition p8leaf :: "frame \<Rightarrow> image \<Rightarrow> unit thread" where
  "p8leaf fr im =
     tseq [say fr im ''leaf process starts\<newline>'',
           run_recv ANYMESSAGE (tmp_at fr),
           tbind (tload (tmp_at fr)) (\<lambda>tmp. run_send tmp 0),
           run_recv ANYMESSAGE (reply_at fr),
           say fr im ''error: leaf received message from someone\<newline>'',
           Panic]"

section \<open>p9: a trap manager that ends its thread\<close>

definition p9trapm :: "frame \<Rightarrow> image \<Rightarrow> unit thread" where
  "p9trapm fr im =
     tthen (say fr im ''p9 trap mgr started\<newline>'')
     (forever (
       tbind (recv_call RECV ANYMESSAGE (reply_at fr)) (\<lambda>trapped.
       tbind (tload (reply_at fr)) (\<lambda>reply.
       let unexpected = tthen (say fr im ''error: unexpected trap in p9\<newline>'') Panic in
       if reply AND CAUSEMASK = SYSCAUSE then
         tbind (Act (Get_reg trapped (\<lambda>st. gpr_get st reg_a0)) Return) (\<lambda>a0.
         if a0 = UPLEVELSYS then
           tthen (say fr im ''SYSCALL in p9: terminate it\<newline>'') (run_send trapped TRAPTERMINATE)
         else unexpected)
       else unexpected))))"

definition p9 :: "frame \<Rightarrow> image \<Rightarrow> unit thread" where
  "p9 fr im =
     tseq [run_recv ANYMESSAGE (reply_at fr),
           say fr im ''p9 starts\<newline>'',
           ssi_request fr CREATESON (state_at im P9trap_s) (reply_at fr),
           tbind (tload (reply_at fr)) (set_managers fr),
           up_level_call,
           say fr im ''error: p9 didn't terminate\<newline>'',
           Panic]"

section \<open>p1: the root process\<close>

text \<open>
  \<open>STST\<close> into a state variable, with a stack below that of another one and an entry point; all
  interrupts are enabled.
\<close>

definition set_up :: "image \<Rightarrow> state_var \<Rightarrow> state_var \<Rightarrow> U32 \<Rightarrow> code \<Rightarrow> unit thread" where
  "set_up im var higher off fn =
     (let a = state_at im var; b = state_at im higher in
      Act (Stst a) (\<lambda>_.
      tseq [tbind (tload (gpr_of reg_sp b)) (\<lambda>sp. tstore (gpr_of reg_sp a) (sp - off)),
            tstore (gpr_of reg_t9 a) (entry im fn),
            tstore (pc_of a) (entry im fn),
            tbind (tload (status_of a)) (\<lambda>st. tstore (status_of a) (st OR IEPON OR IMALLON))]))"

definition test_start :: "frame \<Rightarrow> image \<Rightarrow> unit thread" where
  "test_start fr im =
     tseq [set_global im P1p2synch 0,
           set_global im P8inc 0,
           set_global im P4inc 1,
           set_up im Printstate Printstate QPAGE F_printthread,
           ssi_request fr CREATESON (state_at im Printstate) (reply_at fr),
           tbind (tload (reply_at fr)) (\<lambda>reply. if reply = CREATENOGOOD then Panic else set_global im Printid reply),
           say fr im ''print terminal thread has started\<newline>'']"

definition test_states :: "image \<Rightarrow> unit thread" where
  "test_states im =
     tseq [set_up im P2state Printstate QPAGE F_p2,
           set_up im P3state P2state QPAGE F_p3,
           set_up im P4state P3state QPAGE F_p4,
           set_up im P5state P4state (2 * QPAGE) F_p5,
           tbind (tload (gpr_of reg_sp (state_at im P5state))) (set_global im P5Stack),
           set_up im P5trap_s P5state (3 * QPAGE) F_p5trapm,
           set_up im P6state P5trap_s QPAGE F_p6,
           set_up im P7state P6state QPAGE F_p7,
           set_up im P8rootstate P7state QPAGE F_p8root,
           set_up im Child1state P8rootstate QPAGE F_child1,
           set_up im Child2state Child1state QPAGE F_child2,
           set_up im Gchild1state Child2state QPAGE F_p8leaf,
           set_up im Gchild2state Gchild1state QPAGE F_p8leaf,
           set_up im Gchild3state Gchild2state QPAGE F_p8leaf,
           set_up im Gchild4state Gchild3state QPAGE F_p8leaf,
           set_up im P9state Gchild4state QPAGE F_p9,
           set_up im P9trap_s P9state QPAGE F_p9trapm]"

definition start_brother :: "frame \<Rightarrow> image \<Rightarrow> state_var \<Rightarrow> global \<Rightarrow> unit thread" where
  "start_brother fr im var ident = ssi_request fr CREATEBROTHER (state_at im var) (global_at im ident)"

definition send_to :: "image \<Rightarrow> global \<Rightarrow> U32 \<Rightarrow> unit thread" where
  "send_to im ident payload = tbind (get_global im ident) (\<lambda>p. run_send p payload)"

definition wait_for :: "frame \<Rightarrow> image \<Rightarrow> global \<Rightarrow> unit thread" where
  "wait_for fr im ident = tbind (get_global im ident) (\<lambda>p. run_recv p (reply_at fr))"

definition test_p2 :: "frame \<Rightarrow> image \<Rightarrow> unit thread" where
  "test_p2 fr im =
     tseq [say fr im ''p1 setup ok: now starting the tests\<newline>'',
           start_brother fr im P2state P2id,
           tbind (get_global im P2id) (\<lambda>p2id.
             if p2id = CREATENOGOOD then say fr im ''error: cannot create brother p2\<newline>'' else say fr im ''p2 started\<newline>''),
           send_to im P2id SYNCCODE,
           wait_for fr im P2id,
           tbind (get_global im P1p2synch) (\<lambda>p1p2synch.
             if p1p2synch = 0 then say fr im ''error: p1/p2 synchronization bad\<newline>'' else say fr im ''p2 provide a good synch\<newline>'')]"

definition test_p3_to_p9 :: "frame \<Rightarrow> image \<Rightarrow> unit thread" where
  "test_p3_to_p9 fr im =
     tseq [start_brother fr im P3state P3id,
           say fr im ''p3 started\<newline>'',
           send_to im P3id 0,
           wait_for fr im P3id,
           start_brother fr im P4state P4id,
           send_to im P4id 0,
           wait_for fr im P4id,
           send_to im P4id 0,
           start_brother fr im P5state P5id,
           send_to im P5id 0,
           start_brother fr im P6state P6id,
           send_to im P6id 0,
           start_brother fr im P7state P7id,
           send_to im P7id 0,
           wait_for fr im P4id,
           send_to im P5id 0,
           wait_for fr im P5id,
           start_brother fr im P9state P9id,
           send_to im P9id 0]"

text \<open>The loop variable \<open>p8inc\<close> is a global \<open>int\<close>.\<close>

definition test_p8 :: "frame \<Rightarrow> image \<Rightarrow> unit thread" where
  "test_p8 fr im =
     tthen (set_global im P8inc 0)
     (while_loop
       (\<lambda>_. tbind (get_global im P8inc) (\<lambda>p8inc. Return (p8inc <s P8LOOP)))
       (\<lambda>_. tseq
         [start_brother fr im P8rootstate P8id,
          tbind (get_global im P8id) (\<lambda>p8id.
            if p8id = CREATENOGOOD then tthen (say fr im ''error in thread creation\<newline>'') Panic else Return ()),
          send_to im P8id 0,
          wait_for fr im P8id,
          tbind (get_global im P8inc) (\<lambda>p8inc. set_global im P8inc (p8inc + 1))])
       ())"

definition test_end :: "frame \<Rightarrow> image \<Rightarrow> unit thread" where
  "test_end fr im =
     tseq [say fr im ''p1 finishes OK\<newline>'',
           tstore BADADDR 0,
           say fr im ''error: p1 still alive after progtrap & no trap vector\<newline>'',
           Panic]"

definition test :: "frame \<Rightarrow> image \<Rightarrow> unit thread" where
  "test fr im =
     tseq [test_start fr im, test_states im, test_p2 fr im, test_p3_to_p9 fr im, test_p8 fr im, test_end fr im]"

end
