(* ===== verification/P2test_Props.thy ===== *)
theory P2test_Props
  imports P2test_Threads
begin

text \<open>
  What the functions of the test program do in any world that answers them: the printer on the
  terminal, and the processor states that p1 prepares.
\<close>

unbundle bit_operations_syntax

section \<open>Code step by step\<close>

lemma runs_Return: "y = x \<Longrightarrow> runs (Return x) w [] y w"
  by (simp add: runs.Return)

lemma runs_load: "w_mem w a = Some v \<Longrightarrow> runs (k v) w es x w' \<Longrightarrow> runs (Act (Load a) k) w es x w'"
  using runs.Act[of "Load a" w v "[]" w k es x w'] by simp

lemma runs_store:
  "w_mem w a \<noteq> None \<Longrightarrow> runs (k v) (w\<lparr>w_mem := (w_mem w)(a \<mapsto> v)\<rparr>) es x w' \<Longrightarrow> runs (Act (Store a v) k) w (Stored a v # es) x w'"
  using runs.Act[of "Store a v" w v "[Stored a v]" "w\<lparr>w_mem := (w_mem w)(a \<mapsto> v)\<rparr>" k es x w'] by simp

lemma runs_call:
  "w_answers w = (v, ws) # as \<Longrightarrow> runs (k v) (w\<lparr>w_mem := answered_mem ws (w_mem w), w_answers := as\<rparr>) es x w' \<Longrightarrow>
   runs (Act (Syscall a b c) k) w (Called a b c # es) x w'"
  using runs.Act[of "Syscall a b c" w v "[Called a b c]" "w\<lparr>w_mem := answered_mem ws (w_mem w), w_answers := as\<rparr>" k es x w'] by simp

lemma code_simps [simp]:
  "tbind (tload a) f = Act (Load a) f" "tthen (tstore a v) t = Act (Store a v) (\<lambda>_. t)"
  "tbind (load_char a) h = Act (Load (a AND NOT 3)) (\<lambda>w. h (byte_of a w))"
  "tbind (send_call c d p) f = Act (Syscall c d p) f" "tbind (recv_call c d p) f = Act (Syscall c d p) f"
  "tthen (run_send d p) t = Act (Syscall SEND d p) (\<lambda>_. t)" "tthen (run_recv d p) t = Act (Syscall RECV d p) (\<lambda>_. t)"
  "tbind (get_global im g) f = Act (Load (global_at im g)) f"
  by (simp_all add: tload_def tthen_def tstore_def load_char_def send_call_def recv_call_def run_send_def run_recv_def get_global_def)

text \<open>A request to the SSI: three words of the request, the send and the receive.\<close>

definition request_events :: "frame \<Rightarrow> U32 \<Rightarrow> U32 \<Rightarrow> U32 \<Rightarrow> event list" where
  "request_events fr service payload ra =
     [Stored (request_at fr) service, Stored (request_at fr + 4) payload, Stored (request_at fr + 8) ra,
      Called SEND MAGIC_SSI (request_at fr), Called RECV MAGIC_SSI ra]"

definition request_mapped :: "frame \<Rightarrow> (U32 \<Rightarrow> U32 option) \<Rightarrow> bool" where
  "request_mapped fr m \<longleftrightarrow> m (request_at fr) \<noteq> None \<and> m (request_at fr + 4) \<noteq> None \<and> m (request_at fr + 8) \<noteq> None"

lemma runs_request:
  assumes "request_mapped fr (w_mem w)" and "w_answers w = (r1, []) # (r2, [(ra, v)]) # as"
    and "runs t (w\<lparr>w_mem := (w_mem w)(request_at fr \<mapsto> service, request_at fr + 4 \<mapsto> payload, request_at fr + 8 \<mapsto> ra, ra \<mapsto> v), w_answers := as\<rparr>) es x w'"
  shows "runs (tthen (ssi_request fr service payload ra) t) w (request_events fr service payload ra @ es) x w'"
  using assms unfolding ssi_request_def Let_def request_events_def request_mapped_def
  by (auto simp: tthen_def[of "run_recv _ _"] run_recv_def recv_call_def intro!: runs_store runs_call)

section \<open>Strings\<close>

definition mem_byte :: "(U32 \<Rightarrow> U32 option) \<Rightarrow> U32 \<Rightarrow> 8 word option" where
  "mem_byte m a = map_option (byte_of a) (m (a AND NOT 3))"

fun cstring :: "(U32 \<Rightarrow> U32 option) \<Rightarrow> U32 \<Rightarrow> string \<Rightarrow> bool" where
  "cstring m a [] \<longleftrightarrow> mem_byte m a = Some EOS"
| "cstring m a (c # s) \<longleftrightarrow> mem_byte m a = Some (of_char c) \<and> of_char c \<noteq> EOS \<and> cstring m (a + 1) s"

fun string_words :: "U32 \<Rightarrow> string \<Rightarrow> U32 list" where
  "string_words a [] = [a AND NOT 3]"
| "string_words a (c # s) = (a AND NOT 3) # string_words (a + 1) s"

lemma cstring_cong: "(\<And>x. x \<in> set (string_words a s) \<Longrightarrow> m' x = m x) \<Longrightarrow> cstring m' a s \<longleftrightarrow> cstring m a s"
  by (induction s arbitrary: a) (simp_all add: mem_byte_def)

lemma runs_load_char:
  "mem_byte (w_mem w) a = Some b \<Longrightarrow> runs (h b) w es x w' \<Longrightarrow> runs (tbind (load_char a) h) w es x w'"
  by (auto simp: mem_byte_def intro: runs_load)

lemma mem_byteE:
  assumes "mem_byte m a = Some b"
  obtains w where "m (a AND NOT 3) = Some w" and "byte_of a w = b"
  using assms by (auto simp: mem_byte_def)

section \<open>The terminal\<close>

definition term_status :: "U32 \<Rightarrow> U32" where
  "term_status term = TERMINAL0ADDR + term * DEV_REG_SIZE + TRANSTATUS * DEV_REG_LEN"

definition term_command :: "U32 \<Rightarrow> U32" where
  "term_command term = TERMINAL0ADDR + term * DEV_REG_SIZE + TRANCOMMAND * DEV_REG_LEN"

definition char_command :: "char \<Rightarrow> U32" where
  "char_command c = push_bit CHAROFFSET (scast (of_char c :: 8 word)) OR PRINTCHAR"

text \<open>What is left of the answers of the device: the printer stops at the first error.\<close>

definition until_error :: "U32 list \<Rightarrow> U32 list" where
  "until_error sts = takeWhile (\<lambda>st. st = TRANSMITTED) sts @ take 1 (dropWhile (\<lambda>st. st = TRANSMITTED) sts)"

definition io_answers :: "frame \<Rightarrow> U32 list \<Rightarrow> (U32 \<times> (U32 \<times> U32) list) list" where
  "io_answers fr sts = concat (map (\<lambda>st. [(MSGGOOD, []), (MAGIC_SSI, [(stat_at fr, st)])]) sts)"

definition char_events :: "frame \<Rightarrow> U32 \<Rightarrow> char \<Rightarrow> U32 \<Rightarrow> event list" where
  "char_events fr term c st =
     Stored (term_command term) (char_command c) # request_events fr WAITFORIO (term_status term) (stat_at fr) @
     (if st = TRANSMITTED then [Stored (term_command term) ACK] else [])"

definition print_events :: "frame \<Rightarrow> U32 \<Rightarrow> string \<Rightarrow> U32 list \<Rightarrow> event list" where
  "print_events fr term s sts = concat (map2 (char_events fr term) s (until_error sts))"

text \<open>The words that the printer writes; the string is elsewhere.\<close>

definition printer_words :: "frame \<Rightarrow> U32 \<Rightarrow> U32 set" where
  "printer_words fr term = {term_command term, stat_at fr, request_at fr, request_at fr + 4, request_at fr + 8}"

definition printer_memory :: "frame \<Rightarrow> U32 \<Rightarrow> (U32 \<Rightarrow> U32 option) \<Rightarrow> U32 \<Rightarrow> string \<Rightarrow> bool" where
  "printer_memory fr term m a s \<longleftrightarrow> cstring m a s \<and> (\<forall>x\<in>printer_words fr term. m x \<noteq> None \<and> x \<notin> set (string_words a s))"

lemma until_error_Cons:
  "until_error [] = []" "until_error (st # sts) = (if st = TRANSMITTED then st # until_error sts else [st])"
  by (simp_all add: until_error_def)

lemma io_answers_Cons [simp]:
  "io_answers fr [] = []" "io_answers fr (st # sts) = (MSGGOOD, []) # (MAGIC_SSI, [(stat_at fr, st)]) # io_answers fr sts"
  by (simp_all add: io_answers_def)

lemma print_events_Cons:
  "print_events fr term [] [] = []"
  "print_events fr term (c # s) (st # sts) = char_events fr term c st @ (if st = TRANSMITTED then print_events fr term s sts else [])"
  by (simp_all add: print_events_def until_error_Cons)

lemma printer_memoryD:
  assumes "printer_memory fr term m a s"
  shows "cstring m a s" "request_mapped fr m" "m (term_command term) \<noteq> None" "m (stat_at fr) \<noteq> None"
    "x \<in> set (string_words a s) \<Longrightarrow> x \<notin> printer_words fr term"
proof -
  have w: "\<forall>x\<in>printer_words fr term. m x \<noteq> None \<and> x \<notin> set (string_words a s)" and c: "cstring m a s"
    using assms by (simp_all add: printer_memory_def)
  show "cstring m a s" by (rule c)
  show "request_mapped fr m" "m (term_command term) \<noteq> None" "m (stat_at fr) \<noteq> None"
    using w by (simp_all add: printer_words_def request_mapped_def)
  show "x \<in> set (string_words a s) \<Longrightarrow> x \<notin> printer_words fr term" using w by blast
qed

lemma printer_memory_frame:
  assumes p: "printer_memory fr term m a s" and m: "\<And>x. x \<notin> printer_words fr term \<Longrightarrow> m' x = m x" "\<And>x. m' x = None \<Longrightarrow> m x = None"
  shows "printer_memory fr term m' a s"
proof -
  have "cstring m' a s" using cstring_cong[of a s m' m] m(1) printer_memoryD(1,5)[OF p] by blast
  then show ?thesis using p m(2) unfolding printer_memory_def by blast
qed

lemma printer_memory_tail: "printer_memory fr term m a (c # s) \<Longrightarrow> printer_memory fr term m (a + 1) s"
  unfolding printer_memory_def by simp

text \<open>One character: its command, the request to wait for the device, and the status that comes.\<close>

lemma runs_char:
  assumes p: "printer_memory fr term (w_mem w) a (c # s)" and an: "w_answers w = io_answers fr (st # sts) @ rest"
  shows "\<exists>w'. runs
      (tbind (load_char a) (\<lambda>ch.
          tthen (putChar (term_command term) ch)
          (tthen (ssi_request fr WAITFORIO (term_status term) (stat_at fr))
          (tbind (tload (stat_at fr)) (\<lambda>stat.
           if stat \<noteq> TRANSMITTED then Return (a, True)
           else tthen (tstore (term_command term) ACK) (Return (a + 1, False)))))))
      w (char_events fr term c st) (if st = TRANSMITTED then (a + 1, False) else (a, True)) w' \<and>
    w_answers w' = io_answers fr sts @ rest \<and> printer_memory fr term (w_mem w') a (c # s)"
proof -
  let ?c = "term_command term"
  obtain x where x: "w_mem w (a AND NOT 3) = Some x" "byte_of a x = of_char c"
    using printer_memoryD(1)[OF p] by (auto elim: mem_byteE)
  let ?w1 = "w\<lparr>w_mem := (w_mem w)(?c \<mapsto> char_command c)\<rparr>"
  let ?m2 = "(w_mem ?w1)(request_at fr \<mapsto> WAITFORIO, request_at fr + 4 \<mapsto> term_status term, request_at fr + 8 \<mapsto> stat_at fr, stat_at fr \<mapsto> st)"
  let ?w2 = "?w1\<lparr>w_mem := ?m2, w_answers := io_answers fr sts @ rest\<rparr>"
  let ?w3 = "if st = TRANSMITTED then ?w2\<lparr>w_mem := ?m2(?c \<mapsto> ACK)\<rparr> else ?w2"
  let ?r = "if st = TRANSMITTED then (a + 1, False) else (a, True)"
  let ?tail = "tbind (tload (stat_at fr)) (\<lambda>stat. if stat \<noteq> TRANSMITTED then Return (a, True)
           else tthen (tstore ?c ACK) (Return (a + 1, False)))"
  have t: "runs ?tail ?w2 (if st = TRANSMITTED then [Stored ?c ACK] else []) ?r ?w3"
    by (auto intro!: runs_load runs_store runs.Return)
  have rm: "request_mapped fr (w_mem ?w1)" using printer_memoryD(2)[OF p] by (auto simp: request_mapped_def)
  have "runs (tthen (ssi_request fr WAITFORIO (term_status term) (stat_at fr)) ?tail) ?w1
      (request_events fr WAITFORIO (term_status term) (stat_at fr) @ (if st = TRANSMITTED then [Stored ?c ACK] else [])) ?r ?w3"
    by (rule runs_request[OF rm, where as = "io_answers fr sts @ rest"]) (use an t in simp_all)
  then have r: "runs
      (tbind (load_char a) (\<lambda>ch. tthen (putChar ?c ch) (tthen (ssi_request fr WAITFORIO (term_status term) (stat_at fr)) ?tail)))
      w (char_events fr term c st) ?r ?w3"
    unfolding char_events_def putChar_def code_simps
    by (intro runs_load[OF x(1)]) (use x(2) printer_memoryD(3)[OF p] in \<open>auto simp: char_command_def simp del: code_simps intro!: runs_store\<close>)
  have "printer_memory fr term (w_mem ?w3) a (c # s)"
    by (rule printer_memory_frame[OF p]) (auto simp: printer_words_def split: if_splits)
  with r show ?thesis by (intro exI[of _ ?w3]) auto
qed

lemma runs_print_loop:
  assumes "printer_memory fr term (w_mem w) a s" and "length sts = length s"
    and "w_answers w = io_answers fr (until_error sts) @ rest"
  shows "\<exists>w' b. runs (print_loop fr (term_status term) (term_command term) (a, False)) w (print_events fr term s sts)
      (b, \<not> (\<forall>st\<in>set sts. st = TRANSMITTED)) w' \<and> w_answers w' = rest \<and> w_mem w' (term_command term) \<noteq> None"
  using assms
proof (induction s arbitrary: a w sts)
  case Nil
  have x: "mem_byte (w_mem w) a = Some EOS" using printer_memoryD(1)[OF Nil(1)] by simp
  have "runs (print_loop fr (term_status term) (term_command term) (a, False)) w [] (a, False) w"
    unfolding print_loop_def by (rule runs_while_stop) (simp del: code_simps, rule runs_load_char[OF x], rule runs_Return, simp)
  then show ?case
    using Nil(2,3) printer_memoryD(3)[OF Nil(1)]
    by (intro exI[of _ w] exI[of _ a]) (simp add: until_error_Cons print_events_Cons)
next
  case (Cons c s)
  then obtain st sts' where sts: "sts = st # sts'" by (cases sts) auto
  let ?cmd = "term_command term"
  define later where "later = (if st = TRANSMITTED then until_error sts' else [])"
  have "w_answers w = io_answers fr (st # later) @ rest"
    using Cons.prems(3) sts by (simp add: until_error_Cons later_def split: if_splits)
  from runs_char[OF Cons.prems(1) this] obtain w1 where b: "runs
      (tbind (load_char a) (\<lambda>ch.
          tthen (putChar ?cmd ch)
          (tthen (ssi_request fr WAITFORIO (term_status term) (stat_at fr))
          (tbind (tload (stat_at fr)) (\<lambda>stat.
           if stat \<noteq> TRANSMITTED then Return (a, True)
           else tthen (tstore ?cmd ACK) (Return (a + 1, False)))))))
      w (char_events fr term c st) (if st = TRANSMITTED then (a + 1, False) else (a, True)) w1"
    and an: "w_answers w1 = io_answers fr later @ rest" and p: "printer_memory fr term (w_mem w1) a (c # s)" by blast
  have test: "runs (tbind (load_char a) (\<lambda>ch. Return (ch \<noteq> EOS \<and> \<not> e))) v [] (\<not> e) v"
    if pm: "printer_memory fr term (w_mem v) a (c # s)" for v e
  proof -
    have "mem_byte (w_mem v) a = Some (of_char c)" "(of_char c :: 8 word) \<noteq> EOS" using printer_memoryD(1)[OF pm] by simp_all
    then show ?thesis by (intro runs_load_char[of v a "of_char c"] runs_Return) blast+
  qed
  show ?case
  proof (cases "st = TRANSMITTED")
    case True
    have "\<exists>w' b. runs (print_loop fr (term_status term) ?cmd (a + 1, False)) w1 (print_events fr term s sts')
        (b, \<not> (\<forall>st\<in>set sts'. st = TRANSMITTED)) w' \<and> w_answers w' = rest \<and> w_mem w' ?cmd \<noteq> None"
      using Cons.prems(2) sts an True by (intro Cons.IH[OF printer_memory_tail[OF p]]) (simp_all add: later_def)
    then obtain w' b' where w': "runs (print_loop fr (term_status term) ?cmd (a + 1, False)) w1 (print_events fr term s sts')
        (b', \<not> (\<forall>st\<in>set sts'. st = TRANSMITTED)) w'" "w_answers w' = rest" "w_mem w' ?cmd \<noteq> None" by blast
    have "runs (print_loop fr (term_status term) ?cmd (a, False)) w ([] @ char_events fr term c st @ print_events fr term s sts')
        (b', \<not> (\<forall>st\<in>set sts'. st = TRANSMITTED)) w'"
      unfolding print_loop_def
    proof (rule runs_while_again)
      show "runs (case (a, False) of (str, error) \<Rightarrow> tbind (load_char str) (\<lambda>ch. Return (ch \<noteq> EOS \<and> \<not> error))) w [] True w"
        using test[OF Cons.prems(1), of False] by (simp del: code_simps)
    qed (use b True w'(1) in \<open>simp_all add: print_loop_def\<close>)
    with w' True show ?thesis by (auto simp: sts print_events_Cons)
  next
    case False
    have "runs (print_loop fr (term_status term) ?cmd (a, False)) w ([] @ char_events fr term c st @ []) (a, True) w1"
      unfolding print_loop_def
    proof (rule runs_while_again)
      show "runs (case (a, False) of (str, error) \<Rightarrow> tbind (load_char str) (\<lambda>ch. Return (ch \<noteq> EOS \<and> \<not> error))) w [] True w"
        using test[OF Cons.prems(1), of False] by (simp del: code_simps)
      show "runs (while_loop (\<lambda>(str, error). tbind (load_char str) (\<lambda>ch. Return (ch \<noteq> EOS \<and> \<not> error)))
          (\<lambda>(str, error). tbind (load_char str) (\<lambda>ch. tthen (putChar ?cmd ch)
             (tthen (ssi_request fr WAITFORIO (term_status term) (stat_at fr)) (tbind (tload (stat_at fr)) (\<lambda>stat.
                if stat \<noteq> TRANSMITTED then Return (str, True) else tthen (tstore ?cmd ACK) (Return (str + 1, error)))))))
          (a, True)) w1 [] (a, True) w1"
        by (rule runs_while_stop) (use test[OF p, of True] in \<open>simp del: code_simps\<close>)
    qed (use b False in simp_all)
    then show ?thesis using False an printer_memoryD(3)[OF p] by (intro exI[of _ w1] exI[of _ a]) (auto simp: sts print_events_Cons later_def)
  qed
qed

text \<open>
  C13. \<open>termprint\<close> prints a string on an available terminal: for every character it gives the
  device the command, waits for its status with \<open>WAITFORIO\<close> and acknowledges it, in the order of
  the string; it stops after the first status that is not \<open>TRANSMITTED\<close>, acknowledges, and
  returns \<open>TRUE\<close> exactly when the device has transmitted every character. It always returns.
\<close>

theorem termprint_prints:
  assumes "term < DEV_PER_INT" and "printer_memory fr term (w_mem w) a s" and "w_mem w (term_status term) = Some v"
    and "v AND STATUSMASK \<in> {READY, TRANSMITTED}" and "length sts = length s"
    and "w_answers w = io_answers fr (until_error sts) @ rest"
  shows "\<exists>w'. runs (termprint fr a term) w
      (Stored (stat_at fr) (v AND STATUSMASK) # print_events fr term s sts @ [Stored (term_command term) ACK])
      (\<forall>st\<in>set sts. st = TRANSMITTED) w' \<and> w_answers w' = rest"
proof -
  let ?w1 = "w\<lparr>w_mem := (w_mem w)(stat_at fr \<mapsto> v AND STATUSMASK)\<rparr>"
  have p: "printer_memory fr term (w_mem ?w1) a s"
    by (rule printer_memory_frame[OF assms(2)]) (auto simp: printer_words_def split: if_splits)
  obtain w' b where l: "runs (print_loop fr (term_status term) (term_command term) (a, False)) ?w1 (print_events fr term s sts)
      (b, \<not> (\<forall>st\<in>set sts. st = TRANSMITTED)) w'" and w': "w_answers w' = rest" "w_mem w' (term_command term) \<noteq> None"
    using runs_print_loop[OF p assms(5)] assms(6) by auto
  let ?w2 = "w'\<lparr>w_mem := (w_mem w')(term_command term \<mapsto> ACK)\<rparr>"
  have "runs (tthen (tstore (term_command term) ACK) (Return (\<not> (\<not> (\<forall>st\<in>set sts. st = TRANSMITTED))))) w'
      [Stored (term_command term) ACK] (\<forall>st\<in>set sts. st = TRANSMITTED) ?w2"
    using w'(2) by (auto intro!: runs_store runs.Return)
  then have r: "runs (tbind (print_loop fr (term_status term) (term_command term) (a, False))
        (\<lambda>(str, error). tthen (tstore (term_command term) ACK) (Return (\<not> error)))) ?w1
      (print_events fr term s sts @ [Stored (term_command term) ACK]) (\<forall>st\<in>set sts. st = TRANSMITTED) ?w2"
    by (intro runs_bind[OF l]) simp
  have "runs (termprint fr a term) w (Stored (stat_at fr) (v AND STATUSMASK) # print_events fr term s sts @ [Stored (term_command term) ACK])
      (\<forall>st\<in>set sts. st = TRANSMITTED) ?w2"
    unfolding termprint_def Let_def term_status_def[symmetric] term_command_def[symmetric]
    using assms(1,3,4) printer_memoryD(4)[OF assms(2)] r
    by (auto simp del: STATUSMASK_def intro!: runs_load runs_store)
  with w'(1) show ?thesis by auto
qed

text \<open>A terminal that is ready, and the string ''ok'' in memory.\<close>

definition ex_frame :: frame where
  "ex_frame = \<lparr>reply_at = 0x6100, tmp_at = 0x6104, stat_at = 0x6000, print_reply_at = 0x6108, request_at = 0x6010, junk = 0x6200\<rparr>"

definition ex_world :: world where
  "ex_world = \<lparr>w_mem = (\<lambda>a. Some (if a = 0x5000 then 0x6b6f else if a = 0x10000258 then 1 else 0)), w_saved = Map.empty,
     w_regs = \<lparr>entry_hi = 0, cause = 0, status = 0, pc_epc = 0, gpr = replicate 29 0x9000, hi = 0, lo = 0\<rparr>,
     w_clock = [], w_answers = io_answers ex_frame [TRANSMITTED, TRANSMITTED]\<rparr>"

lemma ex_printer_memory: "printer_memory ex_frame 0 (w_mem ex_world) 0x5000 ''ok''"
  by (simp add: printer_memory_def printer_words_def mem_byte_def byte_of_def ex_world_def ex_frame_def term_command_def)

theorem termprint_prints_witness:
  "\<exists>w'. runs (termprint ex_frame 0x5000 0) ex_world
     [Stored 0x6000 1,
      Stored 0x1000025c 0x6f02, Stored 0x6010 9, Stored 0x6014 0x10000258, Stored 0x6018 0x6000,
        Called 1 0xFFFFFFFF 0x6010, Called 2 0xFFFFFFFF 0x6000, Stored 0x1000025c 1,
      Stored 0x1000025c 0x6b02, Stored 0x6010 9, Stored 0x6014 0x10000258, Stored 0x6018 0x6000,
        Called 1 0xFFFFFFFF 0x6010, Called 2 0xFFFFFFFF 0x6000, Stored 0x1000025c 1,
      Stored 0x1000025c 1] True w'"
proof -
  have "\<exists>w'. runs (termprint ex_frame 0x5000 0) ex_world
      (Stored (stat_at ex_frame) (1 AND STATUSMASK) # print_events ex_frame 0 ''ok'' [TRANSMITTED, TRANSMITTED] @ [Stored (term_command 0) ACK])
      (\<forall>st\<in>set [TRANSMITTED, TRANSMITTED]. st = TRANSMITTED) w' \<and> w_answers w' = []"
    by (rule termprint_prints[OF _ ex_printer_memory])
      (simp_all add: ex_world_def term_status_def until_error_Cons io_answers_def)
  then obtain w' where "runs (termprint ex_frame 0x5000 0) ex_world
      (Stored (stat_at ex_frame) (1 AND STATUSMASK) # print_events ex_frame 0 ''ok'' [TRANSMITTED, TRANSMITTED] @ [Stored (term_command 0) ACK])
      (\<forall>st\<in>set [TRANSMITTED, TRANSMITTED]. st = TRANSMITTED) w'" by blast
  then show ?thesis
    by (intro exI[of _ w']) (simp add: print_events_Cons char_events_def request_events_def char_command_def term_command_def term_status_def ex_frame_def)
qed

text \<open>
  \<open>termprint\<close> fails without a command to the device when the terminal is not available,
  and acknowledges all the same. A wrong terminal number makes it store the acknowledgement
  through a pointer that was never set.
\<close>

theorem termprint_refuses:
  assumes "w_mem w (term_status term) = Some v" and "v AND STATUSMASK \<notin> {READY, TRANSMITTED}" and "w_mem w (stat_at fr) \<noteq> None"
    and "w_mem w (term_command term) \<noteq> None" and "w_mem w (junk fr) \<noteq> None"
  shows "\<exists>w'. runs (termprint fr a term) w
      (if term < DEV_PER_INT then [Stored (stat_at fr) (v AND STATUSMASK), Stored (term_command term) ACK] else [Stored (junk fr) ACK]) False w'"
proof (cases "term < DEV_PER_INT")
  case True
  have "runs (termprint fr a term) w [Stored (stat_at fr) (v AND STATUSMASK), Stored (term_command term) ACK] False
     (w\<lparr>w_mem := (w_mem w)(stat_at fr \<mapsto> v AND STATUSMASK, term_command term \<mapsto> ACK)\<rparr>)"
    unfolding termprint_def Let_def term_status_def[symmetric] term_command_def[symmetric]
    using assms True by (auto simp del: STATUSMASK_def intro!: runs_load runs_store runs.Return)
  with True show ?thesis by auto
next
  case False
  have "runs (termprint fr a term) w [Stored (junk fr) ACK] False (w\<lparr>w_mem := (w_mem w)(junk fr \<mapsto> ACK)\<rparr>)"
    using False assms(5) by (auto simp: termprint_def intro!: runs_store runs.Return)
  with False show ?thesis by auto
qed

theorem termprint_refuses_witness:
  "\<exists>w'. runs (termprint ex_frame 0x5000 9) ex_world [Stored 0x6200 1] False w'"
proof -
  have "w_mem ex_world (term_status 9) = Some 0" by (simp add: ex_world_def term_status_def)
  from termprint_refuses[OF this, where fr = ex_frame and a = "0x5000"] show ?thesis by (simp add: ex_world_def ex_frame_def)
qed

end
