(* ===== verification/P2test_States.thy ===== *)
theory P2test_States
  imports P2test_Props
begin

text \<open>
  The processor states that p1 prepares for the threads of the test: each has the entry point of
  its thread, all interrupts enabled and a stack of its own, and the SSI reads from memory
  exactly what p1 has put there.
\<close>

unbundle bit_operations_syntax

section \<open>Total correctness of code in a world\<close>

definition reaches :: "'a thread \<Rightarrow> ('a \<Rightarrow> world \<Rightarrow> bool) \<Rightarrow> world \<Rightarrow> bool" where
  "reaches t P w \<longleftrightarrow> (\<exists>es x w'. runs t w es x w' \<and> P x w')"

lemma reaches_mono: "reaches t P w \<Longrightarrow> (\<And>x w'. P x w' \<Longrightarrow> P' x w') \<Longrightarrow> reaches t P' w"
  unfolding reaches_def by blast

lemma reaches_Return: "P x w \<Longrightarrow> reaches (Return x) P w"
  unfolding reaches_def by (blast intro: runs.Return)

lemma reaches_Act: "world_act a w = Some (v, e, w1) \<Longrightarrow> reaches (k v) P w1 \<Longrightarrow> reaches (Act a k) P w"
  unfolding reaches_def by (blast intro: runs.Act)

lemma reaches_then: "reaches t (\<lambda>_. reaches u P) w \<Longrightarrow> reaches (tthen t u) P w"
  unfolding reaches_def by (blast intro: runs_then)

lemma reaches_seq:
  assumes "reaches t (\<lambda>_. reaches (tseq ts) P) w"
  shows "reaches (tseq (t # ts)) P w"
proof (cases "ts = []")
  case True
  have "P () v" if "reaches (Return ()) P v" for v using that by (auto simp: reaches_def elim: runs_ReturnE)
  with True assms show ?thesis by (simp add: reaches_mono)
qed (use assms in \<open>simp add: reaches_then\<close>)

section \<open>A processor state in memory\<close>

lemma word_offset_inj:
  assumes "i < 2 ^ 30" and "j < 2 ^ 30"
  shows "(a :: U32) + 4 * of_nat i = a + 4 * of_nat j \<longleftrightarrow> i = j"
proof
  assume "a + 4 * of_nat i = a + 4 * of_nat j"
  then have "(of_nat (4 * i) :: U32) = of_nat (4 * j)" by simp
  then have "take_bit 32 (4 * i) = take_bit 32 (4 * j)" unfolding word_of_nat_eq_iff by simp
  then show "i = j" using assms by (simp add: take_bit_nat_eq_self)
qed simp

definition holds_words :: "(U32 \<Rightarrow> U32 option) \<Rightarrow> U32 \<Rightarrow> U32 list \<Rightarrow> bool" where
  "holds_words m a ws \<longleftrightarrow> (\<forall>i<length ws. m (a + 4 * of_nat i) = Some (ws ! i))"

lemma holds_words_Cons:
  "holds_words m a (w # ws) \<longleftrightarrow> m a = Some w \<and> holds_words m (a + 4) ws"
  by (auto simp: holds_words_def nth_Cons algebra_simps less_Suc_eq_0_disj split: nat.splits)

lemma read_words_holds: "holds_words (mem s) a ws \<Longrightarrow> read_words a (length ws) s = Inr (ws, s)"
  by (induction ws arbitrary: a) (simp_all add: holds_words_Cons kbind_def mem_read_def)

lemma put_words_outside: "(\<And>i. i < length ws \<Longrightarrow> x \<noteq> a + 4 * of_nat i) \<Longrightarrow> put_words a ws m x = m x"
proof (induction ws arbitrary: a m)
  case (Cons w ws)
  have "x \<noteq> a" using Cons.prems[of 0] by simp
  moreover have "x \<noteq> a + 4 + 4 * of_nat i" if "i < length ws" for i
    using Cons.prems[of "Suc i"] that by (simp add: algebra_simps)
  ultimately show ?case using Cons.IH[of "a + 4"] by simp
qed simp

lemma put_words_holds:
  assumes "length ws < 2 ^ 30"
  shows "holds_words (put_words a ws m) a ws"
  using assms
proof (induction ws arbitrary: a m)
  case (Cons w ws)
  have "put_words (a + 4) ws (m(a \<mapsto> w)) a = (m(a \<mapsto> w)) a"
  proof (rule put_words_outside)
    fix i assume "i < length ws"
    then show "a \<noteq> a + 4 + 4 * of_nat i"
      using word_offset_inj[of 0 "Suc i" a] Cons.prems by (simp add: algebra_simps)
  qed
  then show ?case using Cons.IH[of "a + 4" "m(a \<mapsto> w)"] Cons.prems
    by (simp add: holds_words_Cons fun_upd_same del: fun_upd_apply)
qed (simp add: holds_words_def)

lemma holds_words_upd:
  assumes "holds_words m a ws" and "i < length ws" and "length ws < 2 ^ 30"
  shows "holds_words (m(a + 4 * of_nat i \<mapsto> v)) a (ws[i := v])"
  unfolding holds_words_def
proof (intro allI impI)
  fix j assume "j < length (ws[i := v])"
  then show "(m(a + 4 * of_nat i \<mapsto> v)) (a + 4 * of_nat j) = Some (ws[i := v] ! j)"
    using assms word_offset_inj[of j i a] by (cases "j = i") (auto simp: holds_words_def)
qed

definition holds_state :: "(U32 \<Rightarrow> U32 option) \<Rightarrow> U32 \<Rightarrow> state_t \<Rightarrow> bool" where
  "holds_state m a st \<longleftrightarrow> length (gpr st) = 29 \<and> holds_words m a (state_words st)"

lemma read_state_holds:
  assumes "holds_state (mem s) a st"
  shows "read_state a s = Inr (st, s)"
proof -
  have g: "length (gpr st) = 29" and h: "holds_words (mem s) a (state_words st)" using assms by (simp_all add: holds_state_def)
  have l: "length (state_words st) = 35" using g by (simp add: state_words_def)
  have "read_words a 35 s = Inr (state_words st, s)" using read_words_holds[OF h] l by simp
  moreover have "take 29 (drop 4 (state_words st)) = gpr st" using g by (simp add: state_words_def)
  moreover have "state_words st ! 33 = hi st" "state_words st ! 34 = lo st" using g by (simp_all add: state_words_def nth_append)
  ultimately show ?thesis by (simp add: read_state_def kbind_def) (simp add: state_words_def)
qed

text \<open>The words that the program names.\<close>

lemma holds_state_upd:
  assumes "holds_state m a st"
  shows "i < 29 \<Longrightarrow> holds_state (m(gpr_of i a \<mapsto> v)) a (gpr_set i v st)"
    "holds_state (m(pc_of a \<mapsto> v)) a (st\<lparr>pc_epc := v\<rparr>)"
    "holds_state (m(status_of a \<mapsto> v)) a (st\<lparr>status := v\<rparr>)"
    "i < 29 \<Longrightarrow> m (gpr_of i a) = Some (gpr_get st i)" "m (status_of a) = Some (status st)"
proof -
  have g: "length (gpr st) = 29" and h: "holds_words m a (state_words st)" using assms by (simp_all add: holds_state_def)
  have l: "length (state_words st) = 35" using g by (simp add: state_words_def)
  have u: "holds_words (m(a + 4 * of_nat j \<mapsto> v)) a ((state_words st)[j := v])" if "j < 35" for j
    using holds_words_upd[OF h, of j v] l that by simp
  have r: "m (a + 4 * of_nat j) = Some (state_words st ! j)" if "j < 35" for j using h that l by (simp add: holds_words_def)
  show "i < 29 \<Longrightarrow> holds_state (m(gpr_of i a \<mapsto> v)) a (gpr_set i v st)"
    using u[of "i + 4"] g by (simp add: holds_state_def gpr_set_def gpr_of_def state_words_def list_update_append algebra_simps eval_nat_numeral)
  show "holds_state (m(pc_of a \<mapsto> v)) a (st\<lparr>pc_epc := v\<rparr>)"
    using u[of 3] g by (simp add: holds_state_def pc_of_def state_words_def eval_nat_numeral)
  show "holds_state (m(status_of a \<mapsto> v)) a (st\<lparr>status := v\<rparr>)"
    using u[of 2] g by (simp add: holds_state_def status_of_def state_words_def eval_nat_numeral)
  show "i < 29 \<Longrightarrow> m (gpr_of i a) = Some (gpr_get st i)"
    using r[of "i + 4"] g by (simp add: gpr_of_def gpr_get_def state_words_def nth_append algebra_simps)
  show "m (status_of a) = Some (status st)" using r[of 2] by (simp add: status_of_def state_words_def)
qed

section \<open>One state\<close>

text \<open>The state of a thread that starts at \<open>pc\<close> with its stack at \<open>sp\<close>.\<close>

definition prepared :: "state_t \<Rightarrow> U32 \<Rightarrow> U32 \<Rightarrow> state_t" where
  "prepared st sp pc =
     (gpr_set reg_t9 pc (gpr_set reg_sp sp st))\<lparr>pc_epc := pc, status := status st OR IEPON OR IMALLON\<rparr>"

definition region :: "U32 \<Rightarrow> U32 set" where
  "region a = (\<lambda>i. a + 4 * of_nat i) ` {..<35 :: nat}"

lemma holds_state_cong:
  assumes "\<And>x. x \<in> region a \<Longrightarrow> m' x = m x"
  shows "holds_state m' a st \<longleftrightarrow> holds_state m a st"
proof -
  have "length (state_words st) = 35" if "length (gpr st) = 29" using that by (simp add: state_words_def)
  then show ?thesis using assms by (auto simp: holds_state_def holds_words_def region_def)
qed

lemma region_fields:
  "i < 29 \<Longrightarrow> gpr_of i a \<in> region a" "pc_of a \<in> region a" "status_of a \<in> region a"
proof -
  have "a + 4 * of_nat j \<in> region a" if "j < 35" for j using that by (auto simp: region_def)
  from this[of "i + 4"] this[of 3] this[of 2]
  show "i < 29 \<Longrightarrow> gpr_of i a \<in> region a" "pc_of a \<in> region a" "status_of a \<in> region a"
    by (simp_all add: gpr_of_def pc_of_def status_of_def algebra_simps)
qed

lemma reaches_store:
  "w_mem w a \<noteq> None \<Longrightarrow> reaches (k v) P (w\<lparr>w_mem := (w_mem w)(a \<mapsto> v)\<rparr>) \<Longrightarrow> reaches (Act (Store a v) k) P w"
  by (rule reaches_Act) simp_all

lemma reaches_load: "w_mem w a = Some v \<Longrightarrow> reaches (k v) P w \<Longrightarrow> reaches (Act (Load a) k) P w"
  by (rule reaches_Act) simp_all

lemma reaches_set_up:
  assumes g: "length (gpr (w_regs w)) = 29" and a: "mapped_words (w_mem w) (state_at im var) 35"
    and b: "higher = var \<and> stb = w_regs w \<or> region (state_at im higher) \<inter> region (state_at im var) = {} \<and> holds_state (w_mem w) (state_at im higher) stb"
    and P: "\<And>w'. w_regs w' = w_regs w \<Longrightarrow>
      holds_state (w_mem w') (state_at im var) (prepared (w_regs w) (gpr_get stb reg_sp - off) (entry im fn)) \<Longrightarrow>
      (\<And>x. x \<notin> region (state_at im var) \<Longrightarrow> w_mem w' x = w_mem w x) \<Longrightarrow> (\<And>x. w_mem w' x = None \<longleftrightarrow> w_mem w x = None) \<Longrightarrow> P () w'"
  shows "reaches (set_up im var higher off fn) P w"
proof -
  let ?a = "state_at im var" and ?b = "state_at im higher" and ?st = "w_regs w" and ?e = "entry im fn"
  let ?sp = "gpr_get stb reg_sp - off"
  let ?m1 = "put_words ?a (state_words ?st) (w_mem w)"
  let ?m2 = "?m1(gpr_of reg_sp ?a \<mapsto> ?sp)" let ?m3 = "?m2(gpr_of reg_t9 ?a \<mapsto> ?e)" let ?m4 = "?m3(pc_of ?a \<mapsto> ?e)"
  let ?m5 = "?m4(status_of ?a \<mapsto> status ?st OR IEPON OR IMALLON)"
  have l: "length (state_words ?st) = 35" using g by (simp add: state_words_def)
  have o: "put_words ?a (state_words ?st) m x = m x" if "x \<notin> region ?a" for m x
    using that l by (intro put_words_outside) (auto simp: region_def)
  have h1: "holds_state ?m1 ?a ?st" using put_words_holds[of "state_words ?st"] l g by (simp add: holds_state_def)
  have h2: "holds_state ?m2 ?a (gpr_set reg_sp ?sp ?st)" by (rule holds_state_upd(1)[OF h1]) simp
  have h3: "holds_state ?m3 ?a (gpr_set reg_t9 ?e (gpr_set reg_sp ?sp ?st))" by (rule holds_state_upd(1)[OF h2]) simp
  note h4 = holds_state_upd(2)[OF h3, of ?e]
  note h5 = holds_state_upd(3)[OF h4, of "status ?st OR IEPON OR IMALLON"]
  have stt: "status ((gpr_set reg_t9 ?e (gpr_set reg_sp ?sp ?st))\<lparr>pc_epc := ?e\<rparr>) = status ?st" by (simp add: gpr_set_def)
  have in1: "?m1 x \<noteq> None" if "x \<in> region ?a" for x
    using h1 that l by (auto simp: holds_state_def holds_words_def region_def)
  have nz: "w_mem w x \<noteq> None" if "x \<in> region ?a" for x using a that by (auto simp: mapped_words_def region_def)
  have sp: "?m1 (gpr_of reg_sp ?b) = Some (gpr_get stb reg_sp)"
    using b
  proof
    assume "higher = var \<and> stb = ?st"
    with holds_state_upd(4)[OF h1, of reg_sp] show ?thesis by simp
  next
    assume d: "region ?b \<inter> region ?a = {} \<and> holds_state (w_mem w) ?b stb"
    then have "gpr_of reg_sp ?b \<notin> region ?a" using region_fields(1)[of reg_sp ?b] by auto
    with d show ?thesis using o holds_state_upd(4)[of "w_mem w" ?b stb reg_sp] by simp
  qed
  have "P () (w\<lparr>w_mem := ?m5\<rparr>)"
  proof (rule P)
    have "prepared ?st ?sp ?e = (gpr_set reg_t9 ?e (gpr_set reg_sp ?sp ?st))\<lparr>pc_epc := ?e, status := status ?st OR IEPON OR IMALLON\<rparr>"
      by (simp add: prepared_def)
    with h5 show "holds_state (w_mem (w\<lparr>w_mem := ?m5\<rparr>)) ?a (prepared ?st ?sp ?e)" by simp
    show "w_mem (w\<lparr>w_mem := ?m5\<rparr>) x = w_mem w x" if "x \<notin> region ?a" for x
      using that o region_fields by auto
    show "w_mem (w\<lparr>w_mem := ?m5\<rparr>) x = None \<longleftrightarrow> w_mem w x = None" for x
      using o in1[of x] nz[of x] region_fields by (cases "x \<in> region ?a") auto
  qed simp
  moreover have "?m4 (status_of ?a) = Some (status ?st)" using holds_state_upd(5)[OF h4] stt by simp
  moreover have "world_act (Stst ?a) w = Some (?a, [], w\<lparr>w_mem := ?m1\<rparr>)" using a by simp
  ultimately show ?thesis
    unfolding set_up_def Let_def
  proof (elim reaches_Act, goal_cases)
    case 1
    have m: "?m1 (gpr_of reg_sp ?a) \<noteq> None" "?m2 (gpr_of reg_t9 ?a) \<noteq> None" "?m3 (pc_of ?a) \<noteq> None" "?m4 (status_of ?a) \<noteq> None"
      using in1 region_fields by simp_all
    show ?case
      unfolding tseq_simps code_simps tthen_simps tstore_def[of "status_of ?a"]
      by (rule reaches_load[where v = "gpr_get stb reg_sp"], use sp in simp)
        (rule reaches_store[OF _ reaches_store[OF _ reaches_store[OF _ reaches_load[OF _ reaches_store[OF _ reaches_Return]]]]],
          use m 1 in simp_all)
  qed
qed

section \<open>All states\<close>

text \<open>
  How many pages of \<open>QPAGE\<close> bytes below the stack of p1 the stack of each thread starts, and
  where its code begins.
\<close>

definition stack_plan :: "(state_var \<times> nat \<times> code) list" where
  "stack_plan =
     [(Printstate, 1, F_printthread), (P2state, 2, F_p2), (P3state, 3, F_p3), (P4state, 4, F_p4),
      (P5state, 6, F_p5), (P5trap_s, 9, F_p5trapm), (P6state, 10, F_p6), (P7state, 11, F_p7),
      (P8rootstate, 12, F_p8root), (Child1state, 13, F_child1), (Child2state, 14, F_child2), (Gchild1state, 15, F_p8leaf),
      (Gchild2state, 16, F_p8leaf), (Gchild3state, 17, F_p8leaf), (Gchild4state, 18, F_p8leaf), (P9state, 19, F_p9),
      (P9trap_s, 20, F_p9trapm)]"

text \<open>The variables do not overlap.\<close>

definition image_ok :: "image \<Rightarrow> bool" where
  "image_ok im \<longleftrightarrow> (\<forall>v v'. v \<noteq> v' \<longrightarrow> region (state_at im v) \<inter> region (state_at im v') = {}) \<and>
     (\<forall>v. global_at im P5Stack \<notin> region (state_at im v))"

definition states_mapped :: "image \<Rightarrow> (U32 \<Rightarrow> U32 option) \<Rightarrow> bool" where
  "states_mapped im m \<longleftrightarrow> (\<forall>v. mapped_words m (state_at im v) 35) \<and> m (global_at im P5Stack) \<noteq> None"

definition planned :: "image \<Rightarrow> state_t \<Rightarrow> U32 \<Rightarrow> (state_var \<times> nat \<times> code) list \<Rightarrow> (U32 \<Rightarrow> U32 option) \<Rightarrow> bool" where
  "planned im regs sp D m \<longleftrightarrow> (\<forall>(v, k, f)\<in>set D. holds_state m (state_at im v) (prepared regs (sp - of_nat k * QPAGE) (entry im f)))"

definition stage :: "image \<Rightarrow> state_t \<Rightarrow> U32 \<Rightarrow> (state_var \<times> nat \<times> code) list \<Rightarrow> (U32 \<Rightarrow> bool) \<Rightarrow> world \<Rightarrow> bool" where
  "stage im regs sp D G w \<longleftrightarrow> w_regs w = regs \<and> states_mapped im (w_mem w) \<and> planned im regs sp D (w_mem w) \<and>
     (case w_mem w (global_at im P5Stack) of None \<Rightarrow> False | Some x \<Rightarrow> G x)"

lemma prepared_sp: "length (gpr st) = 29 \<Longrightarrow> gpr_get (prepared st sp pc) reg_sp = sp"
  by (simp add: prepared_def gpr_get_def gpr_set_def)

lemma stage_set_up:
  assumes im: "image_ok im" and g: "length (gpr regs) = 29" and s: "stage im regs sp D G w"
    and h: "(higher, k, f) \<in> set D" and v: "var \<notin> fst ` set D" and off: "off = of_nat n * QPAGE"
    and P: "\<And>w'. stage im regs sp ((var, k + n, fn) # D) G w' \<Longrightarrow> P () w'"
  shows "reaches (set_up im var higher off fn) P w"
proof -
  have r: "w_regs w = regs" and m: "states_mapped im (w_mem w)" and d: "planned im regs sp D (w_mem w)" using s by (simp_all add: stage_def)
  have hv: "higher \<noteq> var" using h v by force
  have hs: "holds_state (w_mem w) (state_at im higher) (prepared regs (sp - of_nat k * QPAGE) (entry im f))"
    using d h by (auto simp: planned_def)
  show ?thesis
  proof (rule reaches_set_up[where stb = "prepared regs (sp - of_nat k * QPAGE) (entry im f)"])
    show "length (gpr (w_regs w)) = 29" using g r by simp
    show "mapped_words (w_mem w) (state_at im var) 35" using m by (simp add: states_mapped_def)
    show "higher = var \<and> prepared regs (sp - of_nat k * QPAGE) (entry im f) = w_regs w \<or>
        region (state_at im higher) \<inter> region (state_at im var) = {} \<and>
        holds_state (w_mem w) (state_at im higher) (prepared regs (sp - of_nat k * QPAGE) (entry im f))"
      using hs hv im unfolding image_ok_def by blast
    fix w' :: world
    assume w': "w_regs w' = w_regs w"
      "holds_state (w_mem w') (state_at im var) (prepared (w_regs w)
         (gpr_get (prepared regs (sp - of_nat k * QPAGE) (entry im f)) reg_sp - off) (entry im fn))"
      and o: "\<And>x. x \<notin> region (state_at im var) \<Longrightarrow> w_mem w' x = w_mem w x" and n: "\<And>x. w_mem w' x = None \<longleftrightarrow> w_mem w x = None"
    have "sp - of_nat k * QPAGE - off = sp - of_nat (k + n) * QPAGE" by (simp only: off of_nat_add) (simp add: algebra_simps)
    then have new: "holds_state (w_mem w') (state_at im var) (prepared regs (sp - of_nat (k + n) * QPAGE) (entry im fn))"
      using w'(2) by (simp only: r prepared_sp[OF g])
    have "holds_state (w_mem w') (state_at im u) st \<longleftrightarrow> holds_state (w_mem w) (state_at im u) st" if "u \<noteq> var" for u st
      by (rule holds_state_cong, rule o) (use im that in \<open>auto simp: image_ok_def\<close>)
    then have "holds_state (w_mem w') (state_at im u) st \<longleftrightarrow> holds_state (w_mem w) (state_at im u) st" if "(u, x) \<in> set D" for u x st
      using that v by force
    then have "planned im regs sp ((var, k + n, fn) # D) (w_mem w')"
      using d new unfolding planned_def by fastforce
    moreover have "states_mapped im (w_mem w')" using m by (simp add: states_mapped_def mapped_words_def n)
    moreover have "w_mem w' (global_at im P5Stack) = w_mem w (global_at im P5Stack)" using o im by (simp add: image_ok_def)
    ultimately show "P () w'" using w'(1) r s by (intro P) (simp add: stage_def)
  qed
qed

lemma stage_p5Stack:
  assumes im: "image_ok im" and g: "length (gpr regs) = 29" and s: "stage im regs sp D G w" and h: "(P5state, k, f) \<in> set D"
    and P: "\<And>w'. stage im regs sp D (\<lambda>x. x = sp - of_nat k * QPAGE) w' \<Longrightarrow> P () w'"
  shows "reaches (tbind (tload (gpr_of reg_sp (state_at im P5state))) (set_global im P5Stack)) P w"
proof -
  let ?x = "sp - of_nat k * QPAGE" and ?g = "global_at im P5Stack"
  have d: "planned im regs sp D (w_mem w)" and m: "states_mapped im (w_mem w)" using s by (simp_all add: stage_def)
  have "holds_state (w_mem w) (state_at im P5state) (prepared regs ?x (entry im f))" using d h by (auto simp: planned_def)
  from holds_state_upd(4)[OF this, of reg_sp] have l: "w_mem w (gpr_of reg_sp (state_at im P5state)) = Some ?x"
    using prepared_sp[OF g] by simp
  have "holds_state ((w_mem w)(?g \<mapsto> ?x)) (state_at im u) st \<longleftrightarrow> holds_state (w_mem w) (state_at im u) st" for u st
    by (rule holds_state_cong) (use im in \<open>auto simp: image_ok_def\<close>)
  then have "planned im regs sp D ((w_mem w)(?g \<mapsto> ?x))" using d by (simp add: planned_def)
  moreover have "states_mapped im ((w_mem w)(?g \<mapsto> ?x))" using m by (simp add: states_mapped_def mapped_words_def)
  ultimately have "P () (w\<lparr>w_mem := (w_mem w)(?g \<mapsto> ?x)\<rparr>)" using s by (intro P) (simp add: stage_def)
  then show ?thesis
    unfolding code_simps set_global_def tstore_def
    by (intro reaches_load[OF l] reaches_store) (use m in \<open>simp_all add: states_mapped_def reaches_Return\<close>)
qed

text \<open>A row of set-ups, each below a stack that is there already.\<close>

type_synonym set_up_step = "state_var \<times> state_var \<times> nat \<times> code"

fun extend :: "(state_var \<times> nat \<times> code) list \<Rightarrow> set_up_step list \<Rightarrow> (state_var \<times> nat \<times> code) list option" where
  "extend D [] = Some D"
| "extend D ((v, h, n, f) # xs) =
     (case map_of D h of None \<Rightarrow> None
      | Some (k, _) \<Rightarrow> if v \<in> fst ` set D then None else extend ((v, k + n, f) # D) xs)"

definition set_ups :: "image \<Rightarrow> set_up_step list \<Rightarrow> unit thread list" where
  "set_ups im xs = map (\<lambda>(v, h, n, f). set_up im v h (of_nat n * QPAGE) f) xs"

lemma reaches_set_ups:
  assumes im: "image_ok im" and g: "length (gpr regs) = 29"
  shows "stage im regs sp D G w \<Longrightarrow> extend D xs = Some D' \<Longrightarrow> (\<And>w'. stage im regs sp D' G w' \<Longrightarrow> reaches (tseq ts) P w') \<Longrightarrow>
    reaches (tseq (set_ups im xs @ ts)) P w"
proof (induction xs arbitrary: D w)
  case (Cons x xs)
  obtain v h n f where x: "x = (v, h, n, f)" by (cases x) auto
  obtain k f' where k: "map_of D h = Some (k, f')" "v \<notin> fst ` set D" "extend ((v, k + n, f) # D) xs = Some D'"
    using Cons.prems(2) by (auto simp: x split: option.splits if_splits)
  have "reaches (set_up im v h (of_nat n * QPAGE) f) (\<lambda>_. reaches (tseq (set_ups im xs @ ts)) P) w"
    by (rule stage_set_up[OF im g Cons.prems(1) map_of_SomeD[OF k(1)] k(2) refl])
      (rule Cons.IH[OF _ k(3) Cons.prems(3)])
  from reaches_seq[OF this] show ?case by (simp add: set_ups_def x)
qed (simp add: set_ups_def)

definition first_steps :: "set_up_step list" where
  "first_steps = [(P2state, Printstate, 1, F_p2), (P3state, P2state, 1, F_p3), (P4state, P3state, 1, F_p4), (P5state, P4state, 2, F_p5)]"

definition later_steps :: "set_up_step list" where
  "later_steps =
     [(P5trap_s, P5state, 3, F_p5trapm), (P6state, P5trap_s, 1, F_p6), (P7state, P6state, 1, F_p7), (P8rootstate, P7state, 1, F_p8root),
      (Child1state, P8rootstate, 1, F_child1), (Child2state, Child1state, 1, F_child2), (Gchild1state, Child2state, 1, F_p8leaf),
      (Gchild2state, Gchild1state, 1, F_p8leaf), (Gchild3state, Gchild2state, 1, F_p8leaf), (Gchild4state, Gchild3state, 1, F_p8leaf),
      (P9state, Gchild4state, 1, F_p9), (P9trap_s, P9state, 1, F_p9trapm)]"

lemma test_states_steps:
  "test_states im = tseq (set_ups im first_steps @
     tbind (tload (gpr_of reg_sp (state_at im P5state))) (set_global im P5Stack) # set_ups im later_steps @ [])"
  by (simp add: test_states_def set_ups_def first_steps_def later_steps_def del: tseq.simps code_simps)

lemma stage_test_states:
  assumes im: "image_ok im" and g: "length (gpr regs) = 29" and s: "stage im regs sp [(Printstate, 1, F_printthread)] G w"
  shows "reaches (test_states im) (\<lambda>_. stage im regs sp (rev stack_plan) (\<lambda>x. x = sp - of_nat 6 * QPAGE)) w"
  unfolding test_states_steps
proof (rule reaches_set_ups[OF im g s])
  let ?D = "[(P5state, 6, F_p5), (P4state, 4, F_p4), (P3state, 3, F_p3), (P2state, 2, F_p2), (Printstate, 1, F_printthread)]"
  show "extend [(Printstate, 1, F_printthread)] first_steps = Some ?D" by (simp add: first_steps_def)
  fix w' assume s1: "stage im regs sp ?D G w'"
  show "reaches (tseq (tbind (tload (gpr_of reg_sp (state_at im P5state))) (set_global im P5Stack) # set_ups im later_steps @ []))
      (\<lambda>_. stage im regs sp (rev stack_plan) (\<lambda>x. x = sp - of_nat 6 * QPAGE)) w'"
  proof (rule reaches_seq, rule stage_p5Stack[OF im g s1])
    show "(P5state, 6, F_p5) \<in> set ?D" by simp
    fix w2 assume s2: "stage im regs sp ?D (\<lambda>x. x = sp - of_nat 6 * QPAGE) w2"
    show "reaches (tseq (set_ups im later_steps @ [])) (\<lambda>_. stage im regs sp (rev stack_plan) (\<lambda>x. x = sp - of_nat 6 * QPAGE)) w2"
    proof (rule reaches_set_ups[OF im g s2])
      show "extend ?D later_steps = Some (rev stack_plan)" by (simp add: later_steps_def stack_plan_def)
    qed (simp add: reaches_Return)
  qed
qed

text \<open>An image whose variables are 64 words apart.\<close>

fun state_index :: "state_var \<Rightarrow> nat" where
  "state_index Printstate = 0" | "state_index P2state = 1" | "state_index P3state = 2" | "state_index P4state = 3"
| "state_index P5state = 4" | "state_index P5trap_s = 5" | "state_index P6state = 6" | "state_index P7state = 7"
| "state_index P8rootstate = 8" | "state_index Child1state = 9" | "state_index Child2state = 10" | "state_index Gchild1state = 11"
| "state_index Gchild2state = 12" | "state_index Gchild3state = 13" | "state_index Gchild4state = 14" | "state_index P9state = 15"
| "state_index P9trap_s = 16"

definition ex_image :: image where
  "ex_image = \<lparr>state_at = (\<lambda>v. 4 * of_nat (64 * state_index v)), global_at = (\<lambda>_. 4 * of_nat 2000),
     entry = (\<lambda>_. 0x3000), lit = (\<lambda>_. 0x5000)\<rparr>"

lemma ex_region: "x \<in> region (state_at ex_image v) \<longleftrightarrow> (\<exists>i<35. x = 0 + 4 * of_nat (64 * state_index v + i))"
  by (auto simp: region_def ex_image_def algebra_simps)

lemma state_index_le: "state_index v \<le> 16"
  by (cases v) simp_all

lemma state_index_inj: "state_index v = state_index v' \<Longrightarrow> v = v'"
  by (cases v; cases v'; simp)

lemma ex_image_ok: "image_ok ex_image"
  unfolding image_ok_def
proof (intro conjI allI impI)
  fix v v' :: state_var
  assume "v \<noteq> v'"
  then have "state_index v \<noteq> state_index v'" using state_index_inj by blast
  have False if "x \<in> region (state_at ex_image v)" "x \<in> region (state_at ex_image v')" for x
  proof -
    obtain i j where x: "i < 35" "j < 35" "x = 0 + 4 * of_nat (64 * state_index v + i)" "x = 0 + 4 * of_nat (64 * state_index v' + j)"
      using \<open>x \<in> region (state_at ex_image v)\<close> \<open>x \<in> region (state_at ex_image v')\<close> ex_region by blast
    then have "64 * state_index v + i = 64 * state_index v' + j"
      using word_offset_inj[of "64 * state_index v + i" "64 * state_index v' + j" 0] state_index_le[of v] state_index_le[of v'] by simp
    with x(1,2) \<open>state_index v \<noteq> state_index v'\<close> show False by linarith
  qed
  then show "region (state_at ex_image v) \<inter> region (state_at ex_image v') = {}" by blast
next
  fix v
  show "global_at ex_image P5Stack \<notin> region (state_at ex_image v)"
  proof
    assume "global_at ex_image P5Stack \<in> region (state_at ex_image v)"
    then obtain i where "i < 35" "0 + 4 * of_nat 2000 = (0 :: U32) + 4 * of_nat (64 * state_index v + i)"
      unfolding ex_region by (auto simp: ex_image_def)
    then show False
      using word_offset_inj[of 2000 "64 * state_index v + i" 0] state_index_le[of v] by simp
  qed
qed

definition ex_start :: world where
  "ex_start = ex_world\<lparr>w_mem := put_words (state_at ex_image Printstate)
     (state_words (prepared (w_regs ex_world) (0x9000 - QPAGE) 0x3000)) (\<lambda>_. Some 0)\<rparr>"

lemma put_words_total: "(\<And>y. m y \<noteq> None) \<Longrightarrow> put_words a ws m x \<noteq> None"
proof (induction ws arbitrary: a m)
  case (Cons w ws)
  have "put_words (a + 4) ws (m(a \<mapsto> w)) x \<noteq> None" by (rule Cons.IH) (use Cons.prems in simp)
  then show ?case by simp
qed simp

lemma ex_start_ok:
  "states_mapped ex_image (w_mem ex_start)"
  "holds_state (w_mem ex_start) (state_at ex_image Printstate) (prepared (w_regs ex_start) (0x9000 - QPAGE) (entry ex_image F_printthread))"
proof -
  have "w_mem ex_start x \<noteq> None" for x unfolding ex_start_def by (simp del: not_None_eq) (rule put_words_total, simp)
  then show "states_mapped ex_image (w_mem ex_start)" by (simp add: states_mapped_def mapped_words_def)
  let ?st = "prepared (w_regs ex_world) (0x9000 - QPAGE) 0x3000"
  have g: "length (gpr ?st) = 29" by (simp add: prepared_def gpr_set_def ex_world_def)
  then have "length (state_words ?st) < 2 ^ 30" by (simp add: state_words_def)
  from put_words_holds[OF this] g
  show "holds_state (w_mem ex_start) (state_at ex_image Printstate) (prepared (w_regs ex_start) (0x9000 - QPAGE) (entry ex_image F_printthread))"
    by (simp add: holds_state_def ex_start_def ex_image_def)
qed

text \<open>
  C15. p1 prepares the threads of the test: when it has set up the printer's state and runs the
  rest of the set-up, the SSI will read for every thread the registers of p1, with the entry
  point of the thread in \<open>pc\<close> and \<open>t9\<close>, the interrupts enabled, and the stack at the thread's
  place in \<open>stack_plan\<close>. No two stacks, nor the later ones of p4 (one page below its first) and of
  p5 (one and two below \<open>p5Stack\<close>), start on the same page.
\<close>

theorem threads_prepared:
  assumes "image_ok im" and "states_mapped im (w_mem w)" and "length (gpr (w_regs w)) = 29"
    and "holds_state (w_mem w) (state_at im Printstate) (prepared (w_regs w) (sp - QPAGE) (entry im F_printthread))"
  shows "\<exists>es w'. runs (test_states im) w es () w' \<and>
     (\<forall>(v, k, f)\<in>set stack_plan. \<forall>s. mem s = w_mem w' \<longrightarrow>
        read_state (state_at im v) s = Inr (prepared (w_regs w) (sp - of_nat k * QPAGE) (entry im f), s)) \<and>
     w_mem w' (global_at im P5Stack) = Some (sp - 6 * QPAGE) \<and>
     distinct (map (\<lambda>(v, k, f). k) stack_plan @ [5, 7, 8])"
proof -
  have "stage im (w_regs w) sp [(Printstate, 1, F_printthread)] (\<lambda>_. True) w"
    using assms(2,4) by (auto simp: stage_def planned_def states_mapped_def)
  from stage_test_states[OF assms(1,3) this] obtain es w' where r: "runs (test_states im) w es () w'"
    and s: "stage im (w_regs w) sp (rev stack_plan) (\<lambda>x. x = sp - of_nat 6 * QPAGE) w'" by (auto simp: reaches_def)
  have p: "planned im (w_regs w) sp stack_plan (w_mem w')" using s by (simp add: stage_def planned_def)
  have "read_state (state_at im v) s' = Inr (prepared (w_regs w) (sp - of_nat k * QPAGE) (entry im f), s')"
    if "(v, k, f) \<in> set stack_plan" "mem s' = w_mem w'" for v k f s'
    by (rule read_state_holds) (use p that in \<open>auto simp: planned_def\<close>)
  moreover have "w_mem w' (global_at im P5Stack) = Some (sp - 6 * QPAGE)" using s by (auto simp: stage_def split: option.splits)
  moreover have "distinct (map (\<lambda>(v, k, f). k) stack_plan @ [5, 7, 8])" by (simp add: stack_plan_def)
  ultimately show ?thesis using r by (intro exI[of _ es] exI[of _ w']) blast
qed

theorem threads_prepared_witness:
  "\<exists>es w'. runs (test_states ex_image) ex_start es () w' \<and>
     (\<forall>s. mem s = w_mem w' \<longrightarrow> read_state (state_at ex_image P9trap_s) s =
        Inr (prepared (w_regs ex_world) (0x9000 - 20 * 1024) 0x3000, s))"
proof -
  have "length (gpr (w_regs ex_start)) = 29" by (simp add: ex_start_def ex_world_def)
  from threads_prepared[OF ex_image_ok ex_start_ok(1) this ex_start_ok(2)] obtain es w' where
    "runs (test_states ex_image) ex_start es () w'"
    "\<forall>(v, k, f)\<in>set stack_plan. \<forall>s. mem s = w_mem w' \<longrightarrow>
        read_state (state_at ex_image v) s = Inr (prepared (w_regs ex_start) (0x9000 - of_nat k * QPAGE) (entry ex_image f), s)" by blast
  moreover have "(P9trap_s, 20, F_p9trapm) \<in> set stack_plan" by (simp add: stack_plan_def)
  ultimately show ?thesis by (intro exI[of _ es] exI[of _ w']) (fastforce simp: ex_start_def ex_image_def)
qed

end
