(* ===== verification/Client_Run.thy ===== *)
theory Client_Run
  imports Kernel_Props P2test_States
begin

text \<open>
  The code of threads on the kernel. Whatever a thread does between its system calls is a step
  of the machine, and its calls are entries into the kernel, so an execution stays within the
  reachable states. A call of \<open>print\<close> is followed from the client to the printer, a call of
  \<open>SSIRequest\<close> from a thread of the test to the SSI.
\<close>

section \<open>Executions are reachable\<close>

text \<open>
  What a thread must respect: a store does not touch the scale of the clock, a system call is
  admissible when it enters the kernel, and only saved registers of threads are accessed.
\<close>

fun admits :: "rom \<Rightarrow> action \<Rightarrow> kstate \<Rightarrow> bool" where
  "admits rom (Syscall a b c) s \<longleftrightarrow> current_thread s \<noteq> NULL \<and> call_admissible (trapped rom a b c s)"
| "admits rom (Store a v) s \<longleftrightarrow> a \<noteq> BUS_TIMESCALE"
| "admits rom (Stst a) s \<longleftrightarrow> length (gpr (cpu s)) = 29 \<and> mapped_words (mem s) a 35 \<and> BUS_TIMESCALE \<notin> region a"
| "admits rom (Get_reg p f) s \<longleftrightarrow> tcbs s p \<noteq> None"
| "admits rom (Set_reg p g) s \<longleftrightarrow> (case tcbs s p of None \<Rightarrow> False | Some t \<Rightarrow> length (gpr (g (t_state t))) = 29)"
| "admits rom (Load a) s \<longleftrightarrow> True"
| "admits rom Clock s \<longleftrightarrow> True"
| "admits rom Skip s \<longleftrightarrow> True"

fun well_behaved :: "rom \<Rightarrow> nat \<Rightarrow> 'a thread \<Rightarrow> kstate \<Rightarrow> bool" where
  "well_behaved rom 0 t s \<longleftrightarrow> True"
| "well_behaved rom (Suc n) t s \<longleftrightarrow> (case t of
      Return x \<Rightarrow> True
    | Act a k \<Rightarrow> admits rom a s \<and> (case kernel_act rom a s of
          Inr (Value v, s') \<Rightarrow> well_behaved rom n (k v) s' | _ \<Rightarrow> True)
    | Panic \<Rightarrow> True)"

lemma wp_store_words_simps:
  "wp (store_words a []) P E s = P () s"
  "wp (store_words a (w # ws)) P E s = wp (mem_write a w) (\<lambda>_. wp (store_words (a + 4) ws) P E) E s"
  unfolding store_words.simps by (simp_all only: wp_kreturn wp_kthen)

lemma wp_kernel_act:
  "wp (kernel_act rom (Syscall a b c)) P E s = wp (SYSCALL rom a b c) (\<lambda>r. P (case r of None \<Rightarrow> Gone | Some v \<Rightarrow> Value v)) E s"
  "wp (kernel_act rom (Load a)) P E s = P (case mem s a of None \<Rightarrow> Trap a | Some v \<Rightarrow> Value v) s"
  "wp (kernel_act rom (Store a v)) P E s = (if mem s a = None then P (Trap a) s else P (Value v) (s\<lparr>mem := (mem s)(a \<mapsto> v)\<rparr>))"
  "wp (kernel_act rom Clock) P E s = wp GET_TODLOW (\<lambda>v. P (Value v)) E s"
  "wp (kernel_act rom (Stst a)) P E s = wp (store_words a (state_words (cpu s))) (\<lambda>_. P (Value a)) E s"
  "wp (kernel_act rom (Get_reg p f)) P E s = (case tcbs s p of None \<Rightarrow> E Fault | Some t \<Rightarrow> P (Value (f (t_state t))) s)"
  "wp (kernel_act rom (Set_reg p g)) P E s = (case tcbs s p of None \<Rightarrow> E Fault
     | Some t \<Rightarrow> P (Value 0) (s\<lparr>tcbs := (tcbs s)(p \<mapsto> t\<lparr>t_state := g (t_state t)\<rparr>)\<rparr>))"
  "wp (kernel_act rom Skip) P E s = P (Value 0) s"
  unfolding kernel_act.simps by (simp_all add: wp_kthen wp_kbind split: option.split)

lemma wp_execute:
  "wp (execute rom (Suc n) (Return x)) P E s = P (Finished x) s"
  "wp (execute rom (Suc n) Panic) P E s = E PANIC"
  "wp (execute rom (Suc n) (Act a k)) P E s = wp (kernel_act rom a) (\<lambda>r. case r of
      Value v \<Rightarrow> wp (execute rom n (k v)) P E | Gone \<Rightarrow> P (Suspended k) | Trap b \<Rightarrow> P (Trapped b)) E s"
proof -
  show "wp (execute rom (Suc n) (Return x)) P E s = P (Finished x) s" "wp (execute rom (Suc n) Panic) P E s = E PANIC"
    unfolding execute.simps thread.case by (simp_all only: wp_kreturn wp_kstop)
  have "(\<lambda>r. wp (case r of Value v \<Rightarrow> execute rom n (k v) | Gone \<Rightarrow> kreturn (Suspended k) | Trap b \<Rightarrow> kreturn (Trapped b)) P E)
      = (\<lambda>r. case r of Value v \<Rightarrow> wp (execute rom n (k v)) P E | Gone \<Rightarrow> P (Suspended k) | Trap b \<Rightarrow> P (Trapped b))"
    by (rule ext) (auto split: effect.split)
  then show "wp (execute rom (Suc n) (Act a k)) P E s = wp (kernel_act rom a) (\<lambda>r. case r of
      Value v \<Rightarrow> wp (execute rom n (k v)) P E | Gone \<Rightarrow> P (Suspended k) | Trap b \<Rightarrow> P (Trapped b)) E s"
    unfolding execute.simps thread.case wp_kbind by simp
qed

lemma wp_store_words:
  assumes "\<And>i. i < length ws \<Longrightarrow> mem s (a + 4 * of_nat i) \<noteq> None"
    and "\<And>M. (\<And>x. M x = None \<longleftrightarrow> mem s x = None) \<Longrightarrow> (\<And>x. (\<And>i. i < length ws \<Longrightarrow> x \<noteq> a + 4 * of_nat i) \<Longrightarrow> M x = mem s x) \<Longrightarrow>
       P () (s\<lparr>mem := M\<rparr>)"
  shows "wp (store_words a ws) P E s"
  using assms
proof (induction ws arbitrary: a s)
  case Nil
  from Nil(2)[of "mem s"] show ?case by (simp add: wp_store_words_simps del: store_words.simps)
next
  case (Cons w ws)
  obtain v where v: "mem s a = Some v" using Cons.prems(1)[of 0] by auto
  let ?s = "s\<lparr>mem := (mem s)(a \<mapsto> w)\<rparr>"
  have "wp (store_words (a + 4) ws) P E ?s"
  proof (rule Cons.IH)
    fix i assume "i < length ws"
    then show "mem ?s (a + 4 + 4 * of_nat i) \<noteq> None" using Cons.prems(1)[of "Suc i"] by (simp add: algebra_simps)
  next
    fix M
    assume M: "\<And>x. M x = None \<longleftrightarrow> mem ?s x = None" and o: "\<And>x. (\<And>i. i < length ws \<Longrightarrow> x \<noteq> a + 4 + 4 * of_nat i) \<Longrightarrow> M x = mem ?s x"
    have "P () (s\<lparr>mem := M\<rparr>)"
    proof (rule Cons.prems(2))
      show "M x = None \<longleftrightarrow> mem s x = None" for x using M[of x] v by auto
      show "M x = mem s x" if n: "\<And>i. i < length (w # ws) \<Longrightarrow> x \<noteq> a + 4 * of_nat i" for x
      proof -
        have "x \<noteq> a" using n[of 0] by simp
        moreover have "x \<noteq> a + 4 + 4 * of_nat i" if "i < length ws" for i using n[of "Suc i"] that by (simp add: algebra_simps)
        ultimately show ?thesis using o[of x] by simp
      qed
    qed
    then show "P () (?s\<lparr>mem := M\<rparr>)" by simp
  qed
  with v show ?case by (simp add: wp_store_words_simps del: store_words.simps)
qed

abbreviation "system rom lay dev \<equiv> reachable (boots rom lay dev) (kstep rom lay dev)"

lemma system_machine:
  assumes "system rom lay dev s" and "\<And>x. M x = None \<longleftrightarrow> mem s x = None" and "M BUS_TIMESCALE = mem s BUS_TIMESCALE"
  shows "system rom lay dev (s\<lparr>mem := M, areas := A, cpu := st, tod_reads := n\<rparr>)"
  by (rule reachable.Step[OF assms(1)]) (rule kstep.Machine, use assms in simp_all)

lemma system_call:
  assumes r: "system rom lay dev s" and a: "current_thread s \<noteq> NULL" "call_admissible (trapped rom x y z s)"
  shows "wp (SYSCALL rom x y z) (\<lambda>_. system rom lay dev) own_stop s"
proof -
  have "s\<lparr>mem := mem s, areas := (areas s)(SYSBK_OLDAREA := trap rom (cpu s) x y z), cpu := cpu s, tod_reads := tod_reads s\<rparr>
      = trapped rom x y z s" by (simp add: trapped_def)
  with system_machine[OF r, of "mem s"] have t: "system rom lay dev (trapped rom x y z s)" by (metis (no_types))
  have e: "kernel_entry lay dev (trapped rom x y z s) sysbp_handler" by (rule kernel_entry.Syscall) (use a in simp_all)
  have "wp sysbp_handler (\<lambda>_. system rom lay dev) own_stop (trapped rom x y z s)"
    using kernel.entry_total[OF t e] by (simp add: wp_def split: sum.splits prod.splits)
  then show ?thesis
    unfolding wp_SYSCALL
  proof (rule wp_mono)
    fix c s' assume s': "system rom lay dev s'"
    have "system rom lay dev (s'\<lparr>cpu := load rom st\<rparr>)" for st
      using system_machine[OF s', where M = "mem s'" and A = "areas s'" and n = "tod_reads s'"] by simp
    with s' show "case c of LDST st \<Rightarrow> system rom lay dev (s'\<lparr>cpu := load rom st\<rparr>) | WAIT \<Rightarrow> system rom lay dev s'"
      by (cases c) simp_all
  qed
qed

lemma system_act:
  assumes r: "system rom lay dev s" and a: "admits rom act s"
  shows "wp (kernel_act rom act) (\<lambda>_. system rom lay dev) own_stop s"
proof -
  have k: "kernel_ok lay s" by (rule system_ok[OF r])
  then have b: "bus_ok s" using saneD(5) kernel_okE[of lay s] by blast
  note m = system_machine[OF r, where A = "areas s" and st = "cpu s"]
  show ?thesis
  proof (cases act)
    case (Syscall x y z)
    then have "wp (SYSCALL rom x y z) (\<lambda>_. system rom lay dev) own_stop s" using a by (intro system_call[OF r]) simp_all
    with Syscall show ?thesis by (simp add: wp_kernel_act)
  next
    case (Store x v)
    have "system rom lay dev (s\<lparr>mem := (mem s)(x \<mapsto> v)\<rparr>)" if "mem s x \<noteq> None"
      using m[where M = "(mem s)(x \<mapsto> v)" and n = "tod_reads s"] that a Store by auto
    with Store r show ?thesis by (auto simp: wp_kernel_act)
  next
    case Clock
    have "system rom lay dev (s\<lparr>tod_reads := Suc (tod_reads s)\<rparr>)" using m[where M = "mem s"] by simp
    with Clock show ?thesis by (simp add: wp_kernel_act wp_GET_TODLOW[OF b])
  next
    case (Stst x)
    have "length (state_words (cpu s)) = 35" using a Stst by (simp add: state_words_def)
    then have "wp (store_words x (state_words (cpu s))) (\<lambda>_. system rom lay dev) own_stop s"
    proof (intro wp_store_words)
      fix M assume l: "length (state_words (cpu s)) = 35" and M: "\<And>x. M x = None \<longleftrightarrow> mem s x = None"
        and o: "\<And>y. (\<And>i. i < length (state_words (cpu s)) \<Longrightarrow> y \<noteq> x + 4 * of_nat i) \<Longrightarrow> M y = mem s y"
      have "M BUS_TIMESCALE = mem s BUS_TIMESCALE" by (rule o) (use a Stst l in \<open>auto simp: region_def\<close>)
      with m[OF M, where n = "tod_reads s"] show "system rom lay dev (s\<lparr>mem := M\<rparr>)" by simp
    qed (use a Stst in \<open>auto simp: mapped_words_def\<close>)
    with Stst show ?thesis by (simp add: wp_kernel_act)
  next
    case (Set_reg p g)
    then obtain t where t: "tcbs s p = Some t" "length (gpr (g (t_state t))) = 29" using a by (auto split: option.splits)
    have "system rom lay dev (s\<lparr>tcbs := (tcbs s)(p \<mapsto> t\<lparr>t_state := g (t_state t)\<rparr>)\<rparr>)"
      by (rule reachable.Step[OF r]) (rule kstep.Registers[OF t])
    with Set_reg t show ?thesis by (simp add: wp_kernel_act)
  qed (use r a in \<open>auto simp: wp_kernel_act\<close>)
qed

text \<open>
  C12. A thread that respects the conditions never leads the system out of its reachable states.
  However long its code is followed, whatever it calls: at every point the state is reachable
  from power-on, so all that holds of reachable states holds there; if the execution stops, the
  kernel has halted or panicked, or the thread has called \<open>PANIC\<close>.
\<close>

theorem execution_reachable:
  assumes "reachable (boots rom lay dev) (kstep rom lay dev) s" and "well_behaved rom n t s"
  shows "case execute rom n t s of Inl e \<Rightarrow> e = HALT \<or> e = PANIC
    | Inr (r, s') \<Rightarrow> reachable (boots rom lay dev) (kstep rom lay dev) s'"
proof -
  have "wp (execute rom n t) (\<lambda>_. system rom lay dev) own_stop s"
    using assms
  proof (induction n arbitrary: t s)
    case (Suc n)
    show ?case
    proof (cases t)
      case (Act a k)
      have ad: "admits rom a s" using Suc.prems(2) by (simp add: Act)
      have "wp (kernel_act rom a) (\<lambda>r s'. system rom lay dev s' \<and> kernel_act rom a s = Inr (r, s')) own_stop s"
        using system_act[OF Suc.prems(1) ad] by (simp add: wp_def split: sum.splits prod.splits)
      then show ?thesis
        unfolding Act wp_execute
      proof (rule wp_mono)
        fix r s' assume s': "system rom lay dev s' \<and> kernel_act rom a s = Inr (r, s')"
        then show "(case r of Value v \<Rightarrow> wp (execute rom n (k v)) (\<lambda>_. system rom lay dev) own_stop
            | Gone \<Rightarrow> system rom lay dev | Trap b \<Rightarrow> system rom lay dev) s'"
          using Suc.IH[of s'] Suc.prems(2) Act by (cases r) simp_all
      qed
    qed (use Suc.prems in \<open>simp_all add: wp_execute own_stop_def del: execute.simps\<close>)
  next
    case 0
    then show ?case unfolding execute.simps wp_kreturn by simp
  qed
  then show ?thesis by (simp add: wp_def own_stop_def split: sum.splits prod.splits)
qed

lemma ex_client:
  "\<exists>s. ex_system s \<and> well_behaved ex_rom 1 (p2 ex_frame ex_image) s \<and> current_thread s \<noteq> NULL"
proof -
  obtain s where s: "ex_system s" "current_thread s = SSI_tcb s" "SSI_tcb s \<noteq> NULL" "\<forall>a. mem s a \<noteq> None"
    using ex_booted by blast
  let ?st = "w_regs ex_world"
  let ?s = "s\<lparr>mem := mem s, areas := areas s, cpu := ?st, tod_reads := 0\<rparr>"
  have st: "length (gpr ?st) = 29" "kernel_mode ?st" by (simp_all add: ex_world_def kernel_mode_def)
  have "ex_system ?s" by (rule system_machine[OF s(1)]) simp_all
  moreover have "call_admissible (trapped ex_rom RECV ANYMESSAGE 0x6100 ?s)"
    using rom_trap[OF ex_rom_ok st, of RECV ANYMESSAGE "0x6100"] s(4)
    by (simp add: call_admissible_def Let_def recv_admissible_def)
  then have "well_behaved ex_rom 1 (p2 ex_frame ex_image) ?s"
    using s(2,3) unfolding p2_def code_simps by (simp add: ex_frame_def split: sum.split prod.split effect.split)
  moreover have "current_thread ?s \<noteq> NULL" using s(2,3) by simp
  ultimately show ?thesis by blast
qed

theorem execution_reachable_witness:
  "\<exists>s. ex_system s \<and> (case execute ex_rom 1 (p2 ex_frame ex_image) s of Inl e \<Rightarrow> e = HALT \<or> e = PANIC | Inr (r, s') \<Rightarrow> ex_system s')"
  using ex_client execution_reachable by blast

section \<open>A call of the printer\<close>

text \<open>A server waits for any message, which the kernel will store at \<open>slot\<close>.\<close>

definition server_listens :: "kstate \<Rightarrow> (list_head \<Rightarrow> U32 list) \<Rightarrow> U32 \<Rightarrow> U32 \<Rightarrow> bool" where
  "server_listens s Q d slot \<longleftrightarrow> d \<in> set (Q Wait_queue) \<and> words_ok s [slot] \<and>
     (case tcbs s d of None \<Rightarrow> False | Some t \<Rightarrow> waiting_for t = ANYMESSAGE \<and> reply t = slot \<and> length (gpr (t_state t)) = 29)"

definition handed_over :: "kstate \<Rightarrow> list_head set \<Rightarrow> (list_head \<Rightarrow> U32 list) \<Rightarrow> U32 \<Rightarrow> U32 \<Rightarrow> U32 \<Rightarrow> U32 \<Rightarrow> kstate \<Rightarrow> (list_head \<Rightarrow> U32 list) \<Rightarrow> bool" where
  "handed_over s H Q c d slot v s1 Q1 \<longleftrightarrow> thread_runs s1 H Q1 c \<and> ipc_of s1 Q1 = released d (ipc_of s Q) \<and>
     (\<forall>a. a \<noteq> BUS_INTERVALTIMER \<longrightarrow> mem s1 a = ((mem s)(slot \<mapsto> v)) a) \<and>
     map_option t_state (tcbs s1 d) = map_option (\<lambda>t. gpr_set reg_v0 c (t_state t)) (tcbs s d)"

lemma server_facts:
  assumes "thread_runs s H Q c" and "server_listens s Q d slot"
  shows "d \<noteq> NULL" "d \<noteq> MAGIC_SSI" "c \<noteq> d" "a_awaits (ipc_of s Q) x d" "a_live (ipc_of s Q) d" "reply_of s d = slot"
proof -
  note k = thread_runsD(1)[OF assms(1)]
  have w: "d \<in> set (Q Wait_queue)" using assms(2) by (simp add: server_listens_def)
  then have l: "d \<in> live s Q" by (simp add: live_def)
  show "d \<noteq> NULL" by (rule kinv_live_not_NULL[OF k l])
  show "d \<noteq> MAGIC_SSI" using kinv_tcb[OF k l] thread_runsD(2)[OF assms(1)] by (auto simp: addr_ok_def)
  show "c \<noteq> d" using kinv_current(2)[OF k] thread_runsD(4,5)[OF assms(1)] w by auto
  show "a_live (ipc_of s Q) d" using l a_live_ipc_of by blast
  show "a_awaits (ipc_of s Q) x d" "reply_of s d = slot"
    using assms(2) by (auto simp: server_listens_def a_awaits_def satisfies_def ipc_of_fields reply_of_def split: option.splits)
qed

lemma wp_hand_over:
  assumes rom: "rom_ok rom" and run: "thread_runs s H Q c" and cs: "c \<noteq> SSI_tcb s" and l: "server_listens s Q d slot"
    and P: "\<And>s1 Q1. handed_over s H Q c d slot v s1 Q1 \<Longrightarrow> P () s1"
  shows "wp (MsgSend rom SEND d v) P E s"
proof (rule wp_MsgSend[OF rom run, where tgt = d and x = c])
  note f = server_facts[OF run l]
  show "d = (if d = MAGIC_SSI then SSI_tcb s else d)" "d \<noteq> NULL" "c = masked_sender s c"
    using f(1,2) cs by (simp_all add: masked_sender_def)
  show "reply_ok s d"
    using l by (auto simp: server_listens_def words_ok_def reply_ok_def reply_of_def split: option.splits)
  have sent: "a_send c d v (ipc_of s Q) = Some (MSGGOOD, released d (ipc_of s Q))"
    using f(4,5) by (simp add: a_send_def released_def)
  show "E PANIC" if "a_send c d v (ipc_of s Q) = None" using that sent by simp
  fix r A s1 Q1
  assume a: "a_send c d v (ipc_of s Q) = Some (r, A)" and t: "thread_runs s1 H Q1 c" "ipc_of s1 Q1 = A"
    and m: "\<And>a. a \<noteq> BUS_INTERVALTIMER \<Longrightarrow> mem s1 a = (if a_awaits (ipc_of s Q) c d \<and> a = reply_of s d then Some v else mem s a)"
    and tw: "\<And>q. q \<noteq> c \<Longrightarrow> tcbs s1 q = woken_up s c d (a_awaits (ipc_of s Q) c d) q"
  have "map_option t_state (tcbs s1 d) = map_option (\<lambda>t. gpr_set reg_v0 c (t_state t)) (tcbs s d)"
    using tw[of d] f(3,4) by (simp add: woken_up_def woken_def option.map_comp comp_def)
  then show "P () s1" using a sent t m f(4,6) by (intro P[of s1 Q1]) (simp add: handed_over_def)
qed

text \<open>
  The state after a call of a server: the caller waits for the server's answer, the server has
  the processor, with the caller in \<open>v0\<close> and the message in its variable.
\<close>

definition served_next :: "list_head set \<Rightarrow> (list_head \<Rightarrow> U32 list) \<Rightarrow> U32 \<Rightarrow> U32 \<Rightarrow> U32 \<Rightarrow> U32 \<Rightarrow> U32 \<Rightarrow> kstate \<Rightarrow> bool" where
  "served_next H Q c d slot v ra s' \<longleftrightarrow> current_thread s' = d \<and> gpr_get (cpu s') reg_v0 = c \<and> mem s' slot = Some v \<and>
     (\<exists>Q'. kinv s' H Q' \<and> Q' Wait_queue = remove1 d (Q Wait_queue) @ [c] \<and> Q' Ready_queue = []) \<and>
     map_option waiting_for (tcbs s' c) = Some d \<and> reply_of s' c = ra"

lemma wp_await_server:
  assumes rom: "rom_ok rom" and h: "handed_over s H Q c d slot v s1 Q1" and l: "server_listens s Q d slot"
    and run: "thread_runs s H Q c" and q: "Q Ready_queue = []" and ib: "\<forall>m\<in>set (a_inbox (ipc_of s Q) c). fst m \<noteq> d"
    and ra: "words_ok s [ra]"
  shows "wp (MsgRecv rom RECV d ra) (\<lambda>r s'. r = None \<and> served_next H Q c d slot v ra s') no_stop s1"
proof -
  let ?t1 = "trapped rom RECV d ra s1"
  note f = server_facts[OF run l]
  have run1: "thread_runs s1 H Q1 c" and i1: "ipc_of s1 Q1 = released d (ipc_of s Q)" using h by (simp_all add: handed_over_def)
  have q1: "Q1 Ready_queue = [d]" using arg_cong[OF i1, of a_ready] q by (simp add: released_def ipc_of_fields)
  have w1: "Q1 Wait_queue = remove1 d (Q Wait_queue)" using arg_cong[OF i1, of a_wait] by (simp add: released_def ipc_of_fields)
  have c: "current_thread ?t1 = c" "c \<noteq> NULL" using thread_runsD(4,5)[OF run1] by simp_all
  have "find (satisfies d) (a_inbox (ipc_of s Q) c) = None" using ib f(1) by (auto simp: find_None_iff satisfies_def)
  moreover have "a_cur (ipc_of s Q) = c" using thread_runsD(4)[OF run] by (simp add: ipc_of_fields)
  ultimately have none: "fst (a_recv d (ipc_of s1 Q1)) = None" by (simp add: i1 a_recv_def Let_def released_def)
  then have none': "fst (a_recv d (ipc_of ?t1 Q1)) = None" by simp
  show ?thesis
  proof (rule wp_MsgRecv[OF rom run1])
    fix s2 Q2 e assume "blocked ?t1 H Q1 d ra s2 Q2" and n: "nothing_runs s2 Q2 e"
    then have "ipc_of s2 Q2 = snd (a_recv d (ipc_of s1 Q1))" by (simp add: blocked_def)
    then have "a_ready (ipc_of s2 Q2) = a_ready (ipc_of s1 Q1)" by (auto simp: a_recv_def Let_def split: option.splits)
    then show False using q1 n by (simp add: ipc_of_fields nothing_runs_def)
  next
    fix s2 Q2 r s3
    assume b: "blocked ?t1 H Q1 d ra s2 Q2" and sc: "scheduled s2 H Q2 r s3" and n: "current_thread s3 \<noteq> c"
    note D = blocked_dispatch[OF b none' c q1 sc n]
    obtain st where st: "r = LDST st" using D(1) by blast
    have "map_option t_state (tcbs s2 (current_thread s3)) = Some st" using sc unfolding scheduled_def st rom_call.case by blast
    moreover have "map_option t_state (tcbs s2 d) = map_option t_state (tcbs s1 d)" using b f(3) unfolding blocked_def c(1) by simp
    ultimately obtain t where t: "tcbs s d = Some t" "st = gpr_set reg_v0 c (t_state t)" "length (gpr (t_state t)) = 29"
      using h l D(2) by (auto simp: handed_over_def server_listens_def split: option.splits)
    have v0: "gpr_get (load rom st) reg_v0 = c" using rom_load(1)[OF rom, of st] t(3) by (simp add: t(2) gpr_set_def gpr_get_def)
    have "slot \<noteq> BUS_INTERVALTIMER" using l by (simp add: server_listens_def words_ok_def)
    then have m: "mem s3 slot = Some v" using D(13)[of slot] h by (simp add: handed_over_def)
    have k: "kinv (s3\<lparr>cpu := load rom st\<rparr>) H (Q2(Ready_queue := []))" using D(3) by simp
    have "served_next H Q c d slot v ra (s3\<lparr>cpu := load rom st\<rparr>)"
      unfolding served_next_def
      using v0 m D(2,6,7) k D(4) w1 by (auto simp: reply_of_def intro!: exI[of _ "Q2(Ready_queue := [])"])
    then show "None = None \<and> served_next H Q c d slot v ra (case r of LDST st \<Rightarrow> s3\<lparr>cpu := load rom st\<rparr> | WAIT \<Rightarrow> s3)"
      by (simp add: st)
  qed (use none in auto)
qed

lemma wp_call_SEND:
  assumes "wp (MsgSend rom x y z) P no_stop s"
  shows "wp (SYSCALL rom x y z) (\<lambda>r s'. (\<exists>v. r = Some v) \<and> P () s') no_stop s"
  using assms by (auto simp: MsgSend_def wp_def kbind_def split: sum.splits prod.splits option.splits)

lemma wp_execute_SEND:
  assumes "wp (MsgSend rom x y z) (\<lambda>_. wp (execute rom n u) P E) no_stop s"
  shows "wp (execute rom (Suc n) (Act (Syscall x y z) (\<lambda>_. u))) P E s"
  unfolding wp_execute wp_kernel_act
  by (rule wp_mono[OF wp_call_SEND[OF assms]]) auto

lemma wp_execute_RECV:
  assumes "wp (MsgRecv rom x y z) (\<lambda>r s'. r = None \<and> P (Suspended k) s') no_stop s"
  shows "wp (execute rom (Suc n) (Act (Syscall x y z) k)) P E s"
  unfolding wp_execute wp_kernel_act
  by (rule wp_mono[OF assms[unfolded MsgRecv_def]]) auto

lemma wp_execute_Load:
  "mem s a = Some v \<Longrightarrow> wp (execute rom n (k v)) P E s \<Longrightarrow> wp (execute rom (Suc n) (Act (Load a) k)) P E s"
  unfolding wp_execute wp_kernel_act by simp

lemma wp_execute_Store:
  "mem s a \<noteq> None \<Longrightarrow> wp (execute rom n (k v)) P E (s\<lparr>mem := (mem s)(a \<mapsto> v)\<rparr>) \<Longrightarrow> wp (execute rom (Suc n) (Act (Store a v) k)) P E s"
  unfolding wp_execute wp_kernel_act by auto

lemma call_code:
  "run_recv d p = Act (Syscall RECV d p) (\<lambda>_. Return ())" "run_send d p = Act (Syscall SEND d p) (\<lambda>_. Return ())"
  by (simp_all add: run_recv_def run_send_def tthen_def recv_call_def send_call_def)

lemma print_code:
  "print fr im message = Act (Load (global_at im Printid)) (\<lambda>d. Act (Syscall SEND d message) (\<lambda>_.
     Act (Load (global_at im Printid)) (\<lambda>d. Act (Syscall RECV d (print_reply_at fr)) (\<lambda>_. Return ()))))"
  by (simp add: print_def call_code)

text \<open>
  C14. A call of \<open>print\<close> reaches the printer: when the printer's thread waits for any message and
  nothing else is ready, the client is suspended until the printer answers, and the printer has
  the processor, with the client in \<open>v0\<close>, from where \<open>printthread\<close> takes the sender, and the
  address of the text in its variable \<open>payload\<close>. No step of this can stop the kernel.
\<close>

theorem print_reaches_printer:
  assumes "rom_ok rom" and "thread_runs s H Q c" and "c \<noteq> SSI_tcb s" and "server_listens s Q printer slot"
    and "mem s (global_at im Printid) = Some printer" and "global_at im Printid \<notin> {slot, BUS_INTERVALTIMER}"
    and "Q Ready_queue = []" and "\<forall>m\<in>set (a_inbox (ipc_of s Q) c). fst m \<noteq> printer" and "words_ok s [print_reply_at fr]"
  shows "\<exists>s'. execute rom 4 (print fr im message) s = Inr (Suspended (\<lambda>_. Return ()), s') \<and>
     served_next H Q c printer slot message (print_reply_at fr) s'"
proof -
  let ?P = "\<lambda>r s'. r = Suspended (\<lambda>_. Return ()) \<and> served_next H Q c printer slot message (print_reply_at fr) s'"
  have r: "wp (execute rom (Suc 0) (Act (Syscall RECV printer (print_reply_at fr)) (\<lambda>_. Return ()))) ?P no_stop s1"
    if h: "handed_over s H Q c printer slot message s1 Q1" for s1 Q1
    by (rule wp_execute_RECV) (rule wp_mono[OF wp_await_server[OF assms(1) h assms(4,2,7,8,9)]], auto)
  have m: "mem s1 (global_at im Printid) = Some printer" if "handed_over s H Q c printer slot message s1 Q1" for s1 Q1
    using that assms(5,6) by (simp add: handed_over_def)
  have "wp (execute rom (Suc (Suc (Suc (Suc 0)))) (print fr im message)) ?P no_stop s"
    unfolding print_code
    by (rule wp_execute_Load[OF assms(5)], rule wp_execute_SEND, rule wp_hand_over[OF assms(1-4)])
      (rule wp_execute_Load[OF m], assumption, rule r)
  then have "wp (execute rom 4 (print fr im message)) ?P no_stop s"
    using arg_cong[of "Suc (Suc (Suc (Suc 0)))" 4 "\<lambda>n. wp (execute rom n (print fr im message)) ?P no_stop s"] by simp
  then show ?thesis by (auto simp: wp_total)
qed

text \<open>The printer \<open>0x300\<close> waits; \<open>0x200\<close> runs.\<close>

definition ex_print :: kstate where
  "ex_print = ex_ask\<lparr>tcbs := (tcbs ex_ask)(0x300 \<mapsto> ex_tcb 0x200 0 0x700), msgs := (msgs ex_ask)(0x600 \<mapsto> \<lparr>m_sender = 0x100, m_message = 7\<rparr>),
     mem := (\<lambda>a. Some (if a = 4 * of_nat 2000 then 0x300 else 1))\<rparr>"

lemma ex_print_runs: "thread_runs ex_print ex_H ex_ask_Q 0x200"
proof -
  have "kinv ex_print ex_H ex_ask_Q"
    using thread_runsD(1)[OF ex_ask_runs] by (subst kinv_cong[of _ ex_ask]) (simp_all add: ex_print_def ex_ask_fields ex_fields)
  then show ?thesis
    by (simp add: thread_runs_def ex_print_def ex_ask_fields ex_fields ex_tcb_def ex_area_def kernel_mode_def addr_ok_def bus_ok_def)
qed

theorem print_reaches_printer_witness:
  "\<exists>s'. execute ex_rom 4 (print ex_frame ex_image 0x5000) ex_print = Inr (Suspended (\<lambda>_. Return ()), s') \<and>
     current_thread s' = 0x300 \<and> gpr_get (cpu s') reg_v0 = 0x200 \<and> mem s' 0x700 = Some 0x5000 \<and> reply_of s' 0x200 = 0x6108"
proof -
  have "server_listens ex_print ex_ask_Q 0x300 0x700"
    by (simp add: server_listens_def words_ok_def ex_print_def ex_Q_simps ex_tcb_def)
  moreover have "mem ex_print (global_at ex_image Printid) = Some 0x300" by (simp add: ex_print_def ex_image_def)
  moreover have "global_at ex_image Printid \<notin> {0x700, BUS_INTERVALTIMER}" by (simp add: ex_image_def)
  moreover have "\<forall>m\<in>set (a_inbox (ipc_of ex_print ex_ask_Q) 0x200). fst m \<noteq> 0x300"
    by (simp add: ex_print_def ex_Q_simps ex_ask_fields ex_fields ipc_of_fields msg_pair_def)
  moreover have "words_ok ex_print [print_reply_at ex_frame]" by (simp add: words_ok_def ex_print_def ex_frame_def)
  moreover have "0x200 \<noteq> SSI_tcb ex_print" by (simp add: ex_print_def ex_ask_fields)
  ultimately show ?thesis
    using print_reaches_printer[OF ex_rom_ok ex_print_runs, of "0x300" "0x700" ex_image ex_frame "0x5000"]
    by (auto simp: served_next_def ex_frame_def ex_Q_simps)
qed

section \<open>A request to the SSI\<close>

text \<open>
  The code of \<open>SSIRequest\<close>, executed action by action, does to the kernel what the routine
  \<open>SSIRequest\<close> of the model does, when that suspends the caller; what follows the request in the
  caller's code is what the caller goes on with. So all that is shown of \<open>SSIRequest\<close> holds of
  the requests of the test program.
\<close>

theorem request_code_is_SSIRequest:
  assumes "SSIRequest rom (request_at fr) service payload ra s = Inr (None, s')"
  shows "execute rom 5 (tthen (ssi_request fr service payload ra) t) s = Inr (Suspended (\<lambda>_. t), s')"
proof -
  let ?r = "request_at fr"
  obtain u v w where m: "mem s ?r = Some u" "mem s (?r + 4) = Some v" "mem s (?r + 8) = Some w"
    using assms by (auto simp: SSIRequest_def kthen_def kbind_def mem_write_def split: option.splits if_splits)
  let ?s = "requested ?r service payload ra s"
  have "wp (SSIRequest rom ?r service payload ra) (\<lambda>x y. x = None \<and> y = s') no_stop s" using assms by (simp add: wp_def)
  then have "wp (MsgSend rom SEND MAGIC_SSI ?r) (\<lambda>_. wp (MsgRecv rom RECV MAGIC_SSI ra) (\<lambda>x y. x = None \<and> y = s') no_stop) no_stop ?s"
    using m by (simp add: SSIRequest_def requested_def)
  then have "wp (MsgSend rom SEND MAGIC_SSI ?r) (\<lambda>_. wp (execute rom (Suc 0) (Act (Syscall RECV MAGIC_SSI ra) (\<lambda>_. t)))
      (\<lambda>x y. x = Suspended (\<lambda>_. t) \<and> y = s') no_stop) no_stop ?s"
    by (rule wp_mono) (rule wp_execute_RECV, erule wp_mono, auto)
  then have "wp (execute rom (Suc (Suc 0)) (Act (Syscall SEND MAGIC_SSI ?r) (\<lambda>_. Act (Syscall RECV MAGIC_SSI ra) (\<lambda>_. t))))
      (\<lambda>x y. x = Suspended (\<lambda>_. t) \<and> y = s') no_stop ?s"
    by (rule wp_execute_SEND)
  then have "wp (execute rom (Suc (Suc (Suc (Suc (Suc 0))))) (Act (Store ?r service) (\<lambda>_. Act (Store (?r + 4) payload) (\<lambda>_.
      Act (Store (?r + 8) ra) (\<lambda>_. Act (Syscall SEND MAGIC_SSI ?r) (\<lambda>_. Act (Syscall RECV MAGIC_SSI ra) (\<lambda>_. t)))))))
      (\<lambda>x y. x = Suspended (\<lambda>_. t) \<and> y = s') no_stop s"
    using m by (intro wp_execute_Store) (simp_all add: requested_def del: execute.simps)
  moreover have "tthen (ssi_request fr service payload ra) t = Act (Store ?r service) (\<lambda>_. Act (Store (?r + 4) payload) (\<lambda>_.
      Act (Store (?r + 8) ra) (\<lambda>_. Act (Syscall SEND MAGIC_SSI ?r) (\<lambda>_. Act (Syscall RECV MAGIC_SSI ra) (\<lambda>_. t)))))"
    by (simp add: ssi_request_def Let_def call_code)
  ultimately have "wp (execute rom 5 (tthen (ssi_request fr service payload ra) t)) (\<lambda>x y. x = Suspended (\<lambda>_. t) \<and> y = s') no_stop s"
    using arg_cong[of "Suc (Suc (Suc (Suc (Suc 0))))" 5 "\<lambda>n. wp (execute rom n (tthen (ssi_request fr service payload ra) t))
      (\<lambda>x y. x = Suspended (\<lambda>_. t) \<and> y = s') no_stop s"] by simp
  then show ?thesis by (auto simp: wp_total)
qed

lemma ex_ask_request: "\<exists>s'. SSIRequest ex_rom 0x800 WAITFORCLOCK 0 0xA00 ex_ask = Inr (None, s') \<and> mem s' 0x800 = Some WAITFORCLOCK"
proof -
  have "wp (SSIRequest ex_rom 0x800 WAITFORCLOCK 0 0xA00) (\<lambda>r s'. r = None \<and> mem s' 0x800 = Some WAITFORCLOCK) no_stop ex_ask"
    by (rule wp_SSIRequest[OF ex_rom_ok ex_ask_runs _ ex_ask_ok(3,4) _ ex_ask_ok(2), where slot = "0x700"])
      (use ex_ask_ok(1) in \<open>simp_all add: ex_ask_fields request_in_def\<close>)
  then show ?thesis by (simp add: wp_total)
qed

theorem request_code_is_SSIRequest_witness:
  "\<exists>s'. execute ex_rom 5 (tthen (ssi_request (ex_frame\<lparr>request_at := 0x800\<rparr>) WAITFORCLOCK 0 0xA00) (Return ())) ex_ask =
     Inr (Suspended (\<lambda>_. Return ()), s') \<and> mem s' 0x800 = Some WAITFORCLOCK"
proof -
  obtain s' where s': "SSIRequest ex_rom 0x800 WAITFORCLOCK 0 0xA00 ex_ask = Inr (None, s')" "mem s' 0x800 = Some WAITFORCLOCK"
    using ex_ask_request by blast
  have "request_at (ex_frame\<lparr>request_at := 0x800\<rparr>) = 0x800" by simp
  with s' request_code_is_SSIRequest[of ex_rom "ex_frame\<lparr>request_at := 0x800\<rparr>" WAITFORCLOCK 0 "0xA00" ex_ask s' "Return ()"]
  show ?thesis by metis
qed

end
