(* ===== verification/Spec2Isabelle.thy ===== *)
theory Spec2Isabelle
  imports Phase1 Nucleus Handlers Int_Props Boot_Props Ssi_Clock Ssi_Managers Io_Path Sender_Order Siblings Cp0_Fields Client_Run
begin

text \<open>
  A verification development for AMIKaya11, a message passing microkernel for the uMPS2
  machine, written in C.

  \<^bold>\<open>The program.\<close> The kernel is a nucleus that runs in the exception handlers of the machine
  and one system thread, the SSI. Phase 1 (\<^verbatim>\<open>phase1/src/tcb.c\<close>, \<^verbatim>\<open>phase1/src/msg.c\<close>) keeps
  twenty thread control blocks and twenty messages in static arrays and links them into
  queues with the intrusive lists of \<^verbatim>\<open>include/listx.h\<close>: the free lists, the ready and the
  wait queue, the inbox of every thread and the lists of children that form the thread tree.
  Phase 2 is the nucleus: \<^verbatim>\<open>boot.c\<close> builds these structures and creates the SSI and the test
  thread; \<^verbatim>\<open>exceptions.c\<close> has the system calls \<open>SEND\<close> and \<open>RECV\<close>, the only ones of the
  kernel, the end of a thread with its subtree and the passing of traps to trap managers
  (\<^verbatim>\<open>manager.c\<close>); \<^verbatim>\<open>interrupts.c\<close> turns interrupts of devices and of the interval timer into
  messages to the SSI; \<^verbatim>\<open>scheduler.c\<close> chooses the next thread at the end of every handler.
  The SSI (\<^verbatim>\<open>ssi.c\<close>) serves requests for the creation and the end of threads, for trap
  managers, processor time, clock ticks and device input and output; a thread asks with
  \<open>SSIRequest\<close>, which sends a request to the pseudo address \<open>MAGIC_SSI\<close> and waits for the
  answer.

  \<^bold>\<open>The model.\<close> Every C function is a function of the same name in the error monad of
  \<^verbatim>\<open>Prelude\<close>: from a kernel state to a result and a new state, or to the reason why control
  does not come back (\<open>PANIC\<close>, \<open>HALT\<close>, a bad memory access \<open>Fault\<close>, a loop that exceeds its
  bound \<open>Diverge\<close>, or the loss of the processor \<open>Preempted\<close>). The state \<open>kstate\<close> of
  \<^verbatim>\<open>Kernel_State\<close> has the global variables of the modules, the objects of the two arrays by
  address, the links of all list heads, the words of memory outside the kernel's objects and
  the exception areas. Integers and pointers are 32-bit words and wrap around.

    \<^item> \<^verbatim>\<open>Kernel_State\<close>: \<^verbatim>\<open>const.h\<close>, \<^verbatim>\<open>const11.h\<close>, \<^verbatim>\<open>uMPStypes.h\<close>, \<^verbatim>\<open>types11.h\<close>, the globals of \<^verbatim>\<open>boot.c\<close>;
      \<^verbatim>\<open>Cp0_Fields\<close>: the field macros of \<^verbatim>\<open>const.h\<close> that the kernel offers but does not use.
    \<^item> \<^verbatim>\<open>Listx\<close>: \<^verbatim>\<open>listx.h\<close>; the abstraction \<open>rep s H Q\<close> of the link heap to a family \<open>Q\<close> of
      disjoint sequences.
    \<^item> \<^verbatim>\<open>Tcb\<close>, \<^verbatim>\<open>Msg\<close>, \<^verbatim>\<open>Manager\<close>: \<^verbatim>\<open>tcb.c\<close>, \<^verbatim>\<open>msg.c\<close>, \<^verbatim>\<open>manager.c\<close>, each routine with its effect
      on the sequences.
    \<^item> \<^verbatim>\<open>Contracts\<close>: the locales \<open>fifo_queue\<close> and \<open>object_pool\<close>, interpreted on the routines of
      \<^verbatim>\<open>Tcb\<close> and of \<^verbatim>\<open>Msg\<close>. \<^verbatim>\<open>Phase1\<close> states what they promise.
    \<^item> \<^verbatim>\<open>Siblings\<close>: the rings of brothers that are nobody's children.
    \<^item> \<^verbatim>\<open>Kernel_Inv\<close>: the invariant \<open>kinv\<close>: no TCB and no message is lost or in two places.
    \<^item> \<^verbatim>\<open>Scheduler\<close>: \<^verbatim>\<open>scheduler.c\<close>. Its two ways of leaving the kernel, \<open>LDST\<close> and \<open>WAIT\<close>, are
      results.
    \<^item> \<^verbatim>\<open>Ipc\<close>, \<^verbatim>\<open>Ipc_Spec\<close>: \<open>send\<close> and \<open>recv\<close> of \<^verbatim>\<open>exceptions.c\<close>; their specification \<open>a_send\<close>,
      \<open>a_recv\<close> on mailboxes, the locale \<open>message_passing\<close> of what clients rely on, and its
      interpretation on the kernel.
    \<^item> \<^verbatim>\<open>Terminate\<close>, \<^verbatim>\<open>Exceptions\<close>, \<^verbatim>\<open>Handlers\<close>: the rest of \<^verbatim>\<open>exceptions.c\<close>; \<^verbatim>\<open>Nucleus\<close> and
      \<^verbatim>\<open>Handlers\<close> state the properties.
    \<^item> \<^verbatim>\<open>Interrupts\<close>, \<^verbatim>\<open>Int_Props\<close>: \<^verbatim>\<open>interrupts.c\<close>. The reaction of a device to a command is a
      parameter \<open>dev\<close>; \<open>device_ok\<close> says that it changes device registers only.
    \<^item> \<^verbatim>\<open>Ssi\<close>: \<^verbatim>\<open>ssi.c\<close>. The loop body is \<open>SSI_thread_body\<close>, the part after its \<open>MsgRecv\<close>
      \<open>SSI_serve\<close>. \<^verbatim>\<open>Ssi_Calls\<close> has the rules for system calls made by a thread, \<^verbatim>\<open>Ssi_Props\<close>,
      \<^verbatim>\<open>Ssi_Clock\<close>, \<^verbatim>\<open>Ssi_Create\<close> and \<^verbatim>\<open>Ssi_Managers\<close> the services, \<^verbatim>\<open>Ssi_Request\<close> the call of
      \<open>SSIRequest\<close>, \<^verbatim>\<open>Ssi_Rest\<close> a request from that call to the return of the requester. The trap and \<open>LDST\<close> of the ROM are the parameter
      \<open>rom\<close>, with \<open>rom_ok\<close> for what the manual of the machine says of them.
    \<^item> \<^verbatim>\<open>Io_Path\<close>: the interrupt handler, the scheduler, the SSI and the requester together, from a
      request for a device over the interrupt of the device to the return of the requester.
    \<^item> \<^verbatim>\<open>Boot\<close>, \<^verbatim>\<open>Boot_Props\<close>: \<^verbatim>\<open>boot.c\<close> up to the first dispatch. The addresses the linker
      chooses are the parameter \<open>layout\<close>.
    \<^item> \<^verbatim>\<open>Thread_Tree\<close>: parent pointers and lists of children as one forest. \<^verbatim>\<open>Kernel_Safe\<close>: the
      invariant \<open>kernel_ok\<close> of the whole kernel, kept by every routine of the nucleus;
      \<^verbatim>\<open>Kernel_Entry\<close>: by the handlers, entered with admissible arguments; \<^verbatim>\<open>Ssi_Safe\<close>: by the
      passes of the SSI. \<^verbatim>\<open>Kernel_Steps\<close>: the system as a step relation \<open>kstep\<close> (user code and
      devices, entries into the kernel, passes of the SSI), with the locales \<open>invariant_system\<close>
      and \<open>guarded_system\<close> interpreted on it, and histories of the machine without the conditions
      of \<open>kstep\<close>, whose permitted ones lead to the reachable states; \<^verbatim>\<open>Kernel_Props\<close> states what
      holds of these. \<^verbatim>\<open>Walks\<close>: the loops over a list of \<^verbatim>\<open>listx.h\<close> in both directions (the locale \<open>cursor\<close>,
      interpreted on \<open>next\<close> and \<open>prev\<close>), and what they meet in a reachable state.
    \<^item> \<^verbatim>\<open>Sender_Order\<close>: runs of \<open>send\<close>, \<open>recv\<close> and the scheduler in any order, and the order in
      which messages are received.
    \<^item> \<^verbatim>\<open>Thread_Code\<close>: the code of threads as trees of actions (loads, stores, clock reads, system
      calls), with a semantics \<open>runs\<close> in a world that answers the calls and a semantics \<open>execute\<close>
      on the kernel. \<^verbatim>\<open>P2test\<close>, \<^verbatim>\<open>P2test_Threads\<close>: the test program \<^verbatim>\<open>p2test.0.2.c\<close>, function by
      function; the addresses of its variables, texts and functions are the parameters \<open>frame\<close>
      and \<open>image\<close>. \<^verbatim>\<open>P2test_Props\<close>: its printer; \<^verbatim>\<open>P2test_States\<close>: the threads it prepares;
      \<^verbatim>\<open>Client_Run\<close>: its calls on the kernel.
    \<^item> \<^verbatim>\<open>Snapshot\<close>: concrete states from the contents of their lists, on which every theorem with
      hypotheses is applied.

  \<^bold>\<open>What is shown.\<close> The queues are first in, first out and the pools hand out each object once;
  boot establishes \<open>kinv\<close>; message passing, scheduling, termination, all exception and
  interrupt handlers and the services of the SSI keep it. \<open>send\<close> and \<open>recv\<close> refine their
  specification on every branch; messages of one sender, other than the interval timer, are
  received in their order whether the receiver is ready, waits or runs (as long as no thread is
  frozen by a trap). A thread that
  terminates takes exactly its subtree with it. Each handler is followed from its entry to the
  thread that runs next, each service from the request to the answer, with the error paths:
  unknown services, requests of dead threads, misuse that ends the requester, exhausted pools.
  Two services are followed over the whole cycle, from the request of a thread back to that thread:
  \<open>GETCPUTIME\<close>, and \<open>WAITFORIO\<close> with the interrupt of the device in between, whatever the devices do
  to memory while the machine waits; afterwards the SSI is at rest as before (\<open>SSI_at_rest\<close>).
  For the system as a whole: a history from power-on whose last state does not satisfy
  \<open>kernel_ok\<close> has a move in it that is not permitted, made in a state that did; every handler
  entered with admissible arguments in a state that permitted moves reach returns, halts or
  panics, and no pass of the SSI over an admissible message loops forever; each message is in one
  inbox or free, each TCB on one queue, on the free list or running, and the list of children of a
  thread has the threads whose parent it is. Permitted or admissible means: \<open>RECV\<close> has a mapped
  address for the message; \<open>SEND\<close> has a target that is not null, is a thread if a trap manager
  sends, is frozen if a manager decides about it, and is not woken up by a payload while it is
  frozen (a frozen thread has no address for a message). For the SSI: a thread without a parent
  forges no message of the kernel, and asks for a brother only while the TCB before it in the
  ring of its brothers is nobody's child (\<open>sibling_ok\<close>; \<open>Siblings\<close> shows how the lists of
  children break otherwise). These are the conditions under which the code is right; the findings
  say what happens without them. The code of a thread, executed on the kernel for as long as its
  calls are admissible, never leaves the reachable states. Of the test program it is shown what
  its printer sends to the terminal for every behaviour of the device, that the states it
  prepares are read by the SSI as intended, and how its calls of \<open>print\<close> and \<open>SSIRequest\<close> go
  through the kernel.

  \<^bold>\<open>Bounds.\<close> The loops over lists run on fuel. \<open>LOOP_BOUND\<close> is more than the number of TCBs
  and messages together, and the members of a list are distinct, so no loop over a list that
  satisfies \<open>rep\<close> runs out of it; \<open>TERMINATE_BOUND\<close> is twice the number of TCBs, one level for
  a thread and one for the loop over its children, and a tree has no more threads than that.
  The code of threads has no bound: endless loops are endless trees, and \<open>execute\<close> follows them
  for any number of actions. The theorems are about total correctness: they exclude \<open>Diverge\<close>
  and \<open>Fault\<close>, or state them.

  \<^bold>\<open>Choices.\<close> Where C leaves the order of evaluation open (the assignment of the result of
  \<open>recv\<close> in \<open>sysbp_handler\<close>) the model reads the pointer before the call. An index outside
  an array and a dereference of an address without an object are \<open>Fault\<close>; the copy loop of
  \<open>save_state\<close>, which runs one element too far, writes the next member as the compiler lays
  out the structure. A \<open>char\<close> is signed and the machine is little endian, as for the compiler of
  the Makefile.

  \<^bold>\<open>Not modelled.\<close> The library libumps and the ROM, which are not in the repository; interrupts
  that arrive between two instructions of one pass of the SSI (a handler runs with interrupts
  disabled, a thread does not); what follows a bad memory access in a pass of the SSI (on the
  machine a trap of the SSI, here the history ends). \<open>STST\<close> in the test program stores the same
  registers each time, those of the world it runs in.
\<close>

end
